(* ===== verification/Prelude.thy ===== *)
theory Prelude
  imports Complex_Main "HOL-Library.Word"
begin

text \<open>
  What the component theories share: the Python values the source uses (numbers that may be
  \<open>math.inf\<close>, byte strings, slices with negative bounds, \<open>bytes.find\<close>), the containers it
  keeps its state in (\<open>collections.OrderedDict\<close> and \<open>collections.deque\<close>), and the locale
  \<open>wait_queue\<close>, the contract every queue of waiting tasks in the library relies on. Dictionaries
  are modelled as association lists where their order matters and as maps where it does not.

  The collections \<open>od_simps\<close> and \<open>slice_simps\<close> gather the equations of the containers.
\<close>

named_theorems od_simps \<open>equations of the ordered dictionary\<close>
named_theorems slice_simps \<open>equations of slices and searches\<close>

type_synonym task = nat \<comment> \<open>identity of an asyncio task\<close>
type_synonym byte = "8 word"
type_synonym bytes = "byte list"

section \<open>Python numbers\<close>

text \<open>
  A \<open>float\<close> of the source is a finite number or one of the two infinities; rounding is not
  modelled (a finite float is a real) and NaN, which no branch of the modelled code tests, is
  left out. The order is the numeric one.
\<close>

datatype pyfloat = NegInf | Fin real | PosInf

instantiation pyfloat :: linorder
begin

fun less_eq_pyfloat :: "pyfloat \<Rightarrow> pyfloat \<Rightarrow> bool" where
  "less_eq_pyfloat NegInf _ = True"
| "less_eq_pyfloat _ PosInf = True"
| "less_eq_pyfloat (Fin x) (Fin y) = (x \<le> y)"
| "less_eq_pyfloat _ _ = False"

definition less_pyfloat :: "pyfloat \<Rightarrow> pyfloat \<Rightarrow> bool" where
  "less_pyfloat x y = (x \<le> y \<and> \<not> y \<le> x)"

instance
proof
  fix x y z :: pyfloat
  show "(x < y) = (x \<le> y \<and> \<not> y \<le> x)" by (simp add: less_pyfloat_def)
  show "x \<le> x" by (cases x) auto
  show "x \<le> y \<or> y \<le> x" by (cases x; cases y) auto
  show "x \<le> y \<Longrightarrow> y \<le> x \<Longrightarrow> x = y" by (cases x; cases y) auto
  show "x \<le> y \<Longrightarrow> y \<le> z \<Longrightarrow> x \<le> z" by (cases x; cases y; cases z) auto
qed

end

lemma pyfloat_less_simps [simp]:
  "Fin x < Fin y \<longleftrightarrow> x < y" "Fin x < PosInf" "NegInf < Fin x" "NegInf < PosInf"
  "\<not> PosInf < f" "\<not> f < NegInf"
  by (cases f; auto simp: less_pyfloat_def)+

text \<open>\<open>x + y\<close> for a finite \<open>y\<close>, as in \<open>current_time() + delay\<close>.\<close>

fun plus_float :: "pyfloat \<Rightarrow> pyfloat \<Rightarrow> pyfloat" where
  "plus_float (Fin x) (Fin y) = Fin (x + y)"
| "plus_float NegInf _ = NegInf"
| "plus_float _ NegInf = NegInf"
| "plus_float _ _ = PosInf"

text \<open>A number whose dynamic type the code tests: \<open>isinstance(value, int)\<close> or a float.\<close>

datatype pynum = PyInt int | PyFloat pyfloat

fun num_float :: "pynum \<Rightarrow> pyfloat" where
  "num_float (PyInt i) = Fin (of_int i)"
| "num_float (PyFloat f) = f"

fun is_pyint :: "pynum \<Rightarrow> bool" where
  "is_pyint (PyInt _) = True"
| "is_pyint (PyFloat _) = False"

abbreviation len_float :: "'a list \<Rightarrow> pyfloat" where
  "len_float xs \<equiv> Fin (real (length xs))"

section \<open>Slices and searches\<close>

text \<open>\<open>xs[:n]\<close> and \<open>xs[n:]\<close>; a negative bound counts from the end.\<close>

definition slice_to :: "'a list \<Rightarrow> int \<Rightarrow> 'a list" where
  "slice_to xs n = (if 0 \<le> n then take (nat n) xs else take (length xs - nat (- n)) xs)"

definition slice_from :: "'a list \<Rightarrow> int \<Rightarrow> 'a list" where
  "slice_from xs n = (if 0 \<le> n then drop (nat n) xs else drop (length xs - nat (- n)) xs)"

lemma slice_append [slice_simps]: "slice_to xs n @ slice_from xs n = xs"
  by (simp add: slice_to_def slice_from_def)

lemma slice_nonneg [slice_simps]:
  "0 \<le> n \<Longrightarrow> slice_to xs n = take (nat n) xs"
  "0 \<le> n \<Longrightarrow> slice_from xs n = drop (nat n) xs"
  by (simp_all add: slice_to_def slice_from_def)

text \<open>
  \<open>buf.find(sub, start)\<close> for \<open>0 \<le> start\<close>: the least index at or after \<open>start\<close> where \<open>sub\<close>
  occurs; \<open>None\<close> stands for the \<open>-1\<close> of the source. \<open>occurs_at\<close> is \<open>buf[i:i+len(sub)] == sub\<close>.
\<close>

definition occurs_at :: "'a list \<Rightarrow> 'a list \<Rightarrow> nat \<Rightarrow> bool" where
  "occurs_at sub buf i \<longleftrightarrow> i + length sub \<le> length buf \<and> take (length sub) (drop i buf) = sub"

fun first_from :: "(nat \<Rightarrow> bool) \<Rightarrow> nat \<Rightarrow> nat \<Rightarrow> nat option" where
  "first_from P i 0 = None"
| "first_from P i (Suc n) = (if P i then Some i else first_from P (Suc i) n)"

definition py_find :: "'a list \<Rightarrow> 'a list \<Rightarrow> nat \<Rightarrow> nat option" where
  "py_find buf sub start =
     first_from (occurs_at sub buf) start (Suc (length buf) - start)"

lemma first_from_Some:
  "first_from P i n = Some k \<longleftrightarrow> i \<le> k \<and> k < i + n \<and> P k \<and> (\<forall>j. i \<le> j \<and> j < k \<longrightarrow> \<not> P j)"
proof (induction P i n rule: first_from.induct)
  case (1 P i)
  then show ?case by simp
next
  case (2 P i n)
  show ?case
  proof (cases "P i")
    case True
    then show ?thesis by (auto simp: le_less)
  next
    case False
    have step: "(\<forall>j. i \<le> j \<and> j < k \<longrightarrow> \<not> P j) \<longleftrightarrow> (\<forall>j. Suc i \<le> j \<and> j < k \<longrightarrow> \<not> P j)"
      using False by (metis Suc_leD Suc_leI le_neq_implies_less)
    show ?thesis
      using False 2 unfolding step by (auto simp: le_less Suc_le_eq)
  qed
qed

lemma first_from_None: "first_from P i n = None \<longleftrightarrow> (\<forall>j. i \<le> j \<and> j < i + n \<longrightarrow> \<not> P j)"
proof (induction P i n rule: first_from.induct)
  case (1 P i)
  then show ?case by auto
next
  case (2 P i n)
  have "(\<forall>j. i \<le> j \<and> j < i + Suc n \<longrightarrow> \<not> P j)
      \<longleftrightarrow> \<not> P i \<and> (\<forall>j. Suc i \<le> j \<and> j < Suc i + n \<longrightarrow> \<not> P j)"
    by (metis Suc_leD Suc_leI add_Suc add_Suc_right le_neq_implies_less less_add_Suc1 order_refl)
  then show ?case using 2 by simp
qed

lemma py_find_Some:
  "py_find buf sub start = Some k \<longleftrightarrow>
     start \<le> k \<and> occurs_at sub buf k \<and> (\<forall>j. start \<le> j \<and> j < k \<longrightarrow> \<not> occurs_at sub buf j)"
  by (auto simp: py_find_def first_from_Some occurs_at_def)

lemma py_find_None:
  "py_find buf sub start = None \<longleftrightarrow> (\<forall>j \<ge> start. \<not> occurs_at sub buf j)"
proof -
  have "\<not> occurs_at sub buf j" if "\<not> j < start + (Suc (length buf) - start)" "start \<le> j" for j
  proof -
    have "length buf < j" using that by arith
    then show ?thesis by (simp add: occurs_at_def)
  qed
  then show ?thesis
    unfolding py_find_def first_from_None by blast
qed

section \<open>Ordered dictionaries\<close>

text \<open>
  \<open>collections.OrderedDict\<close> as an association list in insertion order: \<open>d[k] = v\<close> keeps the
  place of a key that is present, \<open>d.popitem(last=False)\<close> removes the oldest entry,
  \<open>d.pop(k, None)\<close> removes an entry if there is one.
\<close>

type_synonym ('k, 'v) odict = "('k \<times> 'v) list"

fun od_set :: "('k, 'v) odict \<Rightarrow> 'k \<Rightarrow> 'v \<Rightarrow> ('k, 'v) odict" where
  "od_set [] k v = [(k, v)]"
| "od_set ((k', v') # d) k v = (if k' = k then (k, v) # d else (k', v') # od_set d k v)"

definition od_pop :: "('k, 'v) odict \<Rightarrow> 'k \<Rightarrow> ('k, 'v) odict" where
  "od_pop d k = filter (\<lambda>kv. fst kv \<noteq> k) d"

definition od_keys :: "('k, 'v) odict \<Rightarrow> 'k list" where
  "od_keys d = map fst d"

definition od_has :: "('k, 'v) odict \<Rightarrow> 'k \<Rightarrow> bool" where
  "od_has d k \<longleftrightarrow> k \<in> set (od_keys d)"

lemma od_set_fresh [od_simps]: "k \<notin> set (od_keys d) \<Longrightarrow> od_set d k v = d @ [(k, v)]"
  by (induction d k v rule: od_set.induct) (auto simp: od_keys_def)

lemma od_pop_absent [od_simps]: "k \<notin> set (od_keys d) \<Longrightarrow> od_pop d k = d"
  by (auto simp: od_pop_def od_keys_def filter_id_conv)

lemma od_keys_simps [simp]:
  "od_keys [] = []" "od_keys (kv # d) = fst kv # od_keys d" "od_keys (d @ d') = od_keys d @ od_keys d'"
  by (simp_all add: od_keys_def)

lemma od_pop_simps [simp]:
  "od_pop [] k = []"
  "od_pop (kv # d) k = (if fst kv = k then od_pop d k else kv # od_pop d k)"
  "od_pop (d @ d') k = od_pop d k @ od_pop d' k"
  by (simp_all add: od_pop_def)

lemma od_keys_pop [od_simps]: "od_keys (od_pop d k) = removeAll k (od_keys d)"
  by (induction d) auto

lemma set_od_pop [od_simps]: "set (od_pop d k) = {kv \<in> set d. fst kv \<noteq> k}"
  by (auto simp: od_pop_def)

lemma od_pop_cons_distinct [od_simps]:
  "distinct (od_keys (kv # d)) \<Longrightarrow> od_pop (kv # d) (fst kv) = d"
  by (simp add: od_pop_absent)

end
