(* ===== verification/Exceptions.thy ===== *)
theory Exceptions
  imports Prelude
begin

text \<open>
  The exceptions of the library (\<open>src/anyio/_core/_exceptions.py\<close>) and the built-in ones the
  modelled code raises or catches, as one datatype; \<open>iterate_exceptions\<close> over exception groups;
  decimal rendering of integers, which messages and the worker protocol use.

  An exception value keeps what some branch of the code reads: the message of a
  \<open>CancelledError\<close> (\<open>exc.args[0]\<close>) and its \<open>__context__\<close>, the members of a group, the
  arguments of the library's own constructors. \<open>__cause__\<close> and tracebacks, which no branch
  reads, are left out. \<open>UserException\<close> and \<open>UserBaseException\<close> are the exceptions of
  application code, with and without \<open>Exception\<close> as a base class.
\<close>

section \<open>Decimal numbers\<close>

fun digit_char :: "nat \<Rightarrow> char" where
  "digit_char n = char_of (48 + n)"

fun dec_nat :: "nat \<Rightarrow> string" where
  "dec_nat n = (if n < 10 then [digit_char n] else dec_nat (n div 10) @ [digit_char (n mod 10)])"

declare dec_nat.simps [simp del]

definition dec_int :: "int \<Rightarrow> string" where
  "dec_int i = (if i < 0 then CHR ''-'' # dec_nat (nat (- i)) else dec_nat (nat i))"

text \<open>\<open>int(s)\<close> for a string of decimal digits; anything else raises \<open>ValueError\<close>.\<close>

definition is_digit :: "char \<Rightarrow> bool" where
  "is_digit c \<longleftrightarrow> 48 \<le> (of_char c :: nat) \<and> (of_char c :: nat) \<le> 57"

fun parse_digits :: "nat \<Rightarrow> string \<Rightarrow> nat option" where
  "parse_digits acc [] = Some acc"
| "parse_digits acc (c # cs) =
     (if is_digit c then parse_digits (10 * acc + (of_char c - 48)) cs else None)"

definition parse_nat :: "string \<Rightarrow> nat option" where
  "parse_nat s = (if s = [] then None else parse_digits 0 s)"

lemma is_digit_digit_char [simp]: "n < 10 \<Longrightarrow> is_digit (digit_char n)"
  by (simp add: is_digit_def)

lemma of_char_digit_char [simp]: "n < 10 \<Longrightarrow> of_char (digit_char n) = 48 + n"
  by simp

lemma dec_nat_nonempty [simp]: "dec_nat n \<noteq> []"
  by (subst dec_nat.simps) simp

lemma dec_nat_digits: "c \<in> set (dec_nat n) \<Longrightarrow> is_digit c"
proof (induction n rule: dec_nat.induct)
  case (1 n)
  show ?case
  proof (cases "n < 10")
    case True
    then show ?thesis using "1.prems" by (simp add: dec_nat.simps [of n] del: digit_char.simps)
  next
    case False
    then show ?thesis
      using 1 by (auto simp: dec_nat.simps [of n] simp del: digit_char.simps)
  qed
qed

lemma parse_digits_append:
  "parse_digits acc (xs @ ys) = Option.bind (parse_digits acc xs) (\<lambda>a. parse_digits a ys)"
  by (induction acc xs rule: parse_digits.induct) auto

lemma parse_digits_dec_nat: "parse_digits 0 (dec_nat n) = Some n"
proof (induction n rule: dec_nat.induct)
  case (1 n)
  show ?case
  proof (cases "n < 10")
    case True
    then show ?thesis by (simp add: dec_nat.simps [of n] del: digit_char.simps)
  next
    case False
    with 1 have "parse_digits 0 (dec_nat (n div 10)) = Some (n div 10)" by simp
    then show ?thesis using False
      by (simp add: dec_nat.simps [of n] parse_digits_append del: digit_char.simps)
  qed
qed

lemma parse_nat_dec_nat [simp]: "parse_nat (dec_nat n) = Some n"
  by (simp add: parse_nat_def parse_digits_dec_nat)

section \<open>Exceptions\<close>

datatype exn =
    CancelledError "string option" "exn option" \<comment> \<open>\<open>args[0]\<close> if it is a string; \<open>__context__\<close>\<close>
  | ExcGroup string "exn list" \<comment> \<open>\<open>BaseExceptionGroup(message, exceptions)\<close>\<close>
  | BrokenResourceError
  | BrokenWorkerProcess
  | BusyResourceError string
  | ClosedResourceError
  | DelimiterNotFound int
  | EndOfStream
  | IncompleteRead
  | TypedAttributeLookupError
  | WouldBlock
  | RuntimeError string
  | ValueError string
  | TypeError string
  | LookupError string
  | KeyError
  | AttributeError
  | IndexError
  | AssertionError
  | TimeoutError
  | NotImplementedError string
  | OSError nat \<comment> \<open>\<open>errno\<close>\<close>
  | BlockingIOError \<comment> \<open>an \<open>OSError\<close> of its own class\<close>
  | InvalidStateError
  | StopIteration
  | StopAsyncIteration
  | EOFError
  | ImportError
  | UnsupportedOperation
  | OverflowError string
  | NameError string
  | SSLError string \<comment> \<open>of the TLS library; an \<open>OSError\<close>\<close>
  | CalledProcessError int \<comment> \<open>\<open>returncode\<close>\<close>
  | KeyboardInterrupt
  | SystemExit
  | UserException nat
  | UserBaseException nat

type_synonym 'a res = "exn + 'a"

text \<open>
  \<open>isinstance(exc, Exception)\<close>: a group is an \<open>ExceptionGroup\<close>, hence an \<open>Exception\<close>, iff all
  its members are, since \<open>BaseExceptionGroup.__new__\<close> picks the class.
\<close>

fun is_Exception :: "exn \<Rightarrow> bool" where
  "is_Exception (ExcGroup m es) = list_all is_Exception es"
| "is_Exception (CancelledError m c) = False"
| "is_Exception KeyboardInterrupt = False"
| "is_Exception SystemExit = False"
| "is_Exception (UserBaseException n) = False"
| "is_Exception e = True"

definition is_cancelled :: "exn \<Rightarrow> bool" where
  "is_cancelled e = (case e of CancelledError _ _ \<Rightarrow> True | _ \<Rightarrow> False)"

definition is_oserror :: "exn \<Rightarrow> bool" where
  "is_oserror e = (case e of OSError _ \<Rightarrow> True | BlockingIOError \<Rightarrow> True | TimeoutError \<Rightarrow> True
     | SSLError _ \<Rightarrow> True | _ \<Rightarrow> False)"

fun exn_context :: "exn \<Rightarrow> exn option" where
  "exn_context (CancelledError m c) = c"
| "exn_context e = None"

text \<open>\<open>str(exc)\<close> for the three classes that compute their message.\<close>

definition busy_message :: "string \<Rightarrow> string" where
  "busy_message action = ''Another task is already '' @ action @ '' this resource''"

definition delimiter_message :: "int \<Rightarrow> string" where
  "delimiter_message max_bytes =
     ''The delimiter was not found among the first '' @ dec_int max_bytes @ '' bytes''"

definition incomplete_message :: string where
  "incomplete_message = ''The stream was closed before the read operation could be completed''"

fun exn_str :: "exn \<Rightarrow> string option" where
  "exn_str (BusyResourceError action) = Some (busy_message action)"
| "exn_str (DelimiterNotFound n) = Some (delimiter_message n)"
| "exn_str IncompleteRead = Some incomplete_message"
| "exn_str (RuntimeError m) = Some m"
| "exn_str (ValueError m) = Some m"
| "exn_str (TypeError m) = Some m"
| "exn_str (LookupError m) = Some m"
| "exn_str (NotImplementedError m) = Some m"
| "exn_str (OverflowError m) = Some m"
| "exn_str (CancelledError m c) = m"
| "exn_str e = None"

section \<open>Iterating over a group\<close>

fun iterate_exceptions :: "exn \<Rightarrow> exn list" where
  "iterate_exceptions e =
     (case e of ExcGroup m es \<Rightarrow> concat (map iterate_exceptions es) | _ \<Rightarrow> [e])"

declare iterate_exceptions.simps [simp del]

lemma iterate_group [simp]:
  "iterate_exceptions (ExcGroup m es) = concat (map iterate_exceptions es)"
  by (subst iterate_exceptions.simps) simp

lemma iterate_leaf: "\<nexists>m es. e = ExcGroup m es \<Longrightarrow> iterate_exceptions e = [e]"
  by (subst iterate_exceptions.simps) (cases e; auto)

lemma iterate_cancelled [simp]: "iterate_exceptions (CancelledError m c) = [CancelledError m c]"
  by (simp add: iterate_leaf)

lemma iterate_no_group: "x \<in> set (iterate_exceptions e) \<Longrightarrow> x \<noteq> ExcGroup m es"
proof (induction e rule: iterate_exceptions.induct)
  case (1 e)
  show ?case
  proof (cases "\<exists>m' es'. e = ExcGroup m' es'")
    case True
    then obtain m' es' where e: "e = ExcGroup m' es'" by blast
    with "1.prems" obtain y where "y \<in> set es'" "x \<in> set (iterate_exceptions y)" by auto
    with "1.IH" [OF e] show ?thesis by blast
  next
    case False
    then have "iterate_exceptions e = [e]" by (rule iterate_leaf)
    with "1.prems" False show ?thesis by auto
  qed
qed

lemma is_Exception_iterate:
  "is_Exception e \<longleftrightarrow> (\<forall>x \<in> set (iterate_exceptions e). is_Exception x)"
proof (induction e rule: iterate_exceptions.induct)
  case (1 e)
  show ?case
  proof (cases "\<exists>m es. e = ExcGroup m es")
    case True
    then obtain m es where e: "e = ExcGroup m es" by blast
    show ?thesis using "1.IH" [OF e] by (auto simp: e list_all_iff)
  next
    case False
    then have "iterate_exceptions e = [e]" by (rule iterate_leaf)
    then show ?thesis by simp
  qed
qed

text \<open>Results that are passed on.\<close>

definition map_res :: "('a \<Rightarrow> 'b) \<Rightarrow> 'a res \<Rightarrow> 'b res" where
  "map_res f r = (case r of Inl e \<Rightarrow> Inl e | Inr x \<Rightarrow> Inr (f x))"

definition bind_res :: "'a res \<Rightarrow> ('a \<Rightarrow> 'b res) \<Rightarrow> 'b res" where
  "bind_res r f = (case r of Inl e \<Rightarrow> Inl e | Inr x \<Rightarrow> f x)"

end
