(* ===== verification/AsyncBase.thy ===== *)
theory AsyncBase
  imports Exceptions
begin

text \<open>
  How coroutines, futures and events of \<open>asyncio\<close> appear in the models.

  A coroutine method runs from one \<open>await\<close> to the next without interruption. It is modelled by
  a datatype of the points where it may be suspended, a \<open>start\<close> function for the code up to the
  first such point and a \<open>resume\<close> function for the code from one point to the next; both return
  the new state and an \<open>outcome\<close>. An \<open>await\<close> ends with a value or throws (an exception of the
  awaited operation, or the \<open>CancelledError\<close> of a cancellation): \<open>awaited\<close>.

  Futures and events are those of \<open>asyncio\<close>: \<open>set_result\<close>, \<open>set_exception\<close> on a future that is
  done raise \<open>InvalidStateError\<close>; \<open>cancel\<close> cancels a pending future only; \<open>Event.set\<close> wakes
  every pending waiter; a waiter takes itself off the list when it resumes.
\<close>

datatype 'v awaited = Resumed 'v | Thrown exn

datatype ('w, 'a) outcome = Done 'a | Raised exn | Suspended 'w

fun of_res :: "'a res \<Rightarrow> ('w, 'a) outcome" where
  "of_res (Inl e) = Raised e"
| "of_res (Inr v) = Done v"

section \<open>Futures\<close>

datatype 'v future = Pending | FCancelled | FResult 'v | FFailed exn

definition fut_done :: "'v future \<Rightarrow> bool" where
  "fut_done f \<longleftrightarrow> f \<noteq> Pending"

definition fut_cancelled :: "'v future \<Rightarrow> bool" where
  "fut_cancelled f \<longleftrightarrow> f = FCancelled"

definition fut_set_result :: "'v future \<Rightarrow> 'v \<Rightarrow> 'v future res" where
  "fut_set_result f v = (if fut_done f then Inl InvalidStateError else Inr (FResult v))"

definition fut_set_exception :: "'v future \<Rightarrow> exn \<Rightarrow> 'v future res" where
  "fut_set_exception f e = (if fut_done f then Inl InvalidStateError else Inr (FFailed e))"

definition fut_cancel :: "'v future \<Rightarrow> 'v future" where
  "fut_cancel f = (if fut_done f then f else FCancelled)"

text \<open>What \<open>await fut\<close> gives once the future is done.\<close>

fun fut_await :: "'v future \<Rightarrow> 'v awaited option" where
  "fut_await Pending = None"
| "fut_await FCancelled = Some (Thrown (CancelledError None None))"
| "fut_await (FResult v) = Some (Resumed v)"
| "fut_await (FFailed e) = Some (Thrown e)"

lemma fut_done_simps [simp]:
  "\<not> fut_done Pending" "fut_done FCancelled" "fut_done (FResult v)" "fut_done (FFailed e)"
  "fut_cancelled FCancelled" "\<not> fut_cancelled Pending" "\<not> fut_cancelled (FResult v)"
  "\<not> fut_cancelled (FFailed e)"
  by (simp_all add: fut_done_def fut_cancelled_def)

lemma fut_cancelled_done: "fut_cancelled f \<Longrightarrow> fut_done f"
  by (simp add: fut_cancelled_def fut_done_def)

section \<open>Events\<close>

record aevent =
  ev_flag :: bool
  ev_waiters :: "(task \<times> unit future) list"

definition aevent_new :: aevent where
  "aevent_new = \<lparr>ev_flag = False, ev_waiters = []\<rparr>"

definition aevent_set :: "aevent \<Rightarrow> aevent" where
  "aevent_set ev =
     (if ev_flag ev then ev
      else ev\<lparr>ev_flag := True,
              ev_waiters := map (\<lambda>(t, f). (t, if fut_done f then f else FResult ())) (ev_waiters ev)\<rparr>)"

definition aevent_clear :: "aevent \<Rightarrow> aevent" where
  "aevent_clear ev = ev\<lparr>ev_flag := False\<rparr>"

text \<open>\<open>await event.wait()\<close> by task \<open>t\<close>: it returns at once if the flag is set.\<close>

definition aevent_wait_start :: "task \<Rightarrow> aevent \<Rightarrow> aevent \<times> (unit, unit) outcome" where
  "aevent_wait_start t ev =
     (if ev_flag ev then (ev, Done ())
      else (ev\<lparr>ev_waiters := ev_waiters ev @ [(t, Pending)]\<rparr>, Suspended ()))"

definition aevent_wait_resume :: "task \<Rightarrow> unit awaited \<Rightarrow> aevent \<Rightarrow> aevent \<times> (unit, unit) outcome" where
  "aevent_wait_resume t r ev =
     (ev\<lparr>ev_waiters := filter (\<lambda>tf. fst tf \<noteq> t) (ev_waiters ev)\<rparr>,
      (case r of Resumed _ \<Rightarrow> Done () | Thrown e \<Rightarrow> Raised e))"

text \<open>A cancelled waiter's future is cancelled at once; the task runs later.\<close>

definition aevent_cancel_waiter :: "task \<Rightarrow> aevent \<Rightarrow> aevent" where
  "aevent_cancel_waiter t ev =
     ev\<lparr>ev_waiters := map (\<lambda>(u, f). (u, if u = t then fut_cancel f else f)) (ev_waiters ev)\<rparr>"

text \<open>A waiter whose future is pending sleeps; a set event has none, so no wakeup is lost.\<close>

definition aevent_ok :: "aevent \<Rightarrow> bool" where
  "aevent_ok ev \<longleftrightarrow> (ev_flag ev \<longrightarrow> (\<forall>(t, f) \<in> set (ev_waiters ev). fut_done f))"

lemma aevent_ok_new: "aevent_ok aevent_new"
  by (simp add: aevent_ok_def aevent_new_def)

lemma aevent_ok_set: "aevent_ok ev \<Longrightarrow> aevent_ok (aevent_set ev)"
  by (auto simp: aevent_ok_def aevent_set_def)

lemma aevent_set_wakes: "ev_flag (aevent_set ev)"
  by (simp add: aevent_set_def)

lemma aevent_ok_wait: "aevent_ok ev \<Longrightarrow> aevent_ok (fst (aevent_wait_start t ev))"
  by (auto simp: aevent_ok_def aevent_wait_start_def)

lemma aevent_ok_resume: "aevent_ok ev \<Longrightarrow> aevent_ok (fst (aevent_wait_resume t r ev))"
  by (auto simp: aevent_ok_def aevent_wait_resume_def)

lemma aevent_ok_cancel: "aevent_ok ev \<Longrightarrow> aevent_ok (aevent_cancel_waiter t ev)"
  by (auto simp: aevent_ok_def aevent_cancel_waiter_def fut_cancel_def split: if_splits)

end
