(* ===== verification/Interfaces.thy ===== *)
theory Interfaces
  imports AsyncBase
begin

text \<open>
  The contracts the components of the library rely on, as locales. Each is interpreted in the
  theory of the component that provides it, on the model of the code:
  \<^item> \<open>fifo_channel\<close>: items come out in the order they were put in (memory object streams, the
    signal queue);
  \<^item> \<open>wait_queue\<close>: a queue of waiting tasks serves them in order of arrival and only forgets
    those that leave (the ordered dictionaries of streams and limiters, the deques of locks,
    semaphores and conditions);
  \<^item> \<open>byte_source\<close>: what \<open>ByteReceiveStream.receive\<close> promises of the bytes still to come.
\<close>

section \<open>Channels\<close>

locale fifo_channel =
  fixes ok :: "'s \<Rightarrow> bool"
    and content :: "'s \<Rightarrow> 'a list"
    and put :: "'a \<Rightarrow> 's \<Rightarrow> 's \<times> unit res"
    and get :: "'s \<Rightarrow> 's \<times> 'a res"
  assumes put_ok: "ok s \<Longrightarrow> put x s = (s', Inr ()) \<Longrightarrow> ok s' \<and> content s' = content s @ [x]"
    and get_ok: "ok s \<Longrightarrow> content s = x # xs \<Longrightarrow>
      \<exists>s'. get s = (s', Inr x) \<and> ok s' \<and> content s' = xs"
    and get_empty: "ok s \<Longrightarrow> content s = [] \<Longrightarrow> \<exists>e. get s = (s, Inl e)"
begin

fun put_all :: "'a list \<Rightarrow> 's \<Rightarrow> 's option" where
  "put_all [] s = Some s"
| "put_all (x # xs) s = (case put x s of (s', Inr _) \<Rightarrow> put_all xs s' | (s', Inl _) \<Rightarrow> None)"

fun get_n :: "nat \<Rightarrow> 's \<Rightarrow> ('a list \<times> 's) option" where
  "get_n 0 s = Some ([], s)"
| "get_n (Suc n) s = (case get s of
       (s', Inr x) \<Rightarrow> map_option (\<lambda>(xs, s''). (x # xs, s'')) (get_n n s')
     | (s', Inl _) \<Rightarrow> None)"

lemma put_all_content: "ok s \<Longrightarrow> put_all xs s = Some s' \<Longrightarrow> ok s' \<and> content s' = content s @ xs"
proof (induction xs arbitrary: s)
  case Nil
  then show ?case by simp
next
  case (Cons x xs)
  then obtain s1 where s1: "put x s = (s1, Inr ())" and s': "put_all xs s1 = Some s'"
    by (auto split: prod.splits sum.splits)
  from put_ok [OF Cons.prems(1) s1] Cons.IH [OF _ s'] show ?case by simp
qed

lemma get_n_content:
  "ok s \<Longrightarrow> n \<le> length (content s) \<Longrightarrow>
     \<exists>s'. get_n n s = Some (take n (content s), s') \<and> ok s' \<and> content s' = drop n (content s)"
proof (induction n arbitrary: s)
  case 0
  then show ?case by simp
next
  case (Suc n)
  then obtain x xs where c: "content s = x # xs" by (cases "content s") auto
  from get_ok [OF Suc.prems(1) c] obtain s1 where
    s1: "get s = (s1, Inr x)" "ok s1" "content s1 = xs" by blast
  from Suc.IH [OF s1(2)] Suc.prems(2) c s1 show ?case by auto
qed

text \<open>Whatever was put into an empty channel comes out, in order, and nothing else.\<close>

lemma put_get:
  assumes "ok s" "content s = []" "put_all xs s = Some s'"
  shows "\<exists>s''. get_n (length xs) s' = Some (xs, s'') \<and> content s'' = []"
  using put_all_content [OF assms(1,3)] get_n_content [of s' "length xs"] assms(2) by auto

end

section \<open>Queues of waiting tasks\<close>

locale wait_queue =
  fixes keys :: "'q \<Rightarrow> 'k list"
    and join :: "'k \<Rightarrow> 'v \<Rightarrow> 'q \<Rightarrow> 'q"
    and leave :: "'k \<Rightarrow> 'q \<Rightarrow> 'q"
    and serve :: "'q \<Rightarrow> ('k \<times> 'q) option"
  assumes join_keys: "k \<notin> set (keys q) \<Longrightarrow> keys (join k v q) = keys q @ [k]"
    and leave_keys: "distinct (keys q) \<Longrightarrow> keys (leave k q) = remove1 k (keys q)"
    and serve_keys: "keys q = k # ks \<Longrightarrow> \<exists>q'. serve q = Some (k, q') \<and> keys q' = ks"
    and serve_empty: "keys q = [] \<Longrightarrow> serve q = None"
begin

text \<open>The number of waiters in front of \<open>k\<close>.\<close>

definition ahead :: "'k \<Rightarrow> 'q \<Rightarrow> nat" where
  "ahead k q = length (takeWhile (\<lambda>x. x \<noteq> k) (keys q))"

lemma join_distinct: "distinct (keys q) \<Longrightarrow> k \<notin> set (keys q) \<Longrightarrow> distinct (keys (join k v q))"
  by (simp add: join_keys)

lemma leave_distinct: "distinct (keys q) \<Longrightarrow> distinct (keys (leave k q))"
  by (simp add: leave_keys)

lemma leave_gone: "distinct (keys q) \<Longrightarrow> k \<notin> set (keys (leave k q))"
  by (simp add: leave_keys)

lemma join_behind:
  "j \<in> set (keys q) \<Longrightarrow> k \<notin> set (keys q) \<Longrightarrow> ahead j (join k v q) = ahead j q"
  by (simp add: ahead_def join_keys takeWhile_append1)

lemma takeWhile_remove1_le:
  "length (takeWhile (\<lambda>x. x \<noteq> j) (remove1 k xs)) \<le> length (takeWhile (\<lambda>x. x \<noteq> j) xs)"
  if "j \<noteq> k"
  using that by (induction xs) auto

lemma leave_no_overtaking:
  "distinct (keys q) \<Longrightarrow> j \<noteq> k \<Longrightarrow> ahead j (leave k q) \<le> ahead j q"
  by (simp add: ahead_def leave_keys takeWhile_remove1_le)

lemma serve_advances:
  assumes "serve q = Some (k, q')" "j \<in> set (keys q)" "j \<noteq> k"
  shows "j \<in> set (keys q') \<and> Suc (ahead j q') = ahead j q"
proof (cases "keys q")
  case Nil
  then show ?thesis using assms(2) by simp
next
  case (Cons x xs)
  from serve_keys [OF Cons] assms(1) have "x = k" "keys q' = xs" by auto
  then show ?thesis using assms(2,3) Cons by (simp add: ahead_def)
qed

lemma serve_first: "serve q = Some (k, q') \<Longrightarrow> ahead k q = 0 \<and> k \<in> set (keys q)"
  using serve_keys serve_empty by (cases "keys q") (fastforce simp: ahead_def)+

end

text \<open>An ordered dictionary is a wait queue (streams and limiters keep their waiters in one).\<close>

definition od_serve :: "('k, 'v) odict \<Rightarrow> ('k \<times> ('k, 'v) odict) option" where
  "od_serve d = (case d of [] \<Rightarrow> None | (k, v) # d' \<Rightarrow> Some (k, d'))"

interpretation odq: wait_queue od_keys "\<lambda>k v d. od_set d k v" "\<lambda>k d. od_pop d k" od_serve
proof
  fix d :: "('k, 'v) odict" and k v
  show "k \<notin> set (od_keys d) \<Longrightarrow> od_keys (od_set d k v) = od_keys d @ [k]"
    by (simp add: od_set_fresh)
  show "distinct (od_keys d) \<Longrightarrow> od_keys (od_pop d k) = remove1 k (od_keys d)"
    by (simp add: od_keys_pop distinct_remove1_removeAll)
  show "od_keys d = k # ks \<Longrightarrow> \<exists>d'. od_serve d = Some (k, d') \<and> od_keys d' = ks" for ks
    by (cases d) (auto simp: od_serve_def)
  show "od_keys d = [] \<Longrightarrow> od_serve d = None"
    by (simp add: od_serve_def od_keys_def)
qed

section \<open>Sources of bytes\<close>

text \<open>
  \<open>rest s\<close> is what a receive stream has still to deliver; \<open>recv n s\<close> is \<open>receive(n)\<close>. A receive
  that succeeds gives a non-empty prefix of at most \<open>n\<close> bytes; at the end it raises
  \<open>EndOfStream\<close>.
\<close>

locale byte_source =
  fixes ok :: "'s \<Rightarrow> bool"
    and rest :: "'s \<Rightarrow> 'b list"
    and recv :: "nat \<Rightarrow> 's \<Rightarrow> 's \<times> 'b list res"
  assumes recv_some: "ok s \<Longrightarrow> 0 < n \<Longrightarrow> rest s \<noteq> [] \<Longrightarrow>
      \<exists>s' c. recv n s = (s', Inr c) \<and> ok s' \<and> c \<noteq> [] \<and> length c \<le> n \<and> rest s = c @ rest s'"
    and recv_end: "ok s \<Longrightarrow> 0 < n \<Longrightarrow> rest s = [] \<Longrightarrow>
      \<exists>s'. recv n s = (s', Inl EndOfStream) \<and> ok s' \<and> rest s' = []"
begin

fun drain :: "nat \<Rightarrow> nat \<Rightarrow> 's \<Rightarrow> 'b list \<times> 's" where
  "drain 0 n s = ([], s)"
| "drain (Suc k) n s = (case recv n s of
       (s', Inr c) \<Rightarrow> (case drain k n s' of (cs, s'') \<Rightarrow> (c @ cs, s''))
     | (s', Inl _) \<Rightarrow> ([], s'))"

text \<open>Receiving until the end gives every byte once, in order, in at most \<open>length + 1\<close> calls.\<close>

lemma drain_all: "ok s \<Longrightarrow> 0 < n \<Longrightarrow> length (rest s) < k \<Longrightarrow> fst (drain k n s) = rest s"
proof (induction k n s rule: drain.induct)
  case (1 n s)
  then show ?case by simp
next
  case (2 k n s)
  show ?case
  proof (cases "rest s = []")
    case True
    from recv_end [OF "2.prems"(1,2) True] obtain s' where "recv n s = (s', Inl EndOfStream)" by blast
    with True show ?thesis by simp
  next
    case False
    from recv_some [OF "2.prems"(1,2) False] obtain s' c where
      r: "recv n s = (s', Inr c)" "ok s'" "c \<noteq> []" "rest s = c @ rest s'" by blast
    then have "length (rest s') < k" using "2.prems"(3) by (cases c) auto
    with "2.IH" [OF r(1) [symmetric] refl r(2) "2.prems"(2)] r show ?thesis
      by (auto split: prod.splits)
  qed
qed

end

end
