(* ===== verification/MemoryStream.thy ===== *)
theory MemoryStream
  imports Interfaces "HOL-Library.Multiset"
begin

text \<open>
  Memory object streams: \<open>src/anyio/streams/memory.py\<close> and \<open>create_memory_object_stream\<close> of
  \<open>src/anyio/_core/_streams.py\<close>.

  \<open>mstate\<close> is the shared \<open>MemoryObjectStreamState\<close>. An \<open>Event\<close> is named by a number; only the
  task that created it waits for it, so the event is its flag, in \<open>ev_set\<close>. A
  \<open>MemoryObjectItemReceiver\<close> is created with an event and found under it: the queue of waiting
  receivers keeps its \<open>task_info\<close>, and \<open>item_of\<close> is the attribute \<open>item\<close>, which does not exist
  until a sender assigns it. A stream object is its \<open>_closed\<close> flag. Whether a task has a pending
  cancellation is asked of the task and is a parameter \<open>pend\<close> here (the asyncio answer is
  modelled in \<open>CancelScopes\<close>).
\<close>

section \<open>State\<close>

record 'a mstate =
  max_buffer_size :: pynum
  buffer :: "'a list"
  open_send_channels :: int
  open_receive_channels :: int
  waiting_receivers :: "(nat, task) odict"
  waiting_senders :: "(nat, 'a) odict"
  ev_set :: "nat \<Rightarrow> bool"
  item_of :: "nat \<Rightarrow> 'a option"
  next_ev :: nat

record mstatistics =
  current_buffer_used :: nat
  st_max_buffer_size :: pynum
  open_send_streams :: int
  open_receive_streams :: int
  tasks_waiting_send :: nat
  tasks_waiting_receive :: nat

definition mstate_new :: "pynum \<Rightarrow> 'a mstate" where
  "mstate_new m = \<lparr>max_buffer_size = m, buffer = [], open_send_channels = 0,
     open_receive_channels = 0, waiting_receivers = [], waiting_senders = [],
     ev_set = (\<lambda>_. False), item_of = (\<lambda>_. None), next_ev = 0\<rparr>"

definition statistics :: "'a mstate \<Rightarrow> mstatistics" where
  "statistics st = \<lparr>current_buffer_used = length (buffer st),
     st_max_buffer_size = max_buffer_size st,
     open_send_streams = open_send_channels st,
     open_receive_streams = open_receive_channels st,
     tasks_waiting_send = length (waiting_senders st),
     tasks_waiting_receive = length (waiting_receivers st)\<rparr>"

text \<open>\<open>__post_init__\<close> of the two stream classes; a new stream object is not closed.\<close>

definition receive_post_init :: "'a mstate \<Rightarrow> 'a mstate \<times> bool" where
  "receive_post_init st = (st\<lparr>open_receive_channels := open_receive_channels st + 1\<rparr>, False)"

definition send_post_init :: "'a mstate \<Rightarrow> 'a mstate \<times> bool" where
  "send_post_init st = (st\<lparr>open_send_channels := open_send_channels st + 1\<rparr>, False)"

text \<open>
  \<open>create_memory_object_stream\<close>: the two checks, then a state with one open stream at each end.
\<close>

definition create_memory_object_stream :: "pynum \<Rightarrow> ('a mstate \<times> bool \<times> bool) res" where
  "create_memory_object_stream max_size =
     (if max_size \<noteq> PyFloat PosInf \<and> \<not> is_pyint max_size
      then Inl (ValueError ''max_buffer_size must be either an integer or math.inf'')
      else if num_float max_size < Fin 0
      then Inl (ValueError ''max_buffer_size cannot be negative'')
      else
        let st = mstate_new max_size;
            (st, sclosed) = send_post_init st;
            (st, rclosed) = receive_post_init st
        in Inr (st, sclosed, rclosed))"

section \<open>Receiving\<close>

definition receive_nowait :: "bool \<Rightarrow> 'a mstate \<Rightarrow> 'a mstate \<times> 'a res" where
  "receive_nowait is_closed st =
     (if is_closed then (st, Inl ClosedResourceError)
      else
        let st' = (case waiting_senders st of
                     [] \<Rightarrow> st
                   | (send_event, item) # rest \<Rightarrow>
                       st\<lparr>waiting_senders := rest,
                          buffer := buffer st @ [item],
                          ev_set := (ev_set st)(send_event := True)\<rparr>)
        in case buffer st' of
             x # xs \<Rightarrow> (st'\<lparr>buffer := xs\<rparr>, Inr x)
           | [] \<Rightarrow> (st', Inl (if open_send_channels st' = 0 then EndOfStream else WouldBlock)))"

datatype rcv_pc = RcvCheckpoint | RcvWait nat

definition receive_start :: "(rcv_pc, 'a) outcome" where
  "receive_start = Suspended RcvCheckpoint"

text \<open>
  \<open>receive\<close> after its checkpoint: take an item, or queue a new receiver and wait for its event.
\<close>

definition receive_begin :: "bool \<Rightarrow> task \<Rightarrow> 'a mstate \<Rightarrow> 'a mstate \<times> (rcv_pc, 'a) outcome" where
  "receive_begin is_closed t st =
     (case receive_nowait is_closed st of
        (st', Inr x) \<Rightarrow> (st', Done x)
      | (st', Inl e) \<Rightarrow>
          (if e = WouldBlock then
             let ev = next_ev st' in
             (st'\<lparr>next_ev := Suc ev,
                  ev_set := (ev_set st')(ev := False),
                  item_of := (item_of st')(ev := None),
                  waiting_receivers := od_set (waiting_receivers st') ev t\<rparr>,
              Suspended (RcvWait ev))
           else (st', Raised e)))"

fun receive_resume ::
  "bool \<Rightarrow> task \<Rightarrow> rcv_pc \<Rightarrow> unit awaited \<Rightarrow> 'a mstate \<Rightarrow> 'a mstate \<times> (rcv_pc, 'a) outcome" where
  "receive_resume is_closed t RcvCheckpoint (Thrown e) st = (st, Raised e)"
| "receive_resume is_closed t RcvCheckpoint (Resumed _) st = receive_begin is_closed t st"
| "receive_resume is_closed t (RcvWait ev) r st =
     (let st' = st\<lparr>waiting_receivers := od_pop (waiting_receivers st) ev\<rparr> in
      case r of
        Thrown e \<Rightarrow> (st', Raised e)
      | Resumed _ \<Rightarrow>
          (st', (case item_of st' ev of Some x \<Rightarrow> Done x | None \<Rightarrow> Raised EndOfStream)))"

section \<open>Sending\<close>

text \<open>
  The loop of \<open>send_nowait\<close>: receivers with a pending cancellation are dropped from the queue;
  the first other one gets the item and its event is set.
\<close>

fun offer :: "(task \<Rightarrow> bool) \<Rightarrow> 'a \<Rightarrow> (nat, task) odict \<Rightarrow> (nat, task) odict \<times> nat option" where
  "offer pend item [] = ([], None)"
| "offer pend item ((ev, t) # rest) =
     (if \<not> pend t then (rest, Some ev) else offer pend item rest)"

definition send_nowait :: "(task \<Rightarrow> bool) \<Rightarrow> bool \<Rightarrow> 'a \<Rightarrow> 'a mstate \<Rightarrow> 'a mstate \<times> unit res" where
  "send_nowait pend is_closed item st =
     (if is_closed then (st, Inl ClosedResourceError)
      else if open_receive_channels st = 0 then (st, Inl BrokenResourceError)
      else case offer pend item (waiting_receivers st) of
        (rest, Some ev) \<Rightarrow>
          (st\<lparr>waiting_receivers := rest,
              item_of := (item_of st)(ev := Some item),
              ev_set := (ev_set st)(ev := True)\<rparr>, Inr ())
      | (rest, None) \<Rightarrow>
          let st' = st\<lparr>waiting_receivers := rest\<rparr> in
          if len_float (buffer st') < num_float (max_buffer_size st')
          then (st'\<lparr>buffer := buffer st' @ [item]\<rparr>, Inr ())
          else (st', Inl WouldBlock))"

datatype snd_pc = SndCheckpoint | SndWait nat

definition send_start :: "(snd_pc, unit) outcome" where
  "send_start = Suspended SndCheckpoint"

definition send_begin ::
  "(task \<Rightarrow> bool) \<Rightarrow> bool \<Rightarrow> 'a \<Rightarrow> 'a mstate \<Rightarrow> 'a mstate \<times> (snd_pc, unit) outcome" where
  "send_begin pend is_closed item st =
     (case send_nowait pend is_closed item st of
        (st', Inr u) \<Rightarrow> (st', Done u)
      | (st', Inl e) \<Rightarrow>
          (if e = WouldBlock then
             let ev = next_ev st' in
             (st'\<lparr>next_ev := Suc ev,
                  ev_set := (ev_set st')(ev := False),
                  waiting_senders := od_set (waiting_senders st') ev item\<rparr>,
              Suspended (SndWait ev))
           else (st', Raised e)))"

fun send_resume ::
  "(task \<Rightarrow> bool) \<Rightarrow> bool \<Rightarrow> 'a \<Rightarrow> snd_pc \<Rightarrow> unit awaited \<Rightarrow> 'a mstate
     \<Rightarrow> 'a mstate \<times> (snd_pc, unit) outcome" where
  "send_resume pend is_closed item SndCheckpoint (Thrown e) st = (st, Raised e)"
| "send_resume pend is_closed item SndCheckpoint (Resumed _) st = send_begin pend is_closed item st"
| "send_resume pend is_closed item (SndWait ev) (Thrown e) st =
     (st\<lparr>waiting_senders := od_pop (waiting_senders st) ev\<rparr>, Raised e)"
| "send_resume pend is_closed item (SndWait ev) (Resumed _) st =
     (if od_has (waiting_senders st) ev
      then (st\<lparr>waiting_senders := od_pop (waiting_senders st) ev\<rparr>, Raised BrokenResourceError)
      else (st, Done ()))"

section \<open>Cloning and closing\<close>

definition clone_receive :: "bool \<Rightarrow> 'a mstate \<Rightarrow> ('a mstate \<times> bool) res" where
  "clone_receive is_closed st =
     (if is_closed then Inl ClosedResourceError else Inr (receive_post_init st))"

definition clone_send :: "bool \<Rightarrow> 'a mstate \<Rightarrow> ('a mstate \<times> bool) res" where
  "clone_send is_closed st =
     (if is_closed then Inl ClosedResourceError else Inr (send_post_init st))"

definition set_events :: "nat list \<Rightarrow> (nat \<Rightarrow> bool) \<Rightarrow> nat \<Rightarrow> bool" where
  "set_events evs flags = fold (\<lambda>ev f. f(ev := True)) evs flags"

definition close_receive :: "bool \<Rightarrow> 'a mstate \<Rightarrow> 'a mstate \<times> bool" where
  "close_receive is_closed st =
     (if is_closed then (st, is_closed)
      else
        let st' = st\<lparr>open_receive_channels := open_receive_channels st - 1\<rparr> in
        (if open_receive_channels st' = 0
         then st'\<lparr>ev_set := set_events (od_keys (waiting_senders st')) (ev_set st')\<rparr>
         else st', True))"

definition close_send :: "bool \<Rightarrow> 'a mstate \<Rightarrow> 'a mstate \<times> bool" where
  "close_send is_closed st =
     (if is_closed then (st, is_closed)
      else
        let st' = st\<lparr>open_send_channels := open_send_channels st - 1\<rparr> in
        (if open_send_channels st' = 0
         then st'\<lparr>waiting_receivers := [],
                  ev_set := set_events (od_keys (waiting_receivers st')) (ev_set st')\<rparr>
         else st', True))"

text \<open>\<open>__del__\<close>: a stream that is collected while open warns with \<open>ResourceWarning\<close>.\<close>

definition del_warns :: "bool \<Rightarrow> bool" where
  "del_warns is_closed \<longleftrightarrow> \<not> is_closed"

section \<open>The stream as a queue\<close>

text \<open>
  The items a receiver can still get, in the order it gets them: the buffer, then the items of
  the senders that wait for room.
\<close>

definition mqueue :: "'a mstate \<Rightarrow> 'a list" where
  "mqueue st = buffer st @ map snd (waiting_senders st)"

lemma offer_spec:
  "offer pend item rs =
     (case dropWhile (\<lambda>(ev, t). pend t) rs of
        [] \<Rightarrow> ([], None) | (ev, t) # rest \<Rightarrow> (rest, Some ev))"
  by (induction pend item rs rule: offer.induct) auto

lemma receive_nowait_item:
  assumes "\<not> is_closed" "mqueue st = x # q"
  shows "\<exists>st'. receive_nowait is_closed st = (st', Inr x) \<and> mqueue st' = q"
  using assms
  by (cases "waiting_senders st"; cases "buffer st")
    (auto simp: receive_nowait_def mqueue_def Let_def)

lemma receive_nowait_empty:
  assumes "\<not> is_closed" "mqueue st = []"
  shows "receive_nowait is_closed st =
     (st, Inl (if open_send_channels st = 0 then EndOfStream else WouldBlock))"
  using assms by (simp add: receive_nowait_def mqueue_def)

lemma set_events_iff [simp]: "set_events evs f e \<longleftrightarrow> e \<in> set evs \<or> f e"
  unfolding set_events_def by (induction evs arbitrary: f) auto

section \<open>Well-formed states\<close>

text \<open>
  The invariant of the shared state: the buffer is within its bound; a receiver waits only while
  there is nothing to receive; a sender waits only while the buffer is full; the events of
  waiting tasks are distinct, allocated, and a waiting receiver's event is clear and its item
  unassigned.
\<close>

definition mem_ok :: "'a mstate \<Rightarrow> bool" where
  "mem_ok st \<longleftrightarrow>
     (is_pyint (max_buffer_size st) \<or> max_buffer_size st = PyFloat PosInf)
   \<and> len_float (buffer st) \<le> num_float (max_buffer_size st)
   \<and> (waiting_receivers st \<noteq> [] \<longrightarrow> buffer st = [] \<and> waiting_senders st = [])
   \<and> (waiting_senders st \<noteq> [] \<longrightarrow> num_float (max_buffer_size st) \<le> len_float (buffer st))
   \<and> distinct (od_keys (waiting_receivers st) @ od_keys (waiting_senders st))
   \<and> (\<forall>e \<in> set (od_keys (waiting_receivers st) @ od_keys (waiting_senders st)). e < next_ev st)
   \<and> (\<forall>e \<in> set (od_keys (waiting_receivers st)). \<not> ev_set st e \<and> item_of st e = None)"

lemma mem_okD:
  assumes "mem_ok st"
  shows "len_float (buffer st) \<le> num_float (max_buffer_size st)"
    and "waiting_receivers st \<noteq> [] \<Longrightarrow> buffer st = [] \<and> waiting_senders st = []"
    and "waiting_senders st \<noteq> [] \<Longrightarrow> num_float (max_buffer_size st) \<le> len_float (buffer st)"
    and "distinct (od_keys (waiting_receivers st))" "distinct (od_keys (waiting_senders st))"
    and "e \<in> set (od_keys (waiting_receivers st)) \<Longrightarrow> e < next_ev st"
    and "e \<in> set (od_keys (waiting_senders st)) \<Longrightarrow> e < next_ev st"
    and "e \<in> set (od_keys (waiting_receivers st)) \<Longrightarrow> \<not> ev_set st e \<and> item_of st e = None"
  using assms by (auto simp: mem_ok_def)

lemma mem_ok_new: "is_pyint m \<or> m = PyFloat PosInf \<Longrightarrow> Fin 0 \<le> num_float m \<Longrightarrow> mem_ok (mstate_new m)"
  by (simp add: mem_ok_def mstate_new_def)

lemma mem_ok_post_init:
  "mem_ok st \<Longrightarrow> mem_ok (fst (receive_post_init st))"
  "mem_ok st \<Longrightarrow> mem_ok (fst (send_post_init st))"
  by (simp_all add: mem_ok_def receive_post_init_def send_post_init_def)

lemma mem_ok_create: "create_memory_object_stream max_size = Inr (st, a, b) \<Longrightarrow> mem_ok st"
  by (auto simp: create_memory_object_stream_def Let_def send_post_init_def
      receive_post_init_def mem_ok_def mstate_new_def split: if_splits)

lemma mem_ok_receive_nowait:
  assumes "mem_ok st"
  shows "mem_ok (fst (receive_nowait is_closed st))"
proof (cases "waiting_senders st")
  case Nil
  then show ?thesis
    using assms by (cases "buffer st"; cases "num_float (max_buffer_size st)")
      (auto simp: receive_nowait_def mem_ok_def Let_def)
next
  case (Cons s rest)
  then have "waiting_receivers st = []" using assms by (auto simp: mem_ok_def)
  with Cons show ?thesis
    using assms by (cases s; cases "buffer st"; cases "num_float (max_buffer_size st)")
      (auto simp: receive_nowait_def mem_ok_def Let_def)
qed

lemma receive_nowait_next_ev [simp]: "next_ev (fst (receive_nowait is_closed st)) = next_ev st"
  by (auto simp: receive_nowait_def Let_def split: list.splits)

text \<open>What \<open>receive\<close> does after its checkpoint.\<close>

lemma receive_begin_item:
  assumes "mqueue st = x # q"
  shows "\<exists>st'. receive_begin False t st = (st', Done x) \<and> mqueue st' = q
    \<and> st' = fst (receive_nowait False st)"
  using receive_nowait_item [of False st x q] assms by (auto simp: receive_begin_def)

lemma receive_begin_end:
  assumes "mqueue st = []" "open_send_channels st = 0"
  shows "receive_begin False t st = (st, Raised EndOfStream)"
  using receive_nowait_empty [of False st] assms by (simp add: receive_begin_def)

lemma receive_begin_wait:
  assumes "mem_ok st" "mqueue st = []" "open_send_channels st \<noteq> 0"
  shows "receive_begin False t st =
    (st\<lparr>next_ev := Suc (next_ev st),
        ev_set := (ev_set st)(next_ev st := False),
        item_of := (item_of st)(next_ev st := None),
        waiting_receivers := waiting_receivers st @ [(next_ev st, t)]\<rparr>,
     Suspended (RcvWait (next_ev st)))"
proof -
  have "next_ev st \<notin> set (od_keys (waiting_receivers st))"
    using mem_okD(6) [OF assms(1), of "next_ev st"] by auto
  then show ?thesis
    using receive_nowait_empty [of False st] assms
    by (simp add: receive_begin_def Let_def od_set_fresh)
qed

lemma receive_begin_closed: "receive_begin True t st = (st, Raised ClosedResourceError)"
  by (simp add: receive_begin_def receive_nowait_def)

lemma mem_ok_receive_begin:
  assumes "mem_ok st"
  shows "mem_ok (fst (receive_begin is_closed t st))"
proof (cases "is_closed \<or> mqueue st \<noteq> [] \<or> open_send_channels st = 0")
  case True
  show ?thesis
  proof (cases "mqueue st")
    case Nil
    then show ?thesis using True assms receive_begin_end [of st t]
      by (cases is_closed) (auto simp: receive_begin_closed)
  next
    case (Cons x q)
    then show ?thesis using assms receive_begin_item [OF Cons, of t] mem_ok_receive_nowait [OF assms]
      by (cases is_closed) (auto simp: receive_begin_closed)
  qed
next
  case False
  then have "mqueue st = []" "open_send_channels st \<noteq> 0" "\<not> is_closed" by auto
  with receive_begin_wait [OF assms, of t] mem_okD(6) [OF assms, of "next_ev st"] assms
  show ?thesis by (auto simp: mem_ok_def mqueue_def less_Suc_eq)
qed

lemma mem_ok_receive_resume:
  assumes "mem_ok st"
  shows "mem_ok (fst (receive_resume is_closed t pc r st))"
proof (cases pc)
  case RcvCheckpoint
  then show ?thesis using mem_ok_receive_begin [OF assms, of is_closed t] assms by (cases r) auto
next
  case (RcvWait ev)
  then show ?thesis using assms
    by (auto simp: mem_ok_def Let_def od_keys_pop distinct_removeAll split: awaited.splits)
qed

lemma offer_suffix: "offer pend item rs = (rest, ev) \<Longrightarrow> \<exists>pre. rs = pre @ rest"
proof (induction pend item rs rule: offer.induct)
  case (1 pend item)
  then show ?case by simp
next
  case (2 pend item e t rs)
  show ?case
  proof (cases "pend t")
    case True
    with 2 obtain pre where "rs = pre @ rest" by auto
    then show ?thesis by (intro exI [of _ "(e, t) # pre"]) simp
  next
    case False
    with 2 show ?thesis by (intro exI [of _ "[(e, t)]"]) simp
  qed
qed

lemma offer_Some:
  "offer pend item rs = (rest, Some ev) \<Longrightarrow>
     \<exists>pre t. rs = pre @ (ev, t) # rest \<and> \<not> pend t \<and> (\<forall>(e', t') \<in> set pre. pend t')"
proof (induction pend item rs rule: offer.induct)
  case (1 pend item)
  then show ?case by simp
next
  case (2 pend item e t rs)
  show ?case
  proof (cases "pend t")
    case True
    with 2 obtain pre t' where "rs = pre @ (ev, t') # rest" "\<not> pend t'"
      "\<forall>(e', t') \<in> set pre. pend t'" by auto
    with True show ?thesis by (intro exI [of _ "(e, t) # pre"] exI [of _ t']) simp
  next
    case False
    with 2 show ?thesis by (intro exI [of _ "[]"] exI [of _ t]) simp
  qed
qed

lemma offer_None: "offer pend item rs = (rest, None) \<Longrightarrow> rest = [] \<and> (\<forall>(e, t) \<in> set rs. pend t)"
  by (induction pend item rs rule: offer.induct) (auto split: if_splits)

text \<open>The cases of \<open>send_nowait\<close> on an open stream with an open receiving end.\<close>

lemma send_nowait_handoff:
  assumes "open_receive_channels st \<noteq> 0" "offer pend x (waiting_receivers st) = (rest, Some ev)"
  shows "send_nowait pend False x st =
    (st\<lparr>waiting_receivers := rest, item_of := (item_of st)(ev := Some x),
        ev_set := (ev_set st)(ev := True)\<rparr>, Inr ())"
  using assms by (simp add: send_nowait_def)

lemma send_nowait_buffer:
  assumes "open_receive_channels st \<noteq> 0" "offer pend x (waiting_receivers st) = (rest, None)"
  shows "send_nowait pend False x st =
    (if len_float (buffer st) < num_float (max_buffer_size st)
     then (st\<lparr>waiting_receivers := [], buffer := buffer st @ [x]\<rparr>, Inr ())
     else (st\<lparr>waiting_receivers := []\<rparr>, Inl WouldBlock))"
  using assms offer_None [OF assms(2)] by (simp add: send_nowait_def Let_def)

lemma mem_ok_drop_receivers:
  assumes "mem_ok st" "waiting_receivers st = pre @ rest"
  shows "mem_ok (st\<lparr>waiting_receivers := rest\<rparr>)"
  using assms by (auto simp: mem_ok_def)

lemma len_float_Suc_le:
  assumes "len_float xs < num_float m" "is_pyint m \<or> m = PyFloat PosInf"
  shows "len_float (xs @ [x]) \<le> num_float m"
proof (cases m)
  case (PyInt i)
  with assms(1) have "int (length xs) < i" by (simp add: of_nat_less_of_int_iff)
  then have "int (length xs) + 1 \<le> i" by simp
  then have "real_of_int (int (length xs) + 1) \<le> real_of_int i" by (simp only: of_int_le_iff)
  with PyInt show ?thesis by simp
next
  case (PyFloat f)
  with assms(2) show ?thesis by simp
qed

lemma mem_ok_send_nowait:
  assumes "mem_ok st"
  shows "mem_ok (fst (send_nowait pend is_closed x st))"
proof (cases "is_closed \<or> open_receive_channels st = 0")
  case True
  then show ?thesis using assms by (auto simp: send_nowait_def)
next
  case False
  then have open_ends: "\<not> is_closed" "open_receive_channels st \<noteq> 0" by auto
  obtain rest ev where off: "offer pend x (waiting_receivers st) = (rest, ev)" by fastforce
  show ?thesis
  proof (cases ev)
    case None
    note buf = send_nowait_buffer [OF open_ends(2) off [unfolded None]]
    have "mem_ok (st\<lparr>waiting_receivers := []\<rparr>)" using assms by (auto simp: mem_ok_def)
    then show ?thesis
      using assms open_ends(1) len_float_Suc_le [of "buffer st" "max_buffer_size st" x]
      by (auto simp: buf mem_ok_def)
  next
    case (Some e)
    from offer_Some [OF off [unfolded Some]] obtain pre t where
      "waiting_receivers st = (pre @ [(e, t)]) @ rest" by auto
    then show ?thesis
      using assms open_ends send_nowait_handoff [OF open_ends(2) off [unfolded Some]]
      by (auto simp: mem_ok_def)
  qed
qed

lemma send_nowait_block:
  assumes "send_nowait pend is_closed x st = (st', Inl WouldBlock)"
  shows "st' = st\<lparr>waiting_receivers := []\<rparr> \<and> num_float (max_buffer_size st) \<le> len_float (buffer st)
    \<and> \<not> is_closed \<and> open_receive_channels st \<noteq> 0"
proof -
  have open_ends: "\<not> is_closed" "open_receive_channels st \<noteq> 0"
    using assms by (auto simp: send_nowait_def split: if_splits)
  obtain rest ev where off: "offer pend x (waiting_receivers st) = (rest, ev)" by fastforce
  show ?thesis
    using assms open_ends off send_nowait_buffer [of st pend x rest] send_nowait_handoff [of st pend x rest]
    by (cases ev) (auto split: if_splits)
qed

lemma send_nowait_next_ev: "next_ev (fst (send_nowait pend is_closed x st)) = next_ev st"
  by (auto simp: send_nowait_def Let_def split: prod.splits option.splits)

lemma mem_ok_send_resume:
  assumes "mem_ok st"
  shows "mem_ok (fst (send_resume pend is_closed x pc r st))"
proof (cases pc)
  case SndCheckpoint
  obtain st1 res where s: "send_nowait pend is_closed x st = (st1, res)" by fastforce
  have ok1: "mem_ok st1" using mem_ok_send_nowait [OF assms, of pend is_closed x] s by simp
  show ?thesis
  proof (cases "res = Inl WouldBlock")
    case True
    then have st1: "st1 = st\<lparr>waiting_receivers := []\<rparr>"
      and full: "num_float (max_buffer_size st) \<le> len_float (buffer st)"
      using s send_nowait_block [of pend is_closed x st st1] by auto
    have "next_ev st1 \<notin> set (od_keys (waiting_senders st1))"
      using mem_okD(7) [OF ok1, of "next_ev st1"] by auto
    then show ?thesis using SndCheckpoint True s assms full ok1
      by (cases r) (auto simp: send_begin_def Let_def od_set_fresh mem_ok_def st1 less_Suc_eq)
  next
    case False
    then show ?thesis using SndCheckpoint s assms ok1
      by (cases r; cases res) (auto simp: send_begin_def)
  qed
next
  case (SndWait ev)
  then show ?thesis using assms
    by (cases r) (auto simp: mem_ok_def od_keys_pop distinct_removeAll)
qed

lemma mem_ok_close:
  assumes "mem_ok st"
  shows "mem_ok (fst (close_receive is_closed st))" "mem_ok (fst (close_send is_closed st))"
  using assms by (auto simp: close_receive_def close_send_def mem_ok_def Let_def)

section \<open>The stream under concurrent use\<close>

text \<open>
  A system of stream objects and tasks: the shared state, the \<open>_closed\<close> flags of the receive and
  send streams created so far, the calls of \<open>receive\<close> and \<open>send\<close> that are under way, and the
  history: the items that entered the stream (\<open>sent\<close>), the items receivers got (\<open>got\<close>) and the
  items that were handed to a receiver whose wait was then cancelled (\<open>dropped\<close>).
\<close>

type_synonym rcall = "task \<times> nat \<times> rcv_pc"
type_synonym 'a scall = "task \<times> nat \<times> 'a \<times> snd_pc"

record 'a msys =
  shared :: "'a mstate"
  rflags :: "bool list"
  sflags :: "bool list"
  rcalls :: "rcall list"
  scalls :: "'a scall list"
  sent :: "'a list"
  got :: "'a list"
  dropped :: "'a list"

datatype 'a maction =
    RecvNowait nat
  | RecvStart task nat
  | RecvResume task "unit awaited"
  | SendNowait "task \<Rightarrow> bool" nat 'a
  | SendStart task nat 'a
  | SendResume "task \<Rightarrow> bool" task "unit awaited"
  | CloneRecv nat
  | CloneSend nat
  | CloseRecv nat
  | CloseSend nat

definition msys_new :: "'a mstate \<Rightarrow> 'a msys" where
  "msys_new st = \<lparr>shared = st, rflags = [False], sflags = [False], rcalls = [], scalls = [],
     sent = [], got = [], dropped = []\<rparr>"

text \<open>The item that moves from the first waiting sender to the buffer in \<open>receive_nowait\<close>.\<close>

definition moved :: "bool \<Rightarrow> 'a mstate \<Rightarrow> 'a list" where
  "moved is_closed st =
     (if is_closed then [] else case waiting_senders st of [] \<Rightarrow> [] | (e, x) # _ \<Rightarrow> [x])"

definition res_list :: "'a res \<Rightarrow> 'a list" where
  "res_list r = (case r of Inr x \<Rightarrow> [x] | Inl _ \<Rightarrow> [])"

definition ready :: "(nat \<Rightarrow> bool) \<Rightarrow> rcv_pc \<Rightarrow> unit awaited \<Rightarrow> bool" where
  "ready flags pc r \<longleftrightarrow> (case pc of RcvWait e \<Rightarrow> (case r of Resumed _ \<Rightarrow> flags e | Thrown _ \<Rightarrow> True)
     | RcvCheckpoint \<Rightarrow> True)"

definition sready :: "(nat \<Rightarrow> bool) \<Rightarrow> snd_pc \<Rightarrow> unit awaited \<Rightarrow> bool" where
  "sready flags pc r \<longleftrightarrow> (case pc of SndWait e \<Rightarrow> (case r of Resumed _ \<Rightarrow> flags e | Thrown _ \<Rightarrow> True)
     | SndCheckpoint \<Rightarrow> True)"

text \<open>What a resumed \<open>receive\<close> call contributes to \<open>sent\<close>, \<open>got\<close> and \<open>dropped\<close>.\<close>

definition recv_sent :: "bool \<Rightarrow> rcv_pc \<Rightarrow> unit awaited \<Rightarrow> 'a mstate \<Rightarrow> 'a list" where
  "recv_sent is_closed pc r st =
     (case (pc, r) of (RcvCheckpoint, Resumed _) \<Rightarrow> moved is_closed st | _ \<Rightarrow> [])"

definition recv_got :: "(rcv_pc, 'a) outcome \<Rightarrow> 'a list" where
  "recv_got out = (case out of Done x \<Rightarrow> [x] | _ \<Rightarrow> [])"

definition recv_dropped :: "rcv_pc \<Rightarrow> unit awaited \<Rightarrow> 'a mstate \<Rightarrow> 'a list" where
  "recv_dropped pc r st =
     (case (pc, r) of
        (RcvWait e, Thrown _) \<Rightarrow> (case item_of st e of Some x \<Rightarrow> [x] | None \<Rightarrow> [])
      | _ \<Rightarrow> [])"

fun mem_act :: "'a maction \<Rightarrow> 'a msys \<Rightarrow> 'a msys option" where
  "mem_act (RecvNowait h) sys =
     (if h < length (rflags sys) then
        let (st, res) = receive_nowait (rflags sys ! h) (shared sys) in
        Some (sys\<lparr>shared := st, got := got sys @ res_list res,
                  sent := sent sys @ moved (rflags sys ! h) (shared sys)\<rparr>)
      else None)"
| "mem_act (RecvStart t h) sys =
     (if h < length (rflags sys) \<and> map_of (rcalls sys) t = None
      then Some (sys\<lparr>rcalls := (t, h, RcvCheckpoint) # rcalls sys\<rparr>) else None)"
| "mem_act (RecvResume t r) sys =
     (case map_of (rcalls sys) t of
        None \<Rightarrow> None
      | Some (h, pc) \<Rightarrow>
          if ready (ev_set (shared sys)) pc r then
            let (st, out) = receive_resume (rflags sys ! h) t pc r (shared sys);
                calls = filter (\<lambda>c. fst c \<noteq> t) (rcalls sys) in
            Some (sys\<lparr>shared := st,
                      rcalls := (case out of Suspended pc' \<Rightarrow> (t, h, pc') # calls | _ \<Rightarrow> calls),
                      sent := sent sys @ recv_sent (rflags sys ! h) pc r (shared sys),
                      got := got sys @ recv_got out,
                      dropped := dropped sys @ recv_dropped pc r (shared sys)\<rparr>)
          else None)"
| "mem_act (SendNowait pend h x) sys =
     (if h < length (sflags sys) then
        let (st, res) = send_nowait pend (sflags sys ! h) x (shared sys) in
        Some (sys\<lparr>shared := st, sent := sent sys @ (if res = Inr () then [x] else [])\<rparr>)
      else None)"
| "mem_act (SendStart t h x) sys =
     (if h < length (sflags sys) \<and> map_of (scalls sys) t = None
      then Some (sys\<lparr>scalls := (t, h, x, SndCheckpoint) # scalls sys\<rparr>) else None)"
| "mem_act (SendResume pend t r) sys =
     (case map_of (scalls sys) t of
        None \<Rightarrow> None
      | Some (h, x, pc) \<Rightarrow>
          if sready (ev_set (shared sys)) pc r then
            let (st, out) = send_resume pend (sflags sys ! h) x pc r (shared sys);
                calls = filter (\<lambda>c. fst c \<noteq> t) (scalls sys) in
            Some (sys\<lparr>shared := st,
                      scalls := (case out of Suspended pc' \<Rightarrow> (t, h, x, pc') # calls | _ \<Rightarrow> calls),
                      sent := sent sys @ (if pc = SndCheckpoint \<and> out = Done () then [x] else [])\<rparr>)
          else None)"
| "mem_act (CloneRecv h) sys =
     (if h < length (rflags sys) then
        (case clone_receive (rflags sys ! h) (shared sys) of
           Inl _ \<Rightarrow> Some sys
         | Inr (st, c) \<Rightarrow> Some (sys\<lparr>shared := st, rflags := rflags sys @ [c]\<rparr>))
      else None)"
| "mem_act (CloneSend h) sys =
     (if h < length (sflags sys) then
        (case clone_send (sflags sys ! h) (shared sys) of
           Inl _ \<Rightarrow> Some sys
         | Inr (st, c) \<Rightarrow> Some (sys\<lparr>shared := st, sflags := sflags sys @ [c]\<rparr>))
      else None)"
| "mem_act (CloseRecv h) sys =
     (if h < length (rflags sys) then
        let (st, c) = close_receive (rflags sys ! h) (shared sys) in
        Some (sys\<lparr>shared := st, rflags := (rflags sys)[h := c]\<rparr>)
      else None)"
| "mem_act (CloseSend h) sys =
     (if h < length (sflags sys) then
        let (st, c) = close_send (sflags sys ! h) (shared sys) in
        Some (sys\<lparr>shared := st, sflags := (sflags sys)[h := c]\<rparr>)
      else None)"

inductive mem_reach :: "pynum \<Rightarrow> 'a msys \<Rightarrow> bool" for max_size where
  init: "create_memory_object_stream max_size = Inr (st, a, b) \<Longrightarrow> mem_reach max_size (msys_new st)"
| step: "mem_reach max_size sys \<Longrightarrow> mem_act act sys = Some sys' \<Longrightarrow> mem_reach max_size sys'"

fun mem_run :: "'a maction list \<Rightarrow> 'a msys \<Rightarrow> 'a msys option" where
  "mem_run [] sys = Some sys"
| "mem_run (a # as) sys = (case mem_act a sys of None \<Rightarrow> None | Some sys' \<Rightarrow> mem_run as sys')"

lemma mem_run_reach: "mem_reach m sys \<Longrightarrow> mem_run acts sys = Some sys' \<Longrightarrow> mem_reach m sys'"
  by (induction acts arbitrary: sys) (auto split: option.splits intro: mem_reach.step)

subsection \<open>The invariant of the system\<close>

definition wait_events :: "rcall list \<Rightarrow> nat list" where
  "wait_events calls = concat (map (\<lambda>(t, h, pc). case pc of RcvWait e \<Rightarrow> [e] | _ \<Rightarrow> []) calls)"

text \<open>Items that were handed to a waiting receiver that has not run since.\<close>

definition flight :: "(nat \<Rightarrow> 'a option) \<Rightarrow> nat list \<Rightarrow> 'a list" where
  "flight items evs = concat (map (\<lambda>e. case items e of Some x \<Rightarrow> [x] | None \<Rightarrow> []) evs)"

definition in_flight :: "'a msys \<Rightarrow> 'a list" where
  "in_flight sys = flight (item_of (shared sys)) (wait_events (rcalls sys))"

definition count_open :: "bool list \<Rightarrow> int" where
  "count_open flags = int (length (filter Not flags))"

definition balanced :: "'a msys \<Rightarrow> bool" where
  "balanced sys \<longleftrightarrow>
     mset (sent sys) = mset (got sys) + mset (buffer (shared sys)) + mset (in_flight sys)
       + mset (dropped sys)"

definition calls_ok :: "rcall list \<Rightarrow> 'a mstate \<Rightarrow> bool" where
  "calls_ok calls st \<longleftrightarrow>
     distinct (map fst calls) \<and> distinct (wait_events calls)
   \<and> (\<forall>e \<in> set (wait_events calls). e < next_ev st)
   \<and> set (od_keys (waiting_receivers st)) \<subseteq> set (wait_events calls)"

definition msys_ok :: "'a msys \<Rightarrow> bool" where
  "msys_ok sys \<longleftrightarrow>
     mem_ok (shared sys) \<and> calls_ok (rcalls sys) (shared sys) \<and> balanced sys
   \<and> open_receive_channels (shared sys) = count_open (rflags sys)
   \<and> open_send_channels (shared sys) = count_open (sflags sys)"

lemma wait_events_simps [simp]:
  "wait_events [] = []"
  "wait_events ((t, h, RcvCheckpoint) # calls) = wait_events calls"
  "wait_events ((t, h, RcvWait e) # calls) = e # wait_events calls"
  "wait_events (calls @ calls') = wait_events calls @ wait_events calls'"
  by (simp_all add: wait_events_def)

lemma flight_simps [simp]:
  "flight items [] = []"
  "flight items (e # evs) = (case items e of Some x \<Rightarrow> [x] | None \<Rightarrow> []) @ flight items evs"
  "flight items (evs @ evs') = flight items evs @ flight items evs'"
  by (simp_all add: flight_def)

lemma flight_other [simp]: "e \<notin> set evs \<Longrightarrow> flight (items(e := v)) evs = flight items evs"
  by (induction evs) auto

lemma flight_assign:
  "distinct evs \<Longrightarrow> e \<in> set evs \<Longrightarrow> items e = None \<Longrightarrow>
     mset (flight (items(e := Some x)) evs) = add_mset x (mset (flight items evs))"
  by (induction evs) (auto split: option.splits)

lemma count_open_simps [simp]:
  "count_open [] = 0" "count_open (fs @ fs') = count_open fs + count_open fs'"
  "count_open (c # fs) = (if c then 0 else 1) + count_open fs"
  by (simp_all add: count_open_def)

lemma count_open_close: "h < length fs \<Longrightarrow> \<not> fs ! h \<Longrightarrow> count_open (fs[h := True]) = count_open fs - 1"
proof -
  assume h: "h < length fs" "\<not> fs ! h"
  then have "count_open fs = count_open (take h fs @ False # drop (Suc h) fs)"
    by (metis (full_types) id_take_nth_drop)
  with h show ?thesis by (simp add: upd_conv_take_nth_drop)
qed

lemma close_again [simp]: "fs ! h \<Longrightarrow> fs[h := True] = fs"
  by (metis (full_types) list_update_id)

lemma calls_split:
  assumes "distinct (map fst calls)" "map_of calls t = Some v"
  obtains pre post where "calls = pre @ (t, v) # post" "filter (\<lambda>c. fst c \<noteq> t) calls = pre @ post"
proof -
  from assms(2) have "(t, v) \<in> set calls" by (rule map_of_SomeD)
  then obtain pre post where c: "calls = pre @ (t, v) # post" by (auto dest: split_list)
  with assms(1) have "\<forall>x \<in> set pre \<union> set post. fst x \<noteq> t" by auto
  then have "filter (\<lambda>c. fst c \<noteq> t) calls = pre @ post" by (simp add: c filter_id_conv)
  with c show ?thesis by (rule that)
qed

lemma receive_nowait_items [simp]: "item_of (fst (receive_nowait is_closed st)) = item_of st"
  by (auto simp: receive_nowait_def Let_def split: list.splits)

lemma receive_nowait_frame [simp]:
  "open_receive_channels (fst (receive_nowait c st)) = open_receive_channels st"
  "open_send_channels (fst (receive_nowait c st)) = open_send_channels st"
  "waiting_receivers (fst (receive_nowait c st)) = waiting_receivers st"
  by (auto simp: receive_nowait_def Let_def split: list.splits)

lemma receive_nowait_balance:
  "mset (res_list (snd (receive_nowait c st))) + mset (buffer (fst (receive_nowait c st)))
     = mset (buffer st) + mset (moved c st)"
  by (auto simp: receive_nowait_def moved_def res_list_def Let_def split: list.splits)

lemma send_nowait_frame [simp]:
  "open_receive_channels (fst (send_nowait p c x st)) = open_receive_channels st"
  "open_send_channels (fst (send_nowait p c x st)) = open_send_channels st"
  by (auto simp: send_nowait_def Let_def split: prod.splits option.splits)

text \<open>\<open>send_nowait\<close> adds the item to the buffer or to the flight, or changes neither.\<close>

lemma send_nowait_balance:
  assumes ok: "mem_ok st" and calls: "calls_ok calls st"
    and s: "send_nowait p c x st = (st', res)"
  shows "calls_ok calls st'
    \<and> mset (buffer st') + mset (flight (item_of st') (wait_events calls))
      = mset (buffer st) + mset (flight (item_of st) (wait_events calls))
        + (if res = Inr () then {#x#} else {#})"
proof (cases "c \<or> open_receive_channels st = 0")
  case True
  then show ?thesis using s calls by (cases c) (auto simp: send_nowait_def)
next
  case False
  then have open_ends: "\<not> c" "open_receive_channels st \<noteq> 0" by auto
  obtain rest ev where off: "offer p x (waiting_receivers st) = (rest, ev)" by fastforce
  show ?thesis
  proof (cases ev)
    case None
    then show ?thesis
      using s open_ends off send_nowait_buffer [of st p x rest] calls
      by (auto simp: calls_ok_def split: if_splits)
  next
    case (Some e)
    from offer_Some [OF off [unfolded Some]] obtain pre t where
      w: "waiting_receivers st = pre @ (e, t) # rest" by auto
    then have "e \<in> set (wait_events calls)" "item_of st e = None"
      using calls mem_okD(8) [OF ok, of e] by (auto simp: calls_ok_def)
    then show ?thesis
      using s open_ends off send_nowait_handoff [of st p x rest e] calls w Some
        flight_assign [of "wait_events calls" e "item_of st" x]
      by (auto simp: calls_ok_def)
  qed
qed

lemma calls_ok_mono:
  assumes "calls_ok calls st" "next_ev st \<le> next_ev st'"
    "set (od_keys (waiting_receivers st')) \<subseteq> set (od_keys (waiting_receivers st))"
  shows "calls_ok calls st'"
  using assms unfolding calls_ok_def by (meson order_less_le_trans subset_trans)

lemma receive_begin_balance:
  assumes ok: "mem_ok st" and calls: "calls_ok calls st" and new: "t \<notin> fst ` set calls"
    and b: "receive_begin c t st = (st', out)"
    and calls': "calls' = (case out of Suspended pc \<Rightarrow> (t, h, pc) # calls | _ \<Rightarrow> calls)"
  shows "calls_ok calls' st'
    \<and> mset (recv_got out) + mset (buffer st') + mset (flight (item_of st') (wait_events calls'))
      = mset (buffer st) + mset (flight (item_of st) (wait_events calls)) + mset (moved c st)
    \<and> open_receive_channels st' = open_receive_channels st
    \<and> open_send_channels st' = open_send_channels st"
proof -
  obtain st1 res where n: "receive_nowait c st = (st1, res)" by fastforce
  note frame = receive_nowait_frame [of c st] receive_nowait_items [of c st]
    receive_nowait_next_ev [of c st]
  have ok1: "mem_ok st1" using mem_ok_receive_nowait [OF ok, of c] n by simp
  have calls1: "calls_ok calls st1" using calls frame n by (simp add: calls_ok_def)
  have bal: "mset (res_list res) + mset (buffer st1) = mset (buffer st) + mset (moved c st)"
    using receive_nowait_balance [of c st] n by simp
  show ?thesis
  proof (cases "res = Inl WouldBlock")
    case True
    have key: "next_ev st1 \<notin> set (od_keys (waiting_receivers st1))"
      using mem_okD(6) [OF ok1, of "next_ev st1"] by auto
    have ev: "next_ev st1 \<notin> set (wait_events calls)"
      using calls1 by (auto simp: calls_ok_def)
    from True n b have out: "out = Suspended (RcvWait (next_ev st1))"
      and st': "next_ev st' = Suc (next_ev st1)" "buffer st' = buffer st1"
        "item_of st' = (item_of st1)(next_ev st1 := None)"
        "waiting_receivers st' = waiting_receivers st1 @ [(next_ev st1, t)]"
        "open_receive_channels st' = open_receive_channels st1"
        "open_send_channels st' = open_send_channels st1"
      using key by (auto simp: receive_begin_def Let_def od_set_fresh)
    have "calls_ok calls' st'"
      using calls1 new ev unfolding calls' out calls_ok_def st'
      by (auto simp: st' less_Suc_eq image_iff)
    then show ?thesis using bal True frame n ev
      by (simp add: calls' out st' recv_got_def res_list_def)
  next
    case False
    then show ?thesis using b n bal frame calls1 calls'
      by (cases res) (auto simp: receive_begin_def recv_got_def res_list_def split: if_splits)
  qed
qed

lemma receive_wait_balance:
  assumes ok: "mem_ok st" and calls: "calls_ok (pre @ (t, h, RcvWait e) # post) st"
    and r: "receive_resume c t (RcvWait e) r st = (st', out)"
  shows "calls_ok (pre @ post) st' \<and> buffer st' = buffer st
    \<and> mset (recv_got out) + mset (flight (item_of st') (wait_events (pre @ post)))
      + mset (recv_dropped (RcvWait e) r st)
      = mset (flight (item_of st) (wait_events (pre @ (t, h, RcvWait e) # post)))
    \<and> open_receive_channels st' = open_receive_channels st
    \<and> open_send_channels st' = open_send_channels st \<and> (\<forall>pc. out \<noteq> Suspended pc)"
proof -
  have st': "st' = st\<lparr>waiting_receivers := od_pop (waiting_receivers st) e\<rparr>"
    and out: "out = (case r of Thrown x \<Rightarrow> Raised x | Resumed _ \<Rightarrow>
        (case item_of st e of Some x \<Rightarrow> Done x | None \<Rightarrow> Raised EndOfStream))"
    using r by (auto simp: Let_def split: awaited.splits)
  have "calls_ok (pre @ post) st'"
    using calls by (auto simp: calls_ok_def od_keys_pop st')
  moreover have "mset (recv_got out) + mset (recv_dropped (RcvWait e) r st)
      = mset (flight (item_of st) [e])"
    by (simp add: out recv_got_def recv_dropped_def split: awaited.split option.split)
  ultimately show ?thesis
    by (simp add: st' out union_ac split: awaited.split option.split)
qed

lemma send_begin_balance:
  assumes ok: "mem_ok st" and calls: "calls_ok calls st"
    and b: "send_begin p c x st = (st', out)"
  shows "calls_ok calls st'
    \<and> mset (buffer st') + mset (flight (item_of st') (wait_events calls))
      = mset (buffer st) + mset (flight (item_of st) (wait_events calls))
        + (if out = Done () then {#x#} else {#})
    \<and> open_receive_channels st' = open_receive_channels st
    \<and> open_send_channels st' = open_send_channels st"
proof -
  obtain st1 res where n: "send_nowait p c x st = (st1, res)" by fastforce
  note bal = send_nowait_balance [OF ok calls n]
  have frame: "open_receive_channels st1 = open_receive_channels st"
    "open_send_channels st1 = open_send_channels st"
    using send_nowait_frame [of p c x st] by (simp_all add: n)
  show ?thesis
  proof (cases "res = Inl WouldBlock")
    case True
    have "send_begin p c x st =
        (st1\<lparr>next_ev := Suc (next_ev st1), ev_set := (ev_set st1)(next_ev st1 := False),
             waiting_senders := od_set (waiting_senders st1) (next_ev st1) x\<rparr>,
         Suspended (SndWait (next_ev st1)))"
      by (simp add: send_begin_def n Let_def True)
    then have out: "out = Suspended (SndWait (next_ev st1))"
      and st': "next_ev st' = Suc (next_ev st1)" "buffer st' = buffer st1"
        "item_of st' = item_of st1" "waiting_receivers st' = waiting_receivers st1"
        "open_receive_channels st' = open_receive_channels st1"
        "open_send_channels st' = open_send_channels st1"
      unfolding b by simp_all
    have "calls_ok calls st'"
      by (rule calls_ok_mono [of calls st1]) (simp_all add: st' bal)
    then show ?thesis using bal frame True by (simp add: out st')
  next
    case False
    have "send_begin p c x st = (case res of Inl e \<Rightarrow> (st1, Raised e) | Inr u \<Rightarrow> (st1, Done u))"
      using False by (cases res) (simp_all add: send_begin_def n)
    then have "st' = st1" "out = Done () \<longleftrightarrow> res = Inr ()"
      unfolding b by (cases res; simp)+
    then show ?thesis using bal frame by simp
  qed
qed

text \<open>Every action keeps the invariant: one lemma for each kind of action, then all of them.\<close>

lemma msys_ok_recv_resume:
  assumes ok: "msys_ok sys" and act: "mem_act (RecvResume t r) sys = Some sys'"
  shows "msys_ok sys'"
proof -
  from act obtain h pc where m: "map_of (rcalls sys) t = Some (h, pc)"
    by (auto split: option.splits)
  have inv: "mem_ok (shared sys)" "calls_ok (rcalls sys) (shared sys)" "balanced sys"
    "open_receive_channels (shared sys) = count_open (rflags sys)"
    "open_send_channels (shared sys) = count_open (sflags sys)"
    using ok by (auto simp: msys_ok_def)
  obtain pre post where c: "rcalls sys = pre @ (t, h, pc) # post"
    and f: "filter (\<lambda>c. fst c \<noteq> t) (rcalls sys) = pre @ post"
    using calls_split [OF _ m] inv(2) by (auto simp: calls_ok_def)
  obtain st out where rr: "receive_resume (rflags sys ! h) t pc r (shared sys) = (st, out)"
    by fastforce
  have ok': "mem_ok st" using mem_ok_receive_resume [OF inv(1), of "rflags sys ! h" t pc r] rr by simp
  define calls where "calls = (case out of Suspended pc' \<Rightarrow> (t, h, pc') # pre @ post | _ \<Rightarrow> pre @ post)"
  have sys': "sys' = sys\<lparr>shared := st, rcalls := calls,
      sent := sent sys @ recv_sent (rflags sys ! h) pc r (shared sys),
      got := got sys @ recv_got out,
      dropped := dropped sys @ recv_dropped pc r (shared sys)\<rparr>"
    using act m rr by (auto simp: f calls_def Let_def split: if_splits)
  show ?thesis
  proof (cases pc)
    case RcvCheckpoint
    have calls0: "calls_ok (pre @ post) (shared sys)" "t \<notin> fst ` set (pre @ post)"
      using inv(2) by (auto simp: calls_ok_def c RcvCheckpoint)
    show ?thesis
    proof (cases r)
      case (Resumed u)
      then have "receive_begin (rflags sys ! h) t (shared sys) = (st, out)"
        using rr RcvCheckpoint by simp
      from receive_begin_balance [OF inv(1) calls0 this, of calls h] show ?thesis
        using inv(3-5) ok' Resumed
        by (simp add: msys_ok_def balanced_def sys' calls_def RcvCheckpoint recv_sent_def
            recv_dropped_def in_flight_def c union_ac)
    next
      case (Thrown e)
      then show ?thesis
        using inv rr calls0 RcvCheckpoint
        by (auto simp: msys_ok_def balanced_def sys' calls_def recv_sent_def recv_got_def
            recv_dropped_def in_flight_def c)
    qed
  next
    case (RcvWait e)
    from receive_wait_balance [OF inv(1) inv(2) [unfolded c RcvWait] rr [unfolded RcvWait]]
    have w: "calls_ok (pre @ post) st" "buffer st = buffer (shared sys)"
      "mset (recv_got out) + mset (flight (item_of st) (wait_events (pre @ post)))
        + mset (recv_dropped pc r (shared sys))
       = mset (flight (item_of (shared sys)) (wait_events (rcalls sys)))"
      "open_receive_channels st = open_receive_channels (shared sys)"
      "open_send_channels st = open_send_channels (shared sys)" "calls = pre @ post"
      by (auto simp: RcvWait c calls_def split: outcome.splits)
    then show ?thesis
      using inv(3-5) ok' RcvWait
      by (auto simp: msys_ok_def balanced_def sys' recv_sent_def in_flight_def union_ac)
  qed
qed

lemma msys_ok_send_resume:
  assumes ok: "msys_ok sys" and act: "mem_act (SendResume p t r) sys = Some sys'"
  shows "msys_ok sys'"
proof -
  from act obtain h x pc where m: "map_of (scalls sys) t = Some (h, x, pc)"
    by (auto split: option.splits)
  have inv: "mem_ok (shared sys)" "calls_ok (rcalls sys) (shared sys)" "balanced sys"
    "open_receive_channels (shared sys) = count_open (rflags sys)"
    "open_send_channels (shared sys) = count_open (sflags sys)"
    using ok by (auto simp: msys_ok_def)
  obtain st out where rr: "send_resume p (sflags sys ! h) x pc r (shared sys) = (st, out)"
    by fastforce
  have ok': "mem_ok st" using mem_ok_send_resume [OF inv(1), of p "sflags sys ! h" x pc r] rr by simp
  from act m rr obtain calls where sys': "sys' = sys\<lparr>shared := st, scalls := calls,
      sent := sent sys @ (if pc = SndCheckpoint \<and> out = Done () then [x] else [])\<rparr>"
    by (auto simp: Let_def split: if_splits)
  show ?thesis
  proof (cases "pc = SndCheckpoint \<and> r = Resumed ()")
    case True
    then have "send_begin p (sflags sys ! h) x (shared sys) = (st, out)" using rr by simp
    from send_begin_balance [OF inv(1,2) this] show ?thesis
      using inv(3-5) ok' True
      by (simp add: msys_ok_def balanced_def sys' in_flight_def union_ac)
  next
    case False
    then have "buffer st = buffer (shared sys)" "item_of st = item_of (shared sys)"
      "next_ev st = next_ev (shared sys)" "waiting_receivers st = waiting_receivers (shared sys)"
      "open_receive_channels st = open_receive_channels (shared sys)"
      "open_send_channels st = open_send_channels (shared sys)"
      "\<not> (pc = SndCheckpoint \<and> out = Done ())"
      using rr by (cases pc; cases r; auto split: if_splits)+
    then show ?thesis
      using inv ok' by (auto simp: msys_ok_def balanced_def sys' in_flight_def calls_ok_def)
  qed
qed

lemma msys_ok_nowait:
  assumes ok: "msys_ok sys"
  shows "mem_act (RecvNowait h) sys = Some sys' \<Longrightarrow> msys_ok sys'"
    and "mem_act (SendNowait p h x) sys = Some sys' \<Longrightarrow> msys_ok sys'"
proof -
  have inv: "mem_ok (shared sys)" "calls_ok (rcalls sys) (shared sys)" "balanced sys"
    "open_receive_channels (shared sys) = count_open (rflags sys)"
    "open_send_channels (shared sys) = count_open (sflags sys)"
    using ok by (auto simp: msys_ok_def)
  {
    assume act: "mem_act (RecvNowait h) sys = Some sys'"
    obtain st res where n: "receive_nowait (rflags sys ! h) (shared sys) = (st, res)" by fastforce
    note frame = receive_nowait_frame [of "rflags sys ! h" "shared sys"]
      receive_nowait_items [of "rflags sys ! h" "shared sys"]
      receive_nowait_next_ev [of "rflags sys ! h" "shared sys"]
      receive_nowait_balance [of "rflags sys ! h" "shared sys"]
      mem_ok_receive_nowait [OF inv(1), of "rflags sys ! h"]
    show "msys_ok sys'"
      using act frame inv(2-5) unfolding n
      by (auto simp: msys_ok_def balanced_def in_flight_def calls_ok_def n union_ac split: if_splits)
  next
    assume act: "mem_act (SendNowait p h x) sys = Some sys'"
    obtain st res where n: "send_nowait p (sflags sys ! h) x (shared sys) = (st, res)" by fastforce
    note bal = send_nowait_balance [OF inv(1,2) n]
      send_nowait_frame [of p "sflags sys ! h" x "shared sys"]
      mem_ok_send_nowait [OF inv(1), of p "sflags sys ! h" x]
    show "msys_ok sys'"
      using act bal inv(3-5) unfolding n
      by (auto simp: msys_ok_def balanced_def in_flight_def n union_ac split: if_splits)
  }
qed

lemma msys_ok_open_close:
  assumes ok: "msys_ok sys"
  shows "mem_act (CloneRecv h) sys = Some sys' \<Longrightarrow> msys_ok sys'"
    and "mem_act (CloneSend h) sys = Some sys' \<Longrightarrow> msys_ok sys'"
    and "mem_act (CloseRecv h) sys = Some sys' \<Longrightarrow> msys_ok sys'"
    and "mem_act (CloseSend h) sys = Some sys' \<Longrightarrow> msys_ok sys'"
proof -
  have inv: "mem_ok (shared sys)" "calls_ok (rcalls sys) (shared sys)" "balanced sys"
    "open_receive_channels (shared sys) = count_open (rflags sys)"
    "open_send_channels (shared sys) = count_open (sflags sys)"
    using ok by (auto simp: msys_ok_def)
  note clone = clone_receive_def clone_send_def receive_post_init_def send_post_init_def
  note close = close_receive_def close_send_def
  note inv_defs = msys_ok_def balanced_def in_flight_def calls_ok_def
  show "mem_act (CloneRecv h) sys = Some sys' \<Longrightarrow> msys_ok sys'"
    using inv mem_ok_post_init(1) [OF inv(1)]
    by (auto simp: clone inv_defs split: if_splits)
  show "mem_act (CloneSend h) sys = Some sys' \<Longrightarrow> msys_ok sys'"
    using inv mem_ok_post_init(2) [OF inv(1)]
    by (auto simp: clone inv_defs split: if_splits)
  show "mem_act (CloseRecv h) sys = Some sys' \<Longrightarrow> msys_ok sys'"
    using inv mem_ok_close(1) [OF inv(1), of "rflags sys ! h"] count_open_close [of h "rflags sys"]
    by (cases "rflags sys ! h") (auto simp: close inv_defs Let_def list_update_same_conv split: if_splits)
  show "mem_act (CloseSend h) sys = Some sys' \<Longrightarrow> msys_ok sys'"
    using inv mem_ok_close(2) [OF inv(1), of "sflags sys ! h"] count_open_close [of h "sflags sys"]
    by (cases "sflags sys ! h") (auto simp: close inv_defs Let_def list_update_same_conv split: if_splits)
qed

lemma msys_ok_start:
  assumes ok: "msys_ok sys"
  shows "mem_act (RecvStart t h) sys = Some sys' \<Longrightarrow> msys_ok sys'"
    and "mem_act (SendStart t h x) sys = Some sys' \<Longrightarrow> msys_ok sys'"
  using ok by (auto simp: msys_ok_def balanced_def in_flight_def calls_ok_def map_of_eq_None_iff
      split: if_splits)

lemma msys_ok_act: "msys_ok sys \<Longrightarrow> mem_act act sys = Some sys' \<Longrightarrow> msys_ok sys'"
  by (cases act) (blast intro: msys_ok_nowait msys_ok_start msys_ok_recv_resume
      msys_ok_send_resume msys_ok_open_close)+

lemma msys_ok_init: "create_memory_object_stream m = Inr (st, a, b) \<Longrightarrow> msys_ok (msys_new st)"
  using mem_ok_create [of m st a b]
  by (auto simp: create_memory_object_stream_def Let_def send_post_init_def receive_post_init_def
      mstate_new_def msys_new_def msys_ok_def balanced_def in_flight_def calls_ok_def split: if_splits)

lemma mem_reach_ok: "mem_reach m sys \<Longrightarrow> msys_ok sys"
  by (induction rule: mem_reach.induct) (auto intro: msys_ok_act msys_ok_init)

lemma receive_nowait_max: "max_buffer_size (fst (receive_nowait c st)) = max_buffer_size st"
  by (auto simp: receive_nowait_def Let_def split: list.splits)

lemma send_nowait_max: "max_buffer_size (fst (send_nowait p c x st)) = max_buffer_size st"
  by (auto simp: send_nowait_def Let_def split: prod.splits option.splits)

lemma receive_resume_max: "max_buffer_size (fst (receive_resume c t pc r st)) = max_buffer_size st"
  using receive_nowait_max [of c st]
  by (cases pc; cases r) (auto simp: receive_begin_def Let_def split: prod.splits sum.splits)

lemma send_resume_max: "max_buffer_size (fst (send_resume p c x pc r st)) = max_buffer_size st"
  using send_nowait_max [of p c x st]
  by (cases pc; cases r) (auto simp: send_begin_def Let_def split: prod.splits sum.splits)

lemma mem_act_max:
  assumes "mem_act act sys = Some sys'"
  shows "max_buffer_size (shared sys') = max_buffer_size (shared sys)"
proof (cases act)
  case (RecvNowait h)
  then show ?thesis using assms receive_nowait_max [of "rflags sys ! h" "shared sys"]
    by (auto split: if_splits prod.splits)
next
  case (RecvResume t r)
  then show ?thesis using assms
    by (auto simp: Let_def split: if_splits prod.splits option.splits
        dest: arg_cong [where f = fst] intro: receive_resume_max [THEN subst])
      (metis fst_conv receive_resume_max)+
next
  case (SendNowait p h x)
  then show ?thesis using assms send_nowait_max [of p "sflags sys ! h" x "shared sys"]
    by (auto split: if_splits prod.splits)
next
  case (SendResume p t r)
  then show ?thesis using assms
    by (auto simp: Let_def split: if_splits prod.splits option.splits)
      (metis fst_conv send_resume_max)+
qed (use assms in \<open>auto simp: clone_receive_def clone_send_def receive_post_init_def
    send_post_init_def close_receive_def close_send_def Let_def split: if_splits\<close>)

lemma mem_reach_max: "mem_reach m sys \<Longrightarrow> max_buffer_size (shared sys) = m"
  by (induction rule: mem_reach.induct)
    (auto simp: mem_act_max msys_new_def create_memory_object_stream_def Let_def send_post_init_def
      receive_post_init_def mstate_new_def split: if_splits)

section \<open>Interfaces the stream provides\<close>

text \<open>
  While no task waits, a stream whose receiving end is open is a FIFO channel.
\<close>

interpretation mchan: fifo_channel
  "\<lambda>st. mem_ok st \<and> waiting_receivers st = [] \<and> waiting_senders st = [] \<and> open_receive_channels st \<noteq> 0"
  mqueue "\<lambda>x st. send_nowait (\<lambda>_. False) False x st" "\<lambda>st. receive_nowait False st"
proof
  fix st st' :: "'a mstate" and x
  assume ok: "mem_ok st \<and> waiting_receivers st = [] \<and> waiting_senders st = [] \<and> open_receive_channels st \<noteq> 0"
    and s: "send_nowait (\<lambda>_. False) False x st = (st', Inr ())"
  then have "st' = st\<lparr>buffer := buffer st @ [x]\<rparr>"
    by (auto simp: send_nowait_def Let_def split: if_splits)
  with ok s mem_ok_send_nowait [of st "\<lambda>_. False" False x]
  show "(mem_ok st' \<and> waiting_receivers st' = [] \<and> waiting_senders st' = [] \<and> open_receive_channels st' \<noteq> 0)
      \<and> mqueue st' = mqueue st @ [x]"
    by (simp add: mqueue_def)
next
  fix st :: "'a mstate" and x xs
  assume ok: "mem_ok st \<and> waiting_receivers st = [] \<and> waiting_senders st = [] \<and> open_receive_channels st \<noteq> 0"
    and q: "mqueue st = x # xs"
  then have "receive_nowait False st = (st\<lparr>buffer := xs\<rparr>, Inr x)"
    by (auto simp: receive_nowait_def mqueue_def)
  with ok q mem_ok_receive_nowait [of st False]
  show "\<exists>st'. receive_nowait False st = (st', Inr x) \<and>
      (mem_ok st' \<and> waiting_receivers st' = [] \<and> waiting_senders st' = [] \<and> open_receive_channels st' \<noteq> 0)
      \<and> mqueue st' = xs"
    by (auto simp: mqueue_def)
next
  fix st :: "'a mstate"
  assume "mem_ok st \<and> waiting_receivers st = [] \<and> waiting_senders st = [] \<and> open_receive_channels st \<noteq> 0"
    and "mqueue st = []"
  then show "\<exists>e. receive_nowait False st = (st, Inl e)"
    by (simp add: receive_nowait_empty)
qed

section \<open>Properties\<close>

text \<open>
  C1: In every state a memory object stream can reach, under any interleaving of sends,
  receives, their blocking variants with cancellations, clones and closes, the items that
  entered the stream are exactly (with multiplicity) those receivers got, those in the buffer,
  those handed to a receiver that has not run yet and those handed to a receiver whose wait was
  then cancelled: no item is duplicated, none is invented, none is lost any other way.
\<close>

theorem mem_conservation:
  assumes "mem_reach m sys"
  shows "mset (sent sys) = mset (got sys) + mset (buffer (shared sys)) + mset (in_flight sys)
    + mset (dropped sys)"
  using mem_reach_ok [OF assms] by (simp add: msys_ok_def balanced_def)

abbreviation example_run :: "nat maction list" where
  "example_run \<equiv> [SendNowait (\<lambda>_. False) 0 7, RecvNowait 0, RecvStart 1 0, RecvResume 1 (Resumed ()),
     SendNowait (\<lambda>_. False) 0 8, RecvResume 1 (Resumed ())]"

lemma example_create:
  "create_memory_object_stream (PyInt 1) =
     Inr ((mstate_new (PyInt 1))\<lparr>open_send_channels := 1, open_receive_channels := 1\<rparr>, False, False)"
  by (simp add: create_memory_object_stream_def send_post_init_def receive_post_init_def
      mstate_new_def)

lemmas example_reach = mem_run_reach [OF mem_reach.init [OF example_create]]

lemmas mem_run_simps = msys_new_def mstate_new_def receive_nowait_def send_nowait_def
  receive_begin_def send_begin_def res_list_def recv_sent_def recv_got_def recv_dropped_def
  moved_def ready_def sready_def od_has_def close_send_def close_receive_def set_events_def

theorem mem_conservation_witness:
  "\<exists>sys. mem_reach (PyInt 1) sys \<and> got sys = [7, 8::nat] \<and>
     mset (sent sys) = mset (got sys) + mset (buffer (shared sys)) + mset (in_flight sys)
       + mset (dropped sys)"
proof -
  obtain sys where run: "mem_run example_run (msys_new ((mstate_new (PyInt 1))
      \<lparr>open_send_channels := 1, open_receive_channels := 1\<rparr>)) = Some sys" and got: "got sys = [7, 8::nat]"
    by (simp add: mem_run_simps Let_def)
  from example_reach [OF run] have "mem_reach (PyInt 1) sys" .
  with got mem_conservation [OF this] show ?thesis by blast
qed

text \<open>
  C2: In every reachable state the buffer holds at most \<open>max_buffer_size\<close> items, a task waits in
  \<open>receive\<close> only while there is nothing to receive (empty buffer, no waiting sender), a task
  waits in \<open>send\<close> only while the buffer is full, and the two open-channel counters equal the
  numbers of stream objects that are not closed.
\<close>

theorem mem_waits_only_when_needed:
  assumes "mem_reach m sys"
  shows "len_float (buffer (shared sys)) \<le> num_float m
    \<and> (waiting_receivers (shared sys) = [] \<or> mqueue (shared sys) = [])
    \<and> (waiting_senders (shared sys) = [] \<or> len_float (buffer (shared sys)) = num_float m)
    \<and> open_receive_channels (shared sys) = count_open (rflags sys)
    \<and> open_send_channels (shared sys) = count_open (sflags sys)"
  using mem_reach_ok [OF assms] mem_reach_max [OF assms]
  by (auto simp: msys_ok_def mem_ok_def mqueue_def intro: antisym)

theorem mem_waits_only_when_needed_witness:
  "\<exists>sys. mem_reach (PyInt 1) sys \<and> got sys = [7::nat]
     \<and> len_float (buffer (shared sys)) \<le> num_float (PyInt 1)
     \<and> waiting_receivers (shared sys) \<noteq> [] \<and> mqueue (shared sys) = []"
proof -
  obtain sys where run: "mem_run (take 4 example_run) (msys_new ((mstate_new (PyInt 1))
      \<lparr>open_send_channels := 1, open_receive_channels := 1\<rparr>)) = Some sys" and got: "got sys = [7::nat]"
    and w: "waiting_receivers (shared sys) \<noteq> []"
    by (simp add: mem_run_simps Let_def)
  from example_reach [OF run] have "mem_reach (PyInt 1) sys" .
  with got w mem_waits_only_when_needed [OF this] show ?thesis by blast
qed

text \<open>
  The stream refines a FIFO queue of items (the buffer followed by the items of waiting
  senders): on an open stream \<open>receive_nowait\<close> returns the head of the queue and leaves its
  tail, and on an empty queue changes nothing and raises \<open>EndOfStream\<close> when every send stream is
  closed and \<open>WouldBlock\<close> otherwise; a closed stream raises \<open>ClosedResourceError\<close>.
\<close>

theorem receive_nowait_refines_queue:
  "(case mqueue st of
      x # q \<Rightarrow> snd (receive_nowait False st) = Inr x \<and> mqueue (fst (receive_nowait False st)) = q
    | [] \<Rightarrow> receive_nowait False st =
        (st, Inl (if open_send_channels st = 0 then EndOfStream else WouldBlock)))
   \<and> receive_nowait True st = (st, Inl ClosedResourceError)"
proof (cases "mqueue st")
  case Nil
  then show ?thesis using receive_nowait_empty [of False st] by (simp add: receive_nowait_def)
next
  case (Cons x q)
  then show ?thesis using receive_nowait_item [of False st x q] by (auto simp: receive_nowait_def)
qed

text \<open>
  \<open>send_nowait\<close> on an open stream gives the item to the first waiting receiver whose task has
  no pending cancellation (assigning it and setting its event, and dropping the receivers before
  it from the queue); without such a receiver it appends the item to the buffer if there is room
  and raises \<open>WouldBlock\<close> otherwise; a closed stream raises \<open>ClosedResourceError\<close> and a stream
  without open receivers \<open>BrokenResourceError\<close>, and neither changes the state.
\<close>

theorem send_nowait_spec:
  "send_nowait pend True x st = (st, Inl ClosedResourceError)
   \<and> send_nowait pend False x st =
      (if open_receive_channels st = 0 then (st, Inl BrokenResourceError)
       else case dropWhile (\<lambda>(ev, t). pend t) (waiting_receivers st) of
         (ev, t) # rest \<Rightarrow>
           (st\<lparr>waiting_receivers := rest, item_of := (item_of st)(ev := Some x),
               ev_set := (ev_set st)(ev := True)\<rparr>, Inr ())
       | [] \<Rightarrow>
           (if len_float (buffer st) < num_float (max_buffer_size st)
            then (st\<lparr>waiting_receivers := [], buffer := buffer st @ [x]\<rparr>, Inr ())
            else (st\<lparr>waiting_receivers := []\<rparr>, Inl WouldBlock)))"
proof (cases "dropWhile (\<lambda>(ev, t). pend t) (waiting_receivers st)")
  case Nil
  then show ?thesis by (simp only: send_nowait_def offer_spec Let_def) simp
next
  case (Cons r rest)
  then show ?thesis by (cases r) (simp add: send_nowait_def offer_spec)
qed

text \<open>
  Closing the last open send stream ends every wait in \<open>receive\<close>: the event of each waiting
  receiver is set and the call, when it resumes, raises \<open>EndOfStream\<close>. Closing the last open
  receive stream ends every wait in \<open>send\<close>: its event is set and the call raises
  \<open>BrokenResourceError\<close> and takes its item back out of the queue.
\<close>

theorem close_ends_waits:
  assumes "mem_ok st"
  shows "(open_send_channels st = 1 \<and> (ev, t) \<in> set (waiting_receivers st) \<longrightarrow>
      ev_set (fst (close_send False st)) ev
      \<and> snd (receive_resume c t (RcvWait ev) (Resumed ()) (fst (close_send False st)))
        = Raised EndOfStream)
   \<and> (open_receive_channels st = 1 \<and> (ev, x) \<in> set (waiting_senders st) \<longrightarrow>
      ev_set (fst (close_receive False st)) ev
      \<and> snd (send_resume p c x (SndWait ev) (Resumed ()) (fst (close_receive False st)))
        = Raised BrokenResourceError
      \<and> ev \<notin> set (od_keys (waiting_senders
          (fst (send_resume p c x (SndWait ev) (Resumed ()) (fst (close_receive False st)))))))"
proof (intro conjI impI; elim conjE)
  assume "open_send_channels st = 1" and w: "(ev, t) \<in> set (waiting_receivers st)"
  moreover from w have k: "ev \<in> set (od_keys (waiting_receivers st))" by (force simp: od_keys_def)
  moreover from mem_okD(8) [OF assms k] have "item_of st ev = None" by blast
  ultimately show "ev_set (fst (close_send False st)) ev"
    and "snd (receive_resume c t (RcvWait ev) (Resumed ()) (fst (close_send False st)))
        = Raised EndOfStream"
    by (simp_all add: close_send_def Let_def)
next
  assume "open_receive_channels st = 1" and w: "(ev, x) \<in> set (waiting_senders st)"
  moreover from w have "ev \<in> set (od_keys (waiting_senders st))" by (force simp: od_keys_def)
  ultimately show "ev_set (fst (close_receive False st)) ev"
    and "snd (send_resume p c x (SndWait ev) (Resumed ()) (fst (close_receive False st)))
        = Raised BrokenResourceError"
    and "ev \<notin> set (od_keys (waiting_senders
          (fst (send_resume p c x (SndWait ev) (Resumed ()) (fst (close_receive False st))))))"
    by (simp_all add: close_receive_def Let_def od_has_def od_keys_pop)
qed

theorem close_ends_waits_witness:
  "let st = (mstate_new (PyInt 0))\<lparr>open_send_channels := 1, waiting_receivers := [(3, 5)], next_ev := 4\<rparr> in
     snd (receive_resume False 5 (RcvWait 3) (Resumed ()) (fst (close_send False st)))
       = (Raised EndOfStream :: (rcv_pc, nat) outcome)"
proof -
  define st :: "nat mstate" where
    "st = (mstate_new (PyInt 0))\<lparr>open_send_channels := 1, waiting_receivers := [(3, 5)], next_ev := 4\<rparr>"
  have "mem_ok st" "open_send_channels st = 1" "(3, 5) \<in> set (waiting_receivers st)"
    by (simp_all add: st_def mem_ok_def mstate_new_def)
  with close_ends_waits [of st 3 5 False undefined undefined]
  have "snd (receive_resume False 5 (RcvWait 3) (Resumed ()) (fst (close_send False st))) = Raised EndOfStream"
    by blast
  then show ?thesis unfolding Let_def st_def .
qed

text \<open>
  What is put into an empty stream with \<open>send_nowait\<close> comes out of \<open>receive_nowait\<close> in the
  order it was put in, and leaves the stream empty.
\<close>

theorem mem_fifo:
  assumes "mem_ok st" "waiting_receivers st = []" "mqueue st = []" "open_receive_channels st \<noteq> 0"
    and "mchan.put_all xs st = Some st'"
  shows "\<exists>st''. mchan.get_n (length xs) st' = Some (xs, st'') \<and> mqueue st'' = []"
  using mchan.put_get [of st xs st'] assms by (auto simp: mqueue_def)

theorem mem_fifo_witness:
  "\<exists>st' st''. mchan.put_all [1, 2::nat] ((mstate_new (PyInt 2))\<lparr>open_receive_channels := 1\<rparr>) = Some st'
     \<and> mchan.get_n 2 st' = Some ([1, 2], st'') \<and> mqueue st'' = []"
proof -
  let ?st = "(mstate_new (PyInt 2))\<lparr>open_receive_channels := 1\<rparr>"
  obtain st' where p: "mchan.put_all [1, 2::nat] ?st = Some st'"
    by (simp add: mchan.put_all.simps) (simp add: mem_run_simps)
  have "mem_ok ?st" by (simp add: mem_ok_def mstate_new_def)
  from mem_fifo [OF this _ _ _ p] p show ?thesis by (simp add: mqueue_def mstate_new_def numeral_2_eq_2)
qed

end
