(* ===== verification/FileStream.thy ===== *)
theory FileStream
  imports Interfaces
begin

text \<open>
  File streams: \<open>src/anyio/streams/file.py\<close>.

  \<open>binary_io\<close> is what the streams use of the standard library's \<open>BinaryIO\<close>: the bytes of the
  file, the position, whether it is open, in append mode, seekable, and (for the error paths)
  the \<open>errno\<close> the operating system answers the next calls with. Each method hands one call of
  the file to \<open>to_thread.run_sync\<close>, which either runs it or is cancelled before it runs:
  \<open>run_sync_call\<close>. The worker threads themselves are modelled in \<open>WorkerThreads\<close>.
\<close>

section \<open>The file object\<close>

record binary_io =
  f_data :: bytes
  f_pos :: nat
  f_closed :: bool
  f_append :: bool
  f_name :: "string option"
  f_fileno :: "int option"
  f_errno :: "nat option"

type_synonym 'a file_op = "binary_io \<Rightarrow> binary_io \<times> 'a res"

definition guarded :: "'a file_op \<Rightarrow> 'a file_op" where
  "guarded op f =
     (if f_closed f then (f, Inl (ValueError ''I/O operation on closed file''))
      else case f_errno f of Some e \<Rightarrow> (f, Inl (OSError e)) | None \<Rightarrow> op f)"

text \<open>\<open>read(n)\<close>: at most \<open>n\<close> bytes from the position on; all of them when \<open>n\<close> is negative.\<close>

definition file_read :: "int \<Rightarrow> bytes file_op" where
  "file_read n = guarded (\<lambda>f.
     let chunk = (if n < 0 then drop (f_pos f) (f_data f) else take (nat n) (drop (f_pos f) (f_data f)))
     in (f\<lparr>f_pos := f_pos f + length chunk\<rparr>, Inr chunk))"

text \<open>
  \<open>write(b)\<close> overwrites from the position on (a gap is filled with zeros); in append mode it
  writes at the end.
\<close>

definition file_write :: "bytes \<Rightarrow> int file_op" where
  "file_write b = guarded (\<lambda>f.
     let p = (if f_append f then length (f_data f) else f_pos f);
         d = f_data f @ replicate (p - length (f_data f)) 0
     in (f\<lparr>f_data := take p d @ b @ drop (p + length b) d, f_pos := p + length b\<rparr>, Inr (int (length b))))"

definition file_seek :: "int \<Rightarrow> int \<Rightarrow> int file_op" where
  "file_seek position whence = guarded (\<lambda>f.
     if whence \<notin> {0, 1, 2} then (f, Inl (ValueError ''invalid whence''))
     else
       let base = (if whence = 0 then 0 else if whence = 1 then int (f_pos f) else int (length (f_data f)));
           p = base + position
       in if p < 0 then (f, Inl (OSError 22)) else (f\<lparr>f_pos := nat p\<rparr>, Inr p))"

definition file_tell :: "int file_op" where
  "file_tell = guarded (\<lambda>f. (f, Inr (int (f_pos f))))"

definition file_close :: "unit file_op" where
  "file_close f = (f\<lparr>f_closed := True\<rparr>, Inr ())"

text \<open>\<open>Path(path).open(mode)\<close> on a file system.\<close>

datatype open_mode = ModeRb | ModeAb | ModeWb

definition path_open :: "(string \<rightharpoonup> bytes) \<Rightarrow> string \<Rightarrow> open_mode \<Rightarrow> binary_io res" where
  "path_open fs path mode =
     (case mode of
        ModeRb \<Rightarrow> (case fs path of
            None \<Rightarrow> Inl (OSError 2)
          | Some d \<Rightarrow> Inr \<lparr>f_data = d, f_pos = 0, f_closed = False, f_append = False,
              f_name = Some path, f_fileno = Some 3, f_errno = None\<rparr>)
      | ModeAb \<Rightarrow> (let d = (case fs path of None \<Rightarrow> [] | Some d \<Rightarrow> d) in
            Inr \<lparr>f_data = d, f_pos = length d, f_closed = False, f_append = True,
              f_name = Some path, f_fileno = Some 3, f_errno = None\<rparr>)
      | ModeWb \<Rightarrow> Inr \<lparr>f_data = [], f_pos = 0, f_closed = False, f_append = False,
              f_name = Some path, f_fileno = Some 3, f_errno = None\<rparr>)"

section \<open>The streams\<close>

text \<open>
  \<open>to_thread.run_sync(f.method, ...)\<close>: the call is cancelled at one of the checkpoints before
  the worker starts (\<open>Some e\<close>), or runs to its end (a cancellation while it runs waits for it).
\<close>

definition run_sync_call :: "exn option \<Rightarrow> 'a file_op \<Rightarrow> 'a file_op" where
  "run_sync_call cancelled op f = (case cancelled of Some e \<Rightarrow> (f, Inl e) | None \<Rightarrow> op f)"

definition file_aclose :: "exn option \<Rightarrow> unit file_op" where
  "file_aclose c = run_sync_call c file_close"

datatype file_attr = AttrFile | AttrPath string | AttrFileno int

definition file_extra_attributes :: "binary_io \<Rightarrow> file_attr list" where
  "file_extra_attributes f =
     [AttrFile]
     @ (case f_name f of Some n \<Rightarrow> [AttrPath n] | None \<Rightarrow> [])
     @ (case f_fileno f of None \<Rightarrow> [] | Some n \<Rightarrow> [AttrFileno n])"

definition read_from_path :: "exn option \<Rightarrow> (string \<rightharpoonup> bytes) \<Rightarrow> string \<Rightarrow> binary_io res" where
  "read_from_path c fs path = (case c of Some e \<Rightarrow> Inl e | None \<Rightarrow> path_open fs path ModeRb)"

definition write_from_path :: "exn option \<Rightarrow> (string \<rightharpoonup> bytes) \<Rightarrow> string \<Rightarrow> bool \<Rightarrow> binary_io res" where
  "write_from_path c fs path append_mode =
     (let mode = (if append_mode then ModeAb else ModeWb) in
      case c of Some e \<Rightarrow> Inl e | None \<Rightarrow> path_open fs path mode)"

text \<open>The two \<open>except\<close> clauses \<open>receive\<close> and \<open>send\<close> share.\<close>

fun file_error :: "exn \<Rightarrow> exn" where
  "file_error (ValueError _) = ClosedResourceError"
| "file_error (OSError _) = BrokenResourceError"
| "file_error e = e"

definition file_receive :: "exn option \<Rightarrow> int \<Rightarrow> bytes file_op" where
  "file_receive c max_bytes f =
     (case run_sync_call c (file_read max_bytes) f of
        (f', Inl e) \<Rightarrow> (f', Inl (file_error e))
      | (f', Inr data) \<Rightarrow> (f', if data \<noteq> [] then Inr data else Inl EndOfStream))"

definition stream_seek :: "exn option \<Rightarrow> int \<Rightarrow> int \<Rightarrow> int file_op" where
  "stream_seek c position whence = run_sync_call c (file_seek position whence)"

definition stream_tell :: "exn option \<Rightarrow> int file_op" where
  "stream_tell c = run_sync_call c file_tell"

definition file_send :: "exn option \<Rightarrow> bytes \<Rightarrow> unit file_op" where
  "file_send c item f =
     (case run_sync_call c (file_write item) f of
        (f', Inl e) \<Rightarrow> (f', Inl (file_error e))
      | (f', Inr _) \<Rightarrow> (f', Inr ()))"

section \<open>A file read stream is a source of bytes\<close>

definition file_rest :: "binary_io \<Rightarrow> bytes" where
  "file_rest f = drop (f_pos f) (f_data f)"

definition file_ok :: "binary_io \<Rightarrow> bool" where
  "file_ok f \<longleftrightarrow> \<not> f_closed f \<and> f_errno f = None"

definition file_source :: "nat \<Rightarrow> bytes file_op" where
  "file_source n f = file_receive None (int n) f"

lemma file_source_eq:
  "file_ok f \<Longrightarrow> file_source n f =
     (let chunk = take n (file_rest f) in
      (f\<lparr>f_pos := f_pos f + length chunk\<rparr>, if chunk \<noteq> [] then Inr chunk else Inl EndOfStream))"
  by (simp add: file_source_def file_receive_def run_sync_call_def file_read_def guarded_def
      file_ok_def file_rest_def Let_def)

lemma file_rest_advance:
  "k \<le> length (file_rest f) \<Longrightarrow> file_rest (f\<lparr>f_pos := f_pos f + k\<rparr>) = drop k (file_rest f)"
  by (simp add: file_rest_def add.commute)

interpretation fsrc: byte_source file_ok file_rest file_source
proof
  fix f :: binary_io and n :: nat
  assume f: "file_ok f" "0 < n"
  {
    assume ne: "file_rest f \<noteq> []"
    let ?c = "take n (file_rest f)"
    let ?f = "f\<lparr>f_pos := f_pos f + length ?c\<rparr>"
    have "file_source n f = (?f, Inr ?c)" and "?c \<noteq> []"
      using f ne by (simp_all add: file_source_eq Let_def)
    moreover have "file_rest f = ?c @ file_rest ?f"
      using file_rest_advance [of "length ?c" f] by (simp add: min_def)
    moreover have "file_ok ?f" using f by (simp add: file_ok_def)
    ultimately show "\<exists>f' c. file_source n f = (f', Inr c) \<and> file_ok f' \<and> c \<noteq> [] \<and> length c \<le> n
        \<and> file_rest f = c @ file_rest f'"
      by (intro exI [of _ ?f] exI [of _ ?c]) simp
  }
  assume "file_rest f = []"
  then show "\<exists>f'. file_source n f = (f', Inl EndOfStream) \<and> file_ok f' \<and> file_rest f' = []"
    using f by (simp add: file_source_eq Let_def)
qed

section \<open>Properties\<close>

text \<open>
  Reading a file that was opened with \<open>FileReadStream.from_path\<close> until \<open>EndOfStream\<close>, with any
  positive chunk size, gives exactly the bytes of the file, in order.
\<close>

theorem file_read_all:
  assumes "fs path = Some d" "0 < n" "length d < k"
  shows "\<exists>f. read_from_path None fs path = Inr f \<and> fst (fsrc.drain k n f) = d"
proof -
  let ?f = "\<lparr>f_data = d, f_pos = 0, f_closed = False, f_append = False, f_name = Some path,
    f_fileno = Some 3, f_errno = None\<rparr>"
  have "file_ok ?f" "file_rest ?f = d" by (simp_all add: file_ok_def file_rest_def)
  then have "fst (fsrc.drain k n ?f) = d" using fsrc.drain_all [of ?f n k] assms by simp
  then show ?thesis using assms(1) by (simp add: read_from_path_def path_open_def)
qed

theorem file_read_all_witness:
  "\<exists>f. read_from_path None [''a'' \<mapsto> [1, 2, 3]] ''a'' = Inr f \<and> fst (fsrc.drain 4 2 f) = [1, 2, 3]"
  by (rule file_read_all) simp_all

definition send_two :: "bytes \<Rightarrow> bytes \<Rightarrow> binary_io \<Rightarrow> binary_io" where
  "send_two a b f = fst (file_send None b (fst (file_send None a f)))"

text \<open>
  What \<open>FileWriteStream.send\<close> writes, \<open>FileReadStream.receive\<close> reads back: sending \<open>a\<close> then
  \<open>b\<close> to a new file leaves \<open>a @ b\<close> in it, and in append mode \<open>old @ a @ b\<close>; on a closed file
  both methods raise \<open>ClosedResourceError\<close>, on an operating system error \<open>BrokenResourceError\<close>,
  and a cancelled call leaves the file as it was.
\<close>

theorem file_send_spec:
  "map_option f_data (case write_from_path None fs path append_mode of Inr f \<Rightarrow> Some (send_two a b f) | Inl _ \<Rightarrow> None)
     = Some ((if append_mode then (case fs path of Some d \<Rightarrow> d | None \<Rightarrow> []) else []) @ a @ b)
   \<and> file_send None a (f\<lparr>f_closed := True\<rparr>) = (f\<lparr>f_closed := True\<rparr>, Inl ClosedResourceError)
   \<and> file_receive None n (f\<lparr>f_closed := True\<rparr>) = (f\<lparr>f_closed := True\<rparr>, Inl ClosedResourceError)
   \<and> file_send None a (f\<lparr>f_closed := False, f_errno := Some e\<rparr>)
     = (f\<lparr>f_closed := False, f_errno := Some e\<rparr>, Inl BrokenResourceError)
   \<and> file_receive None n (f\<lparr>f_closed := False, f_errno := Some e\<rparr>)
     = (f\<lparr>f_closed := False, f_errno := Some e\<rparr>, Inl BrokenResourceError)
   \<and> file_send (Some (CancelledError m x)) a f = (f, Inl (CancelledError m x))"
  by (simp add: write_from_path_def path_open_def send_two_def file_send_def run_sync_call_def
      file_write_def guarded_def file_receive_def file_read_def Let_def split: option.splits)

end
