(* ===== verification/Buffered.thy ===== *)
theory Buffered
  imports FileStream
begin

text \<open>
  \<open>BufferedByteReceiveStream\<close>: \<open>src/anyio/streams/buffered.py\<close>.

  The state is the \<open>_buffer\<close> and \<open>_closed\<close> attributes and whether the wrapped stream is a
  \<open>ByteReceiveStream\<close> (the \<open>isinstance\<close> test). The wrapped stream is whatever the methods await:
  \<open>buf_request\<close> is the argument of the pending \<open>receive\<close> call (\<open>None\<close>: called without one), and
  \<open>buf_run\<close> answers the requests with a receive function until the method ends. The lemmas hold
  over every wrapped stream that meets the contract \<open>byte_source\<close>.
\<close>

record 'b bstate =
  bs_buffer :: "'b list"
  bs_closed :: bool
  bs_bytes :: bool

definition bstate_new :: "bool \<Rightarrow> 'b bstate" where
  "bstate_new is_bytes = \<lparr>bs_buffer = [], bs_closed = False, bs_bytes = is_bytes\<rparr>"

datatype 'b bpc = InReceive int | InExactly int int | InUntil "'b list" int nat

section \<open>The methods\<close>

definition buf_aclose_resume :: "unit awaited \<Rightarrow> 'b bstate \<Rightarrow> 'b bstate \<times> unit res" where
  "buf_aclose_resume r st =
     (case r of Thrown e \<Rightarrow> (st, Inl e) | Resumed _ \<Rightarrow> (st\<lparr>bs_closed := True\<rparr>, Inr ()))"

definition buf_receive_start :: "int \<Rightarrow> 'b bstate \<Rightarrow> 'b bstate \<times> ('b bpc, 'b list) outcome" where
  "buf_receive_start max_bytes st =
     (if bs_closed st then (st, Raised ClosedResourceError)
      else if bs_buffer st \<noteq> [] then
        (st\<lparr>bs_buffer := slice_from (bs_buffer st) max_bytes\<rparr>, Done (slice_to (bs_buffer st) max_bytes))
      else (st, Suspended (InReceive max_bytes)))"

text \<open>The loop of \<open>receive_exactly\<close> up to its next await.\<close>

definition receive_exactly_step :: "int \<Rightarrow> 'b bstate \<Rightarrow> 'b bstate \<times> ('b bpc, 'b list) outcome" where
  "receive_exactly_step nbytes st =
     (let remaining = nbytes - int (length (bs_buffer st)) in
      if remaining \<le> 0 then
        (st\<lparr>bs_buffer := slice_from (bs_buffer st) nbytes\<rparr>, Done (slice_to (bs_buffer st) nbytes))
      else (st, Suspended (InExactly nbytes remaining)))"

text \<open>The loop of \<open>receive_until\<close> up to its next await.\<close>

definition receive_until_step ::
  "'b list \<Rightarrow> int \<Rightarrow> nat \<Rightarrow> 'b bstate \<Rightarrow> 'b bstate \<times> ('b bpc, 'b list) outcome" where
  "receive_until_step delimiter max_bytes offset st =
     (case py_find (bs_buffer st) delimiter offset of
        Some index \<Rightarrow>
          (st\<lparr>bs_buffer := drop (index + length delimiter) (bs_buffer st)\<rparr>,
           Done (take index (bs_buffer st)))
      | None \<Rightarrow>
          if max_bytes \<le> int (length (bs_buffer st)) then (st, Raised (DelimiterNotFound max_bytes))
          else (st, Suspended (InUntil delimiter max_bytes offset)))"

definition receive_until_start ::
  "'b list \<Rightarrow> int \<Rightarrow> 'b bstate \<Rightarrow> 'b bstate \<times> ('b bpc, 'b list) outcome" where
  "receive_until_start delimiter max_bytes st = receive_until_step delimiter max_bytes 0 st"

fun buf_request :: "bool \<Rightarrow> 'b bpc \<Rightarrow> int option" where
  "buf_request is_bytes (InReceive max_bytes) = (if is_bytes then Some max_bytes else None)"
| "buf_request is_bytes (InExactly _ remaining) = (if is_bytes then Some remaining else None)"
| "buf_request is_bytes (InUntil _ _ _) = None"

text \<open>\<open>except EndOfStream as exc: raise IncompleteRead from exc\<close>\<close>

fun incomplete :: "exn \<Rightarrow> exn" where
  "incomplete EndOfStream = IncompleteRead"
| "incomplete e = e"

fun buf_resume :: "'b bpc \<Rightarrow> 'b list awaited \<Rightarrow> 'b bstate \<Rightarrow> 'b bstate \<times> ('b bpc, 'b list) outcome" where
  "buf_resume (InReceive max_bytes) (Thrown e) st = (st, Raised e)"
| "buf_resume (InReceive max_bytes) (Resumed chunk) st =
     (if bs_bytes st then (st, Done chunk)
      else if int (length chunk) > max_bytes then
        (st\<lparr>bs_buffer := bs_buffer st @ slice_from chunk max_bytes\<rparr>, Done (slice_to chunk max_bytes))
      else (st, Done chunk))"
| "buf_resume (InExactly nbytes _) (Thrown e) st = (st, Raised (incomplete e))"
| "buf_resume (InExactly nbytes _) (Resumed chunk) st =
     receive_exactly_step nbytes (st\<lparr>bs_buffer := bs_buffer st @ chunk\<rparr>)"
| "buf_resume (InUntil delimiter max_bytes _) (Thrown e) st = (st, Raised (incomplete e))"
| "buf_resume (InUntil delimiter max_bytes _) (Resumed chunk) st =
     (let offset = nat (max (int (length (bs_buffer st)) - int (length delimiter) + 1) 0) in
      receive_until_step delimiter max_bytes offset (st\<lparr>bs_buffer := bs_buffer st @ chunk\<rparr>))"

text \<open>
  A call that is not interrupted: every request is answered by \<open>recv\<close>. \<open>None\<close> when the fuel, the
  number of requests allowed, runs out.
\<close>

definition answer :: "'v res \<Rightarrow> 'v awaited" where
  "answer r = (case r of Inl e \<Rightarrow> Thrown e | Inr v \<Rightarrow> Resumed v)"

fun buf_run ::
  "(int option \<Rightarrow> 's \<Rightarrow> 's \<times> 'b list res) \<Rightarrow> nat \<Rightarrow> 'b bstate \<times> ('b bpc, 'b list) outcome \<Rightarrow> 's
     \<Rightarrow> ('b bstate \<times> 's \<times> 'b list res) option" where
  "buf_run recv n (st, Done v) s = Some (st, s, Inr v)"
| "buf_run recv n (st, Raised e) s = Some (st, s, Inl e)"
| "buf_run recv 0 (st, Suspended pc) s = None"
| "buf_run recv (Suc n) (st, Suspended pc) s =
     (case recv (buf_request (bs_bytes st) pc) s of
        (s', r) \<Rightarrow> buf_run recv n (buf_resume pc (answer r) st) s')"

section \<open>The search of receive_until\<close>

text \<open>
  Bytes before \<open>len(buffer) - delimiter_size + 1\<close> cannot start an occurrence that the new chunk
  completes, so moving the offset there loses no occurrence.
\<close>

lemma occurs_at_append:
  "occurs_at d (buf @ chunk) i \<Longrightarrow> i + length d \<le> length buf \<Longrightarrow> occurs_at d buf i"
  by (simp add: occurs_at_def)

lemma occurs_at_mono: "occurs_at d buf i \<Longrightarrow> occurs_at d (buf @ xs) i"
  by (simp add: occurs_at_def)

definition no_hit :: "'b list \<Rightarrow> 'b list \<Rightarrow> bool" where
  "no_hit d buf \<longleftrightarrow> py_find buf d 0 = None"

lemma no_hit_iff: "no_hit d buf \<longleftrightarrow> (\<forall>i. \<not> occurs_at d buf i)"
  by (simp add: no_hit_def py_find_None)

lemma find_offset:
  assumes "no_hit d buf"
  shows "py_find (buf @ chunk) d (nat (max (int (length buf) - int (length d) + 1) 0))
       = py_find (buf @ chunk) d 0"
proof -
  let ?o = "nat (max (int (length buf) - int (length d) + 1) 0)"
  have early: "\<not> occurs_at d (buf @ chunk) j" if "j < ?o" for j
  proof -
    have "j + length d \<le> length buf" using that by arith
    then show ?thesis using assms occurs_at_append [of d buf chunk j] by (auto simp: no_hit_iff)
  qed
  show ?thesis
  proof (cases "py_find (buf @ chunk) d 0")
    case None
    then have "\<forall>j. \<not> occurs_at d (buf @ chunk) j" by (simp add: py_find_None)
    then have "py_find (buf @ chunk) d ?o = None" by (simp only: py_find_None) blast
    then show ?thesis using None by simp
  next
    case (Some k)
    then have "occurs_at d (buf @ chunk) k" and "\<forall>j < k. \<not> occurs_at d (buf @ chunk) j"
      by (simp_all add: py_find_Some)
    moreover from this(1) early have "?o \<le> k" by (meson not_le)
    ultimately show ?thesis unfolding Some py_find_Some by blast
  qed
qed

lemma until_resume_Resumed:
  assumes "no_hit d (bs_buffer st)"
  shows "buf_resume (InUntil d m k) (Resumed chunk) st
    = (case receive_until_step d m 0 (st\<lparr>bs_buffer := bs_buffer st @ chunk\<rparr>) of
         (st', Suspended (InUntil d' m' _)) \<Rightarrow>
           (st', Suspended (InUntil d' m' (nat (max (int (length (bs_buffer st)) - int (length d) + 1) 0))))
       | r \<Rightarrow> r)"
  using find_offset [OF assms, of chunk]
  by (simp add: receive_until_step_def Let_def split: option.split)

section \<open>Over a source of bytes\<close>

text \<open>How the wrapped stream answers a request, when it is a byte source; \<open>65536\<close> is the default.\<close>

definition ask :: "(nat \<Rightarrow> 's \<Rightarrow> 's \<times> 'b list res) \<Rightarrow> int option \<Rightarrow> 's \<Rightarrow> 's \<times> 'b list res" where
  "ask recv req s = recv (case req of Some n \<Rightarrow> nat n | None \<Rightarrow> 65536) s"

context byte_source
begin

abbreviation unread :: "'b bstate \<Rightarrow> 's \<Rightarrow> 'b list" where
  "unread st s \<equiv> bs_buffer st @ rest s"

lemma ask_cases:
  assumes "ok s" "req = None \<or> req = Some n \<and> 0 < n"
  obtains (chunk) s' c where "ask recv req s = (s', Inr c)" "ok s'" "c \<noteq> []" "rest s = c @ rest s'"
  | (eof) s' where "ask recv req s = (s', Inl EndOfStream)" "ok s'" "rest s = []" "rest s' = []"
proof -
  define m where "m = (case req of Some n \<Rightarrow> nat n | None \<Rightarrow> 65536)"
  have m: "0 < m" using assms(2) by (auto simp: m_def)
  have eq: "ask recv req s = recv m s" by (simp add: ask_def m_def)
  show thesis
  proof (cases "rest s = []")
    case True
    from recv_end [OF assms(1) m True] that(2) True show ?thesis by (auto simp: eq)
  next
    case False
    from recv_some [OF assms(1) m False] that(1) show ?thesis by (auto simp: eq)
  qed
qed

lemma exactly_run:
  assumes "ok s" "length (rest s) < k"
  shows "\<exists>st' s'. buf_run (ask recv) k (receive_exactly_step (int n) st) s
      = Some (st', s', if n \<le> length (unread st s) then Inr (take n (unread st s)) else Inl IncompleteRead)
    \<and> unread st' s' = (if n \<le> length (unread st s) then drop n (unread st s) else unread st s)
    \<and> ok s' \<and> bs_closed st' = bs_closed st \<and> bs_bytes st' = bs_bytes st"
  using assms
proof (induction k arbitrary: st s)
  case 0
  then show ?case by simp
next
  case (Suc k)
  show ?case
  proof (cases "n \<le> length (bs_buffer st)")
    case True
    then show ?thesis using Suc.prems by (auto simp: receive_exactly_step_def slice_simps)
  next
    case False
    let ?pc = "InExactly (int n) (int n - int (length (bs_buffer st)))"
    have start: "receive_exactly_step (int n) st = (st, Suspended ?pc)"
      using False by (simp add: receive_exactly_step_def)
    show ?thesis
    proof (rule ask_cases [OF Suc.prems(1), of "buf_request (bs_bytes st) ?pc"])
      show "buf_request (bs_bytes st) ?pc = None
          \<or> buf_request (bs_bytes st) ?pc = Some (int n - int (length (bs_buffer st)))
            \<and> 0 < int n - int (length (bs_buffer st))"
        using False by simp
    next
      fix s' c
      assume a: "ask recv (buf_request (bs_bytes st) ?pc) s = (s', Inr c)" "ok s'" "c \<noteq> []"
        "rest s = c @ rest s'"
      then have "length (rest s') < k" using Suc.prems(2) by (cases c) auto
      note ih = Suc.IH [OF a(2) this, of "st\<lparr>bs_buffer := bs_buffer st @ c\<rparr>"]
      have u: "unread (st\<lparr>bs_buffer := bs_buffer st @ c\<rparr>) s' = unread st s" using a by simp
      have "buf_run (ask recv) (Suc k) (receive_exactly_step (int n) st) s
          = buf_run (ask recv) k (receive_exactly_step (int n) (st\<lparr>bs_buffer := bs_buffer st @ c\<rparr>)) s'"
        using a(1) by (simp add: start answer_def)
      then show ?thesis using ih unfolding u by simp
    next
      fix s'
      assume "ask recv (buf_request (bs_bytes st) ?pc) s = (s', Inl EndOfStream)" "ok s'"
        "rest s = []" "rest s' = []"
      then show ?thesis using False by (simp add: start answer_def)
    qed
  qed
qed

text \<open>What \<open>receive_until\<close> promises of its result \<open>r\<close>, and of the bytes \<open>u\<close>, \<open>u'\<close> unread before and after.\<close>

definition until_post :: "'b list \<Rightarrow> int \<Rightarrow> 'b list \<Rightarrow> 'b bstate \<Rightarrow> 'b list res \<Rightarrow> 'b list \<Rightarrow> bool" where
  "until_post d m u st' r u' \<longleftrightarrow>
     (case r of
        Inr v \<Rightarrow> py_find u d 0 = Some (length v) \<and> u = v @ d @ u'
      | Inl e \<Rightarrow> u' = u \<and>
          (e = DelimiterNotFound m \<and> m \<le> int (length (bs_buffer st')) \<and> no_hit d (bs_buffer st')
           \<or> e = IncompleteRead \<and> int (length u) < m \<and> no_hit d u))"

lemma until_step_done:
  assumes "py_find buf d 0 = Some i"
  shows "py_find (buf @ xs) d 0 = Some i"
  using assms occurs_at_mono [of d buf _ xs] occurs_at_append [of d buf xs]
  by (auto simp: py_find_Some occurs_at_def)

lemma until_run:
  assumes "ok s" "length (rest s) < k" "py_find (bs_buffer st) d off = py_find (bs_buffer st) d 0"
  shows "\<exists>st' s' r. buf_run (ask recv) k (receive_until_step d m off st) s = Some (st', s', r)
    \<and> until_post d m (unread st s) st' r (unread st' s')
    \<and> ok s' \<and> bs_closed st' = bs_closed st \<and> bs_bytes st' = bs_bytes st"
  using assms
proof (induction k arbitrary: st s off)
  case 0
  then show ?case by simp
next
  case (Suc k)
  show ?case
  proof (cases "py_find (bs_buffer st) d 0")
    case (Some i)
    then have at: "occurs_at d (bs_buffer st) i" by (simp add: py_find_Some)
    then have split: "bs_buffer st = take i (bs_buffer st) @ d @ drop (i + length d) (bs_buffer st)"
      unfolding occurs_at_def by (metis add.commute append_take_drop_id drop_drop)
    from at have "length (take i (bs_buffer st)) = i" by (simp add: occurs_at_def)
    with Some split until_step_done [OF Some, of "rest s"] Suc.prems show ?thesis
      by (simp add: receive_until_step_def until_post_def)
  next
    case None
    then have nh: "no_hit d (bs_buffer st)" by (simp add: no_hit_def)
    show ?thesis
    proof (cases "m \<le> int (length (bs_buffer st))")
      case True
      then show ?thesis using None nh Suc.prems by (simp add: receive_until_step_def until_post_def)
    next
      case False
      let ?pc = "InUntil d m off"
      have start: "receive_until_step d m off st = (st, Suspended ?pc)"
        using False None Suc.prems(3) by (simp add: receive_until_step_def)
      show ?thesis
      proof (rule ask_cases [OF Suc.prems(1), of "buf_request (bs_bytes st) ?pc" 0])
        show "buf_request (bs_bytes st) ?pc = None \<or> buf_request (bs_bytes st) ?pc = Some 0 \<and> (0::int) < 0"
          by simp
      next
        fix s' c
        assume a: "ask recv (buf_request (bs_bytes st) ?pc) s = (s', Inr c)" "ok s'" "c \<noteq> []"
          "rest s = c @ rest s'"
        then have "length (rest s') < k" using Suc.prems(2) by (cases c) auto
        from Suc.IH [OF a(2) this, of "st\<lparr>bs_buffer := bs_buffer st @ c\<rparr>"
            "nat (max (int (length (bs_buffer st)) - int (length d) + 1) 0)"] find_offset [OF nh, of c] a
        show ?thesis by (simp add: start answer_def Let_def)
      next
        fix s'
        assume "ask recv (buf_request (bs_bytes st) ?pc) s = (s', Inl EndOfStream)" "ok s'"
          "rest s = []" "rest s' = []"
        then show ?thesis using False nh by (simp add: start answer_def until_post_def)
      qed
    qed
  qed
qed

lemma receive_run:
  assumes "ok s" "0 < n" "\<not> bs_closed st" "bs_bytes st"
  shows "\<exists>st' s' r. buf_run (ask recv) 1 (buf_receive_start (int n) st) s = Some (st', s', r)
    \<and> ok s' \<and> \<not> bs_closed st' \<and> bs_bytes st'
    \<and> (if unread st s = [] then r = Inl EndOfStream \<and> unread st' s' = []
       else \<exists>c. r = Inr c \<and> c \<noteq> [] \<and> length c \<le> n \<and> unread st s = c @ unread st' s')"
proof (cases "bs_buffer st = []")
  case False
  then show ?thesis using assms
    by (simp add: buf_receive_start_def slice_simps)
next
  case buf: True
  show ?thesis
  proof (cases "rest s = []")
    case True
    from recv_end [OF assms(1,2) True] obtain s' where
      "recv n s = (s', Inl EndOfStream)" "ok s'" "rest s' = []" by blast
    then show ?thesis using buf True assms by (simp add: buf_receive_start_def ask_def answer_def)
  next
    case False
    from recv_some [OF assms(1,2) False] obtain s' c where
      "recv n s = (s', Inr c)" "ok s'" "c \<noteq> []" "length c \<le> n" "rest s = c @ rest s'" by blast
    then show ?thesis using buf False assms by (simp add: buf_receive_start_def ask_def answer_def)
  qed
qed

end

text \<open>
  A buffered stream over a byte source is a byte source again, with the buffered bytes in front:
  a client cannot tell the two apart.
\<close>

definition buf_source ::
  "(nat \<Rightarrow> 's \<Rightarrow> 's \<times> 'b list res) \<Rightarrow> nat \<Rightarrow> 'b bstate \<times> 's \<Rightarrow> ('b bstate \<times> 's) \<times> 'b list res" where
  "buf_source recv n = (\<lambda>(st, s).
     case buf_run (ask recv) 1 (buf_receive_start (int n) st) s of
       Some (st', s', r) \<Rightarrow> ((st', s'), r)
     | None \<Rightarrow> ((st, s), Inl (RuntimeError [])))"

locale buffered_stream = byte_source ok rest recv
  for ok :: "'s \<Rightarrow> bool" and rest :: "'s \<Rightarrow> 'b list" and recv
begin

definition buf_ok :: "'b bstate \<times> 's \<Rightarrow> bool" where
  "buf_ok = (\<lambda>(st, s). ok s \<and> \<not> bs_closed st \<and> bs_bytes st)"

definition buf_rest :: "'b bstate \<times> 's \<Rightarrow> 'b list" where
  "buf_rest = (\<lambda>(st, s). unread st s)"

end

sublocale buffered_stream \<subseteq> buf: byte_source buf_ok buf_rest "buf_source recv"
proof
  fix p and n :: nat
  assume ok: "buf_ok p" and n: "0 < n"
  obtain st s where p: "p = (st, s)" by (cases p)
  from ok p have a: "ok s" "\<not> bs_closed st" "bs_bytes st" by (simp_all add: buf_ok_def)
  from receive_run [OF a(1) n a(2,3)] obtain st' s' r where
    r: "buf_run (ask recv) 1 (buf_receive_start (int n) st) s = Some (st', s', r)"
      "ok s'" "\<not> bs_closed st'" "bs_bytes st'"
      "if unread st s = [] then r = Inl EndOfStream \<and> unread st' s' = []
       else \<exists>c. r = Inr c \<and> c \<noteq> [] \<and> length c \<le> n \<and> unread st s = c @ unread st' s'"
    by blast
  then have step: "buf_source recv n p = ((st', s'), r)" and ok': "buf_ok (st', s')"
    by (simp_all add: buf_source_def p buf_ok_def)
  show "buf_rest p \<noteq> [] \<Longrightarrow> \<exists>p' c. buf_source recv n p = (p', Inr c) \<and> buf_ok p' \<and> c \<noteq> []
      \<and> length c \<le> n \<and> buf_rest p = c @ buf_rest p'"
    using r(5) step ok' by (auto simp: buf_rest_def p split: if_splits)
  show "buf_rest p = [] \<Longrightarrow> \<exists>p'. buf_source recv n p = (p', Inl EndOfStream) \<and> buf_ok p' \<and> buf_rest p' = []"
    using r(5) step ok' by (auto simp: buf_rest_def p split: if_splits)
qed

interpretation filebuf: buffered_stream file_ok file_rest file_source
  by unfold_locales

section \<open>Properties\<close>

text \<open>
  C9: Over any wrapped stream that delivers its bytes in non-empty chunks, \<open>receive_exactly(n)\<close>
  ends after at most as many requests as there are bytes left plus one; it returns exactly the
  next \<open>n\<close> unread bytes when there are that many, however they arrive in chunks, and otherwise
  raises \<open>IncompleteRead\<close>; in both cases every byte it does not return stays unread.
\<close>

theorem receive_exactly_correct:
  assumes "byte_source ok rest recv" "ok s"
  shows "\<exists>st' s'. buf_run (ask recv) (Suc (length (rest s))) (receive_exactly_step (int n) st) s
      = Some (st', s', if n \<le> length (bs_buffer st @ rest s) then Inr (take n (bs_buffer st @ rest s))
                       else Inl IncompleteRead)
    \<and> bs_buffer st' @ rest s' = (if n \<le> length (bs_buffer st @ rest s)
         then drop n (bs_buffer st @ rest s) else bs_buffer st @ rest s)"
proof -
  have "length (rest s) < Suc (length (rest s))" by simp
  from byte_source.exactly_run [OF assms this, of n st] show ?thesis by blast
qed

abbreviation a_file :: "bytes \<Rightarrow> binary_io" where
  "a_file d \<equiv> \<lparr>f_data = d, f_pos = 0, f_closed = False, f_append = False, f_name = None,
     f_fileno = None, f_errno = None\<rparr>"

theorem receive_exactly_correct_witness:
  "\<exists>st' s'. buf_run (ask file_source) (Suc 3) (receive_exactly_step 2 (bstate_new True)) (a_file [1, 2, 3])
     = Some (st', s', Inr [1, 2]) \<and> bs_buffer st' @ file_rest s' = [3]"
  using receive_exactly_correct [of file_ok file_rest file_source "a_file [1, 2, 3]" 2 "bstate_new True"]
  by (simp add: fsrc.byte_source_axioms file_ok_def file_rest_def bstate_new_def
      eval_nat_numeral del: buf_run.simps)

text \<open>
  C10: Over any such wrapped stream \<open>receive_until(delimiter, max_bytes)\<close> ends. When it returns
  \<open>v\<close>, then \<open>v\<close> is everything up to the first occurrence of the delimiter in the unread bytes
  (which chunk boundaries may split), and \<open>v\<close> and the delimiter are consumed. When it raises,
  nothing is consumed: \<open>DelimiterNotFound\<close> means the delimiter does not occur in the buffer, which
  holds at least \<open>max_bytes\<close> bytes; \<open>IncompleteRead\<close> that the stream ended, shorter than
  \<open>max_bytes\<close> and without the delimiter.
\<close>

theorem receive_until_correct:
  assumes "byte_source ok rest recv" "ok s"
  shows "\<exists>st' s' r. buf_run (ask recv) (Suc (length (rest s))) (receive_until_start d m st) s
      = Some (st', s', r) \<and>
    (case r of
       Inr v \<Rightarrow> py_find (bs_buffer st @ rest s) d 0 = Some (length v)
         \<and> bs_buffer st @ rest s = v @ d @ bs_buffer st' @ rest s'
     | Inl e \<Rightarrow> bs_buffer st' @ rest s' = bs_buffer st @ rest s \<and>
         (e = DelimiterNotFound m \<and> m \<le> int (length (bs_buffer st')) \<and> no_hit d (bs_buffer st')
          \<or> e = IncompleteRead \<and> int (length (bs_buffer st @ rest s)) < m
            \<and> no_hit d (bs_buffer st @ rest s)))"
proof -
  have "length (rest s) < Suc (length (rest s))" by simp
  from byte_source.until_run [OF assms this, of st d 0 m] show ?thesis
    by (simp only: receive_until_start_def byte_source.until_post_def [OF assms(1)] append_assoc) blast
qed

theorem receive_until_correct_witness:
  "\<exists>st' s' v. buf_run (ask file_source) (Suc (length (file_rest (a_file [65, 13, 10, 66]))))
      (receive_until_start [13, 10] 9 (bstate_new True)) (a_file [65, 13, 10, 66]) = Some (st', s', Inr v)
    \<and> [65, 13, 10, 66] = v @ [13, 10] @ bs_buffer st' @ file_rest s'"
proof -
  let ?f = "a_file [65, 13, 10, 66]" and ?st = "bstate_new True :: byte bstate"
  have u: "bs_buffer ?st @ file_rest ?f = [65, 13, 10, 66]"
    by (simp add: bstate_new_def file_rest_def)
  have no: "\<not> no_hit [13, 10] [65, 13, 10, 66 :: byte]"
    by (simp add: no_hit_def py_find_def eval_nat_numeral occurs_at_def)
  have "file_ok ?f" by (simp add: file_ok_def)
  from receive_until_correct [OF fsrc.byte_source_axioms this, of "[13, 10]" 9 ?st]
  obtain st' s' r where run: "buf_run (ask file_source) (Suc (length (file_rest ?f)))
      (receive_until_start [13, 10] 9 ?st) ?f = Some (st', s', r)"
    and post: "case r of
       Inr v \<Rightarrow> [65, 13, 10, 66] = v @ [13, 10] @ bs_buffer st' @ file_rest s'
     | Inl e \<Rightarrow> bs_buffer st' @ file_rest s' = [65, 13, 10, 66]
         \<and> 9 \<le> int (length (bs_buffer st'))"
    unfolding u using no by (fastforce split: sum.splits)
  show ?thesis
  proof (cases r)
    case (Inl e)
    with post have "length (bs_buffer st' @ file_rest s') = 4 \<and> 9 \<le> length (bs_buffer st')" by simp
    then have False by auto
    then show ?thesis ..
  next
    case (Inr v)
    with run post show ?thesis by auto
  qed
qed

end
