(* ===== verification/TextStreams.thy ===== *)
theory TextStreams
  imports Interfaces
begin

text \<open>
  Text streams: \<open>src/anyio/streams/text.py\<close>.

  A \<open>str\<close> is its list of code points. The stream classes work with any codec, an incremental
  decoder \<open>decode\<close> with state \<open>'d\<close> and an encoder \<open>encode\<close>, whose contract is the locale
  \<open>codec\<close>; \<open>UTF-8\<close> with \<open>errors=''strict''\<close>, the default of the classes, is modelled after the
  standard library's \<open>codecs\<close> and meets the contract. The transport stream is what the methods
  await.
\<close>

type_synonym ustr = "nat list"

section \<open>The contract of a codec\<close>

locale codec =
  fixes valid :: "ustr \<Rightarrow> bool"
    and encode :: "ustr \<Rightarrow> bytes res"
    and decode :: "'d \<Rightarrow> bytes \<Rightarrow> 'd \<times> ustr res"
    and initial :: 'd
    and decoded :: "'d \<Rightarrow> bytes \<Rightarrow> ustr \<Rightarrow> 'd \<Rightarrow> bool"
  assumes encode_valid: "valid s \<Longrightarrow> \<exists>b. encode s = Inr b \<and> decoded initial b s initial"
    and decode_part: "decoded d (b @ bs) s d'' \<Longrightarrow>
      \<exists>d' s1 s2. decode d b = (d', Inr s1) \<and> s = s1 @ s2 \<and> decoded d' bs s2 d''"
    and decoded_nil: "decoded d [] s d' \<Longrightarrow> s = [] \<and> d' = d"

section \<open>The stream classes\<close>

datatype text_pc = TextWait

text \<open>\<open>TextReceiveStream.receive\<close>: the loop around \<open>await self.transport_stream.receive()\<close>.\<close>

definition text_receive_start :: "(text_pc, ustr) outcome" where
  "text_receive_start = Suspended TextWait"

definition text_receive_resume ::
  "('d \<Rightarrow> bytes \<Rightarrow> 'd \<times> ustr res) \<Rightarrow> bytes awaited \<Rightarrow> 'd \<Rightarrow> 'd \<times> (text_pc, ustr) outcome" where
  "text_receive_resume decode r d =
     (case r of
        Thrown e \<Rightarrow> (d, Raised e)
      | Resumed chunk \<Rightarrow>
          (case decode d chunk of
             (d', Inl e) \<Rightarrow> (d', Raised e)
           | (d', Inr s) \<Rightarrow> (d', if s \<noteq> [] then Done s else Suspended TextWait)))"

definition text_receive_aclose :: "'d \<Rightarrow> unit awaited \<Rightarrow> 'd \<Rightarrow> 'd \<times> unit res" where
  "text_receive_aclose initial r d =
     (case r of Thrown e \<Rightarrow> (d, Inl e) | Resumed _ \<Rightarrow> (initial, Inr ()))"

text \<open>\<open>TextSendStream.send\<close>: the bytes handed to the transport, or the encoder's error.\<close>

definition text_send :: "(ustr \<Rightarrow> bytes res) \<Rightarrow> ustr \<Rightarrow> (bytes, unit) outcome" where
  "text_send encode item = (case encode item of Inl e \<Rightarrow> Raised e | Inr b \<Rightarrow> Suspended b)"

text \<open>
  \<open>TextStream.aclose\<close>: the send side closes the transport, then the receive side closes it again
  and resets the decoder; \<open>rs\<close> are the results of the two awaits.
\<close>

definition text_stream_aclose :: "'d \<Rightarrow> unit awaited \<Rightarrow> unit awaited \<Rightarrow> 'd \<Rightarrow> 'd \<times> unit res" where
  "text_stream_aclose initial r1 r2 d =
     (case r1 of Thrown e \<Rightarrow> (d, Inl e) | Resumed _ \<Rightarrow> text_receive_aclose initial r2 d)"

text \<open>
  Repeated \<open>receive\<close> while the transport delivers the given chunks: the strings returned, the
  state of the decoder and the error that ended it, if any.
\<close>

fun text_run :: "('d \<Rightarrow> bytes \<Rightarrow> 'd \<times> ustr res) \<Rightarrow> bytes list \<Rightarrow> 'd \<Rightarrow> ustr list \<times> 'd \<times> exn option" where
  "text_run decode [] d = ([], d, None)"
| "text_run decode (c # cs) d =
     (case text_receive_resume decode (Resumed c) d of
        (d', Done s) \<Rightarrow> (case text_run decode cs d' of (ss, r) \<Rightarrow> (s # ss, r))
      | (d', Suspended _) \<Rightarrow> text_run decode cs d'
      | (d', Raised e) \<Rightarrow> ([], d', Some e))"

context codec
begin

lemma text_run_decoded:
  "decoded d (concat cs) s d' \<Longrightarrow>
     \<exists>ss. text_run decode cs d = (ss, d', None) \<and> concat ss = s \<and> [] \<notin> set ss"
proof (induction cs arbitrary: d s)
  case Nil
  then show ?case using decoded_nil [of d s d'] by simp
next
  case (Cons c cs)
  then obtain d1 s1 s2 where step: "decode d c = (d1, Inr s1)" "s = s1 @ s2"
    and dec: "decoded d1 (concat cs) s2 d'"
    using decode_part [of d c "concat cs" s d'] by auto
  from Cons.IH [OF dec] step show ?case
    by (auto simp: text_receive_resume_def)
qed

lemma text_roundtrip:
  assumes "valid s" "encode s = Inr b" "concat cs = b"
  shows "\<exists>ss. text_run decode cs initial = (ss, initial, None) \<and> concat ss = s \<and> [] \<notin> set ss"
  using encode_valid [OF assms(1)] assms text_run_decoded by auto

end

section \<open>UTF-8\<close>

definition u8_byte :: "nat \<Rightarrow> byte" where
  "u8_byte n = word_of_nat n"

definition u8_scalar :: "nat \<Rightarrow> bool" where
  "u8_scalar c \<longleftrightarrow> c < 0x110000 \<and> \<not> (0xD800 \<le> c \<and> c < 0xE000)"

definition u8_encode_char :: "nat \<Rightarrow> bytes" where
  "u8_encode_char c =
     (if c < 0x80 then [u8_byte c]
      else if c < 0x800 then [u8_byte (192 + c div 64), u8_byte (128 + c mod 64)]
      else if c < 0x10000 then
        [u8_byte (224 + c div 4096), u8_byte (128 + c div 64 mod 64), u8_byte (128 + c mod 64)]
      else [u8_byte (240 + c div 262144), u8_byte (128 + c div 4096 mod 64),
            u8_byte (128 + c div 64 mod 64), u8_byte (128 + c mod 64)])"

text \<open>Strict errors: a surrogate raises \<open>UnicodeEncodeError\<close>, a \<open>ValueError\<close>.\<close>

definition u8_encode :: "ustr \<Rightarrow> bytes res" where
  "u8_encode s = (if list_all u8_scalar s then Inr (concat (map u8_encode_char s))
                  else Inl (ValueError ''surrogates not allowed''))"

datatype u8_step = U8Need | U8Bad | U8Got nat bytes

text \<open>\<open>k\<close> continuation bytes, the first one between \<open>lo\<close> and \<open>hi\<close>.\<close>

fun u8_tail :: "nat \<Rightarrow> nat \<Rightarrow> nat \<Rightarrow> nat \<Rightarrow> bytes \<Rightarrow> u8_step" where
  "u8_tail 0 lo hi acc bs = U8Got acc bs"
| "u8_tail (Suc k) lo hi acc [] = U8Need"
| "u8_tail (Suc k) lo hi acc (b # bs) =
     (if lo \<le> unat b \<and> unat b \<le> hi then u8_tail k 128 191 (64 * acc + (unat b - 128)) bs else U8Bad)"

fun u8_first :: "bytes \<Rightarrow> u8_step" where
  "u8_first [] = U8Need"
| "u8_first (b # bs) =
     (let n = unat b in
      if n < 128 then U8Got n bs
      else if n < 194 then U8Bad
      else if n < 224 then u8_tail 1 128 191 (n - 192) bs
      else if n < 240 then
        u8_tail 2 (if n = 224 then 160 else 128) (if n = 237 then 159 else 191) (n - 224) bs
      else if n < 245 then
        u8_tail 3 (if n = 240 then 144 else 128) (if n = 244 then 143 else 191) (n - 240) bs
      else U8Bad)"

lemma u8_tail_shorter: "u8_tail k lo hi acc bs = U8Got c rest \<Longrightarrow> length rest \<le> length bs"
  by (induction k lo hi acc bs rule: u8_tail.induct) (auto split: if_splits)

lemma u8_first_shorter: "u8_first bs = U8Got c rest \<Longrightarrow> length rest < length bs"
  by (cases bs) (auto simp: Let_def dest: u8_tail_shorter split: if_splits)

text \<open>Decoding stops at a sequence that is not complete; its bytes are kept.\<close>

function u8_decode :: "bytes \<Rightarrow> (ustr \<times> bytes) res" where
  "u8_decode bs =
     (case u8_first bs of
        U8Need \<Rightarrow> Inr ([], bs)
      | U8Bad \<Rightarrow> Inl (ValueError ''invalid utf-8'')
      | U8Got c rest \<Rightarrow> (case u8_decode rest of Inl e \<Rightarrow> Inl e | Inr (s, p) \<Rightarrow> Inr (c # s, p)))"
  by pat_completeness auto
termination by (relation "measure length") (simp_all add: u8_first_shorter)

declare u8_decode.simps [simp del]

text \<open>\<open>IncrementalDecoder.decode\<close>: the state is the bytes kept; an error leaves them.\<close>

definition u8_incremental :: "bytes \<Rightarrow> bytes \<Rightarrow> bytes \<times> ustr res" where
  "u8_incremental pend chunk =
     (case u8_decode (pend @ chunk) of
        Inl e \<Rightarrow> (pend, Inl e) | Inr (s, p) \<Rightarrow> (p, Inr s))"

definition u8_decoded :: "bytes \<Rightarrow> bytes \<Rightarrow> ustr \<Rightarrow> bytes \<Rightarrow> bool" where
  "u8_decoded pend bs s p \<longleftrightarrow> u8_decode (pend @ bs) = Inr (s, p) \<and> u8_first pend = U8Need"

lemma u8_tail_append:
  "u8_tail k lo hi acc bs = U8Got c rest \<Longrightarrow> u8_tail k lo hi acc (bs @ xs) = U8Got c (rest @ xs)"
  "u8_tail k lo hi acc bs = U8Bad \<Longrightarrow> u8_tail k lo hi acc (bs @ xs) = U8Bad"
  by (induction k lo hi acc bs rule: u8_tail.induct) (auto split: if_splits)

lemma u8_first_append:
  "u8_first bs = U8Got c rest \<Longrightarrow> u8_first (bs @ xs) = U8Got c (rest @ xs)"
  "u8_first bs = U8Bad \<Longrightarrow> u8_first (bs @ xs) = U8Bad"
  by (cases bs; auto simp: Let_def u8_tail_append split: if_splits)+

text \<open>Decoding a prefix first and the rest with the bytes kept is decoding the whole.\<close>

lemma u8_decode_append:
  "u8_decode (xs @ ys) =
     (case u8_decode xs of
        Inl e \<Rightarrow> Inl e
      | Inr (s, p) \<Rightarrow> (case u8_decode (p @ ys) of Inl e \<Rightarrow> Inl e | Inr (s', p') \<Rightarrow> Inr (s @ s', p')))"
proof (induction xs rule: u8_decode.induct)
  case (1 xs)
  show ?case
  proof (cases "u8_first xs")
    case U8Need
    then show ?thesis by (simp add: u8_decode.simps [of xs] split: sum.splits prod.splits)
  next
    case U8Bad
    then show ?thesis
      by (simp add: u8_decode.simps [of xs] u8_decode.simps [of "xs @ ys"] u8_first_append)
  next
    case (U8Got c rest)
    with "1.IH" [OF U8Got] show ?thesis
      by (simp add: u8_decode.simps [of xs] u8_decode.simps [of "xs @ ys"] u8_first_append
          split: sum.splits prod.splits)
  qed
qed

lemma u8_decode_pending: "u8_decode bs = Inr (s, p) \<Longrightarrow> u8_first p = U8Need"
proof (induction bs arbitrary: s rule: u8_decode.induct)
  case (1 bs)
  show ?case
  proof (cases "u8_first bs")
    case (U8Got c rest)
    with 1 show ?thesis
      by (auto simp: u8_decode.simps [of bs] split: sum.splits)
  qed (use 1 in \<open>simp_all add: u8_decode.simps [of bs]\<close>)
qed

lemma unat_u8_byte: "n < 256 \<Longrightarrow> unat (u8_byte n) = n"
  by (simp add: u8_byte_def unat_of_nat)

lemma u8_tail_cont:
  "m < 64 \<Longrightarrow> lo \<le> 128 + m \<Longrightarrow> 128 + m \<le> hi \<Longrightarrow>
     u8_tail (Suc k) lo hi acc (u8_byte (128 + m) # bs) = u8_tail k 128 191 (64 * acc + m) bs"
  by (simp add: unat_u8_byte)

lemma u8_first_4:
  "q < 5 \<Longrightarrow> (q = 0 \<Longrightarrow> 16 \<le> p) \<Longrightarrow> (q = 4 \<Longrightarrow> p < 16) \<Longrightarrow> p < 64 \<Longrightarrow>
     u8_first (u8_byte (240 + q) # u8_byte (128 + p) # bs) = u8_tail 2 128 191 (64 * q + p) bs"
  by (cases "q = 4"; cases "q = 0")
    (simp_all add: unat_u8_byte numeral_3_eq_3 numeral_2_eq_2 u8_tail_cont del: u8_tail.simps)

lemma u8_tail_2:
  "m < 64 \<Longrightarrow> r < 64 \<Longrightarrow>
     u8_tail 2 128 191 acc (u8_byte (128 + m) # u8_byte (128 + r) # bs) = U8Got (64 * (64 * acc + m) + r) bs"
  by (simp add: numeral_2_eq_2 unat_u8_byte)

lemma u8_first_char:
  assumes "u8_scalar c"
  shows "u8_first (u8_encode_char c @ bs) = U8Got c bs"
proof -
  define q p m r where "q = c div 262144" and "p = c div 4096 mod 64" and "m = c div 64 mod 64"
    and "r = c mod 64"
  have b: "p < 64" "m < 64" "r < 64" by (simp_all add: p_def m_def r_def)
  have d: "c div 262144 = c div 4096 div 64" "c div 4096 = c div 64 div 64"
    by (simp_all add: div_mult2_eq [symmetric])
  have c3: "c div 4096 = 64 * q + p" by (simp add: q_def p_def d(1))
  have c2: "c div 64 = 64 * (c div 4096) + m" by (simp add: m_def d(2))
  have c1: "c = 64 * (c div 64) + r" by (simp add: r_def)
  have c0: "c = 262144 * q + 4096 * p + 64 * m + r" using c1 c2 c3 by linarith
  note parts = p_def [symmetric] m_def [symmetric] r_def [symmetric]
  consider (one) "c < 0x80" | (two) "0x80 \<le> c" "c < 0x800" | (three) "0x800 \<le> c" "c < 0x10000"
    | (four) "0x10000 \<le> c" by linarith
  then show ?thesis
  proof cases
    case one
    then show ?thesis by (simp add: u8_encode_char_def unat_u8_byte)
  next
    case two
    then have "c div 64 < 32" "2 \<le> c div 64" by simp_all
    moreover from c1 have "64 * (c div 64) + r = c" by simp
    ultimately show ?thesis using two b
      by (simp add: u8_encode_char_def unat_u8_byte parts)
  next
    case three
    then have "262144 * q < 65536" using c0 by linarith
    then have q: "q = 0" by simp
    then have p: "p < 16" "c div 4096 = p" using three c0 c3 by simp_all
    have "p = 0 \<Longrightarrow> 32 \<le> m" "p = 13 \<Longrightarrow> m < 32"
      using three assms c0 q b by (auto simp: u8_scalar_def)
    moreover have "u8_encode_char c = [u8_byte (224 + p), u8_byte (128 + m), u8_byte (128 + r)]"
      using three p(2) by (simp add: u8_encode_char_def parts)
    moreover have "64 * (64 * p + m) + r = c" using c0 q by simp
    ultimately show ?thesis using p(1) b by (auto simp: unat_u8_byte numeral_2_eq_2)
  next
    case four
    have lim: "c < 1114112" using assms by (simp add: u8_scalar_def)
    then have "262144 * q < 1310720" using c0 by linarith
    then have q: "q < 5" "c div 262144 = q" by (simp_all add: q_def [symmetric])
    have "q = 0 \<Longrightarrow> 16 \<le> p" "q = 4 \<Longrightarrow> p < 16"
      using four lim c0 b by linarith+
    moreover have "u8_encode_char c = [u8_byte (240 + q), u8_byte (128 + p), u8_byte (128 + m), u8_byte (128 + r)]"
      using four q(2) by (simp add: u8_encode_char_def parts)
    ultimately have "u8_first (u8_encode_char c @ bs)
        = u8_tail 2 128 191 (64 * q + p) (u8_byte (128 + m) # u8_byte (128 + r) # bs)"
      using u8_first_4 [OF q(1) _ _ b(1), of "u8_byte (128 + m) # u8_byte (128 + r) # bs"]
      by (simp only: append_Cons append_Nil)
    also have "\<dots> = U8Got (64 * (64 * (64 * q + p) + m) + r) bs" by (rule u8_tail_2 [OF b(2,3)])
    finally show ?thesis using c0 by simp
  qed
qed

lemma u8_decode_chars:
  "list_all u8_scalar s \<Longrightarrow> u8_decode (concat (map u8_encode_char s)) = Inr (s, [])"
proof (induction s)
  case Nil
  then show ?case by (simp add: u8_decode.simps)
next
  case (Cons c s)
  then show ?case
    by (simp add: u8_decode.simps [of "u8_encode_char c @ concat (map u8_encode_char s)"] u8_first_char)
qed

interpretation utf8: codec "list_all u8_scalar" u8_encode u8_incremental "[]" u8_decoded
proof
  fix s
  assume "list_all u8_scalar s"
  then show "\<exists>b. u8_encode s = Inr b \<and> u8_decoded [] b s []"
    by (simp add: u8_encode_def u8_decoded_def u8_decode_chars)
next
  fix d b bs s d''
  assume "u8_decoded d (b @ bs) s d''"
  then show "\<exists>d' s1 s2. u8_incremental d b = (d', Inr s1) \<and> s = s1 @ s2 \<and> u8_decoded d' bs s2 d''"
    using u8_decode_append [of "d @ b" bs] u8_decode_pending [of "d @ b"]
    by (auto simp: u8_decoded_def u8_incremental_def split: sum.splits prod.splits)
next
  fix d s d'
  assume "u8_decoded d [] s d'"
  then show "s = [] \<and> d' = d"
    using u8_decode.simps [of d] by (auto simp: u8_decoded_def)
qed

section \<open>Properties\<close>

text \<open>
  A string that \<open>TextSendStream.send\<close> encodes as UTF-8 comes out of \<open>TextReceiveStream\<close>
  whole and in order, as non-empty strings, however the transport splits its bytes into chunks
  (also inside a character), and leaves no bytes in the decoder. A string with a surrogate is
  refused by \<open>send\<close>.
\<close>

theorem text_stream_roundtrip:
  assumes "text_send u8_encode s = Suspended (concat chunks)"
  shows "\<exists>ss. text_run u8_incremental chunks [] = (ss, [], None) \<and> concat ss = s \<and> [] \<notin> set ss"
proof -
  from assms have "list_all u8_scalar s" "u8_encode s = Inr (concat chunks)"
    by (simp_all add: text_send_def u8_encode_def split: sum.splits if_splits)
  from utf8.text_roundtrip [OF this refl] show ?thesis .
qed

theorem text_stream_roundtrip_witness:
  "\<exists>ss. text_run u8_incremental [[0xE2], [0x82, 0xAC, 0x41]] [] = (ss, [], None) \<and> concat ss = [0x20AC, 0x41]
     \<and> [] \<notin> set ss"
  by (rule text_stream_roundtrip)
    (simp add: text_send_def u8_encode_def u8_scalar_def u8_encode_char_def u8_byte_def)

end
