(* ===== verification/Stapled.thy ===== *)
theory Stapled
  imports Buffered "HOL-Library.Multiset"
begin

text \<open>
  Stapled streams and \<open>MultiListener\<close>: \<open>src/anyio/streams/stapled.py\<close>.

  A stapled stream is the states of its two halves; their operations are parameters. The byte and
  the object variant differ only in the argument of \<open>receive\<close>. A listener is a leaf or a
  reference to a \<open>MultiListener\<close> object, whose \<open>listeners\<close> list lives in a heap because
  \<open>__post_init__\<close> empties it in place.
\<close>

section \<open>Stapled streams\<close>

record ('s, 'r) stapled =
  send_stream :: 's
  receive_stream :: 'r

definition stapled_receive :: "(int \<Rightarrow> 'r \<Rightarrow> 'r \<times> 'a res) \<Rightarrow> int \<Rightarrow> ('s, 'r) stapled \<Rightarrow> ('s, 'r) stapled \<times> 'a res" where
  "stapled_receive recv max_bytes st =
     (case recv max_bytes (receive_stream st) of (r, v) \<Rightarrow> (st\<lparr>receive_stream := r\<rparr>, v))"

definition stapled_send :: "('a \<Rightarrow> 's \<Rightarrow> 's \<times> unit res) \<Rightarrow> 'a \<Rightarrow> ('s, 'r) stapled \<Rightarrow> ('s, 'r) stapled \<times> unit res" where
  "stapled_send send item st =
     (case send item (send_stream st) of (s, v) \<Rightarrow> (st\<lparr>send_stream := s\<rparr>, v))"

definition stapled_send_eof :: "('s \<Rightarrow> 's \<times> unit res) \<Rightarrow> ('s, 'r) stapled \<Rightarrow> ('s, 'r) stapled \<times> unit res" where
  "stapled_send_eof close_s st =
     (case close_s (send_stream st) of (s, v) \<Rightarrow> (st\<lparr>send_stream := s\<rparr>, v))"

definition stapled_aclose ::
  "('s \<Rightarrow> 's \<times> unit res) \<Rightarrow> ('r \<Rightarrow> 'r \<times> unit res) \<Rightarrow> ('s, 'r) stapled \<Rightarrow> ('s, 'r) stapled \<times> unit res" where
  "stapled_aclose close_s close_r st =
     (case close_s (send_stream st) of
        (s, Inl e) \<Rightarrow> (st\<lparr>send_stream := s\<rparr>, Inl e)
      | (s, Inr _) \<Rightarrow>
          (case close_r (receive_stream st) of
             (r, v) \<Rightarrow> (st\<lparr>send_stream := s, receive_stream := r\<rparr>, v)))"

text \<open>\<open>{**send.extra_attributes, **receive.extra_attributes}\<close>: the later entries win.\<close>

definition stapled_extra_attributes :: "('k \<rightharpoonup> 'v) \<Rightarrow> ('k \<rightharpoonup> 'v) \<Rightarrow> 'k \<rightharpoonup> 'v" where
  "stapled_extra_attributes send_attrs receive_attrs = send_attrs ++ receive_attrs"

text \<open>A stapled byte stream is a source of bytes when its receiving half is one.\<close>

locale stapled_source = byte_source ok rest recv
  for ok :: "'r \<Rightarrow> bool" and rest :: "'r \<Rightarrow> 'b list" and recv

sublocale stapled_source \<subseteq> stapled:
  byte_source "\<lambda>st :: ('s, 'r) stapled. ok (receive_stream st)" "\<lambda>st. rest (receive_stream st)"
    "\<lambda>n. stapled_receive (\<lambda>i. recv (nat i)) (int n)"
proof
  fix st :: "('s, 'r) stapled" and n :: nat
  assume "ok (receive_stream st)" "0 < n" "rest (receive_stream st) \<noteq> []"
  from recv_some [OF this] show "\<exists>st' c. stapled_receive (\<lambda>i. recv (nat i)) (int n) st = (st', Inr c)
      \<and> ok (receive_stream st') \<and> c \<noteq> [] \<and> length c \<le> n
      \<and> rest (receive_stream st) = c @ rest (receive_stream st')"
    by (auto simp: stapled_receive_def)
next
  fix st :: "('s, 'r) stapled" and n :: nat
  assume "ok (receive_stream st)" "0 < n" "rest (receive_stream st) = []"
  from recv_end [OF this] show "\<exists>st'. stapled_receive (\<lambda>i. recv (nat i)) (int n) st = (st', Inl EndOfStream)
      \<and> ok (receive_stream st') \<and> rest (receive_stream st') = []"
    by (auto simp: stapled_receive_def)
qed

interpretation stapled_file: stapled_source file_ok file_rest file_source
  by unfold_locales

section \<open>MultiListener\<close>

datatype 'l listener = Leaf 'l | Multi nat

text \<open>\<open>__post_init__\<close>: the heap maps a \<open>MultiListener\<close> to its list.\<close>

fun multi_post_init ::
  "'l listener list \<Rightarrow> 'l listener list \<Rightarrow> (nat \<Rightarrow> 'l listener list) \<Rightarrow> 'l listener list \<times> (nat \<Rightarrow> 'l listener list)" where
  "multi_post_init [] listeners heap = (listeners, heap)"
| "multi_post_init (Multi m # ls) listeners heap =
     multi_post_init ls (listeners @ heap m) (heap(m := []))"
| "multi_post_init (Leaf l # ls) listeners heap = multi_post_init ls (listeners @ [Leaf l]) heap"

text \<open>\<open>serve\<close>: the calls started in the new task group, in order.\<close>

definition multi_serve :: "'h \<Rightarrow> 'tg \<Rightarrow> 'l listener list \<Rightarrow> ('l listener \<times> 'h \<times> 'tg) list" where
  "multi_serve handler task_group listeners = map (\<lambda>l. (l, handler, task_group)) listeners"

text \<open>\<open>aclose\<close>: the listeners are closed one after the other; \<open>close l\<close> may raise.\<close>

fun multi_aclose :: "('l listener \<Rightarrow> unit res) \<Rightarrow> 'l listener list \<Rightarrow> 'l listener list \<times> unit res" where
  "multi_aclose close [] = ([], Inr ())"
| "multi_aclose close (l # ls) =
     (case close l of
        Inl e \<Rightarrow> ([l], Inl e)
      | Inr _ \<Rightarrow> (case multi_aclose close ls of (done_, r) \<Rightarrow> (l # done_, r)))"

definition multi_extra_attributes :: "('l listener \<Rightarrow> 'k \<rightharpoonup> 'v) \<Rightarrow> 'l listener list \<Rightarrow> 'k \<rightharpoonup> 'v" where
  "multi_extra_attributes attrs listeners = fold (\<lambda>l m. m ++ attrs l) listeners Map.empty"

definition is_leaf :: "'l listener \<Rightarrow> bool" where
  "is_leaf l = (case l of Leaf _ \<Rightarrow> True | Multi _ \<Rightarrow> False)"

definition multi_ids :: "'l listener list \<Rightarrow> nat set" where
  "multi_ids ls = {m. Multi m \<in> set ls}"

lemma multi_ids_simps [simp]:
  "multi_ids [] = {}" "multi_ids (Leaf l # ls) = multi_ids ls"
  "multi_ids (Multi m # ls) = insert m (multi_ids ls)"
  by (auto simp: multi_ids_def)

lemma finite_multi_ids [simp]: "finite (multi_ids ls)"
proof (induction ls)
  case (Cons l ls)
  then show ?case by (cases l) simp_all
qed simp

lemma multi_post_init_spec:
  "multi_post_init ls acc heap = (out, heap') \<Longrightarrow>
     mset out = mset acc + mset (filter is_leaf ls) + (\<Sum>m\<in>multi_ids ls. mset (heap m))
   \<and> heap' = (\<lambda>m. if m \<in> multi_ids ls then [] else heap m)"
proof (induction ls acc heap rule: multi_post_init.induct)
  case (1 acc heap)
  then show ?case by simp
next
  case (2 m ls acc heap)
  let ?h = "heap(m := [])"
  from 2 have ih: "mset out = mset (acc @ heap m) + mset (filter is_leaf ls) + (\<Sum>m\<in>multi_ids ls. mset (?h m))"
    "heap' = (\<lambda>k. if k \<in> multi_ids ls then [] else ?h k)"
    by (simp_all del: fun_upd_apply)
  have "(\<Sum>k\<in>insert m (multi_ids ls). mset (heap k))
      = mset (heap m) + (\<Sum>k\<in>multi_ids ls - {m}. mset (heap k))"
    by (simp add: sum.insert_remove)
  also have "(\<Sum>k\<in>multi_ids ls - {m}. mset (heap k)) = (\<Sum>k\<in>multi_ids ls - {m}. mset (?h k))"
    by (rule sum.cong) auto
  also have "\<dots> = (\<Sum>k\<in>multi_ids ls. mset (?h k))"
    by (rule sum.mono_neutral_left) auto
  finally show ?case using ih by (auto simp: is_leaf_def fun_eq_iff)
next
  case (3 l ls acc heap)
  then show ?case by (simp add: is_leaf_def)
qed

section \<open>Properties\<close>

text \<open>
  \<open>MultiListener.__post_init__\<close> moves the listeners: the new list holds each plain listener
  it was given and each listener of the nested \<open>MultiListener\<close>s exactly once (also when a nested
  one is given twice), the nested ones end up empty and other objects are untouched; and when
  the nested ones were flat, the result is flat.
\<close>

theorem multi_listener_moves:
  "case multi_post_init ls [] heap of (out, heap') \<Rightarrow>
     mset out = mset (filter is_leaf ls) + (\<Sum>m\<in>multi_ids ls. mset (heap m))
   \<and> heap' = (\<lambda>m. if m \<in> multi_ids ls then [] else heap m)
   \<and> (list_all is_leaf out \<longleftrightarrow> (\<forall>m. m \<in> multi_ids ls \<longrightarrow> list_all is_leaf (heap m)))"
proof -
  obtain out heap' where run: "multi_post_init ls [] heap = (out, heap')" by fastforce
  note spec = multi_post_init_spec [OF run]
  have "set out = set (filter is_leaf ls) \<union> (\<Union>m\<in>multi_ids ls. set (heap m))"
    using arg_cong [OF conjunct1 [OF spec], of set_mset] by (simp add: set_mset_sum)
  then have "list_all is_leaf out \<longleftrightarrow> (\<forall>m. m \<in> multi_ids ls \<longrightarrow> list_all is_leaf (heap m))"
    by (auto simp: list_all_iff)
  with spec run show ?thesis by simp
qed

theorem multi_listener_moves_witness:
  "fst (multi_post_init [Leaf 1, Multi 0, Multi 0] [] ((\<lambda>_. [])(0 := [Leaf (2::nat)]))) = [Leaf 1, Leaf 2]
   \<and> list_all is_leaf (fst (multi_post_init [Leaf 1, Multi 0, Multi 0] [] ((\<lambda>_. [])(0 := [Leaf (2::nat)]))))"
  using multi_listener_moves [of "[Leaf 1, Multi 0, Multi 0]" "(\<lambda>_. [])(0 := [Leaf (2::nat)])"]
  by (simp add: is_leaf_def)

text \<open>
  \<open>aclose\<close> of a stapled stream closes both halves when the first close succeeds; when closing
  the sending half raises, the receiving half is left as it is and the exception propagates.
  \<open>aclose\<close> of a \<open>MultiListener\<close> closes the listeners up to and including the first that raises.
\<close>

theorem stapled_close_order:
  "(case close_s (send_stream st) of
      (s, Inl e) \<Rightarrow> stapled_aclose close_s close_r st = (st\<lparr>send_stream := s\<rparr>, Inl e)
    | (s, Inr _) \<Rightarrow> stapled_aclose close_s close_r st =
        (\<lparr>send_stream = s, receive_stream = fst (close_r (receive_stream st))\<rparr>,
         snd (close_r (receive_stream st))))
   \<and> multi_aclose close ls =
      (case dropWhile (\<lambda>l. close l = Inr ()) ls of
         [] \<Rightarrow> (ls, Inr ())
       | l # _ \<Rightarrow> (takeWhile (\<lambda>l. close l = Inr ()) ls @ [l], close l))"
proof
  show "case close_s (send_stream st) of
      (s, Inl e) \<Rightarrow> stapled_aclose close_s close_r st = (st\<lparr>send_stream := s\<rparr>, Inl e)
    | (s, Inr _) \<Rightarrow> stapled_aclose close_s close_r st =
        (\<lparr>send_stream = s, receive_stream = fst (close_r (receive_stream st))\<rparr>,
         snd (close_r (receive_stream st)))"
    by (simp add: stapled_aclose_def split: prod.split sum.split)
  show "multi_aclose close ls =
      (case dropWhile (\<lambda>l. close l = Inr ()) ls of
         [] \<Rightarrow> (ls, Inr ())
       | l # _ \<Rightarrow> (takeWhile (\<lambda>l. close l = Inr ()) ls @ [l], close l))"
  proof (induction ls)
    case (Cons l ls)
    then show ?case
      by (cases "close l"; cases "dropWhile (\<lambda>l. close l = Inr ()) ls")
        (simp_all del: dropWhile_eq_Nil_conv)
  qed simp
qed

end
