(* ===== verification/Locks.thy ===== *)
theory Locks
  imports Interfaces
begin

text \<open>
  The asyncio \<open>Lock\<close>: class \<open>Lock\<close> of \<open>src/anyio/_backends/_asyncio.py\<close>.

  A waiter is the pair of its task and its future, in arrival order. \<open>acquire_start\<close> and
  \<open>acquire_resume\<close> are the coroutine \<open>acquire\<close> between its awaits. The system \<open>lock_act\<close> runs the
  operations of any number of tasks and cancellations of waiting tasks in any order;
  \<open>held\<close> records the tasks whose \<open>acquire\<close> returned and that have not released since.
\<close>

section \<open>Granting to a waiter\<close>

text \<open>
  The loop of \<open>release\<close>, shared with the semaphore: the first waiter whose future is not
  cancelled gets a result. \<open>set_result\<close> raises \<open>InvalidStateError\<close> when the future is done.
\<close>

type_synonym waiters = "(task \<times> unit future) list"

fun grant_first :: "waiters \<Rightarrow> (task \<times> waiters res) option" where
  "grant_first [] = None"
| "grant_first ((t, f) # ws) =
     (if \<not> fut_cancelled f
      then Some (t, case fut_set_result f () of Inl e \<Rightarrow> Inl e | Inr f' \<Rightarrow> Inr ((t, f') # ws))
      else case grant_first ws of
             None \<Rightarrow> None
           | Some (t', Inl e) \<Rightarrow> Some (t', Inl e)
           | Some (t', Inr ws') \<Rightarrow> Some (t', Inr ((t, f) # ws')))"

text \<open>\<open>task.cancel()\<close> cancels the future the task waits for, if it is pending.\<close>

definition cancel_waiter :: "task \<Rightarrow> waiters \<Rightarrow> waiters" where
  "cancel_waiter t ws = map (\<lambda>(u, f). (u, if u = t then fut_cancel f else f)) ws"

lemma map_fst_cancel_waiter [simp]: "map fst (cancel_waiter t ws) = map fst ws"
  by (induction ws) (auto simp: cancel_waiter_def)

lemma set_cancel_waiter:
  "(u, f) \<in> set (cancel_waiter t ws) \<longleftrightarrow>
     (\<exists>g. (u, g) \<in> set ws \<and> f = (if u = t then fut_cancel g else g))"
  by (induction ws) (auto simp: cancel_waiter_def)

lemma grant_first_None: "grant_first ws = None \<longleftrightarrow> (\<forall>t f. (t, f) \<in> set ws \<longrightarrow> f = FCancelled)"
  by (induction ws rule: grant_first.induct)
    (auto simp: fut_cancelled_def split: option.splits sum.splits)

text \<open>When no waiter's future has a result already, the first pending one is granted.\<close>

definition ungranted :: "waiters \<Rightarrow> bool" where
  "ungranted ws \<longleftrightarrow> (\<forall>t f. (t, f) \<in> set ws \<longrightarrow> f = Pending \<or> f = FCancelled)"

lemma ungranted_simps [simp]:
  "ungranted []" "ungranted ((t, f) # ws) \<longleftrightarrow> (f = Pending \<or> f = FCancelled) \<and> ungranted ws"
  by (auto simp: ungranted_def)

lemma grant_first_Some:
  assumes "ungranted ws" "grant_first ws = Some (t, r)"
  shows "\<exists>us vs. ws = us @ (t, Pending) # vs \<and> (\<forall>(u, f) \<in> set us. f = FCancelled)
      \<and> r = Inr (us @ (t, FResult ()) # vs)"
  using assms
proof (induction ws arbitrary: r rule: grant_first.induct)
  case 1
  then show ?case by simp
next
  case (2 t0 f ws)
  show ?case
  proof (cases "fut_cancelled f")
    case False
    then have "f = Pending" using "2.prems"(1) by (auto simp: fut_cancelled_def)
    then show ?thesis using "2.prems"(2)
      by (intro exI [of _ "[]"] exI [of _ ws]) (auto simp: fut_set_result_def)
  next
    case True
    then obtain r' where g: "grant_first ws = Some (t, r')"
      using "2.prems"(2) by (auto split: option.splits sum.splits)
    have "\<exists>us vs. ws = us @ (t, Pending) # vs \<and> (\<forall>(u, f) \<in> set us. f = FCancelled)
      \<and> r' = Inr (us @ (t, FResult ()) # vs)"
      using "2.IH" [OF _ _ g] "2.prems"(1) True by simp
    then obtain us vs where w: "ws = us @ (t, Pending) # vs" "\<forall>(u, f) \<in> set us. f = FCancelled"
      "r' = Inr (us @ (t, FResult ()) # vs)" by blast
    have "f = FCancelled" using True by (simp add: fut_cancelled_def)
    moreover have "r = Inr ((t0, f) # us @ (t, FResult ()) # vs)"
      using "2.prems"(2) True g w(3) by simp
    ultimately show ?thesis using w(1,2) by (intro exI [of _ "(t0, f) # us"] exI [of _ vs]) simp
  qed
qed

section \<open>The lock\<close>

record lock =
  fast_acquire :: bool
  owner_task :: "task option"
  lk_waiters :: waiters

definition lock_new :: "bool \<Rightarrow> lock" where
  "lock_new fast = \<lparr>fast_acquire = fast, owner_task = None, lk_waiters = []\<rparr>"

definition not_holding :: exn where
  "not_holding = RuntimeError ''The current task is not holding this lock''"

definition already_held :: exn where
  "already_held = RuntimeError ''Attempted to acquire an already held Lock''"

definition lock_release :: "task \<Rightarrow> lock \<Rightarrow> lock \<times> unit res" where
  "lock_release t lk =
     (if owner_task lk \<noteq> Some t then (lk, Inl not_holding)
      else case grant_first (lk_waiters lk) of
        None \<Rightarrow> (lk\<lparr>owner_task := None\<rparr>, Inr ())
      | Some (t', Inl e) \<Rightarrow> (lk\<lparr>owner_task := Some t'\<rparr>, Inl e)
      | Some (t', Inr ws) \<Rightarrow> (lk\<lparr>owner_task := Some t', lk_waiters := ws\<rparr>, Inr ()))"

text \<open>
  The points where \<open>acquire\<close> waits: inside \<open>checkpoint_if_cancelled\<close> (entered only when the
  task's scope is cancelled; it sleeps until the cancellation is delivered), in the shielded
  checkpoint after taking the lock, and on its future.
\<close>

datatype lock_pc = LkIfCancelled | LkYield | LkWait

definition lock_acquire_start :: "task \<Rightarrow> bool \<Rightarrow> lock \<Rightarrow> lock \<times> (lock_pc, unit) outcome" where
  "lock_acquire_start t cancelled lk =
     (if owner_task lk = None \<and> lk_waiters lk = [] then
        (if cancelled then (lk, Suspended LkIfCancelled)
         else (lk\<lparr>owner_task := Some t\<rparr>, if fast_acquire lk then Done () else Suspended LkYield))
      else if owner_task lk = Some t then (lk, Raised already_held)
      else (lk\<lparr>lk_waiters := lk_waiters lk @ [(t, Pending)]\<rparr>, Suspended LkWait))"

text \<open>An \<open>except CancelledError: self.release(); raise\<close> clause.\<close>

definition release_and_raise :: "task \<Rightarrow> exn \<Rightarrow> lock \<Rightarrow> lock \<times> (lock_pc, unit) outcome" where
  "release_and_raise t e lk =
     (case lock_release t lk of (lk', Inr _) \<Rightarrow> (lk', Raised e) | (lk', Inl e') \<Rightarrow> (lk', Raised e'))"

fun lock_acquire_resume :: "task \<Rightarrow> lock_pc \<Rightarrow> unit awaited \<Rightarrow> lock \<Rightarrow> lock \<times> (lock_pc, unit) outcome" where
  "lock_acquire_resume t LkIfCancelled (Resumed _) lk = (lk, Suspended LkIfCancelled)"
| "lock_acquire_resume t LkIfCancelled (Thrown e) lk = (lk, Raised e)"
| "lock_acquire_resume t LkYield (Resumed _) lk = (lk, Done ())"
| "lock_acquire_resume t LkYield (Thrown e) lk =
     (if is_cancelled e then release_and_raise t e lk else (lk, Raised e))"
| "lock_acquire_resume t LkWait (Resumed _) lk = (lk\<lparr>lk_waiters := od_pop (lk_waiters lk) t\<rparr>, Done ())"
| "lock_acquire_resume t LkWait (Thrown e) lk =
     (if is_cancelled e then
        let lk' = lk\<lparr>lk_waiters := od_pop (lk_waiters lk) t\<rparr> in
        if owner_task lk' = Some t then release_and_raise t e lk' else (lk', Raised e)
      else (lk, Raised e))"

definition lock_acquire_nowait :: "task \<Rightarrow> lock \<Rightarrow> lock \<times> unit res" where
  "lock_acquire_nowait t lk =
     (if owner_task lk = None \<and> lk_waiters lk = [] then (lk\<lparr>owner_task := Some t\<rparr>, Inr ())
      else if owner_task lk = Some t then (lk, Inl already_held)
      else (lk, Inl WouldBlock))"

definition lock_locked :: "lock \<Rightarrow> bool" where
  "lock_locked lk \<longleftrightarrow> owner_task lk \<noteq> None"

record lock_statistics =
  ls_locked :: bool
  ls_owner :: "task option"
  ls_tasks_waiting :: nat

definition lock_stats :: "lock \<Rightarrow> lock_statistics" where
  "lock_stats lk = \<lparr>ls_locked = lock_locked lk, ls_owner = owner_task lk,
     ls_tasks_waiting = length (lk_waiters lk)\<rparr>"

section \<open>Tasks using a lock\<close>

record lsys =
  lk :: lock
  pcs :: "task \<Rightarrow> lock_pc option"
  held :: "task list"

datatype lact = LAcquire task bool | LResume task "unit awaited" | LNowait task | LRelease task | LCancel task

text \<open>
  What the event loop may answer a waiting task: a checkpoint returns or is cancelled; a future
  gives its result, and a cancellation may arrive after the future was done.
\<close>

definition is_thrown_cancel :: "'v awaited \<Rightarrow> bool" where
  "is_thrown_cancel r = (case r of Thrown e \<Rightarrow> is_cancelled e | Resumed _ \<Rightarrow> False)"

definition may_answer :: "waiters \<Rightarrow> task \<Rightarrow> lock_pc \<Rightarrow> unit awaited \<Rightarrow> bool" where
  "may_answer ws t pc r \<longleftrightarrow>
     (if pc = LkWait then
        (case map_of ws t of
           None \<Rightarrow> False
         | Some f \<Rightarrow> fut_done f \<and> (r = Resumed () \<and> f = FResult () \<or> is_thrown_cancel r))
      else r = Resumed () \<or> is_thrown_cancel r)"

definition lock_outcome :: "task \<Rightarrow> lock \<times> (lock_pc, unit) outcome \<Rightarrow> lsys \<Rightarrow> lsys" where
  "lock_outcome t = (\<lambda>(lk', out) s.
     (case out of
        Done _ \<Rightarrow> s\<lparr>lk := lk', pcs := (pcs s)(t := None), held := t # held s\<rparr>
      | Raised _ \<Rightarrow> s\<lparr>lk := lk', pcs := (pcs s)(t := None)\<rparr>
      | Suspended pc \<Rightarrow> s\<lparr>lk := lk', pcs := (pcs s)(t := Some pc)\<rparr>))"

fun lock_act :: "lact \<Rightarrow> lsys \<Rightarrow> lsys option" where
  "lock_act (LAcquire t c) s =
     (if pcs s t \<noteq> None then None else Some (lock_outcome t (lock_acquire_start t c (lk s)) s))"
| "lock_act (LResume t r) s =
     (case pcs s t of
        None \<Rightarrow> None
      | Some pc \<Rightarrow>
          if may_answer (lk_waiters (lk s)) t pc r
          then Some (lock_outcome t (lock_acquire_resume t pc r (lk s)) s) else None)"
| "lock_act (LNowait t) s =
     (if pcs s t \<noteq> None then None
      else case lock_acquire_nowait t (lk s) of
        (lk', Inr _) \<Rightarrow> Some (s\<lparr>lk := lk', held := t # held s\<rparr>)
      | (lk', Inl _) \<Rightarrow> Some (s\<lparr>lk := lk'\<rparr>))"
| "lock_act (LRelease t) s =
     (if pcs s t \<noteq> None then None
      else case lock_release t (lk s) of
        (lk', Inr _) \<Rightarrow> Some (s\<lparr>lk := lk', held := remove1 t (held s)\<rparr>)
      | (lk', Inl _) \<Rightarrow> Some (s\<lparr>lk := lk'\<rparr>))"
| "lock_act (LCancel t) s =
     Some (s\<lparr>lk := (lk s)\<lparr>lk_waiters := cancel_waiter t (lk_waiters (lk s))\<rparr>\<rparr>)"

definition lsys_new :: "bool \<Rightarrow> lsys" where
  "lsys_new fast = \<lparr>lk = lock_new fast, pcs = (\<lambda>_. None), held = []\<rparr>"

inductive lock_reach :: "lsys \<Rightarrow> bool" where
  init: "lock_reach (lsys_new fast)"
| step: "lock_reach s \<Longrightarrow> lock_act a s = Some s' \<Longrightarrow> lock_reach s'"

fun lock_run :: "lact list \<Rightarrow> lsys \<Rightarrow> lsys option" where
  "lock_run [] s = Some s"
| "lock_run (a # as) s = (case lock_act a s of None \<Rightarrow> None | Some s' \<Rightarrow> lock_run as s')"

lemma lock_run_reach: "lock_reach s \<Longrightarrow> lock_run as s = Some s' \<Longrightarrow> lock_reach s'"
  by (induction as arbitrary: s) (auto split: option.splits intro: lock_reach.step)

section \<open>The invariant\<close>

text \<open>
  Exactly the tasks at \<open>LkWait\<close> are queued, once each. The lock's owner is the task that holds
  it, the one at the checkpoint after taking it, or the one queued waiter whose future has a
  result; nobody else is any of these.
\<close>

definition claims :: "lsys \<Rightarrow> task \<Rightarrow> bool" where
  "claims s t \<longleftrightarrow> t \<in> set (held s) \<or> pcs s t = Some LkYield \<or> (t, FResult ()) \<in> set (lk_waiters (lk s))"

definition lock_ok :: "lsys \<Rightarrow> bool" where
  "lock_ok s \<longleftrightarrow>
     distinct (map fst (lk_waiters (lk s)))
   \<and> (\<forall>t. pcs s t = Some LkWait \<longleftrightarrow> t \<in> set (map fst (lk_waiters (lk s))))
   \<and> (\<forall>t f. (t, f) \<in> set (lk_waiters (lk s)) \<longrightarrow> f = Pending \<or> f = FCancelled \<or> f = FResult ())
   \<and> (\<forall>t. owner_task (lk s) = Some t \<longleftrightarrow> claims s t)
   \<and> distinct (held s) \<and> (\<forall>t \<in> set (held s). pcs s t = None)"

lemma lock_release_cases:
  assumes "owner_task l = Some t" "ungranted (lk_waiters l)"
  obtains (free) "lock_release t l = (l\<lparr>owner_task := None\<rparr>, Inr ())"
      "\<forall>u f. (u, f) \<in> set (lk_waiters l) \<longrightarrow> f = FCancelled"
  | (hand) us t' vs where "lk_waiters l = us @ (t', Pending) # vs" "\<forall>(u, f) \<in> set us. f = FCancelled"
      "lock_release t l = (l\<lparr>owner_task := Some t', lk_waiters := us @ (t', FResult ()) # vs\<rparr>, Inr ())"
proof (cases "grant_first (lk_waiters l)")
  case None
  then have "lock_release t l = (l\<lparr>owner_task := None\<rparr>, Inr ())"
    using assms(1) by (simp add: lock_release_def)
  moreover have "\<forall>u f. (u, f) \<in> set (lk_waiters l) \<longrightarrow> f = FCancelled"
    using None by (simp only: grant_first_None)
  ultimately show ?thesis using free by blast
next
  case (Some g)
  then obtain t' r where g: "grant_first (lk_waiters l) = Some (t', r)" by (cases g) auto
  from grant_first_Some [OF assms(2) g] obtain us vs where
    "lk_waiters l = us @ (t', Pending) # vs" "\<forall>(u, f)\<in>set us. f = FCancelled"
    "r = Inr (us @ (t', FResult ()) # vs)" by blast
  with g assms(1) hand [of us t' vs] show ?thesis by (auto simp: lock_release_def)
qed

lemma lock_okD:
  assumes "lock_ok s"
  shows "distinct (map fst (lk_waiters (lk s)))"
    and "pcs s t = Some LkWait \<longleftrightarrow> t \<in> set (map fst (lk_waiters (lk s)))"
    and "(t, f) \<in> set (lk_waiters (lk s)) \<Longrightarrow> f = Pending \<or> f = FCancelled \<or> f = FResult ()"
    and "owner_task (lk s) = Some t \<longleftrightarrow> claims s t"
    and "distinct (held s)" "t \<in> set (held s) \<Longrightarrow> pcs s t = None"
  using assms by (auto simp: lock_ok_def)

text \<open>A release by the owner: what it needs of the state and what it keeps.\<close>

lemma lock_ok_release:
  assumes ok: "distinct (map fst (lk_waiters l))"
      "\<And>u. p u = Some LkWait \<longleftrightarrow> u \<in> set (map fst (lk_waiters l))"
      "ungranted (lk_waiters l)"
      "\<And>u. p u \<noteq> Some LkYield" "owner_task l = Some t"
  shows "\<exists>l'. lock_release t l = (l', Inr ()) \<and> lock_ok \<lparr>lk = l', pcs = p, held = []\<rparr>"
  using ok(5,3)
proof (cases rule: lock_release_cases)
  case free
  then have "(u, FResult ()) \<notin> set (lk_waiters l)" for u by blast
  with free show ?thesis using ok(1,2,3,4) by (simp add: lock_ok_def claims_def ungranted_def)
next
  case (hand us t' vs)
  define ws where "ws = us @ (t', FResult ()) # vs"
  have keys: "map fst ws = map fst (lk_waiters l)" by (simp add: hand(1) ws_def)
  have mem: "(u, f) \<in> set ws \<Longrightarrow> u = t' \<and> f = FResult () \<or> (u, f) \<in> set (lk_waiters l)" for u f
    by (auto simp: hand(1) ws_def)
  have "(u, FResult ()) \<in> set ws \<longleftrightarrow> u = t'" for u
    using mem [of u "FResult ()"] ok(3) by (auto simp: ungranted_def ws_def)
  moreover have "(u, f) \<in> set ws \<Longrightarrow> f = Pending \<or> f = FCancelled \<or> f = FResult ()" for u f
    using mem ok(3) unfolding ungranted_def by blast
  ultimately have "lock_ok \<lparr>lk = l\<lparr>owner_task := Some t', lk_waiters := ws\<rparr>, pcs = p, held = []\<rparr>"
    using ok(1,2) [folded keys] ok(4) unfolding lock_ok_def claims_def by auto
  then show ?thesis using hand(3) unfolding ws_def by blast
qed

lemma only_claim:
  "lock_ok s \<Longrightarrow> claims s t \<Longrightarrow> claims s u \<Longrightarrow> u = t"
  using lock_okD(4) by (metis option.inject)

lemma ungranted_others:
  assumes "lock_ok s" "claims s t"
  shows "ungranted (od_pop (lk_waiters (lk s)) t)"
  unfolding ungranted_def
proof (intro allI impI)
  fix u f
  assume "(u, f) \<in> set (od_pop (lk_waiters (lk s)) t)"
  then have u: "(u, f) \<in> set (lk_waiters (lk s))" "u \<noteq> t" by (simp_all add: set_od_pop)
  have "f \<noteq> FResult ()"
  proof
    assume "f = FResult ()"
    then have "claims s u" using u(1) by (simp add: claims_def)
    then show False using only_claim [OF assms] u(2) by blast
  qed
  then show "f = Pending \<or> f = FCancelled" using lock_okD(3) [OF assms(1) u(1)] by blast
qed

lemma map_fst_od_pop: "map fst (od_pop ws t) = removeAll t (map fst ws)"
  using od_keys_pop [of ws t] by (simp add: od_keys_def)

lemma not_queued: "lock_ok s \<Longrightarrow> pcs s t \<noteq> Some LkWait \<Longrightarrow> od_pop (lk_waiters (lk s)) t = lk_waiters (lk s)"
  using lock_okD(2) [of s t] by (simp add: od_pop_absent od_keys_def)

text \<open>Every way the lock is given up: by its holder, or by a cancelled task that had been given it.\<close>

lemma lock_ok_give_up:
  assumes "lock_ok s" "claims s t" "p = (pcs s)(t := None)" "ws = od_pop (lk_waiters (lk s)) t"
  shows "\<exists>l'. lock_release t ((lk s)\<lparr>lk_waiters := ws\<rparr>) = (l', Inr ())
    \<and> lock_ok \<lparr>lk = l', pcs = p, held = []\<rparr>"
proof (rule lock_ok_release)
  show "distinct (map fst (lk_waiters (lk s\<lparr>lk_waiters := ws\<rparr>)))"
    using lock_okD(1) [OF assms(1)] by (simp add: assms(4) map_fst_od_pop distinct_removeAll)
  show "p u = Some LkWait \<longleftrightarrow> u \<in> set (map fst (lk_waiters (lk s\<lparr>lk_waiters := ws\<rparr>)))" for u
    using lock_okD(2) [OF assms(1), of u] unfolding assms(3,4)
    by (simp add: map_fst_od_pop del: set_map)
  show "ungranted (lk_waiters (lk s\<lparr>lk_waiters := ws\<rparr>))"
    using ungranted_others [OF assms(1,2)] by (simp add: assms(4))
  show "p u \<noteq> Some LkYield" for u
    using only_claim [OF assms(1,2), of u] by (auto simp: assms(3) claims_def)
  show "owner_task (lk s\<lparr>lk_waiters := ws\<rparr>) = Some t"
    using lock_okD(4) [OF assms(1), of t] assms(2) by simp
qed

lemma held_nil: "\<forall>u. u \<noteq> t \<longrightarrow> \<not> claims s u \<Longrightarrow> t \<notin> set (held s) \<Longrightarrow> held s = []"
  unfolding claims_def by (metis list.set_intros(1) neq_Nil_conv)

lemma free_state:
  assumes "lock_ok s" "owner_task (lk s) = None"
  shows "held s = []" "pcs s u \<noteq> Some LkYield" "(u, FResult ()) \<notin> set (lk_waiters (lk s))"
proof -
  have none: "\<forall>u. \<not> claims s u" using lock_okD(4) [OF assms(1)] assms(2) by simp
  then show "held s = []" by (intro held_nil) (auto simp: claims_def)
  show "pcs s u \<noteq> Some LkYield" "(u, FResult ()) \<notin> set (lk_waiters (lk s))"
    using none by (auto simp: claims_def)
qed

lemma held_claim:
  assumes "lock_ok s" "t \<in> set (held s)"
  shows "held s = [t]"
proof (cases "held s")
  case (Cons a hs)
  have all: "\<forall>u \<in> set (held s). u = t"
    using only_claim [OF assms(1), of t] assms(2) by (auto simp: claims_def)
  moreover from this have "hs = []"
    using lock_okD(5) [OF assms(1)] Cons by (cases hs) auto
  ultimately show ?thesis using Cons by simp
qed (use assms(2) in simp)

lemma lsys_simp: "s\<lparr>lk := a, pcs := b\<rparr> = \<lparr>lk = a, pcs = b, held = held s\<rparr>"
  by (cases s) simp

lemma held_owner: "lock_ok s \<Longrightarrow> t \<in> set (held s) \<Longrightarrow> owner_task (lk s) = Some t"
  by (simp add: lock_okD(4) claims_def)

text \<open>The steps.\<close>

lemma lock_ok_acquire:
  assumes ok: "lock_ok s" and pc: "pcs s t = None"
  shows "lock_ok (lock_outcome t (lock_acquire_start t c (lk s)) s)"
proof -
  have nq: "t \<notin> set (map fst (lk_waiters (lk s)))" using lock_okD(2) [OF ok, of t] pc by simp
  show ?thesis
  proof (cases "owner_task (lk s) = None \<and> lk_waiters (lk s) = []")
    case True
    note free = free_state [OF ok, OF conjunct1 [OF True]]
    moreover have "pcs s u \<noteq> Some LkWait" for u using lock_okD(2) [OF ok, of u] True by simp
    ultimately show ?thesis using True pc
      by (auto simp: lock_acquire_start_def lock_outcome_def lock_ok_def claims_def)
  next
    case False
    then show ?thesis using ok pc nq
      by (auto simp: lock_acquire_start_def lock_outcome_def lock_ok_def claims_def)
  qed
qed

lemma lock_ok_nowait:
  assumes ok: "lock_ok s" and pc: "pcs s t = None" and a: "lock_acquire_nowait t (lk s) = (lk', Inr ())"
  shows "lock_ok (s\<lparr>lk := lk', held := t # held s\<rparr>)"
proof -
  from a have free: "owner_task (lk s) = None" "lk_waiters (lk s) = []"
    "lk' = (lk s)\<lparr>owner_task := Some t\<rparr>"
    by (auto simp: lock_acquire_nowait_def split: if_splits)
  with free_state [OF ok this(1)] ok pc show ?thesis by (auto simp: lock_ok_def claims_def)
qed

lemma fut_cancel_simps [simp]:
  "fut_cancel Pending = FCancelled" "fut_cancel FCancelled = FCancelled"
  "fut_cancel (FResult v) = FResult v" "fut_cancel (FFailed e) = FFailed e"
  by (simp_all add: fut_cancel_def)

lemma lock_ok_cancel:
  assumes "lock_ok s"
  shows "lock_ok (s\<lparr>lk := (lk s)\<lparr>lk_waiters := cancel_waiter t (lk_waiters (lk s))\<rparr>\<rparr>)"
proof -
  let ?s = "s\<lparr>lk := (lk s)\<lparr>lk_waiters := cancel_waiter t (lk_waiters (lk s))\<rparr>\<rparr>"
  have "(u, FResult ()) \<in> set (cancel_waiter t (lk_waiters (lk s))) \<longleftrightarrow> (u, FResult ()) \<in> set (lk_waiters (lk s))" for u
    using lock_okD(3) [OF assms] by (fastforce simp: set_cancel_waiter)
  then have cl: "claims ?s u \<longleftrightarrow> claims s u" for u by (simp add: claims_def)
  have fut: "f = Pending \<or> f = FCancelled \<or> f = FResult ()"
    if "(u, f) \<in> set (cancel_waiter t (lk_waiters (lk s)))" for u f
    using that lock_okD(3) [OF assms] by (fastforce simp: set_cancel_waiter split: if_splits)
  show ?thesis
    unfolding lock_ok_def cl
    using assms fut by (simp add: lock_ok_def del: set_map)
qed

lemma release_by_owner:
  assumes ok: "lock_ok s" and pc: "pcs s t = None" and own: "owner_task (lk s) = Some t"
  shows "\<exists>l'. lock_release t (lk s) = (l', Inr ()) \<and> lock_ok (s\<lparr>lk := l', held := remove1 t (held s)\<rparr>)"
proof -
  have cl: "claims s t" using own lock_okD(4) [OF ok] by blast
  have q: "t \<notin> set (map fst (lk_waiters (lk s)))" using lock_okD(2) [OF ok, of t] pc by simp
  then have "(t, FResult ()) \<notin> set (lk_waiters (lk s))" by force
  with cl pc have "t \<in> set (held s)" by (simp add: claims_def)
  then have h: "held s = [t]" by (rule held_claim [OF ok])
  have p: "pcs s = (pcs s)(t := None)" using pc by auto
  have w: "lk_waiters (lk s) = od_pop (lk_waiters (lk s)) t"
    using not_queued [OF ok, of t] pc by simp
  from lock_ok_give_up [OF ok cl p w] h show ?thesis by (auto simp: lock_ok_def claims_def)
qed

lemma give_up_raise:
  assumes ok: "lock_ok s" and cl: "claims s t" and h: "t \<notin> set (held s)"
  shows "lock_ok (lock_outcome t (release_and_raise t e ((lk s)\<lparr>lk_waiters := od_pop (lk_waiters (lk s)) t\<rparr>)) s)"
proof -
  have "held s = []"
    using only_claim [OF ok cl] h by (intro held_nil [of t]) auto
  with lock_ok_give_up [OF ok cl refl refl] show ?thesis
    by (auto simp: release_and_raise_def lock_outcome_def lsys_simp)
qed

lemma lock_ok_resume_wait:
  assumes ok: "lock_ok s" and pc: "pcs s t = Some LkWait"
    and m: "may_answer (lk_waiters (lk s)) t LkWait r"
  shows "lock_ok (lock_outcome t (lock_acquire_resume t LkWait r (lk s)) s)"
proof -
  have nh: "t \<notin> set (held s)" using lock_okD(6) [OF ok, of t] pc by auto
  have pop: "distinct (removeAll t (map fst (lk_waiters (lk s))))"
    "((pcs s)(t := None)) u = Some LkWait \<longleftrightarrow> u \<in> set (removeAll t (map fst (lk_waiters (lk s))))" for u
    using lock_okD(1) [OF ok] lock_okD(2) [OF ok, of u] by (auto simp: distinct_removeAll)
  from m obtain f where f: "(t, f) \<in> set (lk_waiters (lk s))" "r = Resumed () \<and> f = FResult () \<or> is_thrown_cancel r"
    by (auto simp: may_answer_def dest: map_of_SomeD split: option.splits)
  show ?thesis
  proof (cases r)
    case (Resumed v)
    then have "f = FResult ()" using f(2) by (auto simp: is_thrown_cancel_def)
    then have cl: "claims s t" using f(1) by (simp add: claims_def)
    have others: "\<not> claims s u" if "u \<noteq> t" for u using only_claim [OF ok cl, of u] that by blast
    have "held s = []" using others nh by (intro held_nil [of t]) auto
    moreover have "owner_task (lk s) = Some t" using cl lock_okD(4) [OF ok] by blast
    ultimately show ?thesis
      unfolding Resumed using pop others lock_okD(3) [OF ok]
      by (auto simp: lock_outcome_def lock_ok_def claims_def map_fst_od_pop set_od_pop simp del: set_map)
  next
    case (Thrown e)
    then have e: "is_cancelled e" using f(2) by (simp add: is_thrown_cancel_def)
    show ?thesis
    proof (cases "owner_task (lk s) = Some t")
      case True
      then have "claims s t" using lock_okD(4) [OF ok] by blast
      from give_up_raise [OF ok this nh, of e] True e show ?thesis by (simp add: Thrown Let_def)
    next
      case False
      then have ncl: "\<not> claims s t" using lock_okD(4) [OF ok] by blast
      let ?s' = "s\<lparr>lk := (lk s)\<lparr>lk_waiters := od_pop (lk_waiters (lk s)) t\<rparr>, pcs := (pcs s)(t := None)\<rparr>"
      have "claims ?s' u \<longleftrightarrow> claims s u" for u
        using ncl by (auto simp: claims_def set_od_pop)
      then have "lock_ok ?s'"
        using ok pop unfolding lock_ok_def
        by (auto simp: map_fst_od_pop set_od_pop simp del: set_map set_removeAll)
      then show ?thesis using False e by (simp add: Thrown Let_def lock_outcome_def)
    qed
  qed
qed

lemma lock_ok_resume:
  assumes ok: "lock_ok s" and pc: "pcs s t = Some pc" and m: "may_answer (lk_waiters (lk s)) t pc r"
  shows "lock_ok (lock_outcome t (lock_acquire_resume t pc r (lk s)) s)"
proof (cases pc)
  case LkWait
  with assms show ?thesis using lock_ok_resume_wait by simp
next
  case LkIfCancelled
  have nh: "t \<notin> set (held s)" using lock_okD(6) [OF ok, of t] pc by auto
  have "pcs s = (pcs s)(t := Some LkIfCancelled)" using pc LkIfCancelled by auto
  moreover have "t \<notin> fst ` set (lk_waiters (lk s))"
    using lock_okD(2) [OF ok, of t] pc LkIfCancelled by simp
  ultimately show ?thesis using ok pc nh
    by (cases r) (auto simp: LkIfCancelled lock_outcome_def lock_ok_def claims_def)
next
  case LkYield
  have nh: "t \<notin> set (held s)" using lock_okD(6) [OF ok, of t] pc by auto
  have cl: "claims s t" using pc LkYield by (simp add: claims_def)
  have w: "od_pop (lk_waiters (lk s)) t = lk_waiters (lk s)"
    using not_queued [OF ok, of t] pc LkYield by simp
  show ?thesis
  proof (cases r)
    case (Thrown e)
    then have "is_cancelled e" using m LkYield by (auto simp: may_answer_def is_thrown_cancel_def)
    then show ?thesis using give_up_raise [OF ok cl nh, of e] w by (simp add: LkYield Thrown)
  next
    case (Resumed v)
    have others: "\<not> claims s u" if "u \<noteq> t" for u using only_claim [OF ok cl, of u] that by blast
    have "held s = []" using others nh by (intro held_nil [of t]) auto
    moreover have "t \<notin> fst ` set (lk_waiters (lk s))"
      using lock_okD(2) [OF ok, of t] pc LkYield by simp
    ultimately show ?thesis using ok pc others cl
      by (auto simp: LkYield Resumed lock_outcome_def lock_ok_def claims_def)
  qed
qed

lemma lock_ok_act: "lock_ok s \<Longrightarrow> lock_act a s = Some s' \<Longrightarrow> lock_ok s'"
proof (induction a s rule: lock_act.induct)
  case (1 t c s)
  then show ?case using lock_ok_acquire by (auto split: if_splits)
next
  case (2 t r s)
  then show ?case using lock_ok_resume by (auto split: if_splits option.splits)
next
  case (3 t s)
  then show ?case using lock_ok_nowait [of s t]
    by (auto simp: lock_acquire_nowait_def split: if_splits)
next
  case (4 t s)
  then show ?case using release_by_owner [of s t]
    by (cases "owner_task (lk s) = Some t") (auto simp: lock_release_def split: if_splits)
next
  case (5 t s)
  then show ?case using lock_ok_cancel by auto
qed

lemma lock_ok_new: "lock_ok (lsys_new fast)"
  by (simp add: lock_ok_def lsys_new_def lock_new_def claims_def)

lemma lock_reach_ok: "lock_reach s \<Longrightarrow> lock_ok s"
  by (induction rule: lock_reach.induct) (auto intro: lock_ok_new lock_ok_act)

section \<open>Without cancellation\<close>

text \<open>While no waiting task is cancelled, a free lock has no waiters: every wakeup reaches a task.\<close>

definition calm :: "lsys \<Rightarrow> bool" where
  "calm s \<longleftrightarrow> (\<forall>t. (t, FCancelled) \<notin> set (lk_waiters (lk s)))
     \<and> (owner_task (lk s) = None \<longrightarrow> lk_waiters (lk s) = [])"

lemma calm_release:
  assumes "owner_task l = Some t" "ungranted (lk_waiters l)" "\<forall>t. (t, FCancelled) \<notin> set (lk_waiters l)"
  shows "\<exists>l'. lock_release t l = (l', Inr ()) \<and> (\<forall>t. (t, FCancelled) \<notin> set (lk_waiters l'))
     \<and> (owner_task l' = None \<longrightarrow> lk_waiters l' = [])"
  using assms(1,2)
proof (cases rule: lock_release_cases)
  case free
  then have "lk_waiters l = []" using assms(3) by (cases "lk_waiters l") auto
  with free show ?thesis by simp
next
  case (hand us t' vs)
  then show ?thesis using assms(3) by auto
qed

definition is_cancel_act :: "lact \<Rightarrow> bool" where
  "is_cancel_act a = (case a of LCancel _ \<Rightarrow> True | _ \<Rightarrow> False)"

lemma calm_give_up:
  assumes "lock_ok s" "calm s" "claims s t"
  shows "calm (lock_outcome t (release_and_raise t e
    ((lk s)\<lparr>lk_waiters := od_pop (lk_waiters (lk s)) t\<rparr>)) s)"
proof -
  let ?l = "(lk s)\<lparr>lk_waiters := od_pop (lk_waiters (lk s)) t\<rparr>"
  have "owner_task ?l = Some t" using assms(3) lock_okD(4) [OF assms(1)] by simp
  moreover have "ungranted (lk_waiters ?l)" using ungranted_others [OF assms(1,3)] by simp
  moreover have "\<forall>t. (t, FCancelled) \<notin> set (lk_waiters ?l)"
    using assms(2) by (simp add: calm_def set_od_pop)
  ultimately show ?thesis
    using calm_release [of ?l t] by (auto simp: release_and_raise_def lock_outcome_def calm_def)
qed

lemma calm_resume:
  assumes ok: "lock_ok s" and c: "calm s" and pc: "pcs s t = Some pc"
    and m: "may_answer (lk_waiters (lk s)) t pc r"
  shows "calm (lock_outcome t (lock_acquire_resume t pc r (lk s)) s)"
proof (cases "\<exists>e. r = Thrown e \<and> pc \<noteq> LkIfCancelled")
  case False
  then show ?thesis using c
    by (cases pc; cases r) (auto simp: lock_outcome_def calm_def set_od_pop)
next
  case True
  then obtain e where r: "r = Thrown e" "is_cancelled e" "pc \<noteq> LkIfCancelled"
    using m by (auto simp: may_answer_def is_thrown_cancel_def split: if_splits option.splits)
  show ?thesis
  proof (cases pc)
    case LkWait
    from m obtain f where f: "(t, f) \<in> set (lk_waiters (lk s))" "fut_done f"
      unfolding LkWait by (auto simp: may_answer_def dest: map_of_SomeD split: option.splits)
    then have "f = FResult ()" using lock_okD(3) [OF ok f(1)] c by (auto simp: calm_def)
    then have cl: "claims s t" using f(1) by (simp add: claims_def)
    then have "owner_task (lk s) = Some t" using lock_okD(4) [OF ok] by blast
    with calm_give_up [OF ok c cl, of e] r show ?thesis by (simp add: LkWait Let_def)
  next
    case LkYield
    then have "claims s t" using pc by (simp add: claims_def)
    from calm_give_up [OF ok c this, of e] not_queued [OF ok, of t] pc r show ?thesis
      by (simp add: LkYield)
  qed (use r in simp)
qed

lemma calm_act:
  assumes "lock_ok s" "calm s" "lock_act a s = Some s'" "\<not> is_cancel_act a"
  shows "calm s'"
  using assms
proof (induction a s rule: lock_act.induct)
  case (1 t c s)
  then show ?case
    by (auto simp: lock_acquire_start_def lock_outcome_def calm_def split: if_splits)
next
  case (2 t r s)
  then show ?case using calm_resume by (auto split: if_splits option.splits)
next
  case (3 t s)
  then show ?case by (auto simp: lock_acquire_nowait_def calm_def split: if_splits)
next
  case (4 t s)
  show ?case
  proof (cases "owner_task (lk s) = Some t")
    case True
    then have cl: "claims s t" using lock_okD(4) [OF "4.prems"(1)] by blast
    have "od_pop (lk_waiters (lk s)) t = lk_waiters (lk s)"
      using "4.prems" not_queued [of s t] by (auto split: if_splits)
    then have "ungranted (lk_waiters (lk s))" using ungranted_others [OF "4.prems"(1) cl] by simp
    with calm_release [OF True] "4.prems" show ?thesis by (auto simp: calm_def split: if_splits)
  next
    case False
    then show ?thesis using "4.prems" by (auto simp: lock_release_def split: if_splits)
  qed
qed (simp add: is_cancel_act_def)

lemma calm_run:
  "lock_ok s \<Longrightarrow> calm s \<Longrightarrow> lock_run as s = Some s' \<Longrightarrow> \<not> list_ex is_cancel_act as \<Longrightarrow> calm s'"
proof (induction as arbitrary: s)
  case (Cons a as)
  then show ?case using calm_act [of s a] lock_ok_act [of s a]
    by (auto split: option.splits)
qed simp

section \<open>Properties\<close>

text \<open>
  C3: Mutual exclusion: however tasks interleave \<open>acquire\<close>, \<open>acquire_nowait\<close> and \<open>release\<close> and
  whenever waiting tasks are cancelled, at most one task holds the lock, \<open>_owner_task\<close> is that
  task, and the queue holds each waiting task once.
\<close>

theorem lock_mutual_exclusion:
  assumes "lock_reach s"
  shows "length (held s) \<le> 1 \<and> (held s = [] \<or> owner_task (lk s) = Some (hd (held s)))
    \<and> distinct (map fst (lk_waiters (lk s)))
    \<and> {t. pcs s t = Some LkWait} = set (map fst (lk_waiters (lk s)))"
proof -
  note ok = lock_reach_ok [OF assms]
  have "held s = [] \<or> length (held s) = 1 \<and> owner_task (lk s) = Some (hd (held s))"
    using held_claim [OF ok, of "hd (held s)"] held_owner [OF ok, of "hd (held s)"]
    by (cases "held s") auto
  then show ?thesis using lock_okD(1,2) [OF ok] by auto
qed

abbreviation lock_contended :: "lact list" where
  "lock_contended \<equiv> [LAcquire 1 False, LAcquire 2 False, LAcquire 3 False, LRelease 1, LResume 2 (Resumed ())]"

lemma lock_contended_run:
  "\<exists>s. lock_run lock_contended (lsys_new True) = Some s \<and> held s = [2]
    \<and> lk_waiters (lk s) = [(3, Pending)]"
  by (simp add: lsys_new_def lock_new_def lock_acquire_start_def lock_outcome_def lock_release_def
      fut_set_result_def may_answer_def)

theorem lock_mutual_exclusion_witness:
  "\<exists>s. lock_reach s \<and> held s = [2] \<and> owner_task (lk s) = Some 2"
proof -
  from lock_contended_run obtain s where s: "lock_run lock_contended (lsys_new True) = Some s" "held s = [2]"
    by blast
  from lock_run_reach [OF lock_reach.init s(1)] have "lock_reach s" .
  from lock_mutual_exclusion [OF this] s(2) \<open>lock_reach s\<close> show ?thesis by auto
qed

text \<open>
  In every reachable state a release by the holder succeeds and hands the lock to the first
  waiter that is not cancelled, in arrival order, or frees it when there is none; the queue keeps
  its order.
\<close>

theorem lock_release_fifo:
  assumes "lock_reach s" "t \<in> set (held s)"
  shows "\<exists>l'. lock_release t (lk s) = (l', Inr ())
    \<and> owner_task l' = (case filter (\<lambda>(u, f). f = Pending) (lk_waiters (lk s)) of
         [] \<Rightarrow> None | (u, f) # _ \<Rightarrow> Some u)
    \<and> map fst (lk_waiters l') = map fst (lk_waiters (lk s))"
proof -
  note ok = lock_reach_ok [OF assms(1)]
  have own: "owner_task (lk s) = Some t" by (rule held_owner [OF ok assms(2)])
  then have "claims s t" using lock_okD(4) [OF ok] by blast
  from ungranted_others [OF ok this] have "ungranted (lk_waiters (lk s))"
    using not_queued [OF ok, of t] lock_okD(6) [OF ok assms(2)] by simp
  with own show ?thesis
  proof (cases rule: lock_release_cases)
    case free
    then have "filter (\<lambda>(u, f). f = Pending) (lk_waiters (lk s)) = []"
      by (auto simp: filter_empty_conv)
    with free show ?thesis by simp
  next
    case (hand us t' vs)
    then have "filter (\<lambda>(u, f). f = Pending) us = []" by (auto simp: filter_empty_conv)
    with hand show ?thesis by simp
  qed
qed

theorem lock_release_fifo_witness:
  "\<exists>s l'. lock_reach s \<and> held s = [2] \<and> lock_release 2 (lk s) = (l', Inr ()) \<and> owner_task l' = Some 3"
proof -
  from lock_contended_run obtain s where s: "lock_run lock_contended (lsys_new True) = Some s" "held s = [2]"
    "lk_waiters (lk s) = [(3, Pending)]" by blast
  from lock_run_reach [OF lock_reach.init s(1)] have r: "lock_reach s" .
  from lock_release_fifo [OF r, of 2] s r show ?thesis by auto
qed

text \<open>
  C26: No lost wakeup while no waiting task is cancelled: a lock without an owner has an empty
  queue, so no task sleeps on a free lock. The hypothesis is needed: \<open>lock_cancel_deadlock\<close>.
\<close>

theorem lock_no_lost_wakeup:
  assumes "lock_run as (lsys_new fast) = Some s" "\<not> list_ex is_cancel_act as"
    and "owner_task (lk s) = None"
  shows "lk_waiters (lk s) = [] \<and> pcs s t \<noteq> Some LkWait"
proof -
  have "calm (lsys_new fast)" by (simp add: calm_def lsys_new_def lock_new_def)
  from calm_run [OF lock_ok_new this assms(1,2)] assms(3) have "lk_waiters (lk s) = []"
    by (simp add: calm_def)
  moreover have "lock_ok s" using lock_run_reach [OF lock_reach.init assms(1)] by (rule lock_reach_ok)
  ultimately show ?thesis using lock_okD(2) [of s t] by simp
qed

theorem lock_no_lost_wakeup_witness:
  "\<exists>s. lock_run [LAcquire 1 False, LAcquire 2 False, LRelease 1, LResume 2 (Resumed ()), LRelease 2]
      (lsys_new True) = Some s \<and> lk_waiters (lk s) = [] \<and> pcs s 2 \<noteq> Some LkWait"
  using lock_no_lost_wakeup [of "[LAcquire 1 False, LAcquire 2 False, LRelease 1,
      LResume 2 (Resumed ()), LRelease 2]" True _ 2]
  by (simp add: lsys_new_def lock_new_def lock_acquire_start_def lock_outcome_def lock_release_def
      fut_set_result_def may_answer_def is_cancel_act_def od_pop_def)

text \<open>
  A cancelled waiter that has not run yet can cost a wakeup: when the holder releases while
  the only queued waiter is cancelled, the lock becomes free but the queue is not empty, so the
  next \<open>acquire\<close> queues behind the cancelled waiter; that waiter leaves without passing the lock
  on, and the new one sleeps on a lock nobody owns or will release.
\<close>

theorem lock_cancel_deadlock:
  "\<exists>s. lock_run [LAcquire 1 False, LAcquire 2 False, LCancel 2, LRelease 1, LAcquire 3 False,
      LResume 2 (Thrown (CancelledError None None))] (lsys_new True) = Some s
    \<and> owner_task (lk s) = None \<and> held s = [] \<and> lk_waiters (lk s) = [(3, Pending)]
    \<and> pcs s = [3 \<mapsto> LkWait]"
  by (simp add: lsys_new_def lock_new_def lock_acquire_start_def lock_outcome_def lock_release_def
      fut_set_result_def may_answer_def cancel_waiter_def is_thrown_cancel_def is_cancelled_def fun_eq_iff)

end
