(* ===== verification/Semaphores.thy ===== *)
theory Semaphores
  imports Locks
begin

text \<open>
  Semaphores: \<open>Semaphore.__init__\<close> of \<open>src/anyio/_core/_synchronization.py\<close> and the asyncio class
  \<open>Semaphore\<close> of \<open>src/anyio/_backends/_asyncio.py\<close>.

  As in \<open>Locks\<close>, a waiter is its task and its future. The system \<open>sem_act\<close> lets any task acquire,
  release and be cancelled; it records in \<open>outstanding\<close> the successful acquires minus the
  successful releases by users, in \<open>passed\<close> the tasks that have a permit but whose \<open>acquire\<close> has
  not returned, and in \<open>lost\<close> how often the \<open>release\<close> of a cancelled \<open>acquire\<close> failed.
\<close>

record sem =
  sem_value :: int
  sem_max :: "int option"
  sem_fast :: bool
  sem_waiters :: waiters

fun pyint :: "pynum \<Rightarrow> int option" where
  "pyint (PyInt i) = Some i"
| "pyint (PyFloat _) = None"

definition sem_init :: "pynum \<Rightarrow> pynum option \<Rightarrow> bool \<Rightarrow> sem res" where
  "sem_init initial_value max_value fast =
     (case pyint initial_value of
        None \<Rightarrow> Inl (TypeError ''initial_value must be an integer'')
      | Some i \<Rightarrow>
          if i < 0 then Inl (ValueError ''initial_value must be >= 0'')
          else case max_value of
            None \<Rightarrow> Inr \<lparr>sem_value = i, sem_max = None, sem_fast = fast, sem_waiters = []\<rparr>
          | Some mv \<Rightarrow>
              (case pyint mv of
                 None \<Rightarrow> Inl (TypeError ''max_value must be an integer or None'')
               | Some m \<Rightarrow>
                   if m < i
                   then Inl (ValueError ''max_value must be equal to or higher than initial_value'')
                   else Inr \<lparr>sem_value = i, sem_max = Some m, sem_fast = fast, sem_waiters = []\<rparr>))"

definition too_many :: exn where
  "too_many = ValueError ''semaphore released too many times''"

definition sem_release :: "sem \<Rightarrow> sem \<times> unit res" where
  "sem_release sm =
     (if sem_max sm = Some (sem_value sm) then (sm, Inl too_many)
      else case grant_first (sem_waiters sm) of
        None \<Rightarrow> (sm\<lparr>sem_value := sem_value sm + 1\<rparr>, Inr ())
      | Some (t, Inl e) \<Rightarrow> (sm, Inl e)
      | Some (t, Inr ws) \<Rightarrow> (sm\<lparr>sem_waiters := od_pop ws t\<rparr>, Inr ()))"

datatype sem_pc = SemIfCancelled | SemYield | SemWait

definition sem_acquire_start :: "task \<Rightarrow> bool \<Rightarrow> sem \<Rightarrow> sem \<times> (sem_pc, unit) outcome" where
  "sem_acquire_start t cancelled sm =
     (if sem_value sm > 0 \<and> sem_waiters sm = [] then
        (if cancelled then (sm, Suspended SemIfCancelled)
         else (sm\<lparr>sem_value := sem_value sm - 1\<rparr>, if sem_fast sm then Done () else Suspended SemYield))
      else (sm\<lparr>sem_waiters := sem_waiters sm @ [(t, Pending)]\<rparr>, Suspended SemWait))"

definition sem_release_and_raise :: "exn \<Rightarrow> sem \<Rightarrow> sem \<times> (sem_pc, unit) outcome" where
  "sem_release_and_raise e sm =
     (case sem_release sm of (sm', Inr _) \<Rightarrow> (sm', Raised e) | (sm', Inl e') \<Rightarrow> (sm', Raised e'))"

fun sem_acquire_resume :: "task \<Rightarrow> sem_pc \<Rightarrow> unit awaited \<Rightarrow> sem \<Rightarrow> sem \<times> (sem_pc, unit) outcome" where
  "sem_acquire_resume t SemIfCancelled (Resumed _) sm = (sm, Suspended SemIfCancelled)"
| "sem_acquire_resume t SemIfCancelled (Thrown e) sm = (sm, Raised e)"
| "sem_acquire_resume t SemYield (Resumed _) sm = (sm, Done ())"
| "sem_acquire_resume t SemYield (Thrown e) sm =
     (if is_cancelled e then sem_release_and_raise e sm else (sm, Raised e))"
| "sem_acquire_resume t SemWait (Resumed _) sm = (sm, Done ())"
| "sem_acquire_resume t SemWait (Thrown e) sm =
     (if is_cancelled e then
        (if od_has (sem_waiters sm) t
         then (sm\<lparr>sem_waiters := od_pop (sem_waiters sm) t\<rparr>, Raised e)
         else sem_release_and_raise e sm)
      else (sm, Raised e))"

definition sem_acquire_nowait :: "sem \<Rightarrow> sem \<times> unit res" where
  "sem_acquire_nowait sm =
     (if sem_value sm = 0 then (sm, Inl WouldBlock)
      else (sm\<lparr>sem_value := sem_value sm - 1\<rparr>, Inr ()))"

definition sem_statistics :: "sem \<Rightarrow> nat" where
  "sem_statistics sm = length (sem_waiters sm)"

section \<open>Tasks using a semaphore\<close>

record ssys =
  sm :: sem
  spcs :: "task \<Rightarrow> sem_pc option"
  passed :: "task list"
  outstanding :: int
  lost :: nat

datatype sact = SAcquire task bool | SResume task "unit awaited" | SNowait | SRelease | SCancel task

definition sem_may_answer :: "waiters \<Rightarrow> task \<Rightarrow> sem_pc \<Rightarrow> unit awaited \<Rightarrow> bool" where
  "sem_may_answer ws t pc r \<longleftrightarrow>
     (if pc = SemWait \<and> od_has ws t then map_of ws t = Some FCancelled \<and> is_thrown_cancel r
      else r = Resumed () \<or> is_thrown_cancel r)"

text \<open>The tasks, other than \<open>t\<close>, that a step took out of the queue: their futures got a result.\<close>

definition granted :: "task \<Rightarrow> sem \<Rightarrow> sem \<Rightarrow> task list" where
  "granted t old new = filter (\<lambda>u. u \<noteq> t \<and> \<not> od_has (sem_waiters new) u) (od_keys (sem_waiters old))"

text \<open>
  The end of a step of \<open>acquire\<close>: a permit taken without waiting is \<open>passed\<close> until the call
  returns; a call that had one and raises gave it back, or lost it when \<open>release\<close> raised.
\<close>

definition sem_outcome :: "task \<Rightarrow> sem \<times> (sem_pc, unit) outcome \<Rightarrow> ssys \<Rightarrow> ssys" where
  "sem_outcome t = (\<lambda>(sm', out) s.
     let s' = s\<lparr>sm := sm', passed := remove1 t (passed s) @ granted t (sm s) sm'\<rparr> in
     case out of
       Done _ \<Rightarrow> s'\<lparr>spcs := (spcs s)(t := None), outstanding := outstanding s + 1\<rparr>
     | Raised e \<Rightarrow> s'\<lparr>spcs := (spcs s)(t := None), lost := lost s + (if e = too_many then 1 else 0)\<rparr>
     | Suspended pc \<Rightarrow>
         s'\<lparr>spcs := (spcs s)(t := Some pc),
            passed := (if pc = SemYield then passed s' @ [t] else passed s')\<rparr>)"

fun sem_act :: "sact \<Rightarrow> ssys \<Rightarrow> ssys option" where
  "sem_act (SAcquire t c) s =
     (if spcs s t \<noteq> None then None else Some (sem_outcome t (sem_acquire_start t c (sm s)) s))"
| "sem_act (SResume t r) s =
     (case spcs s t of
        None \<Rightarrow> None
      | Some pc \<Rightarrow>
          if sem_may_answer (sem_waiters (sm s)) t pc r
          then Some (sem_outcome t (sem_acquire_resume t pc r (sm s)) s) else None)"
| "sem_act SNowait s =
     (case sem_acquire_nowait (sm s) of
        (sm', Inr _) \<Rightarrow> Some (s\<lparr>sm := sm', outstanding := outstanding s + 1\<rparr>)
      | (sm', Inl _) \<Rightarrow> Some (s\<lparr>sm := sm'\<rparr>))"
| "sem_act SRelease s =
     (case sem_release (sm s) of
        (sm', Inr _) \<Rightarrow>
          Some (s\<lparr>sm := sm', outstanding := outstanding s - 1,
            passed := passed s @ filter (\<lambda>u. \<not> od_has (sem_waiters sm') u) (od_keys (sem_waiters (sm s)))\<rparr>)
      | (sm', Inl _) \<Rightarrow> Some (s\<lparr>sm := sm'\<rparr>))"
| "sem_act (SCancel t) s =
     Some (s\<lparr>sm := (sm s)\<lparr>sem_waiters := cancel_waiter t (sem_waiters (sm s))\<rparr>\<rparr>)"

definition ssys_new :: "sem \<Rightarrow> ssys" where
  "ssys_new sm0 = \<lparr>sm = sm0, spcs = (\<lambda>_. None), passed = [], outstanding = 0, lost = 0\<rparr>"

inductive sem_reach :: "pynum \<Rightarrow> pynum option \<Rightarrow> ssys \<Rightarrow> bool" for iv mv where
  init: "sem_init iv mv fast = Inr sm0 \<Longrightarrow> sem_reach iv mv (ssys_new sm0)"
| step: "sem_reach iv mv s \<Longrightarrow> sem_act a s = Some s' \<Longrightarrow> sem_reach iv mv s'"

fun sem_run :: "sact list \<Rightarrow> ssys \<Rightarrow> ssys option" where
  "sem_run [] s = Some s"
| "sem_run (a # as) s = (case sem_act a s of None \<Rightarrow> None | Some s' \<Rightarrow> sem_run as s')"

lemma sem_run_reach: "sem_reach iv mv s \<Longrightarrow> sem_run as s = Some s' \<Longrightarrow> sem_reach iv mv s'"
  by (induction as arbitrary: s) (auto split: option.splits intro: sem_reach.step)

section \<open>The invariant\<close>

definition sem_ok :: "int \<Rightarrow> int option \<Rightarrow> ssys \<Rightarrow> bool" where
  "sem_ok i m s \<longleftrightarrow>
     sem_value (sm s) + int (length (passed s)) + outstanding s + int (lost s) = i
   \<and> 0 \<le> sem_value (sm s)
   \<and> sem_max (sm s) = m \<and> (\<forall>k. m = Some k \<longrightarrow> sem_value (sm s) \<le> k)
   \<and> (m = None \<longrightarrow> lost s = 0)
   \<and> distinct (od_keys (sem_waiters (sm s))) \<and> ungranted (sem_waiters (sm s))
   \<and> (\<forall>t \<in> set (od_keys (sem_waiters (sm s))). spcs s t = Some SemWait)
   \<and> (\<forall>t. t \<in> set (passed s) \<longleftrightarrow>
        spcs s t = Some SemYield \<or> spcs s t = Some SemWait \<and> t \<notin> set (od_keys (sem_waiters (sm s))))
   \<and> distinct (passed s)"

text \<open>\<open>release\<close> raises, or adds one to the value when every waiter is cancelled, or grants one.\<close>

lemma sem_release_cases:
  assumes "ungranted (sem_waiters sm0)" "distinct (od_keys (sem_waiters sm0))"
  obtains (raises) "sem_max sm0 = Some (sem_value sm0)" "sem_release sm0 = (sm0, Inl too_many)"
  | (free) "sem_max sm0 \<noteq> Some (sem_value sm0)" "\<forall>u f. (u, f) \<in> set (sem_waiters sm0) \<longrightarrow> f = FCancelled"
      "sem_release sm0 = (sm0\<lparr>sem_value := sem_value sm0 + 1\<rparr>, Inr ())"
  | (hand) us t vs where "sem_max sm0 \<noteq> Some (sem_value sm0)" "sem_waiters sm0 = us @ (t, Pending) # vs"
      "\<forall>(u, f) \<in> set us. f = FCancelled" "t \<notin> set (od_keys (us @ vs))"
      "sem_release sm0 = (sm0\<lparr>sem_waiters := us @ vs\<rparr>, Inr ())"
proof (cases "sem_max sm0 = Some (sem_value sm0)")
  case True
  then show ?thesis using raises by (simp add: sem_release_def)
next
  case m: False
  show ?thesis
  proof (cases "grant_first (sem_waiters sm0)")
    case None
    then have "\<forall>u f. (u, f) \<in> set (sem_waiters sm0) \<longrightarrow> f = FCancelled" by (simp only: grant_first_None)
    with m None free show ?thesis by (simp add: sem_release_def)
  next
    case (Some g)
    then obtain t r where g: "grant_first (sem_waiters sm0) = Some (t, r)" by (cases g) auto
    from grant_first_Some [OF assms(1) g] obtain us vs where
      w: "sem_waiters sm0 = us @ (t, Pending) # vs" "\<forall>(u, f)\<in>set us. f = FCancelled"
      "r = Inr (us @ (t, FResult ()) # vs)" by blast
    then have t: "t \<notin> set (od_keys (us @ vs))" using assms(2) by auto
    then have "od_pop (us @ (t, FResult ()) # vs) t = us @ vs" by (simp add: od_pop_absent)
    with m g w t hand show ?thesis by (simp add: sem_release_def)
  qed
qed

lemma sem_okD:
  assumes "sem_ok i m s"
  shows "sem_value (sm s) + int (length (passed s)) + outstanding s + int (lost s) = i"
    and "0 \<le> sem_value (sm s)" "sem_max (sm s) = m" "m = Some k \<Longrightarrow> sem_value (sm s) \<le> k"
    and "distinct (od_keys (sem_waiters (sm s)))" "ungranted (sem_waiters (sm s))"
    and "t \<in> set (od_keys (sem_waiters (sm s))) \<Longrightarrow> spcs s t = Some SemWait"
    and "t \<in> set (passed s) \<longleftrightarrow>
        spcs s t = Some SemYield \<or> spcs s t = Some SemWait \<and> t \<notin> set (od_keys (sem_waiters (sm s)))"
    and "distinct (passed s)"
  using assms by (auto simp: sem_ok_def)

lemma left_hand:
  assumes "distinct (od_keys (us @ (t, f) # vs))"
  shows "filter (\<lambda>u. \<not> od_has (us @ vs) u) (od_keys (us @ (t, f) # vs)) = [t]"
proof -
  have "filter (\<lambda>u. \<not> od_has (us @ vs) u) (od_keys us) = []" "filter (\<lambda>u. \<not> od_has (us @ vs) u) (od_keys vs) = []"
    by (simp_all add: filter_empty_conv od_has_def)
  then show ?thesis using assms by (auto simp: od_has_def)
qed

lemma left_same: "filter (\<lambda>u. \<not> od_has ws u) (od_keys ws) = []"
  by (simp add: filter_empty_conv od_has_def)

lemma granted_same [simp]: "sem_waiters a = sem_waiters b \<Longrightarrow> granted t a b = []"
  by (simp add: granted_def filter_empty_conv od_has_def)

lemma granted_notin:
  "t \<notin> set (od_keys (sem_waiters a)) \<Longrightarrow>
     granted t a b = filter (\<lambda>u. \<not> od_has (sem_waiters b) u) (od_keys (sem_waiters a))"
  by (auto simp: granted_def intro!: filter_cong)

lemma granted_pop [simp]: "sem_waiters b = od_pop (sem_waiters a) t \<Longrightarrow> granted t a b = []"
  by (simp add: granted_def filter_empty_conv od_has_def od_keys_pop)

lemma ungranted_pop: "ungranted ws \<Longrightarrow> ungranted (od_pop ws t)"
  unfolding ungranted_def by (auto simp: set_od_pop)

lemma ungranted_append: "ungranted (us @ vs) \<longleftrightarrow> ungranted us \<and> ungranted vs"
  by (auto simp: ungranted_def)

lemma passed_remove: "t \<in> set (passed s) \<Longrightarrow> int (length (remove1 t (passed s))) = int (length (passed s)) - 1"
  by (cases "passed s") (auto simp: length_remove1 of_nat_diff dest: length_pos_if_in_set)

text \<open>A cancelled call that had a permit gives it back.\<close>

lemma sem_ok_give_back:
  assumes ok: "sem_ok i m s" and t: "t \<in> set (passed s)" and e: "is_cancelled e"
  shows "sem_ok i m (sem_outcome t (sem_release_and_raise e (sm s)) s)"
proof -
  note D = sem_okD [OF ok]
  have tq: "t \<notin> set (od_keys (sem_waiters (sm s)))" using D(8) [of t] D(7) [of t] t by auto
  have ne: "e \<noteq> too_many" using e by (auto simp: too_many_def is_cancelled_def)
  have base: "sem_ok i m s'"
    if "sem_waiters (sm s') = sem_waiters (sm s)" "sem_max (sm s') = sem_max (sm s)"
      "sem_value (sm s') + int (lost s') = sem_value (sm s) + int (lost s) + 1" "0 \<le> sem_value (sm s')"
      "\<forall>k. m = Some k \<longrightarrow> sem_value (sm s') \<le> k" "m = None \<longrightarrow> lost s' = 0"
      "spcs s' = (spcs s)(t := None)" "passed s' = remove1 t (passed s)" "outstanding s' = outstanding s" for s'
    using that ok tq t passed_remove [OF t] D(1,9)
    by (auto simp: sem_ok_def)
  from D(6,5) show ?thesis
  proof (cases rule: sem_release_cases)
    case raises
    show ?thesis
      by (rule base) (use raises D(2,3,4) in \<open>auto simp: sem_release_and_raise_def sem_outcome_def Let_def\<close>)
  next
    case free
    have no: "m = None \<longrightarrow> lost s = 0" using ok by (simp add: sem_ok_def)
    have "\<forall>k. m = Some k \<longrightarrow> sem_value (sm s) + 1 \<le> k" using D(3,4) free(1) by force
    then show ?thesis
      by (intro base) (use free(3) D(2,3) ne no in \<open>auto simp: sem_release_and_raise_def sem_outcome_def Let_def\<close>)
  next
    case (hand us t' vs)
    have g: "granted t (sm s) ((sm s)\<lparr>sem_waiters := us @ vs\<rparr>) = [t']"
      using left_hand [of us t' Pending vs] D(5) hand(2) by (simp add: granted_notin [OF tq])
    have keys: "set (od_keys (sem_waiters (sm s))) = insert t' (set (od_keys (us @ vs)))"
      by (auto simp: hand(2))
    have t': "t' \<noteq> t" "t' \<notin> set (passed s)" "spcs s t' = Some SemWait"
      using tq D(7) [of t'] D(8) [of t'] keys by auto
    let ?s = "sem_outcome t (sem_release_and_raise e (sm s)) s"
    have s': "sm ?s = (sm s)\<lparr>sem_waiters := us @ vs\<rparr>" "passed ?s = remove1 t (passed s) @ [t']"
      "spcs ?s = (spcs s)(t := None)" "outstanding ?s = outstanding s" "lost ?s = lost s"
      using hand g ne by (auto simp: sem_release_and_raise_def sem_outcome_def Let_def)
    show ?thesis
      unfolding sem_ok_def s'
      using ok t t' tq hand(2,4) keys passed_remove [OF t] D(5,6,8)
      by (auto simp: sem_ok_def ungranted_append)
  qed
qed

text \<open>A user's release.\<close>

lemma sem_ok_release:
  assumes ok: "sem_ok i m s" and a: "sem_act SRelease s = Some s'"
  shows "sem_ok i m s'"
proof -
  note D = sem_okD [OF ok]
  from D(6,5) show ?thesis
  proof (cases rule: sem_release_cases)
    case raises
    then show ?thesis using a ok by auto
  next
    case free
    have "\<forall>k. m = Some k \<longrightarrow> sem_value (sm s) + 1 \<le> k" using D(3,4) free(1) by force
    then show ?thesis using free(3) a ok by (auto simp: sem_ok_def left_same)
  next
    case (hand us t' vs)
    have g: "filter (\<lambda>u. \<not> od_has (us @ vs) u) (od_keys (sem_waiters (sm s))) = [t']"
      using left_hand [of us t' Pending vs] D(5) hand(2) by simp
    have keys: "set (od_keys (sem_waiters (sm s))) = insert t' (set (od_keys (us @ vs)))"
      by (auto simp: hand(2))
    have t': "t' \<notin> set (passed s)" "spcs s t' = Some SemWait"
      using D(7) [of t'] D(8) [of t'] keys by auto
    have s': "sm s' = (sm s)\<lparr>sem_waiters := us @ vs\<rparr>" "passed s' = passed s @ [t']" "spcs s' = spcs s"
      "outstanding s' = outstanding s - 1" "lost s' = lost s"
      using a hand(5) g by auto
    show ?thesis
      unfolding sem_ok_def s'
      using ok t' hand(2,4) keys D(5,6,8)
      by (auto simp: sem_ok_def ungranted_append)
  qed
qed

lemma sem_ok_acquire:
  assumes ok: "sem_ok i m s" and pc: "spcs s t = None"
  shows "sem_ok i m (sem_outcome t (sem_acquire_start t c (sm s)) s)"
proof -
  note D = sem_okD [OF ok]
  have t: "t \<notin> set (passed s)" "t \<notin> set (od_keys (sem_waiters (sm s)))"
    using D(8) [of t] D(7) [of t] pc by auto
  then have r: "remove1 t (passed s) = passed s" by (simp add: remove1_idem)
  show ?thesis
  proof (cases "sem_value (sm s) > 0 \<and> sem_waiters (sm s) = []")
    case True
    then show ?thesis using ok t pc r
      by (auto simp: sem_acquire_start_def sem_outcome_def Let_def sem_ok_def)
  next
    case False
    have g: "granted t (sm s) ((sm s)\<lparr>sem_waiters := sem_waiters (sm s) @ [(t, Pending)]\<rparr>) = []"
      by (simp add: granted_def filter_empty_conv od_has_def)
    then show ?thesis using False ok t pc r
      by (auto simp: sem_acquire_start_def sem_outcome_def Let_def sem_ok_def ungranted_append)
  qed
qed

lemma sem_ok_resume:
  assumes ok: "sem_ok i m s" and pc: "spcs s t = Some pc" and a: "sem_may_answer (sem_waiters (sm s)) t pc r"
  shows "sem_ok i m (sem_outcome t (sem_acquire_resume t pc r (sm s)) s)"
proof (cases "t \<in> set (passed s)")
  case True
  note D = sem_okD [OF ok]
  have nq: "t \<notin> set (od_keys (sem_waiters (sm s)))" using D(8) [of t] D(7) [of t] True by auto
  have cases: "pc = SemYield \<or> pc = SemWait" using D(8) [of t] True pc by auto
  show ?thesis
  proof (cases r)
    case (Resumed v)
    have out: "sem_acquire_resume t pc r (sm s) = (sm s, Done ())"
      using cases by (auto simp: Resumed)
    show ?thesis unfolding out using ok True nq passed_remove [OF True] D(9)
      by (auto simp: sem_outcome_def sem_ok_def)
  next
    case (Thrown e)
    then have e: "is_cancelled e"
      using a by (auto simp: sem_may_answer_def is_thrown_cancel_def split: if_splits)
    have out: "sem_acquire_resume t pc r (sm s) = sem_release_and_raise e (sm s)"
      using cases e nq by (auto simp: Thrown od_has_def)
    show ?thesis unfolding out by (rule sem_ok_give_back [OF ok True e])
  qed
next
  case False
  note D = sem_okD [OF ok]
  have rm: "remove1 t (passed s) = passed s" using False by (simp add: remove1_idem)
  show ?thesis
  proof (cases pc)
    case SemYield
    then show ?thesis using False pc D(8) [of t] by simp
  next
    case SemIfCancelled
    then have nq: "t \<notin> set (od_keys (sem_waiters (sm s)))" using D(7) [of t] pc by auto
    show ?thesis
    proof (cases r)
      case (Resumed v)
      have "(spcs s)(t := Some SemIfCancelled) = spcs s" using pc SemIfCancelled by auto
      then show ?thesis using ok rm by (simp add: SemIfCancelled Resumed sem_outcome_def Let_def sem_ok_def)
    next
      case (Thrown e)
      then have "is_cancelled e" using a SemIfCancelled by (simp add: sem_may_answer_def is_thrown_cancel_def)
      then have "e \<noteq> too_many" by (auto simp: too_many_def is_cancelled_def)
      then show ?thesis using ok rm nq False
        by (auto simp: SemIfCancelled Thrown sem_outcome_def Let_def sem_ok_def)
    qed
  next
    case SemWait
    then have q: "t \<in> set (od_keys (sem_waiters (sm s)))" using D(8) [of t] pc False by auto
    then obtain e where r: "r = Thrown e" "is_cancelled e"
      using a SemWait by (auto simp: sem_may_answer_def od_has_def is_thrown_cancel_def split: awaited.splits)
    then have "e \<noteq> too_many" by (auto simp: too_many_def is_cancelled_def)
    then show ?thesis using ok rm q r False
      by (auto simp: SemWait sem_outcome_def Let_def sem_ok_def od_has_def od_keys_pop ungranted_pop
          distinct_removeAll)
  qed
qed

lemma od_keys_cancel [simp]: "od_keys (cancel_waiter t ws) = od_keys ws"
  by (simp add: od_keys_def)

lemma ungranted_cancel: "ungranted ws \<Longrightarrow> ungranted (cancel_waiter t ws)"
  unfolding ungranted_def by (fastforce simp: set_cancel_waiter)

lemma sem_ok_act: "sem_ok i m s \<Longrightarrow> sem_act a s = Some s' \<Longrightarrow> sem_ok i m s'"
proof (induction a s rule: sem_act.induct)
  case (1 t c s)
  then show ?case using sem_ok_acquire by (auto split: if_splits)
next
  case (2 t r s)
  then show ?case using sem_ok_resume by (auto split: if_splits option.splits)
next
  case (3 s)
  then show ?case by (auto simp: sem_acquire_nowait_def sem_ok_def split: if_splits)
next
  case (4 s)
  then show ?case using sem_ok_release by blast
next
  case (5 t s)
  then show ?case by (auto simp: sem_ok_def ungranted_cancel)
qed

lemma sem_init_cases:
  assumes "sem_init iv mv fast = Inr sm0"
  obtains i m where "iv = PyInt i" "m = Option.bind mv pyint" "sem_ok i m (ssys_new sm0)"
    "sem_waiters sm0 = []"
proof -
  from assms obtain i where iv: "iv = PyInt i"
    by (cases iv) (auto simp: sem_init_def)
  then have "sem_ok i (Option.bind mv pyint) (ssys_new sm0)" "sem_waiters sm0 = []"
    using assms by (auto simp: sem_init_def ssys_new_def sem_ok_def split: if_splits option.splits)
  with iv that show ?thesis by blast
qed

lemma sem_reach_ok: "sem_reach iv mv s \<Longrightarrow> \<exists>i. iv = PyInt i \<and> sem_ok i (Option.bind mv pyint) s"
proof (induction rule: sem_reach.induct)
  case (init fast sm0)
  then show ?case by (auto elim: sem_init_cases)
next
  case (step s a s')
  then show ?case using sem_ok_act by blast
qed

section \<open>Without cancellation\<close>

definition is_scancel :: "sact \<Rightarrow> bool" where
  "is_scancel a = (case a of SCancel _ \<Rightarrow> True | _ \<Rightarrow> False)"

definition calm_sem :: "sem \<Rightarrow> bool" where
  "calm_sem s \<longleftrightarrow> (\<forall>t. (t, FCancelled) \<notin> set (sem_waiters s)) \<and> (sem_waiters s \<noteq> [] \<longrightarrow> sem_value s = 0)"

lemma sm_outcome [simp]: "sm (sem_outcome t r s) = fst r"
  by (auto simp: sem_outcome_def Let_def split: prod.split outcome.split)

lemma calm_sem_release:
  assumes "ungranted (sem_waiters s)" "distinct (od_keys (sem_waiters s))" "calm_sem s"
  shows "calm_sem (fst (sem_release s))"
  using assms(1,2)
proof (cases rule: sem_release_cases)
  case raises
  then show ?thesis using assms by simp
next
  case free
  then have "sem_waiters s = []" using assms(3) by (cases "sem_waiters s") (auto simp: calm_sem_def)
  then show ?thesis using free by (simp add: calm_sem_def)
next
  case (hand us t' vs)
  then show ?thesis using assms(3) by (auto simp: calm_sem_def)
qed

lemma calm_sem_give_back: "fst (sem_release_and_raise e s) = fst (sem_release s)"
  by (auto simp: sem_release_and_raise_def split: prod.split sum.split)

lemma sem_calm_resume:
  assumes "ungranted (sem_waiters s)" "distinct (od_keys (sem_waiters s))" "calm_sem s"
  shows "calm_sem (fst (sem_acquire_resume t pc r s))"
  using assms calm_sem_release [OF assms]
  by (cases pc; cases r) (auto simp: calm_sem_give_back calm_sem_def set_od_pop)

lemma sem_calm_act:
  assumes "sem_ok i m s" "calm_sem (sm s)" "sem_act a s = Some s'" "\<not> is_scancel a"
  shows "calm_sem (sm s')"
  using assms
proof (induction a s rule: sem_act.induct)
  case (1 t c s)
  then show ?case
    using sem_okD(2) [OF "1.prems"(1)]
    by (auto simp: sem_acquire_start_def calm_sem_def split: if_splits)
next
  case (2 t r s)
  then show ?case using sem_calm_resume [of "sm s"] sem_okD(5,6) [OF "2.prems"(1)]
    by (auto split: if_splits option.splits)
next
  case (3 s)
  then show ?case by (auto simp: sem_acquire_nowait_def calm_sem_def split: if_splits)
next
  case (4 s)
  then show ?case using calm_sem_release [of "sm s"] sem_okD(5,6) [OF "4.prems"(1)]
    by (cases "sem_release (sm s)") (auto split: sum.splits)
qed (simp add: is_scancel_def)

lemma sem_calm_run:
  "sem_ok i m s \<Longrightarrow> calm_sem (sm s) \<Longrightarrow> sem_run as s = Some s' \<Longrightarrow> \<not> list_ex is_scancel as
     \<Longrightarrow> calm_sem (sm s')"
proof (induction as arbitrary: s)
  case (Cons a as)
  then show ?case using sem_calm_act [of i m s a] sem_ok_act [of i m s a]
    by (auto split: option.splits)
qed simp

section \<open>Properties\<close>

text \<open>
  C27: Permits are conserved: in every reachable state the value, the permits handed to \<open>acquire\<close>
  calls that have not returned, the acquires not yet released and the releases lost to a
  \<open>ValueError\<close> add up to \<open>initial_value\<close>. So never more than \<open>initial_value\<close> permits are out, the
  value stays between 0 and \<open>max_value\<close>, and without a \<open>max_value\<close> none is lost.
\<close>

theorem sem_conservation:
  assumes "sem_reach (PyInt i) mv s"
  shows "sem_value (sm s) + int (length (passed s)) + outstanding s + int (lost s) = i
    \<and> 0 \<le> sem_value (sm s) \<and> outstanding s \<le> i
    \<and> (case mv of None \<Rightarrow> lost s = 0 | Some k \<Rightarrow> Fin (of_int (sem_value (sm s))) \<le> num_float k)"
proof -
  from sem_reach_ok [OF assms] have ok: "sem_ok i (Option.bind mv pyint) s" by simp
  have int: "\<exists>k. mv = Some (PyInt k)" if "mv \<noteq> None"
    using assms that
  proof (induction rule: sem_reach.induct)
    case (init fast sm0)
    then show ?case by (auto simp: sem_init_def split: if_splits option.splits elim: pyint.elims)
  qed
  show ?thesis
  proof (cases mv)
    case None
    then show ?thesis using ok by (simp add: sem_ok_def)
  next
    case (Some k)
    then obtain n where "mv = Some (PyInt n)" using int by auto
    then show ?thesis using ok by (simp add: sem_ok_def)
  qed
qed

abbreviation sem1 :: sem where
  "sem1 \<equiv> \<lparr>sem_value = 1, sem_max = None, sem_fast = True, sem_waiters = []\<rparr>"

lemma sem1_init: "sem_init (PyInt 1) None True = Inr sem1"
  by (simp add: sem_init_def)

lemmas sem_run_simps = ssys_new_def sem_acquire_start_def sem_outcome_def sem_release_def Let_def
  fut_set_result_def sem_may_answer_def od_has_def granted_def is_thrown_cancel_def cancel_waiter_def
  is_cancelled_def too_many_def

theorem sem_conservation_witness:
  "\<exists>s. sem_reach (PyInt 1) None s \<and> sem_value (sm s) = 0 \<and> passed s = [2] \<and> outstanding s = 0"
proof -
  obtain s where s: "sem_run [SAcquire 1 False, SAcquire 2 False, SRelease] (ssys_new sem1) = Some s"
    "passed s = [2]" "sem_value (sm s) = 0"
    by (simp add: sem_run_simps)
  from sem_run_reach [OF sem_reach.init [OF sem1_init] s(1)] have r: "sem_reach (PyInt 1) None s" .
  from sem_conservation [OF r] s r show ?thesis by auto
qed

text \<open>
  No lost wakeup while no waiting task is cancelled: tasks queue only while the value is 0.
\<close>

theorem sem_waits_only_when_empty:
  assumes "sem_init iv mv fast = Inr sm0" "sem_run as (ssys_new sm0) = Some s"
    and "\<not> list_ex is_scancel as"
  shows "sem_waiters (sm s) = [] \<or> sem_value (sm s) = 0"
proof -
  from assms(1) obtain i m where ok: "sem_ok i m (ssys_new sm0)" and q: "sem_waiters sm0 = []"
    by (rule sem_init_cases)
  have "calm_sem (sm (ssys_new sm0))" using q by (simp add: calm_sem_def ssys_new_def)
  from sem_calm_run [OF ok this assms(2,3)] show ?thesis by (auto simp: calm_sem_def)
qed

theorem sem_waits_only_when_empty_witness:
  "\<exists>s. sem_run [SAcquire 1 False, SAcquire 2 False] (ssys_new sem1) = Some s
     \<and> sem_waiters (sm s) \<noteq> [] \<and> sem_value (sm s) = 0"
  using sem_waits_only_when_empty [OF sem1_init, of "[SAcquire 1 False, SAcquire 2 False]"]
  by (simp add: sem_run_simps is_scancel_def)

text \<open>
  As with the lock, a cancelled waiter that has not run yet can strand the next one: the
  permit returns to the value (1), the new \<open>acquire\<close> queues behind the cancelled waiter, and after
  that waiter has left it sleeps although the value is 1.
\<close>

theorem sem_cancel_strands:
  "\<exists>s. sem_run [SAcquire 1 False, SAcquire 2 False, SCancel 2, SRelease, SAcquire 3 False,
      SResume 2 (Thrown (CancelledError None None))] (ssys_new sem1) = Some s
    \<and> sem_value (sm s) = 1 \<and> sem_waiters (sm s) = [(3, Pending)] \<and> outstanding s = 0 \<and> passed s = []"
  by (simp add: sem_run_simps)

end
