(* ===== verification/Limiters.thy ===== *)
theory Limiters
  imports Interfaces
begin

text \<open>
  The asyncio \<open>CapacityLimiter\<close>: class \<open>CapacityLimiter\<close> of \<open>src/anyio/_backends/_asyncio.py\<close>.

  A borrower (a task or any other object) is a number; \<open>current_task()\<close> is the task argument.
  The wait queue maps each waiting borrower to the number of its \<open>asyncio.Event\<close>; only the waiting
  call uses that event, so the event is its flag in \<open>lim_set\<close>. The system \<open>lim_act\<close> runs any number
  of calls; \<open>notified\<close> records the events that were set and whose waiter has not run yet.
\<close>

record limiter =
  lim_total :: pynum
  lim_borrowers :: "nat list"
  lim_queue :: "(nat, nat) odict"
  lim_set :: "nat \<Rightarrow> bool"
  lim_next :: nat

section \<open>The total\<close>

text \<open>The loop of the \<open>total_tokens\<close> setter; \<open>None\<close> is an infinite \<open>waiters_to_notify\<close>.\<close>

fun notify_waiters :: "nat option \<Rightarrow> (nat, nat) odict \<Rightarrow> (nat \<Rightarrow> bool) \<Rightarrow> (nat, nat) odict \<times> (nat \<Rightarrow> bool)" where
  "notify_waiters n [] flags = ([], flags)"
| "notify_waiters n ((b, ev) # q) flags =
     (if n = Some 0 then ((b, ev) # q, flags)
      else notify_waiters (map_option (\<lambda>k. k - 1) n) q (flags(ev := True)))"

text \<open>
  \<open>max(value - self._total_tokens, 0)\<close>; for two infinities that is a NaN, which is true in
  \<open>while\<close> however often 1 is subtracted, like the infinity.
\<close>

definition waiters_to_notify :: "pynum \<Rightarrow> pynum \<Rightarrow> nat option" where
  "waiters_to_notify val tokens =
     (case val of
        PyInt v \<Rightarrow> (case tokens of PyInt t \<Rightarrow> Some (nat (v - t)) | PyFloat _ \<Rightarrow> Some 0)
      | PyFloat _ \<Rightarrow> None)"

definition set_total_tokens :: "pynum \<Rightarrow> limiter \<Rightarrow> limiter \<times> unit res" where
  "set_total_tokens val l =
     (if \<not> is_pyint val \<and> val \<noteq> PyFloat PosInf \<and> val \<noteq> PyFloat NegInf
      then (l, Inl (TypeError ''total_tokens must be an int or math.inf''))
      else if num_float val < Fin 1 then (l, Inl (ValueError ''total_tokens must be >= 1''))
      else case notify_waiters (waiters_to_notify val (lim_total l)) (lim_queue l) (lim_set l) of
        (q, flags) \<Rightarrow> (l\<lparr>lim_total := val, lim_queue := q, lim_set := flags\<rparr>, Inr ()))"

definition limiter_init :: "pynum \<Rightarrow> limiter res" where
  "limiter_init tokens =
     (case set_total_tokens tokens
         \<lparr>lim_total = PyInt 0, lim_borrowers = [], lim_queue = [], lim_set = (\<lambda>_. False), lim_next = 0\<rparr> of
        (l, Inl e) \<Rightarrow> Inl e | (l, Inr _) \<Rightarrow> Inr l)"

section \<open>Acquiring and releasing\<close>

definition borrowed_tokens :: "limiter \<Rightarrow> nat" where
  "borrowed_tokens l = length (lim_borrowers l)"

definition available_tokens :: "limiter \<Rightarrow> pyfloat" where
  "available_tokens l =
     (case num_float (lim_total l) of Fin t \<Rightarrow> Fin (t - real (length (lim_borrowers l))) | f \<Rightarrow> f)"

definition already_borrowing :: exn where
  "already_borrowing = RuntimeError ''this borrower is already holding one of this CapacityLimiter's tokens''"

definition not_borrowing :: exn where
  "not_borrowing = RuntimeError ''this borrower isn't holding any of this CapacityLimiter's tokens''"

definition lim_acquire_nowait :: "nat \<Rightarrow> limiter \<Rightarrow> limiter \<times> unit res" where
  "lim_acquire_nowait b l =
     (if b \<in> set (lim_borrowers l) then (l, Inl already_borrowing)
      else if lim_queue l \<noteq> [] \<or> num_float (lim_total l) \<le> len_float (lim_borrowers l)
      then (l, Inl WouldBlock)
      else (l\<lparr>lim_borrowers := b # lim_borrowers l\<rparr>, Inr ()))"

definition lim_release :: "nat \<Rightarrow> limiter \<Rightarrow> limiter \<times> unit res" where
  "lim_release b l =
     (if b \<notin> set (lim_borrowers l) then (l, Inl not_borrowing)
      else
        let l' = l\<lparr>lim_borrowers := remove1 b (lim_borrowers l)\<rparr> in
        case lim_queue l' of
          (b', ev) # q \<Rightarrow>
            (if len_float (lim_borrowers l') < num_float (lim_total l')
             then (l'\<lparr>lim_queue := q, lim_set := (lim_set l')(ev := True)\<rparr>, Inr ())
             else (l', Inr ()))
        | [] \<Rightarrow> (l', Inr ()))"

datatype lim_pc = LimIfCancelled | LimYield | LimWait nat

text \<open>\<open>acquire_on_behalf_of\<close> after \<open>checkpoint_if_cancelled\<close> has returned.\<close>

definition lim_acquire_begin :: "nat \<Rightarrow> limiter \<Rightarrow> limiter \<times> (lim_pc, unit) outcome" where
  "lim_acquire_begin b l =
     (case lim_acquire_nowait b l of
        (l', Inr _) \<Rightarrow> (l', Suspended LimYield)
      | (l', Inl e) \<Rightarrow>
          (if e = WouldBlock then
             let ev = lim_next l' in
             (l'\<lparr>lim_next := Suc ev, lim_set := (lim_set l')(ev := False),
                 lim_queue := od_set (lim_queue l') b ev\<rparr>, Suspended (LimWait ev))
           else (l', Raised e)))"

definition lim_acquire_start :: "nat \<Rightarrow> bool \<Rightarrow> limiter \<Rightarrow> limiter \<times> (lim_pc, unit) outcome" where
  "lim_acquire_start b cancelled l =
     (if cancelled then (l, Suspended LimIfCancelled) else lim_acquire_begin b l)"

text \<open>
  In the cancelled fast path the source calls \<open>self.release()\<close>, which releases on behalf of the
  current task \<open>t\<close>, not of the borrower.
\<close>

fun lim_acquire_resume ::
  "task \<Rightarrow> nat \<Rightarrow> lim_pc \<Rightarrow> unit awaited \<Rightarrow> limiter \<Rightarrow> limiter \<times> (lim_pc, unit) outcome" where
  "lim_acquire_resume t b LimIfCancelled (Resumed _) l = (l, Suspended LimIfCancelled)"
| "lim_acquire_resume t b LimIfCancelled (Thrown e) l = (l, Raised e)"
| "lim_acquire_resume t b LimYield (Resumed _) l = (l, Done ())"
| "lim_acquire_resume t b LimYield (Thrown e) l =
     (case lim_release t l of (l', Inr _) \<Rightarrow> (l', Raised e) | (l', Inl e') \<Rightarrow> (l', Raised e'))"
| "lim_acquire_resume t b (LimWait ev) (Resumed _) l =
     (l\<lparr>lim_borrowers := (if b \<in> set (lim_borrowers l) then lim_borrowers l else b # lim_borrowers l)\<rparr>,
      Done ())"
| "lim_acquire_resume t b (LimWait ev) (Thrown e) l =
     (l\<lparr>lim_queue := od_pop (lim_queue l) b\<rparr>, Raised e)"

record limiter_statistics =
  stat_borrowed :: nat
  stat_total :: pynum
  stat_borrowers :: "nat list"
  stat_waiting :: nat

definition limiter_stats :: "limiter \<Rightarrow> limiter_statistics" where
  "limiter_stats l = \<lparr>stat_borrowed = borrowed_tokens l, stat_total = lim_total l,
     stat_borrowers = lim_borrowers l, stat_waiting = length (lim_queue l)\<rparr>"

section \<open>Tasks using a limiter\<close>

record limsys =
  lm :: limiter
  lpcs :: "task \<Rightarrow> (lim_pc \<times> nat) option"
  notified :: "nat list"

datatype limact =
    LimAcquire task nat bool | LimResume task "unit awaited" | LimNowait nat | LimRelease nat | LimSetTotal pynum

text \<open>The events of the queue that a step set.\<close>

definition newly_set :: "limiter \<Rightarrow> limiter \<Rightarrow> nat list" where
  "newly_set old new = filter (lim_set new) (map snd (lim_queue old))"

definition lim_outcome :: "task \<Rightarrow> nat \<Rightarrow> nat list \<Rightarrow> limiter \<times> (lim_pc, unit) outcome \<Rightarrow> limsys \<Rightarrow> limsys" where
  "lim_outcome t b done_ev = (\<lambda>(l', out) s.
     s\<lparr>lm := l',
       notified := filter (\<lambda>ev. ev \<notin> set done_ev) (notified s) @ newly_set (lm s) l',
       lpcs := (lpcs s)(t := (case out of Suspended pc \<Rightarrow> Some (pc, b) | _ \<Rightarrow> None))\<rparr>)"

text \<open>A wait on an event returns when the event is set; it can be cancelled at any time.\<close>

definition lim_may_answer :: "limiter \<Rightarrow> lim_pc \<Rightarrow> unit awaited \<Rightarrow> bool" where
  "lim_may_answer l pc r \<longleftrightarrow>
     (case r of Thrown e \<Rightarrow> True
      | Resumed _ \<Rightarrow> (case pc of LimWait ev \<Rightarrow> lim_set l ev | _ \<Rightarrow> True))"

fun lim_act :: "limact \<Rightarrow> limsys \<Rightarrow> limsys option" where
  "lim_act (LimAcquire t b c) s =
     (if lpcs s t \<noteq> None then None
      else Some (lim_outcome t b [] (lim_acquire_start b c (lm s)) s))"
| "lim_act (LimResume t r) s =
     (case lpcs s t of
        None \<Rightarrow> None
      | Some (pc, b) \<Rightarrow>
          if lim_may_answer (lm s) pc r
          then Some (lim_outcome t b (case pc of LimWait ev \<Rightarrow> [ev] | _ \<Rightarrow> [])
                 (lim_acquire_resume t b pc r (lm s)) s)
          else None)"
| "lim_act (LimNowait b) s = Some (s\<lparr>lm := fst (lim_acquire_nowait b (lm s))\<rparr>)"
| "lim_act (LimRelease b) s =
     (let l' = fst (lim_release b (lm s)) in
      Some (s\<lparr>lm := l', notified := notified s @ newly_set (lm s) l'\<rparr>))"
| "lim_act (LimSetTotal v) s =
     (let l' = fst (set_total_tokens v (lm s)) in
      Some (s\<lparr>lm := l', notified := notified s @ newly_set (lm s) l'\<rparr>))"

fun lim_run :: "limact list \<Rightarrow> limsys \<Rightarrow> limsys option" where
  "lim_run [] s = Some s"
| "lim_run (a # as) s = (case lim_act a s of None \<Rightarrow> None | Some s' \<Rightarrow> lim_run as s')"

definition limsys_new :: "limiter \<Rightarrow> limsys" where
  "limsys_new l = \<lparr>lm = l, lpcs = (\<lambda>_. None), notified = []\<rparr>"

text \<open>
  A run is prompt when no call tries to take a token while a notified waiter has not run yet, and
  the total is never lowered.
\<close>

definition prompt :: "limact \<Rightarrow> limsys \<Rightarrow> bool" where
  "prompt a s \<longleftrightarrow>
     (case a of
        LimAcquire _ _ _ \<Rightarrow> notified s = []
      | LimNowait _ \<Rightarrow> notified s = []
      | LimSetTotal v \<Rightarrow> num_float (lim_total (lm s)) \<le> num_float v
      | _ \<Rightarrow> True)"

fun prompt_run :: "limact list \<Rightarrow> limsys \<Rightarrow> bool" where
  "prompt_run [] s = True"
| "prompt_run (a # as) s \<longleftrightarrow> prompt a s \<and> (case lim_act a s of None \<Rightarrow> True | Some s' \<Rightarrow> prompt_run as s')"

section \<open>The invariant\<close>

definition lim_ok :: "limsys \<Rightarrow> bool" where
  "lim_ok s \<longleftrightarrow>
     distinct (lim_borrowers (lm s))
   \<and> distinct (od_keys (lim_queue (lm s)))
   \<and> distinct (map snd (lim_queue (lm s)))
   \<and> (\<forall>ev \<in> set (map snd (lim_queue (lm s))). \<not> lim_set (lm s) ev \<and> ev < lim_next (lm s))
   \<and> distinct (notified s) \<and> (\<forall>ev \<in> set (notified s). lim_set (lm s) ev \<and> ev < lim_next (lm s))
   \<and> (\<forall>t ev b. lpcs s t = Some (LimWait ev, b) \<longrightarrow>
        ev < lim_next (lm s) \<and> (lim_set (lm s) ev \<longrightarrow> ev \<in> set (notified s)))
   \<and> (\<forall>t u ev b c. lpcs s t = Some (LimWait ev, b) \<and> lpcs s u = Some (LimWait ev, c) \<longrightarrow> t = u)"

definition lim_bounded :: "limsys \<Rightarrow> bool" where
  "lim_bounded s \<longleftrightarrow>
     (is_pyint (lim_total (lm s)) \<or> lim_total (lm s) = PyFloat PosInf)
   \<and> Fin (real (length (lim_borrowers (lm s)) + length (notified s))) \<le> num_float (lim_total (lm s))"

lemma notify_waiters_spec:
  "notify_waiters n q flags = (q', flags') \<Longrightarrow>
     \<exists>k \<le> length q. q' = drop k q \<and> flags' = (\<lambda>e. e \<in> set (map snd (take k q)) \<or> flags e)
       \<and> (\<forall>m. n = Some m \<longrightarrow> k \<le> m)"
proof (induction n q flags rule: notify_waiters.induct)
  case (1 n flags)
  then show ?case by auto
next
  case (2 n b ev q flags)
  show ?case
  proof (cases "n = Some 0")
    case True
    then show ?thesis using 2 by (auto intro!: exI [of _ 0])
  next
    case False
    then have "notify_waiters (map_option (\<lambda>k. k - 1) n) q (flags(ev := True)) = (q', flags')"
      using "2.prems" by simp
    from "2.IH" [OF False this] obtain k where k: "k \<le> length q" "q' = drop k q"
      "flags' = (\<lambda>e. e \<in> set (map snd (take k q)) \<or> (flags(ev := True)) e)"
      "\<forall>m. map_option (\<lambda>k. k - 1) n = Some m \<longrightarrow> k \<le> m" by blast
    have "\<forall>m. n = Some m \<longrightarrow> Suc k \<le> m" using k(4) False by (cases n) fastforce+
    then show ?thesis using k(1-3) by (intro exI [of _ "Suc k"]) (auto simp: fun_eq_iff)
  qed
qed

lemma lim_okD:
  assumes "lim_ok s"
  shows "distinct (lim_borrowers (lm s))" "distinct (od_keys (lim_queue (lm s)))"
    "distinct (map snd (lim_queue (lm s)))"
    "ev \<in> set (map snd (lim_queue (lm s))) \<Longrightarrow> \<not> lim_set (lm s) ev \<and> ev < lim_next (lm s)"
    "distinct (notified s)" "ev \<in> set (notified s) \<Longrightarrow> lim_set (lm s) ev \<and> ev < lim_next (lm s)"
    "lpcs s t = Some (LimWait ev, b) \<Longrightarrow> ev < lim_next (lm s)"
    "lpcs s t = Some (LimWait ev, b) \<Longrightarrow> lim_set (lm s) ev \<Longrightarrow> ev \<in> set (notified s)"
    "lpcs s t = Some (LimWait ev, b) \<Longrightarrow> lpcs s u = Some (LimWait ev, c) \<Longrightarrow> t = u"
  using assms unfolding lim_ok_def by blast+

text \<open>Serving a prefix of the queue: the one step that sets events.\<close>

lemma newly_set_prefix:
  assumes "lim_ok s" "lim_set l' = (\<lambda>e. e \<in> set (map snd (take k (lim_queue (lm s)))) \<or> lim_set (lm s) e)"
  shows "newly_set (lm s) l' = map snd (take k (lim_queue (lm s)))"
proof -
  let ?q = "map snd (lim_queue (lm s))"
  have "filter (lim_set l') ?q = filter (lim_set l') (take k ?q) @ filter (lim_set l') (drop k ?q)"
    by (metis append_take_drop_id filter_append)
  moreover have "filter (lim_set l') (take k ?q) = take k ?q"
    by (simp add: assms(2) filter_id_conv take_map)
  moreover have "filter (lim_set l') (drop k ?q) = []"
    using lim_okD(3) [OF assms(1)] lim_okD(4) [OF assms(1)] set_take_disj_set_drop_if_distinct [of ?q k k]
    by (auto simp: filter_empty_conv assms(2) take_map [symmetric] simp del: set_map dest: in_set_dropD)
  ultimately show ?thesis by (simp add: newly_set_def take_map)
qed

lemma lim_ok_prefix:
  assumes ok: "lim_ok s" and l': "lim_queue l' = drop k (lim_queue (lm s))"
    "lim_set l' = (\<lambda>e. e \<in> set (map snd (take k (lim_queue (lm s)))) \<or> lim_set (lm s) e)"
    "lim_next l' = lim_next (lm s)" "distinct (lim_borrowers l')"
  shows "lim_ok (s\<lparr>lm := l', notified := notified s @ newly_set (lm s) l'\<rparr>)"
proof -
  let ?q = "map snd (lim_queue (lm s))"
  have new: "newly_set (lm s) l' = take k ?q"
    using newly_set_prefix [OF ok l'(2)] by (simp add: take_map)
  have split: "set (take k ?q) \<inter> set (drop k ?q) = {}"
    using set_take_disj_set_drop_if_distinct [OF lim_okD(3) [OF ok], of k k] by simp
  have flags: "lim_set l' e \<longleftrightarrow> e \<in> set (take k ?q) \<or> lim_set (lm s) e" for e
    by (simp add: l'(2) take_map)
  show ?thesis
    unfolding lim_ok_def
  proof (intro conjI)
    show "distinct (od_keys (lim_queue (lm (s\<lparr>lm := l', notified := notified s @ newly_set (lm s) l'\<rparr>))))"
      using lim_okD(2) [OF ok] by (simp add: l'(1) od_keys_def drop_map [symmetric])
    show "distinct (map snd (lim_queue (lm (s\<lparr>lm := l', notified := notified s @ newly_set (lm s) l'\<rparr>))))"
      using lim_okD(3) [OF ok] by (simp add: l'(1) drop_map [symmetric])
    show "\<forall>ev\<in>set (map snd (lim_queue (lm (s\<lparr>lm := l', notified := notified s @ newly_set (lm s) l'\<rparr>)))).
      \<not> lim_set (lm (s\<lparr>lm := l', notified := notified s @ newly_set (lm s) l'\<rparr>)) ev
      \<and> ev < lim_next (lm (s\<lparr>lm := l', notified := notified s @ newly_set (lm s) l'\<rparr>))"
      using lim_okD(4) [OF ok] split flags
      by (simp add: l'(1,3) drop_map [symmetric] del: set_map) (meson disjoint_iff in_set_dropD)
    show "distinct (notified (s\<lparr>lm := l', notified := notified s @ newly_set (lm s) l'\<rparr>))"
      using lim_okD(3,5) [OF ok] lim_okD(4,6) [OF ok] by (auto simp: new dest: in_set_takeD simp del: set_map)
    show "\<forall>ev\<in>set (notified (s\<lparr>lm := l', notified := notified s @ newly_set (lm s) l'\<rparr>)).
      lim_set (lm (s\<lparr>lm := l', notified := notified s @ newly_set (lm s) l'\<rparr>)) ev
      \<and> ev < lim_next (lm (s\<lparr>lm := l', notified := notified s @ newly_set (lm s) l'\<rparr>))"
      using lim_okD(4,6) [OF ok] by (auto simp: new flags l'(3) dest: in_set_takeD simp del: set_map)
    show "\<forall>t ev b. lpcs (s\<lparr>lm := l', notified := notified s @ newly_set (lm s) l'\<rparr>) t = Some (LimWait ev, b) \<longrightarrow>
        ev < lim_next (lm (s\<lparr>lm := l', notified := notified s @ newly_set (lm s) l'\<rparr>))
        \<and> (lim_set (lm (s\<lparr>lm := l', notified := notified s @ newly_set (lm s) l'\<rparr>)) ev \<longrightarrow>
           ev \<in> set (notified (s\<lparr>lm := l', notified := notified s @ newly_set (lm s) l'\<rparr>)))"
      using lim_okD(7,8) [OF ok] by (auto simp: new flags l'(3) simp del: set_map)
    show "\<forall>t u ev b c. lpcs (s\<lparr>lm := l', notified := notified s @ newly_set (lm s) l'\<rparr>) t = Some (LimWait ev, b)
        \<and> lpcs (s\<lparr>lm := l', notified := notified s @ newly_set (lm s) l'\<rparr>) u = Some (LimWait ev, c) \<longrightarrow> t = u"
      using lim_okD(9) [OF ok] by simp
  qed (use l'(4) in simp_all)
qed

lemma lim_release_cases:
  obtains (none) "lim_release b l = (l, Inl not_borrowing)" "b \<notin> set (lim_borrowers l)"
  | (give) k where "b \<in> set (lim_borrowers l)" "k \<le> 1" "snd (lim_release b l) = Inr ()"
      "lim_queue (fst (lim_release b l)) = drop k (lim_queue l)"
      "lim_set (fst (lim_release b l)) = (\<lambda>e. e \<in> set (map snd (take k (lim_queue l))) \<or> lim_set l e)"
      "lim_next (fst (lim_release b l)) = lim_next l" "lim_total (fst (lim_release b l)) = lim_total l"
      "lim_borrowers (fst (lim_release b l)) = remove1 b (lim_borrowers l)"
proof (cases "b \<in> set (lim_borrowers l)")
  case False
  then show ?thesis using none by (simp add: lim_release_def)
next
  case True
  show ?thesis
  proof (cases "lim_queue l \<noteq> [] \<and> len_float (remove1 b (lim_borrowers l)) < num_float (lim_total l)")
    case True
    with \<open>b \<in> set (lim_borrowers l)\<close> show ?thesis
      by (intro give [of 1]) (auto simp: lim_release_def Let_def fun_eq_iff split: list.splits)
  next
    case False
    with \<open>b \<in> set (lim_borrowers l)\<close> show ?thesis
      by (intro give [of 0]) (auto simp: lim_release_def Let_def split: list.splits)
  qed
qed

lemma od_keys_set: "od_keys (od_set d k v) = (if k \<in> set (od_keys d) then od_keys d else od_keys d @ [k])"
  by (induction d k v rule: od_set.induct) auto

lemma values_set: "set (map snd (od_set d k v)) \<subseteq> insert v (set (map snd d))"
  by (induction d k v rule: od_set.induct) auto

lemma distinct_values_set: "distinct (map snd d) \<Longrightarrow> v \<notin> set (map snd d) \<Longrightarrow> distinct (map snd (od_set d k v))"
proof (induction d k v rule: od_set.induct)
  case (2 k' v' d k v)
  then show ?case using values_set [of d k v] by (auto simp del: set_map)
qed simp

lemma values_pop: "distinct (map snd d) \<Longrightarrow> distinct (map snd (od_pop d k))"
  by (simp add: od_pop_def distinct_map_filter)

lemma newly_set_none:
  "lim_ok s \<Longrightarrow> (\<And>ev. lim_set l' ev \<Longrightarrow> lim_set (lm s) ev) \<Longrightarrow> newly_set (lm s) l' = []"
  using lim_okD(4) [of s] by (auto simp: newly_set_def filter_empty_conv simp del: set_map)

lemma lim_okI:
  assumes "distinct (lim_borrowers l)" "distinct (od_keys (lim_queue l))" "distinct (map snd (lim_queue l))"
    "\<And>ev. ev \<in> set (map snd (lim_queue l)) \<Longrightarrow> \<not> lim_set l ev \<and> ev < lim_next l"
    "distinct n" "\<And>ev. ev \<in> set n \<Longrightarrow> lim_set l ev \<and> ev < lim_next l"
    "\<And>t ev b. p t = Some (LimWait ev, b) \<Longrightarrow> ev < lim_next l \<and> (lim_set l ev \<longrightarrow> ev \<in> set n)"
    "\<And>t u ev b c. p t = Some (LimWait ev, b) \<Longrightarrow> p u = Some (LimWait ev, c) \<Longrightarrow> t = u"
  shows "lim_ok \<lparr>lm = l, lpcs = p, notified = n\<rparr>"
  using assms unfolding lim_ok_def by simp

lemma lim_outcome_eq:
  "lim_outcome t b done_ev (l', out) s =
     \<lparr>lm = l', lpcs = (lpcs s)(t := (case out of Suspended pc \<Rightarrow> Some (pc, b) | _ \<Rightarrow> None)),
      notified = filter (\<lambda>ev. ev \<notin> set done_ev) (notified s) @ newly_set (lm s) l'\<rparr>"
  by (cases s) (simp add: lim_outcome_def)

text \<open>A call that ends: its entry in \<open>lpcs\<close> goes, and its event leaves \<open>notified\<close>.\<close>

lemma lim_ok_end:
  assumes ok: "lim_ok s" and l': "lim_set l' = lim_set (lm s)" "lim_next l' = lim_next (lm s)"
      "distinct (lim_borrowers l')" "distinct (od_keys (lim_queue l'))" "distinct (map snd (lim_queue l'))"
      "set (map snd (lim_queue l')) \<subseteq> set (map snd (lim_queue (lm s)))"
    and ev: "\<And>e. e \<in> set done_ev \<Longrightarrow> \<exists>b. lpcs s t = Some (LimWait e, b)"
    and out: "\<And>pc e. out = Suspended pc \<Longrightarrow> pc \<noteq> LimWait e"
  shows "lim_ok (lim_outcome t b done_ev (l', out) s)"
proof -
  have new: "newly_set (lm s) l' = []" by (rule newly_set_none [OF ok]) (simp add: l'(1))
  define p where "p = (lpcs s)(t := (case out of Suspended pc \<Rightarrow> Some (pc, b) | _ \<Rightarrow> None))"
  have pcs: "lpcs s u = Some (LimWait e, c) \<and> u \<noteq> t" if "p u = Some (LimWait e, c)" for u e c
    using that out by (auto simp: p_def split: if_splits outcome.splits)
  show ?thesis
    unfolding lim_outcome_eq new append_Nil2 p_def [symmetric]
  proof (rule lim_okI)
    show "distinct (filter (\<lambda>ev. ev \<notin> set done_ev) (notified s))" using lim_okD(5) [OF ok] by simp
    show "u = v" if "p u = Some (LimWait e, c)" "p v = Some (LimWait e, d)" for u v e c d
      using pcs [OF that(1)] pcs [OF that(2)] lim_okD(9) [OF ok] by blast
    show "e < lim_next l' \<and> (lim_set l' e \<longrightarrow> e \<in> set (filter (\<lambda>ev. ev \<notin> set done_ev) (notified s)))"
      if "p u = Some (LimWait e, c)" for u e c
      using pcs [OF that] lim_okD(7,8,9) [OF ok] ev [of e] l'(1,2) by fastforce
    show "lim_set l' e \<and> e < lim_next l'" if "e \<in> set (filter (\<lambda>ev. ev \<notin> set done_ev) (notified s))" for e
      using that lim_okD(6) [OF ok] l'(1,2) by simp
    show "\<not> lim_set l' e \<and> e < lim_next l'" if "e \<in> set (map snd (lim_queue l'))" for e
      using that lim_okD(4) [OF ok, of e] l'(1,2,6) by auto
  qed (use l' in simp_all)
qed

lemma lim_ok_begin:
  assumes ok: "lim_ok s" and pc: "lpcs s t = None"
  shows "lim_ok (lim_outcome t b [] (lim_acquire_begin b (lm s)) s)"
proof (cases "snd (lim_acquire_nowait b (lm s)) = Inl WouldBlock")
  case False
  then show ?thesis
    using lim_okD(1,2,3) [OF ok]
    by (auto simp: lim_acquire_begin_def lim_acquire_nowait_def already_borrowing_def split: if_splits
        intro!: lim_ok_end [OF ok])
next
  case True
  let ?ev = "lim_next (lm s)" and ?q = "lim_queue (lm s)"
  let ?l = "(lm s)\<lparr>lim_next := Suc ?ev, lim_set := (lim_set (lm s))(?ev := False),
     lim_queue := od_set ?q b ?ev\<rparr>"
  have out: "lim_acquire_begin b (lm s) = (?l, Suspended (LimWait ?ev))"
    using True by (auto simp: lim_acquire_begin_def lim_acquire_nowait_def Let_def already_borrowing_def
        split: if_splits)
  have new: "newly_set (lm s) ?l = []" by (rule newly_set_none [OF ok]) (simp split: if_splits)
  have fresh: "?ev \<notin> set (map snd ?q)" using lim_okD(4) [OF ok] by (auto simp del: set_map)
  have vals: "e \<in> set (map snd (od_set ?q b ?ev)) \<Longrightarrow> e = ?ev \<or> e \<in> set (map snd ?q)" for e
    using values_set [of ?q b ?ev] by blast
  define p where "p = (lpcs s)(t := Some (LimWait ?ev, b))"
  have pcs: "u = t \<and> e = ?ev \<or> u \<noteq> t \<and> e \<noteq> ?ev \<and> lpcs s u = Some (LimWait e, c)" if "p u = Some (LimWait e, c)" for u e c
    using that lim_okD(7) [OF ok, of u e c] by (auto simp: p_def split: if_splits)
  show ?thesis
    unfolding out lim_outcome_eq new append_Nil2 outcome.case p_def [symmetric]
  proof (rule lim_okI)
    show "distinct (od_keys (lim_queue ?l))"
      using lim_okD(2) [OF ok] by (simp add: od_keys_set)
    show "distinct (map snd (lim_queue ?l))"
      using lim_okD(3) [OF ok] fresh distinct_values_set [of ?q ?ev b] by simp
    show "\<not> lim_set ?l e \<and> e < lim_next ?l" if "e \<in> set (map snd (lim_queue ?l))" for e
      using vals [of e] that lim_okD(4) [OF ok, of e] by (auto simp: less_SucI simp del: set_map)
    show "lim_set ?l e \<and> e < lim_next ?l" if "e \<in> set (filter (\<lambda>ev. ev \<notin> set []) (notified s))" for e
      using that lim_okD(6) [OF ok, of e] by auto
    show "e < lim_next ?l \<and> (lim_set ?l e \<longrightarrow> e \<in> set (filter (\<lambda>ev. ev \<notin> set []) (notified s)))"
      if "p u = Some (LimWait e, c)" for u e c
      using pcs [OF that] lim_okD(7,8) [OF ok, of u e c] by auto
    show "u = v" if "p u = Some (LimWait e, c)" "p v = Some (LimWait e, d)" for u v e c d
      using pcs [OF that(1)] pcs [OF that(2)] lim_okD(9) [OF ok] by blast
  qed (use lim_okD(1,5) [OF ok] in simp_all)
qed

lemma lim_outcome_parts:
  "lim_outcome t b [] (l', out) s =
     s\<lparr>lm := l', notified := notified s @ newly_set (lm s) l',
       lpcs := (lpcs s)(t := (case out of Suspended pc \<Rightarrow> Some (pc, b) | _ \<Rightarrow> None))\<rparr>"
  by (simp add: lim_outcome_def)

lemma lim_ok_drop: "lim_ok s \<Longrightarrow> lim_ok (s\<lparr>lpcs := (lpcs s)(t := None)\<rparr>)"
  unfolding lim_ok_def by (auto split: if_splits)

lemma lim_ok_resume:
  assumes ok: "lim_ok s" and pc: "lpcs s t = Some (pc, b)" and m: "lim_may_answer (lm s) pc r"
  shows "lim_ok (lim_outcome t b (case pc of LimWait ev \<Rightarrow> [ev] | _ \<Rightarrow> []) (lim_acquire_resume t b pc r (lm s)) s)"
proof (cases pc)
  case LimIfCancelled
  then show ?thesis using lim_okD(1,2,3) [OF ok]
    by (cases r) (auto intro!: lim_ok_end [OF ok])
next
  case (LimWait ev)
  then show ?thesis using lim_okD(1,2,3) [OF ok] pc
    by (cases r) (auto intro!: lim_ok_end [OF ok] simp: od_keys_pop distinct_removeAll values_pop set_od_pop)
next
  case LimYield
  show ?thesis
  proof (cases r)
    case (Resumed v)
    then show ?thesis using lim_okD(1,2,3) [OF ok] LimYield
      by (auto intro!: lim_ok_end [OF ok])
  next
    case (Thrown e)
    show ?thesis
    proof (cases rule: lim_release_cases [of t "lm s"])
      case none
      then show ?thesis using lim_okD(1,2,3) [OF ok]
        by (auto simp: LimYield Thrown intro!: lim_ok_end [OF ok])
    next
      case (give k)
      let ?l = "fst (lim_release t (lm s))"
      have out: "lim_acquire_resume t b LimYield r (lm s) = (?l, Raised e)"
        using give(3) by (cases "lim_release t (lm s)") (simp add: Thrown)
      have "lim_ok (s\<lparr>lm := ?l, notified := notified s @ newly_set (lm s) ?l\<rparr>)"
        by (rule lim_ok_prefix [OF ok give(4,5,6)]) (simp add: give(8) lim_okD(1) [OF ok])
      from lim_ok_drop [OF this, of t] show ?thesis
        by (simp add: LimYield out lim_outcome_parts)
    qed
  qed
qed

lemma lim_ok_release:
  assumes ok: "lim_ok s"
  shows "lim_ok (s\<lparr>lm := fst (lim_release b (lm s)), notified := notified s @ newly_set (lm s) (fst (lim_release b (lm s)))\<rparr>)"
proof (cases rule: lim_release_cases [of b "lm s"])
  case none
  have "newly_set (lm s) (lm s) = []" by (rule newly_set_none [OF ok])
  with none ok show ?thesis by simp
next
  case (give k)
  then show ?thesis using lim_ok_prefix [OF ok give(4,5,6)] lim_okD(1) [OF ok] by simp
qed

lemma set_total_cases:
  obtains (raises) e where "set_total_tokens v l = (l, Inl e)"
  | (sets) k where "k \<le> length (lim_queue l)" "\<forall>m. waiters_to_notify v (lim_total l) = Some m \<longrightarrow> k \<le> m"
      "snd (set_total_tokens v l) = Inr ()" "is_pyint v \<or> v = PyFloat PosInf"
      "fst (set_total_tokens v l) = l\<lparr>lim_total := v, lim_queue := drop k (lim_queue l),
         lim_set := (\<lambda>e. e \<in> set (map snd (take k (lim_queue l))) \<or> lim_set l e)\<rparr>"
proof (cases "(\<not> is_pyint v \<and> v \<noteq> PyFloat PosInf \<and> v \<noteq> PyFloat NegInf) \<or> num_float v < Fin 1")
  case True
  then have "\<exists>e. set_total_tokens v l = (l, Inl e)" by (auto simp: set_total_tokens_def)
  then show ?thesis using raises by blast
next
  case False
  obtain q' flags' where n: "notify_waiters (waiters_to_notify v (lim_total l)) (lim_queue l) (lim_set l) = (q', flags')"
    by fastforce
  from notify_waiters_spec [OF n] obtain k where k: "k \<le> length (lim_queue l)" "q' = drop k (lim_queue l)"
    "flags' = (\<lambda>e. e \<in> set (map snd (take k (lim_queue l))) \<or> lim_set l e)"
    "\<forall>m. waiters_to_notify v (lim_total l) = Some m \<longrightarrow> k \<le> m" by blast
  have "set_total_tokens v l = (l\<lparr>lim_total := v, lim_queue := q', lim_set := flags'\<rparr>, Inr ())"
    using False by (simp add: set_total_tokens_def n)
  moreover have "is_pyint v \<or> v = PyFloat PosInf" using False by auto
  ultimately show ?thesis using k by (intro sets [of k]) simp_all
qed

lemma lim_ok_set_total:
  assumes ok: "lim_ok s"
  shows "lim_ok (s\<lparr>lm := fst (set_total_tokens v (lm s)), notified := notified s @ newly_set (lm s) (fst (set_total_tokens v (lm s)))\<rparr>)"
proof (cases rule: set_total_cases [of v "lm s"])
  case raises
  have "newly_set (lm s) (lm s) = []" by (rule newly_set_none [OF ok])
  with raises ok show ?thesis by simp
next
  case (sets k)
  show ?thesis by (rule lim_ok_prefix [OF ok, of _ k]) (simp_all add: sets(5) lim_okD(1) [OF ok])
qed

lemma lim_ok_nowait: "lim_ok s \<Longrightarrow> lim_ok (s\<lparr>lm := fst (lim_acquire_nowait b (lm s))\<rparr>)"
  by (auto simp: lim_acquire_nowait_def lim_ok_def)

lemma lim_ok_start:
  assumes ok: "lim_ok s" and pc: "lpcs s t = None"
  shows "lim_ok (lim_outcome t b [] (lim_acquire_start b c (lm s)) s)"
proof (cases c)
  case True
  then show ?thesis using lim_okD(1,2,3) [OF ok]
    by (auto simp: lim_acquire_start_def intro!: lim_ok_end [OF ok])
next
  case False
  then show ?thesis using lim_ok_begin [OF ok pc] by (simp add: lim_acquire_start_def)
qed

lemma lim_ok_act: "lim_ok s \<Longrightarrow> lim_act a s = Some s' \<Longrightarrow> lim_ok s'"
proof (induction a s rule: lim_act.induct)
  case (1 t b c s)
  then show ?case using lim_ok_start [of s t b c] by (cases "lpcs s t") simp_all
qed (auto simp: Let_def lim_ok_resume lim_ok_nowait lim_ok_release lim_ok_set_total
      split: if_splits option.splits)

section \<open>The bound of prompt runs\<close>

lemma bounded_release:
  assumes ok: "lim_ok s" and b: "lim_bounded s"
  shows "Fin (real (length (lim_borrowers (fst (lim_release t (lm s))))
      + length (notified s @ newly_set (lm s) (fst (lim_release t (lm s))))))
    \<le> num_float (lim_total (fst (lim_release t (lm s))))"
proof (cases rule: lim_release_cases [of t "lm s"])
  case none
  have "newly_set (lm s) (lm s) = []" by (rule newly_set_none [OF ok])
  with none b show ?thesis by (simp add: lim_bounded_def)
next
  case (give k)
  have "length (newly_set (lm s) (fst (lim_release t (lm s)))) \<le> k"
    using newly_set_prefix [OF ok give(5)] by simp
  moreover have "Suc (length (remove1 t (lim_borrowers (lm s)))) = length (lim_borrowers (lm s))"
    using give(1) by (cases "lim_borrowers (lm s)") (auto simp: length_remove1 dest: length_pos_if_in_set)
  ultimately have "length (lim_borrowers (fst (lim_release t (lm s))))
      + length (notified s @ newly_set (lm s) (fst (lim_release t (lm s))))
      \<le> length (lim_borrowers (lm s)) + length (notified s)"
    using give(2,8) by simp
  then have "Fin (real (length (lim_borrowers (fst (lim_release t (lm s))))
      + length (notified s @ newly_set (lm s) (fst (lim_release t (lm s))))))
      \<le> Fin (real (length (lim_borrowers (lm s)) + length (notified s)))" by simp
  then show ?thesis using b give(7) unfolding lim_bounded_def by (metis order_trans)
qed

lemma bounded_set_total:
  assumes ok: "lim_ok s" and b: "lim_bounded s" and up: "num_float (lim_total (lm s)) \<le> num_float v"
  shows "Fin (real (length (lim_borrowers (fst (set_total_tokens v (lm s))))
      + length (notified s @ newly_set (lm s) (fst (set_total_tokens v (lm s))))))
    \<le> num_float (lim_total (fst (set_total_tokens v (lm s))))"
proof (cases rule: set_total_cases [of v "lm s"])
  case raises
  have "newly_set (lm s) (lm s) = []" by (rule newly_set_none [OF ok])
  with raises b show ?thesis by (simp add: lim_bounded_def)
next
  case (sets k)
  have n: "length (newly_set (lm s) (fst (set_total_tokens v (lm s)))) = k"
    using newly_set_prefix [OF ok, of _ k] sets(1) by (simp add: sets(5))
  show ?thesis
  proof (cases v)
    case (PyInt i)
    then obtain j where j: "lim_total (lm s) = PyInt j" "j \<le> i"
      using up b by (cases "lim_total (lm s)") (auto simp: lim_bounded_def)
    then have "k \<le> nat (i - j)" using sets(2) PyInt by (simp add: waiters_to_notify_def)
    then have "int k \<le> i - j" using j(2) by simp
    moreover have "int (length (lim_borrowers (lm s)) + length (notified s)) \<le> j"
      using b j(1) by (simp add: lim_bounded_def)
    ultimately have "int (length (lim_borrowers (lm s)) + (length (notified s) + k)) \<le> i" by simp
    then have "real (length (lim_borrowers (lm s)) + (length (notified s) + k)) \<le> real_of_int i"
      by (metis of_int_le_iff of_int_of_nat_eq)
    then show ?thesis using n by (simp add: PyInt sets(5) [unfolded PyInt])
  next
    case (PyFloat f)
    then have f: "v = PyFloat PosInf" using sets(4) by auto
    show ?thesis by (simp add: f sets(5) [unfolded f])
  qed
qed

lemma total_release: "lim_total (fst (lim_release b l)) = lim_total l"
  by (rule lim_release_cases [of b l]) simp_all

lemma bounded_resume:
  assumes ok: "lim_ok s" and bd: "lim_bounded s" and pc: "lpcs s t = Some (pc, b)"
    and m: "lim_may_answer (lm s) pc r"
  shows "lim_bounded (lim_outcome t b (case pc of LimWait ev \<Rightarrow> [ev] | _ \<Rightarrow> []) (lim_acquire_resume t b pc r (lm s)) s)"
proof -
  have same: "newly_set (lm s) l' = []" if "lim_set l' = lim_set (lm s)" for l'
    by (rule newly_set_none [OF ok]) (simp add: that)
  have le: "lim_bounded s'" if "lim_total (lm s') = lim_total (lm s)"
    "length (lim_borrowers (lm s')) + length (notified s') \<le> length (lim_borrowers (lm s)) + length (notified s)" for s'
  proof -
    have "Fin (real (length (lim_borrowers (lm s')) + length (notified s')))
      \<le> Fin (real (length (lim_borrowers (lm s)) + length (notified s)))" using that(2) by simp
    then show ?thesis using bd that(1) unfolding lim_bounded_def by (metis order_trans)
  qed
  show ?thesis
  proof (cases pc)
    case LimIfCancelled
    then show ?thesis by (cases r) (auto intro!: le simp: lim_outcome_eq same)
  next
    case (LimWait ev)
    show ?thesis
    proof (cases r)
      case (Resumed v)
      then have "ev \<in> set (notified s)" using m lim_okD(8) [OF ok pc [unfolded LimWait]]
        by (simp add: lim_may_answer_def LimWait)
      then have "Suc (length (filter (\<lambda>e. e \<noteq> ev) (notified s))) \<le> length (notified s)"
        by (simp add: length_filter_less Suc_le_eq)
      then show ?thesis by (intro le) (auto simp: LimWait Resumed lim_outcome_eq same)
    next
      case (Thrown e)
      then show ?thesis by (intro le) (auto simp: LimWait lim_outcome_eq same)
    qed
  next
    case LimYield
    show ?thesis
    proof (cases r)
      case (Resumed v)
      then show ?thesis by (intro le) (auto simp: LimYield lim_outcome_eq same)
    next
      case (Thrown e)
      let ?l = "fst (lim_release t (lm s))"
      have "lm (lim_outcome t b [] (lim_acquire_resume t b LimYield r (lm s)) s) = ?l"
        "notified (lim_outcome t b [] (lim_acquire_resume t b LimYield r (lm s)) s)
          = notified s @ newly_set (lm s) ?l"
        by (auto simp: Thrown lim_outcome_eq split: prod.split sum.split)
      then show ?thesis using bounded_release [OF ok bd, of t] bd
        by (simp add: LimYield lim_bounded_def total_release)
    qed
  qed
qed

lemma room_for_one:
  assumes "real n \<le> real_of_int i" "real_of_int i \<noteq> real n"
  shows "1 + real n \<le> real_of_int i"
proof -
  have "int n \<le> i" using assms(1) by (metis of_int_le_iff of_int_of_nat_eq)
  moreover have "int n \<noteq> i" using assms(2) by auto
  ultimately have "1 + int n \<le> i" by simp
  then show ?thesis by (metis of_int_1 of_int_add of_int_le_iff of_int_of_nat_eq)
qed

lemma bounded_start:
  assumes ok: "lim_ok s" and bd: "lim_bounded s" and none: "notified s = []"
  shows "lim_bounded (lim_outcome t b [] (lim_acquire_start b c (lm s)) s)"
proof -
  have new: "newly_set (lm s) (fst (lim_acquire_start b c (lm s))) = []"
    by (rule newly_set_none [OF ok])
      (auto simp: lim_acquire_start_def lim_acquire_begin_def lim_acquire_nowait_def Let_def split: if_splits)
  have tot: "lim_total (fst (lim_acquire_start b c (lm s))) = lim_total (lm s)"
    by (auto simp: lim_acquire_start_def lim_acquire_begin_def lim_acquire_nowait_def Let_def)
  have "Fin (real (length (lim_borrowers (fst (lim_acquire_start b c (lm s)))))) \<le> num_float (lim_total (lm s))"
    using bd none by (cases "num_float (lim_total (lm s))"; cases "lim_total (lm s)")
      (auto simp: lim_acquire_start_def lim_acquire_begin_def lim_acquire_nowait_def Let_def lim_bounded_def not_le room_for_one)
  then show ?thesis using new tot bd none
    by (cases "lim_acquire_start b c (lm s)") (simp add: lim_outcome_eq lim_bounded_def)
qed

lemma bounded_nowait:
  assumes bd: "lim_bounded s" and none: "notified s = []"
  shows "lim_bounded (s\<lparr>lm := fst (lim_acquire_nowait b (lm s))\<rparr>)"
  using bd none by (cases "num_float (lim_total (lm s))"; cases "lim_total (lm s)")
    (auto simp: lim_acquire_nowait_def lim_bounded_def not_le room_for_one)

lemma total_set: "is_pyint (lim_total l) \<or> lim_total l = PyFloat PosInf \<Longrightarrow>
   is_pyint (lim_total (fst (set_total_tokens v l))) \<or> lim_total (fst (set_total_tokens v l)) = PyFloat PosInf"
  by (rule set_total_cases [of v l]) auto

lemma lim_bounded_act:
  assumes "lim_ok s" "lim_bounded s" "lim_act a s = Some s'" "prompt a s"
  shows "lim_bounded s'"
  using assms
proof (induction a s rule: lim_act.induct)
  case (1 t b c s)
  then show ?case using bounded_start [of s t b c] by (cases "lpcs s t") (simp_all add: prompt_def)
next
  case (2 t r s)
  then show ?case using bounded_resume by (auto split: if_splits option.splits)
next
  case (3 b s)
  then show ?case using bounded_nowait [of s b] by (simp add: prompt_def)
next
  case (4 b s)
  then show ?case using bounded_release [of s b]
    by (auto simp: Let_def lim_bounded_def total_release)
next
  case (5 v s)
  then have "lim_total (lm s) \<in> {t. is_pyint t \<or> t = PyFloat PosInf}" by (simp add: lim_bounded_def)
  with 5 show ?case using bounded_set_total [of s v] total_set [of "lm s" v]
    by (simp add: Let_def prompt_def) (auto simp: lim_bounded_def)
qed

lemma lim_bounded_run:
  "lim_ok s \<Longrightarrow> lim_bounded s \<Longrightarrow> lim_run as s = Some s' \<Longrightarrow> prompt_run as s \<Longrightarrow> lim_ok s' \<and> lim_bounded s'"
proof (induction as arbitrary: s)
  case (Cons a as)
  then show ?case using lim_bounded_act [of s a] lim_ok_act [of s a] by (auto split: option.splits)
qed simp

lemma limiter_init_ok:
  assumes "limiter_init v = Inr l"
  shows "lim_ok (limsys_new l)" "lim_bounded (limsys_new l)"
proof -
  let ?l0 = "\<lparr>lim_total = PyInt 0, lim_borrowers = [], lim_queue = [], lim_set = (\<lambda>_. False), lim_next = 0\<rparr>"
  from assms have l: "l = ?l0\<lparr>lim_total := v\<rparr>" "is_pyint v \<or> v = PyFloat PosInf" "\<not> num_float v < Fin 1"
    by (auto simp: limiter_init_def set_total_tokens_def split: if_splits)
  show "lim_ok (limsys_new l)" by (simp add: lim_ok_def limsys_new_def l(1))
  show "lim_bounded (limsys_new l)" using l(2,3)
    by (cases "num_float v") (auto simp: lim_bounded_def limsys_new_def l(1) not_less)
qed

section \<open>Properties\<close>

text \<open>
  C30: A limiter is not oversubscribed as long as notified waiters run before newcomers try to
  take a token and the total is not lowered: at every point the borrowers and the waiters that
  were promised a token fit in \<open>total_tokens\<close>, also when the total is raised, tasks are cancelled
  or tokens are taken on behalf of other borrowers. The hypothesis is needed:
  \<open>limiter_oversubscribed\<close>.
\<close>

theorem limiter_bound:
  assumes "limiter_init v = Inr l" "lim_run as (limsys_new l) = Some s" "prompt_run as (limsys_new l)"
  shows "Fin (real (borrowed_tokens (lm s) + length (notified s))) \<le> num_float (lim_total (lm s))
    \<and> distinct (lim_borrowers (lm s))"
  using lim_bounded_run [OF limiter_init_ok [OF assms(1)] assms(2,3)]
  by (simp add: lim_bounded_def lim_ok_def borrowed_tokens_def)

abbreviation limiter1 :: limiter where
  "limiter1 \<equiv> \<lparr>lim_total = PyInt 1, lim_borrowers = [], lim_queue = [], lim_set = (\<lambda>_. False), lim_next = 0\<rparr>"

lemma limiter1_init: "limiter_init (PyInt 1) = Inr limiter1"
  by (simp add: limiter_init_def set_total_tokens_def waiters_to_notify_def)

lemmas lim_run_simps = limsys_new_def lim_acquire_start_def lim_acquire_begin_def lim_acquire_nowait_def
  lim_release_def lim_outcome_def lim_may_answer_def newly_set_def set_total_tokens_def
  waiters_to_notify_def Let_def

theorem limiter_bound_witness:
  "\<exists>s. lim_run [LimNowait 1, LimAcquire 2 2 False, LimRelease 1, LimResume 2 (Resumed ())]
      (limsys_new limiter1) = Some s \<and> lim_borrowers (lm s) = [2]
    \<and> Fin (real (borrowed_tokens (lm s) + length (notified s))) \<le> num_float (lim_total (lm s))"
  using limiter_bound [OF limiter1_init, of "[LimNowait 1, LimAcquire 2 2 False, LimRelease 1,
      LimResume 2 (Resumed ())]"]
  by (simp add: lim_run_simps prompt_def)

text \<open>
  The limit can be exceeded: between the \<open>release\<close> that notifies the last waiter and that
  waiter's next step, \<open>acquire_nowait\<close> finds an empty queue and a free token and succeeds, and the
  waiter then adds itself too: two borrowers of one token.
\<close>

theorem limiter_oversubscribed:
  "\<exists>s. lim_run [LimNowait 1, LimAcquire 2 2 False, LimRelease 1, LimNowait 3, LimResume 2 (Resumed ())]
      (limsys_new limiter1) = Some s \<and> borrowed_tokens (lm s) = 2 \<and> lim_total (lm s) = PyInt 1"
  by (simp add: lim_run_simps borrowed_tokens_def)

text \<open>
  A token can be lost: when a notified waiter is cancelled before it runs, nobody else is
  notified, so the next waiter sleeps and newcomers get \<open>WouldBlock\<close> although no token is taken.
\<close>

theorem limiter_lost_wakeup:
  "\<exists>s. lim_run [LimNowait 1, LimAcquire 2 2 False, LimAcquire 3 3 False, LimRelease 1,
      LimResume 2 (Thrown (CancelledError None None))] (limsys_new limiter1) = Some s
    \<and> borrowed_tokens (lm s) = 0 \<and> notified s = [] \<and> od_keys (lim_queue (lm s)) = [3]
    \<and> snd (lim_acquire_nowait 4 (lm s)) = Inl WouldBlock"
  by (simp add: lim_run_simps borrowed_tokens_def)

end
