(* ===== verification/Conditions.thy ===== *)
theory Conditions
  imports Locks
begin

text \<open>
  Events, conditions and resource guards: class \<open>Event\<close> of \<open>src/anyio/_backends/_asyncio.py\<close>,
  classes \<open>Condition\<close> and \<open>ResourceGuard\<close> of \<open>src/anyio/_core/_synchronization.py\<close>.

  A condition is its lock (the model of \<open>Locks\<close>), \<open>_owner_task\<close> and its queue of events. An event
  belongs to one \<open>wait\<close> call and is its flag in \<open>c_set\<close>. \<open>wait\<close> is the coroutine of \<open>wait_start\<close>
  and \<open>wait_resume\<close>; its re-acquisition of the lock runs the coroutine of the lock's \<open>acquire\<close> in
  a shielded scope, and remembers the exception it will raise afterwards.
\<close>

section \<open>Events\<close>

datatype event_pc = EvCheckpoint | EvWait

definition event_is_set :: "aevent \<Rightarrow> bool" where
  "event_is_set ev = ev_flag ev"

definition event_set :: "aevent \<Rightarrow> aevent" where
  "event_set ev = aevent_set ev"

definition event_wait_start :: "task \<Rightarrow> aevent \<Rightarrow> aevent \<times> (event_pc, unit) outcome" where
  "event_wait_start t ev =
     (if event_is_set ev then (ev, Suspended EvCheckpoint)
      else case aevent_wait_start t ev of
        (ev', Suspended _) \<Rightarrow> (ev', Suspended EvWait)
      | (ev', Done u) \<Rightarrow> (ev', Done u)
      | (ev', Raised e) \<Rightarrow> (ev', Raised e))"

fun event_wait_resume :: "task \<Rightarrow> event_pc \<Rightarrow> unit awaited \<Rightarrow> aevent \<Rightarrow> aevent \<times> (event_pc, unit) outcome" where
  "event_wait_resume t EvCheckpoint (Resumed _) ev = (ev, Done ())"
| "event_wait_resume t EvCheckpoint (Thrown e) ev = (ev, Raised e)"
| "event_wait_resume t EvWait r ev =
     (case aevent_wait_resume t r ev of
        (ev', Done u) \<Rightarrow> (ev', Done u)
      | (ev', Raised e) \<Rightarrow> (ev', Raised e)
      | (ev', Suspended _) \<Rightarrow> (ev', Suspended EvWait))"

definition event_statistics :: "aevent \<Rightarrow> nat" where
  "event_statistics ev = length (ev_waiters ev)"

section \<open>Conditions\<close>

record cond =
  c_lock :: lock
  c_owner :: "task option"
  c_waiters :: "nat list"
  c_set :: "nat \<Rightarrow> bool"
  c_next :: nat

definition cond_new :: "lock option \<Rightarrow> cond" where
  "cond_new l = \<lparr>c_lock = (case l of Some k \<Rightarrow> k | None \<Rightarrow> lock_new False), c_owner = None,
     c_waiters = [], c_set = (\<lambda>_. False), c_next = 0\<rparr>"

definition not_underlying :: exn where
  "not_underlying = RuntimeError ''The current task is not holding the underlying lock''"

definition check_acquired :: "task \<Rightarrow> cond \<Rightarrow> unit res" where
  "check_acquired t c = (if c_owner c \<noteq> Some t then Inl not_underlying else Inr ())"

text \<open>\<open>acquire\<close>: when the lock's \<open>acquire\<close> returns, the current task becomes the owner.\<close>

definition cond_of_lock :: "task \<Rightarrow> cond \<Rightarrow> lock \<times> ('w, unit) outcome \<Rightarrow> cond \<times> ('w, unit) outcome" where
  "cond_of_lock t c = (\<lambda>(l, out).
     (case out of
        Done u \<Rightarrow> (c\<lparr>c_lock := l, c_owner := Some t\<rparr>, Done u)
      | Raised e \<Rightarrow> (c\<lparr>c_lock := l\<rparr>, Raised e)
      | Suspended pc \<Rightarrow> (c\<lparr>c_lock := l\<rparr>, Suspended pc)))"

definition cond_acquire_start :: "task \<Rightarrow> bool \<Rightarrow> cond \<Rightarrow> cond \<times> (lock_pc, unit) outcome" where
  "cond_acquire_start t cancelled c = cond_of_lock t c (lock_acquire_start t cancelled (c_lock c))"

definition cond_acquire_resume :: "task \<Rightarrow> lock_pc \<Rightarrow> unit awaited \<Rightarrow> cond \<Rightarrow> cond \<times> (lock_pc, unit) outcome" where
  "cond_acquire_resume t pc r c = cond_of_lock t c (lock_acquire_resume t pc r (c_lock c))"

definition cond_acquire_nowait :: "task \<Rightarrow> cond \<Rightarrow> cond \<times> unit res" where
  "cond_acquire_nowait t c =
     (case lock_acquire_nowait t (c_lock c) of
        (l, Inr _) \<Rightarrow> (c\<lparr>c_lock := l, c_owner := Some t\<rparr>, Inr ())
      | (l, Inl e) \<Rightarrow> (c\<lparr>c_lock := l\<rparr>, Inl e))"

definition cond_release :: "task \<Rightarrow> cond \<Rightarrow> cond \<times> unit res" where
  "cond_release t c = (case lock_release t (c_lock c) of (l, r) \<Rightarrow> (c\<lparr>c_lock := l\<rparr>, r))"

definition cond_locked :: "cond \<Rightarrow> bool" where
  "cond_locked c = lock_locked (c_lock c)"

text \<open>The loop of \<open>notify\<close>: \<open>n\<close> times \<open>popleft\<close> and \<open>set\<close>, until the queue is empty.\<close>

fun notify_loop :: "nat \<Rightarrow> cond \<Rightarrow> cond" where
  "notify_loop 0 c = c"
| "notify_loop (Suc n) c =
     (case c_waiters c of
        [] \<Rightarrow> c
      | ev # evs \<Rightarrow> notify_loop n (c\<lparr>c_waiters := evs, c_set := (c_set c)(ev := True)\<rparr>))"

definition notify :: "task \<Rightarrow> int \<Rightarrow> cond \<Rightarrow> cond \<times> unit res" where
  "notify t n c =
     (case check_acquired t c of Inl e \<Rightarrow> (c, Inl e) | Inr _ \<Rightarrow> (notify_loop (nat n) c, Inr ()))"

definition notify_all :: "task \<Rightarrow> cond \<Rightarrow> cond \<times> unit res" where
  "notify_all t c =
     (case check_acquired t c of
        Inl e \<Rightarrow> (c, Inl e)
      | Inr _ \<Rightarrow> (c\<lparr>c_set := (\<lambda>e. e \<in> set (c_waiters c) \<or> c_set c e), c_waiters := []\<rparr>, Inr ()))"

text \<open>\<open>CwReacquire\<close> keeps the exception, if any, that \<open>event.wait()\<close> ended with.\<close>

datatype wait_pc = CwCheckpoint | CwEvent nat | CwReacquire "exn option" lock_pc

definition wait_start :: "(wait_pc, unit) outcome" where
  "wait_start = Suspended CwCheckpoint"

definition wait_reacquired :: "exn option \<Rightarrow> cond \<times> (lock_pc, unit) outcome \<Rightarrow> cond \<times> (wait_pc, unit) outcome" where
  "wait_reacquired pending = (\<lambda>(c, out).
     (c, case out of
           Done _ \<Rightarrow> (case pending of None \<Rightarrow> Done () | Some e \<Rightarrow> Raised e)
         | Raised e \<Rightarrow> Raised e
         | Suspended pc \<Rightarrow> Suspended (CwReacquire pending pc)))"

fun wait_resume :: "task \<Rightarrow> wait_pc \<Rightarrow> unit awaited \<Rightarrow> cond \<Rightarrow> cond \<times> (wait_pc, unit) outcome" where
  "wait_resume t CwCheckpoint (Thrown e) c = (c, Raised e)"
| "wait_resume t CwCheckpoint (Resumed _) c =
     (let ev = c_next c;
          c = c\<lparr>c_next := Suc ev, c_set := (c_set c)(ev := False), c_waiters := c_waiters c @ [ev]\<rparr>
      in case cond_release t c of
           (c, Inl e) \<Rightarrow> (c, Raised e)
         | (c, Inr _) \<Rightarrow> (c, Suspended (CwEvent ev)))"
| "wait_resume t (CwEvent ev) (Resumed _) c = wait_reacquired None (cond_acquire_start t False c)"
| "wait_resume t (CwEvent ev) (Thrown e) c =
     (let c' = (if c_set c ev then c else c\<lparr>c_waiters := remove1 ev (c_waiters c)\<rparr>)
      in wait_reacquired (Some e) (cond_acquire_start t False c'))"
| "wait_resume t (CwReacquire pending pc) r c = wait_reacquired pending (cond_acquire_resume t pc r c)"

record cond_statistics =
  cs_tasks_waiting :: nat
  cs_lock :: lock_statistics

definition cond_stats :: "cond \<Rightarrow> cond_statistics" where
  "cond_stats c = \<lparr>cs_tasks_waiting = length (c_waiters c), cs_lock = lock_stats (c_lock c)\<rparr>"

lemma notify_loop_eq:
  "notify_loop n c = c\<lparr>c_waiters := drop n (c_waiters c),
     c_set := (\<lambda>e. e \<in> set (take n (c_waiters c)) \<or> c_set c e)\<rparr>"
proof (induction n c rule: notify_loop.induct)
  case (1 c)
  then show ?case by simp
next
  case (2 n c)
  then show ?case by (cases "c_waiters c") (auto simp: fun_eq_iff)
qed

lemma lock_acquire_done_owner:
  "lock_acquire_start t cancelled l = (l', Done u) \<Longrightarrow> owner_task l' = Some t"
  by (auto simp: lock_acquire_start_def split: if_splits)

section \<open>Resource guards\<close>

record guard =
  g_action :: string
  guarded_flag :: bool

definition guard_new :: "string \<Rightarrow> guard" where
  "guard_new action = \<lparr>g_action = action, guarded_flag = False\<rparr>"

definition guard_enter :: "guard \<Rightarrow> guard \<times> unit res" where
  "guard_enter g =
     (if guarded_flag g then (g, Inl (BusyResourceError (g_action g)))
      else (g\<lparr>guarded_flag := True\<rparr>, Inr ()))"

definition guard_exit :: "guard \<Rightarrow> guard" where
  "guard_exit g = g\<lparr>guarded_flag := False\<rparr>"

text \<open>
  A sequence of attempts to use the resource; \<open>True\<close> enters the \<open>with\<close> block, \<open>False\<close> leaves it
  (only a task that entered does). The result counts the tasks inside.
\<close>

fun guard_run :: "bool list \<Rightarrow> nat \<Rightarrow> guard \<Rightarrow> (nat \<times> guard) option" where
  "guard_run [] n g = Some (n, g)"
| "guard_run (True # as) n g =
     (case guard_enter g of (g', Inr _) \<Rightarrow> guard_run as (Suc n) g' | (g', Inl _) \<Rightarrow> guard_run as n g')"
| "guard_run (False # as) n g = (if n = 0 then None else guard_run as (n - 1) (guard_exit g))"

lemma guard_run_count:
  "guard_run as n g = Some (m, g') \<Longrightarrow> n = (if guarded_flag g then 1 else 0) \<Longrightarrow>
     m = (if guarded_flag g' then 1 else 0)"
proof (induction as n g rule: guard_run.induct)
  case (2 as n g)
  then show ?case by (cases "guarded_flag g") (auto simp: guard_enter_def)
qed (auto simp: guard_exit_def split: if_splits)

section \<open>Properties\<close>

text \<open>
  \<open>notify(n)\<close> by the owner wakes the \<open>min(n, len)\<close> tasks that have waited longest, in order,
  and leaves the others queued; \<open>notify_all\<close> wakes every waiter; by any other task both raise
  \<open>RuntimeError\<close> and wake nobody.
\<close>

theorem notify_spec:
  "notify t n c =
     (if c_owner c = Some t
      then (c\<lparr>c_waiters := drop (nat n) (c_waiters c),
              c_set := (\<lambda>e. e \<in> set (take (nat n) (c_waiters c)) \<or> c_set c e)\<rparr>, Inr ())
      else (c, Inl not_underlying))
   \<and> notify_all t c =
     (if c_owner c = Some t
      then (c\<lparr>c_waiters := [], c_set := (\<lambda>e. e \<in> set (c_waiters c) \<or> c_set c e)\<rparr>, Inr ())
      else (c, Inl not_underlying))"
  by (simp add: notify_def notify_all_def check_acquired_def notify_loop_eq)

text \<open>
  A task comes back from \<open>wait\<close> owning the condition: whenever a step of \<open>wait\<close> after the
  event returns, or raises the exception the wait was interrupted with, \<open>_owner_task\<close> is the
  task, and when it took the lock without queueing the lock is its own; and a \<open>wait\<close> that was
  interrupted before it was notified has left the queue.
\<close>

theorem wait_reacquires:
  "(case wait_resume t (CwEvent ev) r c of
      (c', Done _) \<Rightarrow> c_owner c' = Some t \<and> owner_task (c_lock c') = Some t
    | (c', Raised e) \<Rightarrow> (r = Thrown e \<and> c_owner c' = Some t \<and> owner_task (c_lock c') = Some t)
        \<or> (e = already_held \<and> owner_task (c_lock c) = Some t)
    | (c', Suspended pc) \<Rightarrow> (\<exists>lpc. pc = CwReacquire (case r of Resumed _ \<Rightarrow> None | Thrown e \<Rightarrow> Some e) lpc))
   \<and> (case wait_resume t (CwReacquire p lpc) r c of
      (c', Done _) \<Rightarrow> p = None \<and> c_owner c' = Some t
    | (c', Raised e) \<Rightarrow> (p = Some e \<and> c_owner c' = Some t) \<or> (\<exists>l. lock_acquire_resume t lpc r (c_lock c) = (l, Raised e))
    | (c', Suspended pc) \<Rightarrow> (\<exists>lpc'. pc = CwReacquire p lpc'))
   \<and> (c_set c ev \<or> \<not> distinct (c_waiters c)
      \<or> ev \<notin> set (c_waiters (fst (wait_resume t (CwEvent ev) (Thrown e) c))))"
proof (intro conjI)
  show "case wait_resume t (CwEvent ev) r c of
      (c', Done _) \<Rightarrow> c_owner c' = Some t \<and> owner_task (c_lock c') = Some t
    | (c', Raised e) \<Rightarrow> (r = Thrown e \<and> c_owner c' = Some t \<and> owner_task (c_lock c') = Some t)
        \<or> (e = already_held \<and> owner_task (c_lock c) = Some t)
    | (c', Suspended pc) \<Rightarrow> (\<exists>lpc. pc = CwReacquire (case r of Resumed _ \<Rightarrow> None | Thrown e \<Rightarrow> Some e) lpc)"
    by (cases r) (auto simp: wait_reacquired_def cond_acquire_start_def cond_of_lock_def
        lock_acquire_start_def Let_def)
  show "case wait_resume t (CwReacquire p lpc) r c of
      (c', Done _) \<Rightarrow> p = None \<and> c_owner c' = Some t
    | (c', Raised e) \<Rightarrow> (p = Some e \<and> c_owner c' = Some t) \<or> (\<exists>l. lock_acquire_resume t lpc r (c_lock c) = (l, Raised e))
    | (c', Suspended pc) \<Rightarrow> (\<exists>lpc'. pc = CwReacquire p lpc')"
    by (cases "lock_acquire_resume t lpc r (c_lock c)"; cases "snd (lock_acquire_resume t lpc r (c_lock c))"; cases p)
      (auto simp: wait_reacquired_def cond_acquire_resume_def cond_of_lock_def)
  show "c_set c ev \<or> \<not> distinct (c_waiters c)
      \<or> ev \<notin> set (c_waiters (fst (wait_resume t (CwEvent ev) (Thrown e) c)))"
    by (auto simp: wait_reacquired_def cond_acquire_start_def cond_of_lock_def lock_acquire_start_def Let_def)
qed

theorem wait_reacquires_witness:
  "0 \<notin> set (c_waiters (fst (wait_resume 1 (CwEvent 0) (Thrown EndOfStream) ((cond_new None)\<lparr>c_waiters := [0]\<rparr>))))"
  using wait_reacquires [where t = 1 and ev = 0 and r = "Resumed ()" and c = "(cond_new None)\<lparr>c_waiters := [0]\<rparr>"
      and p = None and lpc = LkWait and e = EndOfStream]
  by (simp add: cond_new_def)

text \<open>
  \<open>release\<close> does not reset \<open>_owner_task\<close>: after releasing the condition a task still passes
  \<open>_check_acquired\<close>, so its \<open>notify\<close> succeeds although it does not hold the lock, also while
  another task holds it through the lock itself.
\<close>

theorem notify_after_release:
  "\<exists>c1 c2. cond_acquire_nowait 1 (cond_new None) = (c1, Inr ()) \<and> cond_release 1 c1 = (c2, Inr ())
    \<and> \<not> cond_locked c2 \<and> snd (notify 1 1 c2) = Inr ()
    \<and> snd (notify 1 1 (c2\<lparr>c_lock := fst (lock_acquire_nowait 2 (c_lock c2))\<rparr>)) = Inr ()"
  by (simp add: cond_new_def cond_acquire_nowait_def lock_acquire_nowait_def lock_new_def
      cond_release_def lock_release_def cond_locked_def lock_locked_def notify_def check_acquired_def)

text \<open>
  A notification given to a waiter that is cancelled before it runs is lost: \<open>notify(1)\<close> wakes
  only the first waiter, the cancelled \<open>wait\<close> does not pass it on, and the second stays queued.
\<close>

theorem notify_lost:
  "\<exists>c. fst (notify 1 1 (cond_new None\<lparr>c_owner := Some 1, c_waiters := [0, 1], c_next := 2\<rparr>)) = c
    \<and> c_set c 0 \<and> c_waiters c = [1]
    \<and> snd (wait_resume 2 (CwEvent 0) (Thrown (CancelledError None None)) c)
        = Suspended (CwReacquire (Some (CancelledError None None)) LkYield)
    \<and> c_waiters (fst (wait_resume 2 (CwEvent 0) (Thrown (CancelledError None None)) c)) = [1]
    \<and> \<not> c_set (fst (wait_resume 2 (CwEvent 0) (Thrown (CancelledError None None)) c)) 1"
  by (simp add: cond_new_def notify_def check_acquired_def lock_new_def wait_reacquired_def
      cond_acquire_start_def cond_of_lock_def lock_acquire_start_def eval_nat_numeral)

text \<open>
  A resource guard lets at most one task in at a time, however the attempts interleave; an
  attempt while it is taken raises \<open>BusyResourceError\<close> with the action and changes nothing.
\<close>

theorem guard_exclusive:
  assumes "guard_run as 0 (guard_new action) = Some (n, g)"
  shows "n \<le> 1 \<and> guard_enter g =
    (if n = 1 then (g, Inl (BusyResourceError (g_action g))) else (g\<lparr>guarded_flag := True\<rparr>, Inr ()))"
  using guard_run_count [OF assms] by (simp add: guard_new_def guard_enter_def split: if_splits)

theorem guard_exclusive_witness:
  "\<exists>g. guard_run [True, True, False, True] 0 (guard_new ''reading from'') = Some (1, g)
    \<and> guard_enter g = (g, Inl (BusyResourceError ''reading from''))"
proof -
  obtain g where g: "guard_run [True, True, False, True] 0 (guard_new ''reading from'') = Some (1, g)"
    "g_action g = ''reading from''"
    by (simp add: guard_new_def guard_enter_def guard_exit_def)
  from guard_exclusive [OF g(1)] g show ?thesis by simp
qed

end
