(* ===== verification/Adapters.thy ===== *)
theory Adapters
  imports Conditions Semaphores Limiters
begin

text \<open>
  The adapters of \<open>src/anyio/_core/_synchronization.py\<close>: \<open>EventAdapter\<close>, \<open>LockAdapter\<close>,
  \<open>SemaphoreAdapter\<close>, \<open>CapacityLimiterAdapter\<close>, which stand for a primitive created outside an
  event loop and create the backend's object when they need it.

  An adapter is its constructor arguments and the backend object, if it has been created.
  \<open>lazy_call\<close> is a method that goes through the creating property. The locale \<open>lazy_adapter\<close> is
  the contract: what an adapter stands for is the backend object it has or would create, and
  forwarding a call is calling that object.
\<close>

section \<open>Lazily created objects\<close>

definition lazy_call :: "'s \<Rightarrow> ('s \<Rightarrow> 's \<times> 'a) \<Rightarrow> 's option \<Rightarrow> 's option \<times> 'a" where
  "lazy_call fresh f internal =
     (case f (case internal of Some s \<Rightarrow> s | None \<Rightarrow> fresh) of (s', v) \<Rightarrow> (Some s', v))"

locale lazy_adapter =
  fixes fresh :: "'c \<Rightarrow> 's" and conf :: "'a \<Rightarrow> 'c" and internal :: "'a \<Rightarrow> 's option"
    and put_internal :: "'s option \<Rightarrow> 'a \<Rightarrow> 'a"
  assumes internal_put: "internal (put_internal x a) = x"
    and conf_put: "conf (put_internal x a) = conf a"
begin

definition stands_for :: "'a \<Rightarrow> 's" where
  "stands_for a = (case internal a of Some s \<Rightarrow> s | None \<Rightarrow> fresh (conf a))"

definition forward :: "('s \<Rightarrow> 's \<times> 'v) \<Rightarrow> 'a \<Rightarrow> 'a \<times> 'v" where
  "forward f a = (case lazy_call (fresh (conf a)) f (internal a) of (x, v) \<Rightarrow> (put_internal x a, v))"

text \<open>Forwarding simulates the call on the object the adapter stands for.\<close>

lemma forward_sim:
  "stands_for (fst (forward f a)) = fst (f (stands_for a)) \<and> snd (forward f a) = snd (f (stands_for a))
   \<and> conf (fst (forward f a)) = conf a"
  by (simp add: forward_def lazy_call_def stands_for_def internal_put conf_put split: prod.split)

text \<open>After any forwarded call the object exists and stays the same one.\<close>

lemma forward_creates: "internal (fst (forward f a)) \<noteq> None"
  by (simp add: forward_def lazy_call_def internal_put split: prod.split)

fun forward_all :: "('s \<Rightarrow> 's \<times> 'v) list \<Rightarrow> 'a \<Rightarrow> 'a \<times> 'v list" where
  "forward_all [] a = (a, [])"
| "forward_all (f # fs) a = (case forward f a of (a', v) \<Rightarrow> case forward_all fs a' of (a'', vs) \<Rightarrow> (a'', v # vs))"

fun call_all :: "('s \<Rightarrow> 's \<times> 'v) list \<Rightarrow> 's \<Rightarrow> 's \<times> 'v list" where
  "call_all [] s = (s, [])"
| "call_all (f # fs) s = (case f s of (s', v) \<Rightarrow> case call_all fs s' of (s'', vs) \<Rightarrow> (s'', v # vs))"

lemma forward_all_sim:
  "stands_for (fst (forward_all fs a)) = fst (call_all fs (stands_for a))
   \<and> snd (forward_all fs a) = snd (call_all fs (stands_for a))"
proof (induction fs arbitrary: a)
  case (Cons f fs)
  from forward_sim [of f a] Cons [of "fst (forward f a)"] show ?case
    by (cases "forward f a"; cases "f (stands_for a)"; cases "forward_all fs (fst (forward f a))";
      cases "call_all fs (fst (f (stands_for a)))") simp
qed simp

end

section \<open>The four adapters\<close>

record event_adapter =
  internal_event :: "aevent option"

definition event_adapter_set :: "event_adapter \<Rightarrow> event_adapter" where
  "event_adapter_set a =
     a\<lparr>internal_event := fst (lazy_call aevent_new (\<lambda>ev. (event_set ev, ())) (internal_event a))\<rparr>"

definition event_adapter_is_set :: "event_adapter \<Rightarrow> bool" where
  "event_adapter_is_set a = (case internal_event a of None \<Rightarrow> False | Some ev \<Rightarrow> event_is_set ev)"

definition event_adapter_wait :: "task \<Rightarrow> event_adapter \<Rightarrow> event_adapter \<times> (event_pc, unit) outcome" where
  "event_adapter_wait t a =
     (case lazy_call aevent_new (event_wait_start t) (internal_event a) of
        (x, out) \<Rightarrow> (a\<lparr>internal_event := x\<rparr>, out))"

definition event_adapter_statistics :: "event_adapter \<Rightarrow> nat" where
  "event_adapter_statistics a = (case internal_event a of None \<Rightarrow> 0 | Some ev \<Rightarrow> event_statistics ev)"

record lock_adapter =
  la_fast :: bool
  internal_lock :: "lock option"

definition lock_adapter_acquire :: "task \<Rightarrow> bool \<Rightarrow> lock_adapter \<Rightarrow> lock_adapter \<times> (lock_pc, unit) outcome" where
  "lock_adapter_acquire t cancelled a =
     (case lazy_call (lock_new (la_fast a)) (lock_acquire_start t cancelled) (internal_lock a) of
        (x, out) \<Rightarrow> (a\<lparr>internal_lock := x\<rparr>, out))"

definition lock_adapter_aexit :: "task \<Rightarrow> lock_adapter \<Rightarrow> lock_adapter \<times> unit res" where
  "lock_adapter_aexit t a =
     (case internal_lock a of
        None \<Rightarrow> (a, Inr ())
      | Some l \<Rightarrow> (case lock_release t l of (l', r) \<Rightarrow> (a\<lparr>internal_lock := Some l'\<rparr>, r)))"

definition lock_adapter_acquire_nowait :: "task \<Rightarrow> lock_adapter \<Rightarrow> lock_adapter \<times> unit res" where
  "lock_adapter_acquire_nowait t a =
     (case lazy_call (lock_new (la_fast a)) (lock_acquire_nowait t) (internal_lock a) of
        (x, r) \<Rightarrow> (a\<lparr>internal_lock := x\<rparr>, r))"

definition lock_adapter_release :: "task \<Rightarrow> lock_adapter \<Rightarrow> lock_adapter \<times> unit res" where
  "lock_adapter_release t a =
     (case lazy_call (lock_new (la_fast a)) (lock_release t) (internal_lock a) of
        (x, r) \<Rightarrow> (a\<lparr>internal_lock := x\<rparr>, r))"

definition lock_adapter_locked :: "lock_adapter \<Rightarrow> lock_adapter \<times> bool" where
  "lock_adapter_locked a =
     (case lazy_call (lock_new (la_fast a)) (\<lambda>l. (l, lock_locked l)) (internal_lock a) of
        (x, v) \<Rightarrow> (a\<lparr>internal_lock := x\<rparr>, v))"

definition lock_adapter_stats :: "lock_adapter \<Rightarrow> lock_statistics" where
  "lock_adapter_stats a =
     (case internal_lock a of
        None \<Rightarrow> \<lparr>ls_locked = False, ls_owner = None, ls_tasks_waiting = 0\<rparr>
      | Some l \<Rightarrow> lock_stats l)"

text \<open>
  \<open>_semaphore\<close> creates the backend object with the initial value and \<open>max_value\<close> only, so it is
  never a \<open>fast_acquire\<close> one.
\<close>

record sem_adapter =
  sa_initial :: int
  sa_max :: "int option"
  sa_fast :: bool
  internal_sem :: "sem option"

definition sem_adapter_init :: "pynum \<Rightarrow> pynum option \<Rightarrow> bool \<Rightarrow> sem_adapter res" where
  "sem_adapter_init initial_value max_value fast =
     (case sem_init initial_value max_value fast of
        Inl e \<Rightarrow> Inl e
      | Inr s \<Rightarrow> Inr \<lparr>sa_initial = sem_value s, sa_max = sem_max s, sa_fast = fast, internal_sem = None\<rparr>)"

definition sem_adapter_create :: "int \<times> int option \<Rightarrow> sem" where
  "sem_adapter_create = (\<lambda>(i, m). \<lparr>sem_value = i, sem_max = m, sem_fast = False, sem_waiters = []\<rparr>)"

definition sem_conf :: "sem_adapter \<Rightarrow> int \<times> int option" where
  "sem_conf a = (sa_initial a, sa_max a)"

definition sem_adapter_call :: "(sem \<Rightarrow> sem \<times> 'v) \<Rightarrow> sem_adapter \<Rightarrow> sem_adapter \<times> 'v" where
  "sem_adapter_call f a =
     (case lazy_call (sem_adapter_create (sem_conf a)) f (internal_sem a) of
        (x, v) \<Rightarrow> (a\<lparr>internal_sem := x\<rparr>, v))"

definition sem_adapter_acquire :: "task \<Rightarrow> bool \<Rightarrow> sem_adapter \<Rightarrow> sem_adapter \<times> (sem_pc, unit) outcome" where
  "sem_adapter_acquire t cancelled = sem_adapter_call (sem_acquire_start t cancelled)"

definition sem_adapter_acquire_nowait :: "sem_adapter \<Rightarrow> sem_adapter \<times> unit res" where
  "sem_adapter_acquire_nowait = sem_adapter_call sem_acquire_nowait"

definition sem_adapter_release :: "sem_adapter \<Rightarrow> sem_adapter \<times> unit res" where
  "sem_adapter_release = sem_adapter_call sem_release"

definition sem_adapter_value :: "sem_adapter \<Rightarrow> int" where
  "sem_adapter_value a = (case internal_sem a of None \<Rightarrow> sa_initial a | Some s \<Rightarrow> sem_value s)"

definition sem_adapter_statistics :: "sem_adapter \<Rightarrow> nat" where
  "sem_adapter_statistics a = (case internal_sem a of None \<Rightarrow> 0 | Some s \<Rightarrow> sem_statistics s)"

record limiter_adapter =
  ca_total :: pynum
  internal_limiter :: "limiter option"

text \<open>
  The setter tests \<open>value is not math.inf\<close>, the identity of the object, where the backend's tests
  \<open>not math.isinf(value)\<close>: \<open>is_inf\<close> says of an infinite value whether it is the object \<open>math.inf\<close> (a
  \<open>float('inf')\<close> is another one).
\<close>

definition limiter_adapter_check :: "bool \<Rightarrow> pynum \<Rightarrow> unit res" where
  "limiter_adapter_check is_inf v =
     (if \<not> is_pyint v \<and> \<not> (v = PyFloat PosInf \<and> is_inf) then Inl (TypeError ''total_tokens must be an int or math.inf'')
      else if num_float v < Fin 1 then Inl (ValueError ''total_tokens must be >= 1'')
      else Inr ())"

definition limiter_adapter_set_total ::
  "bool \<Rightarrow> pynum \<Rightarrow> limiter_adapter \<Rightarrow> limiter_adapter \<times> unit res"
where
  "limiter_adapter_set_total is_inf v a =
     (case limiter_adapter_check is_inf v of
        Inl e \<Rightarrow> (a, Inl e)
      | Inr _ \<Rightarrow>
          (case internal_limiter a of
             None \<Rightarrow> (a\<lparr>ca_total := v\<rparr>, Inr ())
           | Some l \<Rightarrow> (case set_total_tokens v l of (l', r) \<Rightarrow> (a\<lparr>internal_limiter := Some l'\<rparr>, r))))"

definition limiter_adapter_init :: "bool \<Rightarrow> pynum \<Rightarrow> limiter_adapter res" where
  "limiter_adapter_init is_inf v =
     (case limiter_adapter_check is_inf v of
        Inl e \<Rightarrow> Inl e | Inr _ \<Rightarrow> Inr \<lparr>ca_total = v, internal_limiter = None\<rparr>)"

definition limiter_adapter_create :: "pynum \<Rightarrow> limiter" where
  "limiter_adapter_create v =
     \<lparr>lim_total = v, lim_borrowers = [], lim_queue = [], lim_set = (\<lambda>_. False), lim_next = 0\<rparr>"

definition limiter_adapter_call :: "(limiter \<Rightarrow> limiter \<times> 'v) \<Rightarrow> limiter_adapter \<Rightarrow> limiter_adapter \<times> 'v" where
  "limiter_adapter_call f a =
     (case lazy_call (limiter_adapter_create (ca_total a)) f (internal_limiter a) of
        (x, v) \<Rightarrow> (a\<lparr>internal_limiter := x\<rparr>, v))"

definition limiter_adapter_acquire :: "nat \<Rightarrow> bool \<Rightarrow> limiter_adapter \<Rightarrow> limiter_adapter \<times> (lim_pc, unit) outcome" where
  "limiter_adapter_acquire b cancelled = limiter_adapter_call (lim_acquire_start b cancelled)"

definition limiter_adapter_acquire_nowait :: "nat \<Rightarrow> limiter_adapter \<Rightarrow> limiter_adapter \<times> unit res" where
  "limiter_adapter_acquire_nowait b = limiter_adapter_call (lim_acquire_nowait b)"

definition limiter_adapter_release :: "nat \<Rightarrow> limiter_adapter \<Rightarrow> limiter_adapter \<times> unit res" where
  "limiter_adapter_release b = limiter_adapter_call (lim_release b)"

definition limiter_adapter_total :: "limiter_adapter \<Rightarrow> pynum" where
  "limiter_adapter_total a = (case internal_limiter a of None \<Rightarrow> ca_total a | Some l \<Rightarrow> lim_total l)"

definition limiter_adapter_borrowed :: "limiter_adapter \<Rightarrow> nat" where
  "limiter_adapter_borrowed a = (case internal_limiter a of None \<Rightarrow> 0 | Some l \<Rightarrow> borrowed_tokens l)"

definition limiter_adapter_available :: "limiter_adapter \<Rightarrow> pyfloat" where
  "limiter_adapter_available a =
     (case internal_limiter a of None \<Rightarrow> num_float (ca_total a) | Some l \<Rightarrow> available_tokens l)"

definition limiter_adapter_stats :: "limiter_adapter \<Rightarrow> limiter_statistics" where
  "limiter_adapter_stats a =
     (case internal_limiter a of
        None \<Rightarrow> \<lparr>stat_borrowed = 0, stat_total = limiter_adapter_total a, stat_borrowers = [], stat_waiting = 0\<rparr>
      | Some l \<Rightarrow> limiter_stats l)"

section \<open>The adapters meet the contract\<close>

interpretation event_ad: lazy_adapter "\<lambda>_. aevent_new" "\<lambda>_ :: event_adapter. ()" internal_event
  "\<lambda>x a. a\<lparr>internal_event := x\<rparr>"
  by unfold_locales simp_all

interpretation lock_ad: lazy_adapter lock_new la_fast internal_lock "\<lambda>x a. a\<lparr>internal_lock := x\<rparr>"
  by unfold_locales simp_all

interpretation sem_ad: lazy_adapter sem_adapter_create sem_conf internal_sem
  "\<lambda>x a. a\<lparr>internal_sem := x\<rparr>"
  by unfold_locales (simp_all add: sem_conf_def)

interpretation limiter_ad: lazy_adapter limiter_adapter_create ca_total internal_limiter
  "\<lambda>x a. a\<lparr>internal_limiter := x\<rparr>"
  by unfold_locales simp_all

lemmas adapter_forward =
  event_ad.forward_def lock_ad.forward_def sem_ad.forward_def limiter_ad.forward_def

lemma lock_adapter_forward:
  "lock_adapter_acquire t c a = lock_ad.forward (lock_acquire_start t c) a"
  "lock_adapter_acquire_nowait t a = lock_ad.forward (lock_acquire_nowait t) a"
  "lock_adapter_release t a = lock_ad.forward (lock_release t) a"
  "lock_adapter_locked a = lock_ad.forward (\<lambda>l. (l, lock_locked l)) a"
  by (simp_all add: lock_ad.forward_def lock_adapter_acquire_def lock_adapter_acquire_nowait_def
      lock_adapter_release_def lock_adapter_locked_def)

lemma sem_adapter_forward: "sem_adapter_call f a = sem_ad.forward f a"
  by (simp add: sem_ad.forward_def sem_adapter_call_def)

lemma limiter_adapter_forward: "limiter_adapter_call f a = limiter_ad.forward f a"
  by (simp add: limiter_ad.forward_def limiter_adapter_call_def)

lemma sem_adapter_props:
  "sem_adapter_value a = sem_value (sem_ad.stands_for a)"
  "sem_adapter_statistics a = sem_statistics (sem_ad.stands_for a)"
  unfolding sem_ad.stands_for_def
  by (simp_all add: sem_adapter_value_def sem_adapter_statistics_def sem_adapter_create_def
      sem_conf_def sem_statistics_def split: option.split)

lemma limiter_adapter_props:
  "limiter_adapter_total b = lim_total (limiter_ad.stands_for b)"
  "limiter_adapter_borrowed b = borrowed_tokens (limiter_ad.stands_for b)"
  "limiter_adapter_stats b = limiter_stats (limiter_ad.stands_for b)"
  unfolding limiter_ad.stands_for_def
  by (simp_all add: limiter_adapter_total_def limiter_adapter_create_def limiter_adapter_borrowed_def
      borrowed_tokens_def limiter_adapter_stats_def limiter_stats_def split: option.split)

section \<open>Properties\<close>

text \<open>
  A \<open>LockAdapter\<close> behaves as the lock it creates: every method gives what it gives on the
  backend lock the adapter has, or on a new one with the same \<open>fast_acquire\<close>, and afterwards the
  adapter stands for that lock's new state; \<open>statistics\<close> agrees too without creating it.
\<close>

theorem lock_adapter_refines:
  "lock_ad.stands_for (fst (lock_adapter_acquire t c a)) = fst (lock_acquire_start t c (lock_ad.stands_for a))
   \<and> snd (lock_adapter_acquire t c a) = snd (lock_acquire_start t c (lock_ad.stands_for a))
   \<and> lock_ad.stands_for (fst (lock_adapter_acquire_nowait t a)) = fst (lock_acquire_nowait t (lock_ad.stands_for a))
   \<and> snd (lock_adapter_acquire_nowait t a) = snd (lock_acquire_nowait t (lock_ad.stands_for a))
   \<and> lock_ad.stands_for (fst (lock_adapter_release t a)) = fst (lock_release t (lock_ad.stands_for a))
   \<and> snd (lock_adapter_release t a) = snd (lock_release t (lock_ad.stands_for a))
   \<and> snd (lock_adapter_locked a) = lock_locked (lock_ad.stands_for a)
   \<and> lock_adapter_stats a = lock_stats (lock_ad.stands_for a)"
  unfolding lock_adapter_forward
  by (simp add: lock_ad.forward_sim)
    (simp add: lock_adapter_stats_def lock_ad.stands_for_def lock_stats_def lock_new_def
      lock_locked_def split: option.split)

text \<open>
  A \<open>SemaphoreAdapter\<close> and a \<open>CapacityLimiterAdapter\<close> behave as the objects they create: any
  sequence of forwarded calls gives the results it gives on the backend object, and the
  properties that do not create it agree with it. The semaphore it creates is never a
  \<open>fast_acquire\<close> one, whatever the adapter was given.
\<close>

theorem sem_limiter_adapters_refine:
  "(sem_ad.stands_for (fst (sem_adapter_call f a)) = fst (f (sem_ad.stands_for a))
    \<and> snd (sem_adapter_call f a) = snd (f (sem_ad.stands_for a))
    \<and> sem_adapter_value a = sem_value (sem_ad.stands_for a)
    \<and> sem_adapter_statistics a = sem_statistics (sem_ad.stands_for a))
   \<and> (limiter_ad.stands_for (fst (limiter_adapter_call g b)) = fst (g (limiter_ad.stands_for b))
    \<and> snd (limiter_adapter_call g b) = snd (g (limiter_ad.stands_for b))
    \<and> limiter_adapter_total b = lim_total (limiter_ad.stands_for b)
    \<and> limiter_adapter_borrowed b = borrowed_tokens (limiter_ad.stands_for b)
    \<and> limiter_adapter_stats b = limiter_stats (limiter_ad.stands_for b))
   \<and> (sem_adapter_init (PyInt 1) None True
       = Inr \<lparr>sa_initial = 1, sa_max = None, sa_fast = True, internal_sem = None\<rparr>
    \<and> snd (sem_adapter_acquire t False \<lparr>sa_initial = 1, sa_max = None, sa_fast = True, internal_sem = None\<rparr>)
       = Suspended SemYield
    \<and> map_sum id (\<lambda>s. snd (sem_acquire_start t False s)) (sem_init (PyInt 1) None True) = Inr (Done ()))"
proof (intro conjI)
  show "sem_ad.stands_for (fst (sem_adapter_call f a)) = fst (f (sem_ad.stands_for a))"
    and "snd (sem_adapter_call f a) = snd (f (sem_ad.stands_for a))"
    unfolding sem_adapter_forward by (simp_all add: sem_ad.forward_sim)
  show "limiter_ad.stands_for (fst (limiter_adapter_call g b)) = fst (g (limiter_ad.stands_for b))"
    and "snd (limiter_adapter_call g b) = snd (g (limiter_ad.stands_for b))"
    unfolding limiter_adapter_forward by (simp_all add: limiter_ad.forward_sim)
qed (simp_all add: sem_adapter_props limiter_adapter_props, simp_all add: sem_adapter_init_def
    sem_init_def sem_adapter_acquire_def sem_adapter_call_def lazy_call_def sem_acquire_start_def
    sem_adapter_create_def sem_conf_def)

end
