(* ===== verification/CancelScopes.thy ===== *)
theory CancelScopes
  imports AsyncBase
begin

text \<open>
  Cancel scopes: class \<open>CancelScope\<close> of \<open>src/anyio/_backends/_asyncio.py\<close> with the functions that
  ask about cancellation there (\<open>checkpoint_if_cancelled\<close>, \<open>current_effective_deadline\<close>,
  \<open>check_cancelled\<close>, \<open>AsyncIOTaskInfo.has_pending_cancellation\<close>), and \<open>fail_after\<close> and
  \<open>move_on_after\<close> of \<open>src/anyio/_core/_tasks.py\<close>.

  \<open>world\<close> is what they act on: the heap of scopes, the asyncio tasks (the part of their state the
  code reads), the task states and the clock. A scope's number is its \<open>id\<close>. The sets \<open>_tasks\<close> and
  \<open>_child_scopes\<close> are lists without duplicates, in order of insertion; a Python set may be visited
  in another order.

  The loops that follow \<open>_parent_scope\<close> are \<open>partial_function (option)\<close>s: they would not end on a
  cyclic chain. The section on reachable worlds proves that no chain is cyclic, so that each of
  them returns a value, and that the fuel of \<open>deliver\<close> is enough.
\<close>

section \<open>State\<close>

text \<open>\<open>_fut_waiter\<close>: no future, or a future that is pending, has its result or was cancelled.\<close>

datatype waiter = NoWaiter | WaiterPending | WaiterResult | WaiterCancelled

definition waiter_done :: "waiter \<Rightarrow> bool" where
  "waiter_done x \<longleftrightarrow> x = WaiterResult \<or> x = WaiterCancelled"

record atask =
  t_must_cancel :: bool
  t_started :: bool
  t_waiter :: waiter
  t_cancelling :: nat
  t_message :: "string option"

record scope =
  sc_deadline :: pyfloat
  sc_shield :: bool
  sc_parent :: "nat option"
  sc_children :: "nat list"
  sc_called :: bool
  sc_caught :: bool
  sc_active :: bool
  sc_timeout :: "pyfloat option"
  sc_handle :: bool
  sc_tasks :: "task list"
  sc_host :: "task option"
  sc_calls :: nat
  sc_cancelling :: "nat option"

record tstate =
  ts_parent_id :: "nat option"
  ts_scope :: "nat option"

record world =
  scopes :: "nat \<Rightarrow> scope"
  next_scope :: nat
  atasks :: "task \<Rightarrow> atask"
  task_states :: "task \<Rightarrow> tstate option"
  now :: real
  current :: "task option"
  py311 :: bool

definition scope_new :: "pyfloat \<Rightarrow> bool \<Rightarrow> scope" where
  "scope_new d sh = \<lparr>sc_deadline = d, sc_shield = sh, sc_parent = None, sc_children = [],
     sc_called = False, sc_caught = False, sc_active = False, sc_timeout = None, sc_handle = False,
     sc_tasks = [], sc_host = None, sc_calls = 0, sc_cancelling = None\<rparr>"

definition create_scope :: "pyfloat \<Rightarrow> bool \<Rightarrow> world \<Rightarrow> world \<times> nat" where
  "create_scope d sh w =
     (w\<lparr>scopes := (scopes w)(next_scope w := scope_new d sh), next_scope := Suc (next_scope w)\<rparr>,
      next_scope w)"

definition upd :: "nat \<Rightarrow> (scope \<Rightarrow> scope) \<Rightarrow> world \<Rightarrow> world" where
  "upd s f w = w\<lparr>scopes := (scopes w)(s := f (scopes w s))\<rparr>"

definition set_add :: "'a \<Rightarrow> 'a list \<Rightarrow> 'a list" where
  "set_add x xs = (if x \<in> set xs then xs else xs @ [x])"

section \<open>Messages\<close>

fun hex_nat :: "nat \<Rightarrow> string" where
  "hex_nat n = (if n < 16 then [''0123456789abcdef'' ! n] else hex_nat (n div 16) @ [''0123456789abcdef'' ! (n mod 16)])"

declare hex_nat.simps [simp del]

abbreviation cancel_prefix :: string where
  "cancel_prefix \<equiv> ''Cancelled by cancel scope ''"

definition cancel_message :: "nat \<Rightarrow> string" where
  "cancel_message origin = cancel_prefix @ hex_nat origin"

definition is_anyio_cancellation :: "exn \<Rightarrow> bool" where
  "is_anyio_cancellation e =
     (case e of
        CancelledError (Some m) _ \<Rightarrow> take (length cancel_prefix) m = cancel_prefix
      | _ \<Rightarrow> False)"

lemma is_anyio_message [simp]: "is_anyio_cancellation (CancelledError (Some (cancel_message s)) c)"
  by (simp add: is_anyio_cancellation_def cancel_message_def)

section \<open>Effective cancellation\<close>

text \<open>The loop of \<open>_effectively_cancelled\<close>, from a scope upwards.\<close>

partial_function (option) eff_loop :: "(nat \<Rightarrow> scope) \<Rightarrow> nat option \<Rightarrow> bool option" where
  "eff_loop ss so =
     (case so of
        None \<Rightarrow> Some False
      | Some s \<Rightarrow>
          if sc_called (ss s) then Some True
          else if sc_shield (ss s) then Some False
          else eff_loop ss (sc_parent (ss s)))"

definition effectively_cancelled :: "(nat \<Rightarrow> scope) \<Rightarrow> nat \<Rightarrow> bool" where
  "effectively_cancelled ss s \<longleftrightarrow> eff_loop ss (Some s) = Some True"

definition parent_visible :: "(nat \<Rightarrow> scope) \<Rightarrow> nat \<Rightarrow> bool" where
  "parent_visible ss s \<longleftrightarrow>
     (case sc_parent (ss s) of
        None \<Rightarrow> False
      | Some p \<Rightarrow> \<not> sc_shield (ss s) \<and> effectively_cancelled ss p)"

section \<open>Delivering cancellation\<close>

text \<open>
  \<open>task.cancel(msg)\<close> of asyncio: a pending future is cancelled, otherwise the task will get the
  exception at its next step.
\<close>

definition task_cancel :: "string option \<Rightarrow> atask \<Rightarrow> atask" where
  "task_cancel msg t =
     (let t' = t\<lparr>t_cancelling := Suc (t_cancelling t), t_message := msg\<rparr> in
      if t_waiter t = WaiterPending then t'\<lparr>t_waiter := WaiterCancelled\<rparr> else t'\<lparr>t_must_cancel := True\<rparr>)"

definition eligible :: "world \<Rightarrow> nat \<Rightarrow> task \<Rightarrow> bool" where
  "eligible w self t \<longleftrightarrow>
     \<not> t_must_cancel (atasks w t) \<and> current w \<noteq> Some t
     \<and> (sc_host (scopes w self) = Some t \<or> t_started (atasks w t))
     \<and> \<not> waiter_done (t_waiter (atasks w t))"

definition deliver_task :: "nat \<Rightarrow> nat \<Rightarrow> task \<Rightarrow> world \<Rightarrow> world" where
  "deliver_task self origin t w =
     (if eligible w self t then
        let w' = w\<lparr>atasks := (atasks w)(t := task_cancel (Some (cancel_message origin)) (atasks w t))\<rparr> in
        if sc_host (scopes w origin) = Some t
        then upd origin (\<lambda>sc. sc\<lparr>sc_calls := Suc (sc_calls sc)\<rparr>) w'
        else w'
      else w)"

text \<open>
  \<open>_deliver_cancellation\<close>: the tasks of the scope, then its children; the number is fuel, one for
  every level of nested scopes.
\<close>

fun deliver :: "nat \<Rightarrow> nat \<Rightarrow> nat \<Rightarrow> world \<Rightarrow> (world \<times> bool) option"
  and deliver_children :: "nat \<Rightarrow> nat list \<Rightarrow> nat \<Rightarrow> world \<times> bool \<Rightarrow> (world \<times> bool) option" where
  "deliver 0 self origin w = None"
| "deliver (Suc n) self origin w =
     (let ts = sc_tasks (scopes w self);
          w1 = fold (deliver_task self origin) ts w
      in case deliver_children n (sc_children (scopes w1 self)) origin (w1, ts \<noteq> []) of
           None \<Rightarrow> None
         | Some (w2, retry) \<Rightarrow>
             Some (if origin = self then upd self (\<lambda>sc. sc\<lparr>sc_handle := retry\<rparr>) w2 else w2, retry))"
| "deliver_children n [] origin (w, retry) = Some (w, retry)"
| "deliver_children n (c # cs) origin (w, retry) =
     (if \<not> sc_shield (scopes w c) \<and> \<not> sc_called (scopes w c) then
        (case deliver n c origin w of
           None \<Rightarrow> None
         | Some (w', r) \<Rightarrow> deliver_children n cs origin (w', r \<or> retry))
      else deliver_children n cs origin (w, retry))"

definition deliver_cancellation :: "nat \<Rightarrow> world \<Rightarrow> world" where
  "deliver_cancellation s w =
     (case deliver (Suc (next_scope w)) s s w of Some (w', _) \<Rightarrow> w' | None \<Rightarrow> w)"

definition scope_cancel :: "nat \<Rightarrow> world \<Rightarrow> world" where
  "scope_cancel s w =
     (if sc_called (scopes w s) then w
      else
        let w' = upd s (\<lambda>sc. sc\<lparr>sc_timeout := None, sc_called := True\<rparr>) w in
        if sc_host (scopes w' s) \<noteq> None then deliver_cancellation s w' else w')"

definition scope_timeout :: "nat \<Rightarrow> world \<Rightarrow> world" where
  "scope_timeout s w =
     (let d = sc_deadline (scopes w s) in
      if d = PosInf then w
      else if d \<le> Fin (now w) then scope_cancel s w
      else upd s (\<lambda>sc. sc\<lparr>sc_timeout := Some d\<rparr>) w)"

text \<open>The loop of \<open>_restart_cancellation_in_parent\<close>: the scope it restarts, if any.\<close>

partial_function (option) restart_loop :: "(nat \<Rightarrow> scope) \<Rightarrow> nat option \<Rightarrow> nat option option" where
  "restart_loop ss so =
     (case so of
        None \<Rightarrow> Some None
      | Some s \<Rightarrow>
          if sc_called (ss s) then Some (if sc_handle (ss s) then None else Some s)
          else if sc_shield (ss s) then Some None
          else restart_loop ss (sc_parent (ss s)))"

definition restart_in_parent :: "nat \<Rightarrow> world \<Rightarrow> world" where
  "restart_in_parent s w =
     (case restart_loop (scopes w) (sc_parent (scopes w s)) of
        Some (Some p) \<Rightarrow> deliver_cancellation p w
      | _ \<Rightarrow> w)"

definition set_deadline :: "nat \<Rightarrow> pyfloat \<Rightarrow> world \<Rightarrow> world" where
  "set_deadline s v w =
     (let w' = upd s (\<lambda>sc. sc\<lparr>sc_deadline := v, sc_timeout := None\<rparr>) w in
      if sc_active (scopes w' s) \<and> \<not> sc_called (scopes w' s) then scope_timeout s w' else w')"

definition set_shield :: "nat \<Rightarrow> bool \<Rightarrow> world \<Rightarrow> world" where
  "set_shield s v w =
     (if sc_shield (scopes w s) \<noteq> v then
        let w' = upd s (\<lambda>sc. sc\<lparr>sc_shield := v\<rparr>) w in
        if \<not> v then restart_in_parent s w' else w'
      else w)"

section \<open>Entering and leaving\<close>

definition reused :: exn where
  "reused = RuntimeError ''Each CancelScope may only be used for a single 'with' block''"

text \<open>
  \<open>__enter__\<close> in task \<open>t\<close>. \<open>link_parent\<close> is the part that looks at the task state; removing the
  task from a parent scope that does not have it raises \<open>KeyError\<close>.
\<close>

definition link_parent :: "nat \<Rightarrow> task \<Rightarrow> world \<Rightarrow> world \<times> unit res" where
  "link_parent s t w =
     (case task_states w t of
        None \<Rightarrow> (w\<lparr>task_states := (task_states w)(t := Some \<lparr>ts_parent_id = None, ts_scope = Some s\<rparr>)\<rparr>, Inr ())
      | Some ts \<Rightarrow>
          let w1 = (upd s (\<lambda>sc. sc\<lparr>sc_parent := ts_scope ts\<rparr>) w)
                \<lparr>task_states := (task_states w)(t := Some (ts\<lparr>ts_scope := Some s\<rparr>))\<rparr>
          in case ts_scope ts of
               None \<Rightarrow> (w1, Inr ())
             | Some p \<Rightarrow>
                 let w2 = upd p (\<lambda>sc. sc\<lparr>sc_children := set_add s (sc_children sc)\<rparr>) w1 in
                 if t \<in> set (sc_tasks (scopes w2 p))
                 then (upd p (\<lambda>sc. sc\<lparr>sc_tasks := removeAll t (sc_tasks sc)\<rparr>) w2, Inr ())
                 else (w2, Inl KeyError))"

text \<open>The rest of \<open>__enter__\<close>: the timeout, the flag, and a cancellation that came before.\<close>

definition enter_start :: "nat \<Rightarrow> task \<Rightarrow> world \<Rightarrow> world" where
  "enter_start s t w =
     (let w1 = upd s (\<lambda>sc. sc\<lparr>sc_active := True\<rparr>) (scope_timeout s w);
          w2 = (if py311 w1
                then upd s (\<lambda>sc. sc\<lparr>sc_cancelling := Some (t_cancelling (atasks w1 t))\<rparr>) w1 else w1)
      in if sc_called (scopes w2 s) then deliver_cancellation s w2 else w2)"

definition scope_enter :: "nat \<Rightarrow> task \<Rightarrow> world \<Rightarrow> world \<times> unit res" where
  "scope_enter s t w =
     (if sc_active (scopes w s) then (w, Inl reused)
      else case link_parent s t (upd s (\<lambda>sc. sc\<lparr>sc_host := Some t, sc_tasks := set_add t (sc_tasks sc)\<rparr>) w) of
        (w', Inl e) \<Rightarrow> (w', Inl e)
      | (w', Inr _) \<Rightarrow> (enter_start s t w', Inr ()))"

text \<open>The loop that undoes the cancellations of a scope; \<open>uncancel\<close> never goes below 0.\<close>

fun undo_loop :: "nat \<Rightarrow> nat \<Rightarrow> nat \<Rightarrow> nat \<times> nat" where
  "undo_loop 0 cancelling base = (0, cancelling)"
| "undo_loop (Suc calls) cancelling base =
     (let c = cancelling - 1 in if c \<le> base then (calls, c) else undo_loop calls c base)"

text \<open>
  The loop of \<open>_uncancel\<close>: an AnyIO cancellation in the chain of contexts that are themselves
  \<open>CancelledError\<close>s.
\<close>

fun anyio_chain :: "exn \<Rightarrow> bool" where
  "anyio_chain (CancelledError m ctx) =
     (is_anyio_cancellation (CancelledError m ctx) \<or> (case ctx of None \<Rightarrow> False | Some e \<Rightarrow> anyio_chain e))"
| "anyio_chain e = False"

definition uncancel :: "nat \<Rightarrow> exn \<Rightarrow> world \<Rightarrow> world \<times> bool" where
  "uncancel s e w =
     (if sc_host (scopes w s) = None then (upd s (\<lambda>sc. sc\<lparr>sc_calls := 0\<rparr>) w, True)
      else if anyio_chain e then
        let caught = (effectively_cancelled (scopes w) s \<and> \<not> parent_visible (scopes w) s)
        in (upd s (\<lambda>sc. sc\<lparr>sc_caught := caught\<rparr>) w, caught)
      else (w, False))"

text \<open>The loop over the leaves: the world, \<open>swallow_exception\<close>, \<open>not_swallowed_exceptions\<close>.\<close>

fun swallow_loop :: "nat \<Rightarrow> exn list \<Rightarrow> world \<times> bool \<times> nat \<Rightarrow> world \<times> bool \<times> nat" where
  "swallow_loop s [] r = r"
| "swallow_loop s (e # es) (w, sw, n) =
     (if sc_called (scopes w s) \<and> is_cancelled e then
        (case uncancel s e w of (w', b) \<Rightarrow> swallow_loop s es (w', b, if b then n else Suc n))
      else swallow_loop s es (w, sw, Suc n))"

definition not_active :: exn where
  "not_active = RuntimeError ''This cancel scope is not active''"

definition wrong_task :: exn where
  "wrong_task = RuntimeError ''Attempted to exit cancel scope in a different task than it was entered in''"

definition not_current :: exn where
  "not_current = RuntimeError ''Attempted to exit a cancel scope that isn't the current tasks's current cancel scope''"

definition exit_undo :: "nat \<Rightarrow> task \<Rightarrow> world \<Rightarrow> world" where
  "exit_undo s t w =
     (case sc_cancelling (scopes w s) of
        None \<Rightarrow> w
      | Some base \<Rightarrow>
          (case undo_loop (sc_calls (scopes w s)) (t_cancelling (atasks w t)) base of
             (calls, c) \<Rightarrow>
               (upd s (\<lambda>sc. sc\<lparr>sc_calls := calls\<rparr>) w)
                 \<lparr>atasks := (atasks w)(t := (atasks w t)\<lparr>t_cancelling := c\<rparr>)\<rparr>))"

text \<open>
  The body of the \<open>try\<close> in \<open>__exit__\<close>, in task \<open>t\<close> whose state is \<open>ts\<close>: \<open>exit_unlink\<close> takes the
  scope out of the tree (removing what is not in a set raises \<open>KeyError\<close>), \<open>exit_finish\<close> decides
  about the exception and restarts the cancellation in a parent.
\<close>

definition exit_unlink :: "nat \<Rightarrow> task \<Rightarrow> tstate \<Rightarrow> world \<Rightarrow> world \<times> unit res" where
  "exit_unlink s t ts w =
     (let w1 = upd s (\<lambda>sc. sc\<lparr>sc_active := False, sc_timeout := None\<rparr>) w;
          parent = sc_parent (scopes w s)
      in if t \<notin> set (sc_tasks (scopes w1 s)) then (w1, Inl KeyError)
         else
           let w2 = upd s (\<lambda>sc. sc\<lparr>sc_tasks := removeAll t (sc_tasks sc)\<rparr>) w1 in
           if (case parent of Some p \<Rightarrow> s \<notin> set (sc_children (scopes w2 p)) | None \<Rightarrow> False)
           then (w2, Inl KeyError)
           else
             let w3 = (case parent of
                         None \<Rightarrow> w2
                       | Some p \<Rightarrow> upd p (\<lambda>sc. sc\<lparr>sc_children := removeAll s (sc_children sc),
                           sc_tasks := set_add t (sc_tasks sc)\<rparr>) w2)
             in (w3\<lparr>task_states := (task_states w3)(t := Some (ts\<lparr>ts_scope := parent\<rparr>))\<rparr>, Inr ()))"

definition exit_finish :: "nat \<Rightarrow> task \<Rightarrow> exn option \<Rightarrow> world \<Rightarrow> world \<times> bool" where
  "exit_finish s t exc w =
     (case swallow_loop s (case exc of None \<Rightarrow> [] | Some e \<Rightarrow> iterate_exceptions e)
             (exit_undo s t w, False, 0) of
        (w', sw, n) \<Rightarrow> (restart_in_parent s w', sw \<and> n = 0))"

definition exit_body :: "nat \<Rightarrow> task \<Rightarrow> tstate \<Rightarrow> exn option \<Rightarrow> world \<Rightarrow> world \<times> bool res" where
  "exit_body s t ts exc w =
     (case exit_unlink s t ts w of
        (w', Inl e) \<Rightarrow> (w', Inl e)
      | (w', Inr _) \<Rightarrow> (case exit_finish s t exc w' of (w'', b) \<Rightarrow> (w'', Inr b)))"

definition scope_exit :: "nat \<Rightarrow> exn option \<Rightarrow> world \<Rightarrow> world \<times> bool res" where
  "scope_exit s exc w =
     (if \<not> sc_active (scopes w s) then (w, Inl not_active)
      else if current w \<noteq> sc_host (scopes w s) then (w, Inl wrong_task)
      else case sc_host (scopes w s) of
        None \<Rightarrow> (w, Inl AssertionError)
      | Some t \<Rightarrow>
          (case task_states w t of
             None \<Rightarrow> (w, Inl not_current)
           | Some ts \<Rightarrow>
               if ts_scope ts \<noteq> Some s then (w, Inl not_current)
               else case exit_body s t ts exc w of
                 (w', r) \<Rightarrow> (upd s (\<lambda>sc. sc\<lparr>sc_host := None\<rparr>) w', r)))"

section \<open>Asking about cancellation\<close>

text \<open>The loop of \<open>checkpoint_if_cancelled\<close>: whether it sleeps (and then never returns).\<close>

partial_function (option) checkpoint_loop :: "(nat \<Rightarrow> scope) \<Rightarrow> nat option \<Rightarrow> bool option" where
  "checkpoint_loop ss so =
     (case so of
        None \<Rightarrow> Some False
      | Some s \<Rightarrow>
          if sc_called (ss s) then Some True
          else if sc_shield (ss s) then Some False
          else checkpoint_loop ss (sc_parent (ss s)))"

definition checkpoint_if_cancelled :: "world \<Rightarrow> bool option" where
  "checkpoint_if_cancelled w =
     (case current w of
        None \<Rightarrow> Some False
      | Some t \<Rightarrow> (case task_states w t of None \<Rightarrow> Some False | Some ts \<Rightarrow> checkpoint_loop (scopes w) (ts_scope ts)))"

partial_function (option) deadline_loop :: "(nat \<Rightarrow> scope) \<Rightarrow> nat option \<Rightarrow> pyfloat \<Rightarrow> pyfloat option" where
  "deadline_loop ss so d =
     (case so of
        None \<Rightarrow> Some d
      | Some s \<Rightarrow>
          if sc_called (ss s) then Some NegInf
          else if sc_shield (ss s) then Some (min d (sc_deadline (ss s)))
          else deadline_loop ss (sc_parent (ss s)) (min d (sc_deadline (ss s))))"

definition current_effective_deadline :: "world \<Rightarrow> pyfloat option" where
  "current_effective_deadline w =
     (case current w of
        None \<Rightarrow> Some PosInf
      | Some t \<Rightarrow> (case task_states w t of None \<Rightarrow> Some PosInf | Some ts \<Rightarrow> deadline_loop (scopes w) (ts_scope ts) PosInf))"

text \<open>\<open>check_cancelled\<close> in a worker thread, for the scope it was started in.\<close>

partial_function (option) check_cancelled :: "(nat \<Rightarrow> scope) \<Rightarrow> nat option \<Rightarrow> unit res option" where
  "check_cancelled ss so =
     (case so of
        None \<Rightarrow> Some (Inr ())
      | Some s \<Rightarrow>
          if sc_called (ss s) then Some (Inl (CancelledError (Some (cancel_message s)) None))
          else if sc_shield (ss s) then Some (Inr ())
          else check_cancelled ss (sc_parent (ss s)))"

definition has_pending_cancellation :: "world \<Rightarrow> task \<Rightarrow> bool" where
  "has_pending_cancellation w t \<longleftrightarrow>
     (if py311 w then t_cancelling (atasks w t) > 0 else t_waiter (atasks w t) = WaiterCancelled)
     \<or> (case task_states w t of
          None \<Rightarrow> False
        | Some ts \<Rightarrow> (case ts_scope ts of None \<Rightarrow> False | Some s \<Rightarrow> effectively_cancelled (scopes w) s))"

section \<open>Timeouts\<close>

definition delay_deadline :: "pyfloat option \<Rightarrow> world \<Rightarrow> pyfloat" where
  "delay_deadline delay w = (case delay of Some d \<Rightarrow> plus_float (Fin (now w)) d | None \<Rightarrow> PosInf)"

definition move_on_after :: "pyfloat option \<Rightarrow> bool \<Rightarrow> world \<Rightarrow> world \<times> nat" where
  "move_on_after delay sh w = create_scope (delay_deadline delay w) sh w"

definition fail_after_enter :: "pyfloat option \<Rightarrow> bool \<Rightarrow> task \<Rightarrow> world \<Rightarrow> world \<times> nat res" where
  "fail_after_enter delay sh t w =
     (case create_scope (delay_deadline delay w) sh w of
        (w1, s) \<Rightarrow> (case scope_enter s t w1 of (w2, Inl e) \<Rightarrow> (w2, Inl e) | (w2, Inr _) \<Rightarrow> (w2, Inr s)))"

text \<open>
  The end of the \<open>with fail_after(...)\<close> block: the scope is left with the block's exception; an
  exception it does not swallow propagates, otherwise the deadline is checked.
\<close>

definition fail_after_exit :: "nat \<Rightarrow> exn option \<Rightarrow> world \<Rightarrow> world \<times> unit res" where
  "fail_after_exit s exc w =
     (case scope_exit s exc w of
        (w', Inl e) \<Rightarrow> (w', Inl e)
      | (w', Inr sw) \<Rightarrow>
          (w', case (exc, sw) of
                 (Some e, False) \<Rightarrow> Inl e
               | _ \<Rightarrow> if sc_caught (scopes w' s) \<and> sc_deadline (scopes w' s) \<le> Fin (now w')
                      then Inl TimeoutError else Inr ()))"

section \<open>Chains of parents\<close>

text \<open>\<open>ends ss so\<close>: following \<open>_parent_scope\<close> from \<open>so\<close> comes to an end.\<close>

inductive ends :: "(nat \<Rightarrow> scope) \<Rightarrow> nat option \<Rightarrow> bool" for ss where
  ends_None: "ends ss None"
| ends_Some: "ends ss (sc_parent (ss s)) \<Longrightarrow> ends ss (Some s)"

inductive_simps ends_simps [simp]: "ends ss None" "ends ss (Some s)"

text \<open>The scopes whose cancellation or deadline is effective in scope \<open>s\<close>.\<close>

inductive visible :: "(nat \<Rightarrow> scope) \<Rightarrow> nat option \<Rightarrow> nat \<Rightarrow> bool" for ss where
  here: "visible ss (Some s) s"
| up: "\<not> sc_shield (ss s) \<Longrightarrow> visible ss (sc_parent (ss s)) a \<Longrightarrow> visible ss (Some s) a"

inductive_cases visibleE: "visible ss (Some s) a"
inductive_simps visible_None [simp]: "visible ss None a"

lemma visible_Some: "visible ss (Some s) a \<longleftrightarrow> a = s \<or> \<not> sc_shield (ss s) \<and> visible ss (sc_parent (ss s)) a"
  by (auto elim: visibleE intro: visible.intros)

lemma eff_loop_spec:
  "ends ss so \<Longrightarrow> eff_loop ss so = Some (\<exists>a. visible ss so a \<and> sc_called (ss a))"
proof (induction rule: ends.induct)
  case ends_None
  show ?case by (subst eff_loop.simps) simp
next
  case (ends_Some s)
  then show ?case
    by (subst eff_loop.simps) (auto simp: visible_Some)
qed

lemma effectively_cancelled_iff:
  "ends ss (Some s) \<Longrightarrow> effectively_cancelled ss s \<longleftrightarrow> (\<exists>a. visible ss (Some s) a \<and> sc_called (ss a))"
  by (simp add: effectively_cancelled_def eff_loop_spec del: ends_simps)

lemma checkpoint_loop_eq: "ends ss so \<Longrightarrow> checkpoint_loop ss so = eff_loop ss so"
proof (induction rule: ends.induct)
  case ends_None
  show ?case by (simp add: checkpoint_loop.simps eff_loop.simps)
next
  case (ends_Some s)
  then show ?case by (simp add: checkpoint_loop.simps [of ss "Some s"] eff_loop.simps [of ss "Some s"])
qed

lemma check_cancelled_spec:
  "ends ss so \<Longrightarrow> \<exists>r. check_cancelled ss so = Some r \<and> (r = Inr () \<longleftrightarrow> eff_loop ss so = Some False)
    \<and> (r = Inr () \<or> (\<exists>a. visible ss so a \<and> sc_called (ss a)
         \<and> r = Inl (CancelledError (Some (cancel_message a)) None)))"
proof (induction rule: ends.induct)
  case ends_None
  show ?case by (simp add: check_cancelled.simps eff_loop.simps)
next
  case (ends_Some s)
  then show ?case
    by (auto simp: check_cancelled.simps [of ss "Some s"] eff_loop.simps [of ss "Some s"] visible_Some)
qed

lemma deadline_loop_spec:
  "ends ss so \<Longrightarrow> \<exists>v. deadline_loop ss so d = Some v \<and>
    (if eff_loop ss so = Some True then v = NegInf
     else v \<le> d \<and> (\<forall>a. visible ss so a \<longrightarrow> v \<le> sc_deadline (ss a))
       \<and> (v = d \<or> (\<exists>a. visible ss so a \<and> v = sc_deadline (ss a))))"
proof (induction arbitrary: d rule: ends.induct)
  case ends_None
  show ?case by (simp add: deadline_loop.simps eff_loop.simps)
next
  case (ends_Some s)
  show ?case
  proof (cases "sc_called (ss s) \<or> sc_shield (ss s)")
    case True
    then show ?thesis
      by (auto simp: deadline_loop.simps [of ss "Some s"] eff_loop.simps [of ss "Some s"] visible_Some min_def)
  next
    case False
    from ends_Some.IH [of "min d (sc_deadline (ss s))"] False show ?thesis
      by (fastforce simp: deadline_loop.simps [of ss "Some s"] eff_loop.simps [of ss "Some s"] visible_Some
          min_def split: if_splits)
  qed
qed

lemma restart_loop_spec:
  "ends ss so \<Longrightarrow> \<exists>r. restart_loop ss so = Some r"
proof (induction rule: ends.induct)
  case ends_None
  show ?case by (simp add: restart_loop.simps)
next
  case (ends_Some s)
  then show ?case by (simp add: restart_loop.simps [of ss "Some s"])
qed

section \<open>What a delivery does\<close>

text \<open>Two worlds with the same tree of scopes and the same tasks in it.\<close>

definition same_tree :: "world \<Rightarrow> world \<Rightarrow> bool" where
  "same_tree w w' \<longleftrightarrow>
     (\<forall>s. sc_parent (scopes w' s) = sc_parent (scopes w s)
        \<and> sc_children (scopes w' s) = sc_children (scopes w s)
        \<and> sc_shield (scopes w' s) = sc_shield (scopes w s)
        \<and> sc_called (scopes w' s) = sc_called (scopes w s)
        \<and> sc_tasks (scopes w' s) = sc_tasks (scopes w s)
        \<and> sc_host (scopes w' s) = sc_host (scopes w s)
        \<and> sc_active (scopes w' s) = sc_active (scopes w s)
        \<and> sc_deadline (scopes w' s) = sc_deadline (scopes w s)
        \<and> sc_caught (scopes w' s) = sc_caught (scopes w s))
   \<and> next_scope w' = next_scope w \<and> task_states w' = task_states w \<and> current w' = current w
   \<and> now w' = now w \<and> py311 w' = py311 w"

lemma same_tree_refl [simp]: "same_tree w w"
  by (simp add: same_tree_def)

lemma same_tree_trans: "same_tree a b \<Longrightarrow> same_tree b c \<Longrightarrow> same_tree a c"
  by (simp add: same_tree_def)

lemma same_tree_deliver_task: "same_tree w (deliver_task self origin t w)"
  by (simp add: same_tree_def deliver_task_def upd_def Let_def)

text \<open>
  A cancellation is on its way to a task that must raise it at its next step or whose future was
  cancelled; a task whose future has a result already will be resumed with that result.
\<close>

definition pending :: "world \<Rightarrow> task \<Rightarrow> bool" where
  "pending w t \<longleftrightarrow> t_must_cancel (atasks w t) \<or> t_waiter (atasks w t) = WaiterCancelled"

definition got_result :: "world \<Rightarrow> task \<Rightarrow> bool" where
  "got_result w t \<longleftrightarrow> t_waiter (atasks w t) = WaiterResult"

text \<open>What a delivery may do to tasks outside a set: nothing; to any: only add a cancellation.\<close>

definition only_cancels :: "task set \<Rightarrow> world \<Rightarrow> world \<Rightarrow> bool" where
  "only_cancels T w w' \<longleftrightarrow> same_tree w w'
     \<and> (\<forall>t. t \<notin> T \<longrightarrow> atasks w' t = atasks w t)
     \<and> (\<forall>t. t_started (atasks w' t) = t_started (atasks w t) \<and> (pending w t \<longrightarrow> pending w' t))
     \<and> (\<forall>t. (got_result w' t \<longleftrightarrow> got_result w t) \<and> (got_result w t \<longrightarrow> atasks w' t = atasks w t))
     \<and> (\<forall>t. t_cancelling (atasks w t) \<le> t_cancelling (atasks w' t))"

lemma only_cancels_refl: "only_cancels T w w"
  by (simp add: only_cancels_def)

lemma only_cancels_trans: "only_cancels T a b \<Longrightarrow> only_cancels U b c \<Longrightarrow> only_cancels (T \<union> U) a c"
  unfolding only_cancels_def using same_tree_trans by (auto intro: order_trans)

lemma only_cancels_mono: "only_cancels T a b \<Longrightarrow> T \<subseteq> U \<Longrightarrow> only_cancels U a b"
  by (auto simp: only_cancels_def)

lemma pending_cancel: "pending (w\<lparr>atasks := (atasks w)(t := task_cancel m (atasks w t))\<rparr>) t"
  by (auto simp: pending_def task_cancel_def Let_def)

lemma deliver_task_effect:
  "only_cancels {t} w (deliver_task self origin t w)
   \<and> (t_started (atasks w t) \<and> current w \<noteq> Some t \<and> \<not> got_result w t \<longrightarrow> pending (deliver_task self origin t w) t)"
proof (cases "eligible w self t")
  case False
  then show ?thesis
    by (auto simp: deliver_task_def only_cancels_refl eligible_def pending_def got_result_def waiter_done_def)
next
  case True
  let ?w = "w\<lparr>atasks := (atasks w)(t := task_cancel (Some (cancel_message origin)) (atasks w t))\<rparr>"
  have at: "atasks (deliver_task self origin t w) = atasks ?w"
    using True by (simp add: deliver_task_def upd_def Let_def)
  have p: "pending (deliver_task self origin t w) u \<longleftrightarrow> pending ?w u" for u
    by (simp add: pending_def at)
  have "pending w u \<longrightarrow> pending ?w u" for u
    using pending_cancel [of w t "Some (cancel_message origin)"] by (cases "u = t") (simp_all add: pending_def)
  moreover have "\<not> got_result w t" "got_result ?w u \<longleftrightarrow> got_result w u" for u
    using True by (auto simp: got_result_def eligible_def waiter_done_def task_cancel_def Let_def)
  ultimately show ?thesis
    using same_tree_deliver_task [of w self origin t] pending_cancel [of w t "Some (cancel_message origin)"]
    by (auto simp: only_cancels_def p at task_cancel_def Let_def got_result_def)
qed

lemma deliver_tasks_effect:
  "only_cancels (set ts) w (fold (deliver_task self origin) ts w)
   \<and> (\<forall>t \<in> set ts. t_started (atasks w t) \<and> current w \<noteq> Some t \<and> \<not> got_result w t
        \<longrightarrow> pending (fold (deliver_task self origin) ts w) t)"
proof (induction ts arbitrary: w)
  case Nil
  then show ?case by (simp add: only_cancels_refl)
next
  case (Cons t ts)
  let ?w = "deliver_task self origin t w" and ?w' = "fold (deliver_task self origin) ts (deliver_task self origin t w)"
  note e = deliver_task_effect [of t w self origin] and ih = Cons.IH [of ?w]
  have "only_cancels ({t} \<union> set ts) w ?w'" using only_cancels_trans e ih by blast
  moreover have "\<forall>u. t_started (atasks ?w u) = t_started (atasks w u)" "current ?w = current w"
    "\<forall>u. pending ?w u \<longrightarrow> pending ?w' u" "\<forall>u. got_result ?w u \<longleftrightarrow> got_result w u"
    using e ih by (auto simp: only_cancels_def same_tree_def)
  ultimately show ?case using e ih by auto
qed

text \<open>The scopes a delivery from \<open>s\<close> reaches.\<close>

inductive served :: "(nat \<Rightarrow> scope) \<Rightarrow> nat \<Rightarrow> nat \<Rightarrow> bool" for ss where
  self: "served ss s s"
| down: "c \<in> set (sc_children (ss s)) \<Longrightarrow> \<not> sc_shield (ss c) \<Longrightarrow> \<not> sc_called (ss c) \<Longrightarrow> served ss c a
    \<Longrightarrow> served ss s a"

lemma served_iff:
  "served ss s a \<longleftrightarrow> a = s \<or> (\<exists>c \<in> set (sc_children (ss s)). \<not> sc_shield (ss c) \<and> \<not> sc_called (ss c) \<and> served ss c a)"
  by (subst served.simps) blast

lemma same_tree_sym: "same_tree w w' \<Longrightarrow> same_tree w' w"
  by (simp add: same_tree_def)

lemma served_mono:
  "served (scopes w) s a \<Longrightarrow> same_tree w w' \<Longrightarrow> served (scopes w') s a"
proof (induction rule: served.induct)
  case (self s)
  show ?case by (rule served.self)
next
  case (down c s a)
  show ?case by (rule served.down [of c]) (use down in \<open>simp_all add: same_tree_def\<close>)
qed

lemma served_same_tree: "same_tree w w' \<Longrightarrow> served (scopes w') s a = served (scopes w) s a"
  using served_mono [of w] served_mono [of w'] same_tree_sym by blast

definition served_tasks :: "world \<Rightarrow> nat \<Rightarrow> task set" where
  "served_tasks w s = (\<Union>a \<in> {a. served (scopes w) s a}. set (sc_tasks (scopes w a)))"

lemma served_tasks_same: "same_tree w w' \<Longrightarrow> served_tasks w' s = served_tasks w s"
  using served_same_tree [of w w'] by (simp add: served_tasks_def same_tree_def)

definition open_child :: "world \<Rightarrow> nat \<Rightarrow> bool" where
  "open_child w c \<longleftrightarrow> \<not> sc_shield (scopes w c) \<and> \<not> sc_called (scopes w c)"

lemma served_tasks_unfold:
  "served_tasks w s = set (sc_tasks (scopes w s))
     \<union> (\<Union>c \<in> {c \<in> set (sc_children (scopes w s)). open_child w c}. served_tasks w c)"
proof -
  have "{a. served (scopes w) s a} = insert s (\<Union>c \<in> {c \<in> set (sc_children (scopes w s)). open_child w c}. {a. served (scopes w) c a})"
    by (subst served_iff) (auto simp: open_child_def)
  then show ?thesis by (simp add: served_tasks_def)
qed

text \<open>
  Every started task reached, other than the running one and those that have got a result, has a
  cancellation on its way.
\<close>

definition delivers :: "task set \<Rightarrow> world \<Rightarrow> world \<times> bool \<Rightarrow> bool \<Rightarrow> bool" where
  "delivers T w r acc \<longleftrightarrow> only_cancels T w (fst r)
     \<and> (\<forall>t \<in> T. t_started (atasks w t) \<and> current w \<noteq> Some t \<and> \<not> got_result w t \<longrightarrow> pending (fst r) t)
     \<and> (snd r \<longleftrightarrow> acc \<or> T \<noteq> {})"

lemma delivers_weaken: "delivers T w r acc \<Longrightarrow> only_cancels T w (fst r)"
  by (simp add: delivers_def)

lemma delivers_trans:
  assumes "delivers T w (w1, r1) acc" "delivers U w1 (w2, r2) r1"
  shows "delivers (T \<union> U) w (w2, r2) acc"
  unfolding delivers_def
proof (intro conjI ballI impI)
  from assms show "only_cancels (T \<union> U) w (fst (w2, r2))"
    using only_cancels_trans [of T w w1 U w2] by (simp add: delivers_def)
  show "snd (w2, r2) \<longleftrightarrow> acc \<or> T \<union> U \<noteq> {}" using assms by (auto simp: delivers_def)
next
  fix t
  assume t: "t \<in> T \<union> U" and st: "t_started (atasks w t) \<and> current w \<noteq> Some t \<and> \<not> got_result w t"
  have "pending w1 t \<longrightarrow> pending w2 t" "got_result w1 t \<longleftrightarrow> got_result w t" "t_started (atasks w1 t) = t_started (atasks w t)" "current w1 = current w"
    using assms by (simp_all add: delivers_def only_cancels_def same_tree_def)
  then show "pending (fst (w2, r2)) t"
    using assms t st by (auto simp: delivers_def)
qed

lemma delivers_nil: "delivers {} w (w, acc) acc"
  by (simp add: delivers_def only_cancels_refl)

lemma delivers_handle:
  "delivers T w (w', r) acc \<Longrightarrow> delivers T w (upd s (\<lambda>sc. sc\<lparr>sc_handle := h\<rparr>) w', r) acc"
  by (auto simp: delivers_def only_cancels_def same_tree_def upd_def pending_def got_result_def)

lemma deliver_effect:
  "deliver n self origin w = Some r \<Longrightarrow> delivers (served_tasks w self) w r False"
  "deliver_children n cs origin wr = Some r \<Longrightarrow>
     delivers (\<Union>c \<in> {c \<in> set cs. open_child (fst wr) c}. served_tasks (fst wr) c) (fst wr) r (snd wr)"
proof (induction n self origin w and n cs origin wr arbitrary: r and r rule: deliver_deliver_children.induct)
  case (1 self origin w)
  then show ?case by simp
next
  case (2 n self origin w)
  define w1 where "w1 = fold (deliver_task self origin) (sc_tasks (scopes w self)) w"
  note t = deliver_tasks_effect [of "sc_tasks (scopes w self)" w self origin, folded w1_def]
  have st: "same_tree w w1" using t by (simp add: only_cancels_def)
  have ch: "sc_children (scopes w1 self) = sc_children (scopes w self)" using st by (simp add: same_tree_def)
  from "2.prems" obtain w2 b where c: "deliver_children n (sc_children (scopes w self)) origin
      (w1, sc_tasks (scopes w self) \<noteq> []) = Some (w2, b)"
    and r: "r = (if origin = self then upd self (\<lambda>sc. sc\<lparr>sc_handle := b\<rparr>) w2 else w2, b)"
    by (auto simp: Let_def ch simp flip: w1_def split: option.splits)
  have d1: "delivers (set (sc_tasks (scopes w self))) w (w1, sc_tasks (scopes w self) \<noteq> []) False"
    using t by (auto simp: delivers_def)
  have "delivers (\<Union>c \<in> {c \<in> set (sc_children (scopes w self)). open_child w1 c}. served_tasks w1 c) w1 (w2, b)
      (sc_tasks (scopes w self) \<noteq> [])"
    using "2.IH" [OF refl w1_def, of "(w2, b)"] c by (simp add: ch)
  moreover have "open_child w1 = open_child w" "served_tasks w1 = served_tasks w"
    using st served_tasks_same [OF st] by (auto simp: open_child_def same_tree_def fun_eq_iff)
  ultimately have "delivers (served_tasks w self) w (w2, b) False"
    using delivers_trans [OF d1] served_tasks_unfold [of w self] by simp
  then show ?case using delivers_handle by (simp add: r)
next
  case (3 n origin w retry)
  then show ?case using delivers_nil [of w retry] by auto
next
  case (4 n c cs origin w retry)
  show ?case
  proof (cases "open_child w c")
    case False
    then have "{d \<in> set (c # cs). open_child w d} = {d \<in> set cs. open_child w d}" by auto
    moreover have "deliver_children n cs origin (w, retry) = Some r"
      using "4.prems" False by (auto simp: open_child_def split: if_splits)
    ultimately show ?thesis using "4.IH"(3) [of r] False by (cases r) (simp add: open_child_def)
  next
    case True
    with "4.prems" obtain w' b where d: "deliver n c origin w = Some (w', b)"
      and r: "deliver_children n cs origin (w', b \<or> retry) = Some r"
      by (auto simp: open_child_def split: option.splits)
    have d1: "delivers (served_tasks w c) w (w', b \<or> retry) retry"
      using "4.IH"(1) [OF _ d] True by (auto simp: delivers_def open_child_def)
    have st: "same_tree w w'" using d1 by (simp add: delivers_def only_cancels_def)
    have same: "open_child w' = open_child w" "served_tasks w' = served_tasks w"
      using st served_tasks_same [OF st] by (auto simp: open_child_def same_tree_def fun_eq_iff)
    have "delivers (\<Union>d \<in> {d \<in> set cs. open_child w d}. served_tasks w d) w' r (b \<or> retry)"
      using "4.IH"(2) [OF _ d refl] True r by (simp add: open_child_def same)
    with d1 have "delivers (served_tasks w c \<union> (\<Union>d \<in> {d \<in> set cs. open_child w d}. served_tasks w d)) w r retry"
      using delivers_trans [OF d1] by (cases r) simp
    moreover have "{d \<in> set (c # cs). open_child w d} = insert c {d \<in> set cs. open_child w d}" using True by auto
    ultimately show ?thesis by simp
  qed
qed

section \<open>Reachable worlds\<close>

text \<open>
  \<open>es\<close> lists the scopes that were ever entered, in the order they were. A parent was entered
  before its child, so no chain of parents is cyclic.
\<close>

definition pos :: "nat list \<Rightarrow> nat \<Rightarrow> nat" where
  "pos es s = length (takeWhile (\<lambda>x. x \<noteq> s) es)"

lemma pos_append: "s \<in> set es \<Longrightarrow> pos (es @ xs) s = pos es s"
  by (simp add: pos_def takeWhile_append1)

lemma pos_last: "s \<notin> set es \<Longrightarrow> pos (es @ [s]) s = length es"
  by (induction es) (auto simp: pos_def)

lemma pos_less: "s \<in> set es \<Longrightarrow> pos es s < length es"
  by (induction es) (auto simp: pos_def)

definition tree_ok :: "nat list \<Rightarrow> world \<Rightarrow> bool" where
  "tree_ok es w \<longleftrightarrow>
     distinct es \<and> (\<forall>s \<in> set es. s < next_scope w)
   \<and> (\<forall>s p. sc_parent (scopes w s) = Some p \<longrightarrow> s \<in> set es \<and> p \<in> set es \<and> pos es p < pos es s)
   \<and> (\<forall>s c. c \<in> set (sc_children (scopes w s)) \<longrightarrow> sc_parent (scopes w c) = Some s)
   \<and> (\<forall>t ts s. task_states w t = Some ts \<and> ts_scope ts = Some s \<longrightarrow> s \<in> set es)"

definition same_links :: "world \<Rightarrow> world \<Rightarrow> bool" where
  "same_links w w' \<longleftrightarrow>
     (\<forall>s. sc_parent (scopes w' s) = sc_parent (scopes w s) \<and> sc_children (scopes w' s) = sc_children (scopes w s))
   \<and> next_scope w' = next_scope w \<and> task_states w' = task_states w"

lemma same_links_refl [simp]: "same_links w w"
  by (simp add: same_links_def)

lemma same_links_trans: "same_links a b \<Longrightarrow> same_links b c \<Longrightarrow> same_links a c"
  by (simp add: same_links_def)

lemma same_tree_links: "same_tree w w' \<Longrightarrow> same_links w w'"
  by (simp add: same_tree_def same_links_def)

lemma tree_ok_links: "same_links w w' \<Longrightarrow> tree_ok es w \<Longrightarrow> tree_ok es w'"
  by (simp add: tree_ok_def same_links_def)

lemma tree_okD:
  assumes "tree_ok es w"
  shows "sc_parent (scopes w s) = Some p \<Longrightarrow> s \<in> set es \<and> p \<in> set es \<and> pos es p < pos es s"
    and "c \<in> set (sc_children (scopes w s)) \<Longrightarrow> sc_parent (scopes w c) = Some s"
    and "s \<in> set es \<Longrightarrow> s < next_scope w" "distinct es"
    and "task_states w t = Some ts \<Longrightarrow> ts_scope ts = Some s \<Longrightarrow> s \<in> set es"
  using assms unfolding tree_ok_def by blast+

lemma tree_ok_ends: "tree_ok es w \<Longrightarrow> ends (scopes w) so"
proof (cases so)
  case (Some s)
  assume ok: "tree_ok es w"
  have "ends (scopes w) (Some s)"
  proof (induction "pos es s" arbitrary: s rule: less_induct)
    case less
    show ?case
    proof (cases "sc_parent (scopes w s)")
      case None
      then show ?thesis by simp
    next
      case (Some p)
      with less tree_okD(1) [OF ok Some] show ?thesis by simp
    qed
  qed
  with Some show ?thesis by simp
qed simp

lemma tree_ok_length: "tree_ok es w \<Longrightarrow> length es \<le> next_scope w"
proof -
  assume ok: "tree_ok es w"
  have "set es \<subseteq> {..<next_scope w}" using tree_okD(3) [OF ok] by auto
  then have "card (set es) \<le> next_scope w" by (metis card_lessThan card_mono finite_lessThan)
  then show ?thesis using distinct_card [OF tree_okD(4) [OF ok]] by simp
qed

text \<open>A child is further on in \<open>es\<close> than its parent, so \<open>length es\<close> levels are enough.\<close>

lemma deliver_fuel:
  "tree_ok es w \<Longrightarrow> length es < n + pos es self \<Longrightarrow> 0 < n \<Longrightarrow> \<exists>r. deliver n self origin w = Some r"
  "tree_ok es (fst wr) \<Longrightarrow> (\<forall>c \<in> set cs. length es < n + pos es c \<and> c \<in> set es) \<Longrightarrow>
     \<exists>r. deliver_children n cs origin wr = Some r"
proof (induction n self origin w and n cs origin wr rule: deliver_deliver_children.induct)
  case (1 self origin w)
  then show ?case by simp
next
  case (2 n self origin w)
  define w1 where "w1 = fold (deliver_task self origin) (sc_tasks (scopes w self)) w"
  have st: "same_tree w w1" using deliver_tasks_effect [of "sc_tasks (scopes w self)" w self origin]
    by (simp add: w1_def only_cancels_def)
  then have ok1: "tree_ok es w1" using "2.prems"(1) same_tree_links tree_ok_links by blast
  have "length es < n + pos es c \<and> c \<in> set es" if "c \<in> set (sc_children (scopes w1 self))" for c
    using tree_okD(1) [OF ok1 tree_okD(2) [OF ok1 that]] "2.prems"(2) by auto
  then have "\<exists>r. deliver_children n (sc_children (scopes w1 self)) origin (w1, sc_tasks (scopes w self) \<noteq> []) = Some r"
    using "2.IH" [OF refl w1_def] ok1 by simp
  then show ?case by (auto simp: Let_def simp flip: w1_def split: option.split)
next
  case (3 n origin w retry)
  then show ?case by simp
next
  case (4 n c cs origin w retry)
  show ?case
  proof (cases "open_child w c")
    case False
    then show ?thesis using 4 by (auto simp: open_child_def)
  next
    case True
    have "0 < n" using "4.prems"(2) pos_less [of c es] by (cases n) auto
    then obtain w' b where d: "deliver n c origin w = Some (w', b)"
      using "4.IH"(1) "4.prems" True by (fastforce simp: open_child_def)
    have "tree_ok es w'"
      using deliver_effect(1) [OF d] "4.prems"(1) same_tree_links [of w w'] tree_ok_links
      by (auto simp: delivers_def only_cancels_def)
    then show ?thesis using "4.IH"(2) [OF _ d refl] "4.prems"(2) True d
      by (simp add: open_child_def)
  qed
qed

lemma deliver_cancellation_runs:
  assumes "tree_ok es w"
  shows "\<exists>b. deliver (Suc (next_scope w)) s s w = Some (deliver_cancellation s w, b)"
proof -
  have "length es < Suc (next_scope w) + pos es s" using tree_ok_length [OF assms] by simp
  from deliver_fuel(1) [OF assms this, of s] show ?thesis by (auto simp: deliver_cancellation_def)
qed

lemma deliver_cancellation_tree: "same_tree w (deliver_cancellation s w)"
proof (cases "deliver (Suc (next_scope w)) s s w")
  case None
  then show ?thesis by (simp add: deliver_cancellation_def)
next
  case (Some r)
  from deliver_effect(1) [OF this] Some show ?thesis
    by (cases r) (simp add: deliver_cancellation_def delivers_def only_cancels_def)
qed

lemma scope_cancel_called: "sc_called (scopes (scope_cancel s w) s)"
  using deliver_cancellation_tree [of _ s] by (simp add: scope_cancel_def Let_def same_tree_def upd_def)

lemma links_deliver [simp]: "same_links w (deliver_cancellation s w)"
  by (rule same_tree_links [OF deliver_cancellation_tree])

lemma links_upd:
  "(\<And>sc. sc_parent (f sc) = sc_parent sc \<and> sc_children (f sc) = sc_children sc) \<Longrightarrow> same_links w (upd s f w)"
  by (simp add: same_links_def upd_def)

lemma links_cancel: "same_links w (scope_cancel s w)"
proof -
  have "same_links w (upd s (\<lambda>sc. sc\<lparr>sc_timeout := None, sc_called := True\<rparr>) w)"
    by (rule links_upd) simp
  then show ?thesis using same_links_trans [OF _ links_deliver] by (simp add: scope_cancel_def Let_def)
qed

lemma links_timeout: "same_links w (scope_timeout s w)"
  by (auto simp: scope_timeout_def Let_def links_cancel intro!: links_upd)

lemma links_restart: "same_links w (restart_in_parent s w)"
  by (auto simp: restart_in_parent_def split: option.split)

lemma links_set_deadline: "same_links w (set_deadline s v w)"
  unfolding set_deadline_def Let_def
  by (auto intro!: same_links_trans [OF links_upd links_timeout] links_upd)

lemma links_set_shield: "same_links w (set_shield s v w)"
  unfolding set_shield_def Let_def
  by (auto intro!: same_links_trans [OF links_upd links_restart] links_upd)

lemma not_entered_parent: "tree_ok es w \<Longrightarrow> s \<notin> set es \<Longrightarrow> sc_parent (scopes w s) = None"
  using tree_okD(1) [of es w s] by (cases "sc_parent (scopes w s)") auto

lemma tree_ok_extend:
  assumes ok: "tree_ok es w" and s: "s \<notin> set es" "s < next_scope w"
  shows "tree_ok (es @ [s]) w"
  unfolding tree_ok_def
proof (intro conjI allI impI)
  show "distinct (es @ [s])" using tree_okD(4) [OF ok] s by simp
  show "\<forall>x \<in> set (es @ [s]). x < next_scope w" using tree_okD(3) [OF ok] s(2) by auto
  fix x p
  assume "sc_parent (scopes w x) = Some p"
  from tree_okD(1) [OF ok this] show "x \<in> set (es @ [s])" "p \<in> set (es @ [s])"
    "pos (es @ [s]) p < pos (es @ [s]) x"
    by (simp_all add: pos_append)
qed (use tree_okD(2) [OF ok] tree_okD(5) [OF ok] in auto)

lemma tree_ok_link:
  assumes ok: "tree_ok es w" and s: "s \<notin> set es" "s < next_scope w"
  shows "tree_ok (es @ [s]) (fst (link_parent s t w))"
proof (cases "task_states w t")
  case None
  have ext: "tree_ok (es @ [s]) w" by (rule tree_ok_extend [OF ok s])
  then show ?thesis using None by (auto simp: link_parent_def tree_ok_def)
next
  case (Some ts)
  have ext: "tree_ok (es @ [s]) w" by (rule tree_ok_extend [OF ok s])
  have no: "s \<notin> set (sc_children (scopes w x))" for x
    using tree_okD(2) [OF ok, of s x] not_entered_parent [OF ok s(1)] by auto
  show ?thesis
  proof (cases "ts_scope ts")
    case None
    then show ?thesis using ext no Some by (auto simp: link_parent_def tree_ok_def upd_def)
  next
    case p: (Some p)
    then have pes: "p \<in> set es" using tree_okD(5) [OF ok Some] by blast
    then have lt: "pos (es @ [s]) p < pos (es @ [s]) s"
      using pos_append [OF pes] pos_last [OF s(1)] pos_less [OF pes] by simp
    let ?w = "fst (link_parent s t w)"
    have ne: "p \<noteq> s" using pes s(1) by blast
    have links: "sc_parent (scopes ?w x) = (if x = s then Some p else sc_parent (scopes w x))"
      "sc_children (scopes ?w x) = (if x = p then set_add s (sc_children (scopes w p)) else sc_children (scopes w x))"
      "next_scope ?w = next_scope w" "task_states ?w = (task_states w)(t := Some (ts\<lparr>ts_scope := Some s\<rparr>))" for x
      using ne by (simp_all add: link_parent_def Some p upd_def Let_def)
    show ?thesis
      unfolding tree_ok_def links
      using ext pes lt not_entered_parent [OF ok s(1)] tree_okD(2) [OF ok, of s]
      by (auto simp: tree_ok_def set_add_def split: if_splits)
  qed
qed

lemma link_parent_same: "same_links w w' \<Longrightarrow> tree_ok es w \<Longrightarrow> s \<notin> set es \<Longrightarrow> s < next_scope w \<Longrightarrow>
    tree_ok (es @ [s]) (fst (link_parent s t w'))"
  using tree_ok_link [of es w' s t] tree_ok_links [of w w' es] by (simp add: same_links_def)

lemma links_enter_start: "same_links w (enter_start s t w)"
proof -
  define w1 where "w1 = upd s (\<lambda>sc. sc\<lparr>sc_active := True\<rparr>) (scope_timeout s w)"
  define w2 where "w2 = (if py311 w1
    then upd s (\<lambda>sc. sc\<lparr>sc_cancelling := Some (t_cancelling (atasks w1 t))\<rparr>) w1 else w1)"
  have "same_links w w1" unfolding w1_def by (rule same_links_trans [OF links_timeout links_upd]) simp
  moreover have "same_links w1 w2" unfolding w2_def by (simp add: links_upd)
  ultimately have "same_links w w2" by (rule same_links_trans)
  then show ?thesis using same_links_trans [OF _ links_deliver]
    by (simp add: enter_start_def Let_def flip: w1_def w2_def)
qed

lemma tree_ok_enter:
  assumes ok: "tree_ok es w" and s: "s \<notin> set es" "s < next_scope w"
  shows "tree_ok (es @ [s]) (fst (scope_enter s t w))"
proof (cases "sc_active (scopes w s)")
  case True
  then show ?thesis using tree_ok_extend [OF ok s] by (simp add: scope_enter_def)
next
  case False
  let ?w1 = "upd s (\<lambda>sc. sc\<lparr>sc_host := Some t, sc_tasks := set_add t (sc_tasks sc)\<rparr>) w"
  have l1: "same_links w ?w1" by (rule links_upd) simp
  obtain w2 r where l: "link_parent s t ?w1 = (w2, r)" by fastforce
  have ok2: "tree_ok (es @ [s]) w2" using link_parent_same [OF l1 ok s, of t] l by simp
  then have "tree_ok (es @ [s]) (enter_start s t w2)"
    using tree_ok_links [OF links_enter_start] by blast
  then show ?thesis using False l ok2 by (cases r) (simp_all add: scope_enter_def)
qed

lemma links_exit_undo: "same_links w (exit_undo s t w)"
  by (auto simp: exit_undo_def same_links_def upd_def split: option.split prod.split)

lemma links_uncancel: "same_links w (fst (uncancel s e w))"
  by (auto simp: uncancel_def Let_def intro: links_upd)

lemma links_swallow: "same_links (fst r) (fst (swallow_loop s es r))"
proof (induction s es r rule: swallow_loop.induct)
  case (2 s e es w sw n)
  show ?case
  proof (cases "sc_called (scopes w s) \<and> is_cancelled e")
    case True
    obtain w' b where u: "uncancel s e w = (w', b)" by fastforce
    have "same_links w w'" using links_uncancel [of w s e] u by simp
    moreover have "same_links w' (fst (swallow_loop s es (w', b, if b then n else Suc n)))"
      using "2.IH"(1) [OF True u [symmetric]] by simp
    ultimately have "same_links w (fst (swallow_loop s es (w', b, if b then n else Suc n)))"
      by (rule same_links_trans)
    moreover have "swallow_loop s (e # es) (w, sw, n) = swallow_loop s es (w', b, if b then n else Suc n)"
      using True u by simp
    ultimately show ?thesis by (simp only: fst_conv)
  next
    case False
    then show ?thesis using "2.IH"(2) by auto
  qed
qed simp

lemma tree_ok_exit_links:
  assumes ok: "tree_ok es w"
    and "\<And>x. sc_parent (scopes w' x) = sc_parent (scopes w x)"
    and "\<And>x c. c \<in> set (sc_children (scopes w' x)) \<Longrightarrow> c \<in> set (sc_children (scopes w x))"
    and "next_scope w' = next_scope w"
    and "task_states w' = (task_states w)(t := Some (ts\<lparr>ts_scope := sc_parent (scopes w s)\<rparr>))"
  shows "tree_ok es w'"
  unfolding tree_ok_def assms(2,4,5)
  using tree_okD(1,2,3,5) [OF ok] tree_okD(4) [OF ok] assms(3) by (auto split: if_splits)

lemma tree_ok_exit:
  assumes ok: "tree_ok es w"
  shows "tree_ok es (fst (scope_exit s exc w))"
proof -
  have host: "tree_ok es (upd s (\<lambda>sc. sc\<lparr>sc_host := None\<rparr>) w')" if "tree_ok es w'" for w'
    using tree_ok_links [OF links_upd that] by simp
  have unlink: "tree_ok es (fst (exit_unlink s t ts w))" for t ts
  proof (cases "snd (exit_unlink s t ts w)")
    case (Inl e)
    then have "same_links w (fst (exit_unlink s t ts w))"
      by (auto simp: exit_unlink_def Let_def same_links_def upd_def split: if_splits)
    then show ?thesis using tree_ok_links ok by blast
  next
    case (Inr u)
    show ?thesis
      by (rule tree_ok_exit_links [OF ok, where t = t and ts = ts and s = s])
        (use Inr in \<open>auto simp: exit_unlink_def Let_def upd_def split: option.splits if_splits\<close>)
  qed
  have finish: "same_links w' (fst (exit_finish s t exc w'))" for t w'
    using same_links_trans [OF links_exit_undo same_links_trans
        [OF links_swallow [of "(exit_undo s t w', False, 0)", unfolded fst_conv] links_restart]]
    by (auto simp: exit_finish_def split: prod.split) (metis fst_conv)
  have body: "tree_ok es (fst (exit_body s t ts exc w))" for t ts
    using unlink [of t ts] tree_ok_links [OF finish, of es "fst (exit_unlink s t ts w)" t]
    by (cases "exit_unlink s t ts w"; cases "snd (exit_unlink s t ts w)")
      (auto simp: exit_body_def split: prod.split)
  show ?thesis
    using ok body host by (auto simp: scope_exit_def split: option.splits prod.splits) (metis fst_conv)+
qed

text \<open>
  The worlds that can be reached from an event loop without scopes: scopes are created, entered
  once (as \<open>with\<close> blocks do), left, cancelled, shielded and given deadlines; tasks are spawned into
  an entered scope and end; the loop runs the scheduled deliveries and changes the tasks' own
  state, the running task and the clock.
\<close>

datatype cs_action =
    CsNew pyfloat bool | CsEnter nat task | CsExit nat "exn option" | CsCancel nat | CsShield nat bool
  | CsDeadline nat pyfloat | CsSpawn task nat | CsDone task | CsRetry nat | CsTask task atask
  | CsCurrent "task option" | CsTick real

record csys =
  cw :: world
  entered :: "nat list"

fun cs_act :: "cs_action \<Rightarrow> csys \<Rightarrow> csys option" where
  "cs_act (CsNew d sh) s = Some (s\<lparr>cw := fst (create_scope d sh (cw s))\<rparr>)"
| "cs_act (CsEnter x t) s =
     (if x \<in> set (entered s) \<or> next_scope (cw s) \<le> x then None
      else Some (s\<lparr>cw := fst (scope_enter x t (cw s)), entered := entered s @ [x]\<rparr>))"
| "cs_act (CsExit x e) s = Some (s\<lparr>cw := fst (scope_exit x e (cw s))\<rparr>)"
| "cs_act (CsCancel x) s = Some (s\<lparr>cw := scope_cancel x (cw s)\<rparr>)"
| "cs_act (CsShield x v) s = Some (s\<lparr>cw := set_shield x v (cw s)\<rparr>)"
| "cs_act (CsDeadline x d) s = Some (s\<lparr>cw := set_deadline x d (cw s)\<rparr>)"
| "cs_act (CsSpawn t x) s =
     (if x \<notin> set (entered s) then None
      else Some (s\<lparr>cw := (upd x (\<lambda>sc. sc\<lparr>sc_tasks := set_add t (sc_tasks sc)\<rparr>) (cw s))
             \<lparr>task_states := (task_states (cw s))(t := Some \<lparr>ts_parent_id = None, ts_scope = Some x\<rparr>)\<rparr>\<rparr>))"
| "cs_act (CsDone t) s =
     Some (s\<lparr>cw := (case task_states (cw s) t of
         Some ts \<Rightarrow> (case ts_scope ts of
             Some x \<Rightarrow> upd x (\<lambda>sc. sc\<lparr>sc_tasks := removeAll t (sc_tasks sc)\<rparr>) (cw s) | None \<Rightarrow> cw s)
       | None \<Rightarrow> cw s)\<lparr>task_states := (task_states (cw s))(t := None)\<rparr>\<rparr>)"
| "cs_act (CsRetry x) s = Some (s\<lparr>cw := deliver_cancellation x (cw s)\<rparr>)"
| "cs_act (CsTask t a) s = Some (s\<lparr>cw := (cw s)\<lparr>atasks := (atasks (cw s))(t := a)\<rparr>\<rparr>)"
| "cs_act (CsCurrent t) s = Some (s\<lparr>cw := (cw s)\<lparr>current := t\<rparr>\<rparr>)"
| "cs_act (CsTick r) s = Some (s\<lparr>cw := (cw s)\<lparr>now := r\<rparr>\<rparr>)"

definition task_idle :: atask where
  "task_idle = \<lparr>t_must_cancel = False, t_started = False, t_waiter = NoWaiter, t_cancelling = 0, t_message = None\<rparr>"

definition world_new :: "bool \<Rightarrow> real \<Rightarrow> world" where
  "world_new v r = \<lparr>scopes = (\<lambda>_. scope_new PosInf False), next_scope = 0, atasks = (\<lambda>_. task_idle),
     task_states = (\<lambda>_. None), now = r, current = None, py311 = v\<rparr>"

inductive cs_reach :: "csys \<Rightarrow> bool" where
  init: "cs_reach \<lparr>cw = world_new v r, entered = []\<rparr>"
| step: "cs_reach s \<Longrightarrow> cs_act a s = Some s' \<Longrightarrow> cs_reach s'"

fun cs_run :: "cs_action list \<Rightarrow> csys \<Rightarrow> csys option" where
  "cs_run [] s = Some s"
| "cs_run (a # as) s = (case cs_act a s of None \<Rightarrow> None | Some s' \<Rightarrow> cs_run as s')"

lemma cs_run_reach: "cs_reach s \<Longrightarrow> cs_run as s = Some s' \<Longrightarrow> cs_reach s'"
  by (induction as arbitrary: s) (auto split: option.splits intro: cs_reach.step)

lemma cs_act_ok: "tree_ok (entered s) (cw s) \<Longrightarrow> cs_act a s = Some s' \<Longrightarrow> tree_ok (entered s') (cw s')"
proof (induction a s rule: cs_act.induct)
  case (1 d sh s)
  note ok = "1.prems"(1)
  have "next_scope (cw s) \<notin> set (entered s)" using tree_okD(3) [OF ok] by blast
  then have no: "next_scope (cw s) \<notin> set (sc_children (scopes (cw s) x))" for x
    using tree_okD(1,2) [OF ok] by blast
  show ?case using "1.prems" no tree_okD(1,2,3,5) [OF ok] tree_okD(4) [OF ok]
    by (auto simp: create_scope_def tree_ok_def scope_new_def less_Suc_eq split: if_splits)
next
  case (2 x t s)
  then show ?case using tree_ok_enter [of "entered s" "cw s" x t] by (auto split: if_splits)
next
  case (3 x e s)
  then show ?case using tree_ok_exit by auto
next
  case (4 x s)
  then show ?case using tree_ok_links [OF links_cancel] by auto
next
  case (5 x v s)
  then show ?case using tree_ok_links [OF links_set_shield] by auto
next
  case (6 x d s)
  then show ?case using tree_ok_links [OF links_set_deadline] by auto
next
  case (7 t x s)
  then show ?case by (auto simp: tree_ok_def upd_def split: if_splits)
next
  case (8 t s)
  then show ?case by (auto simp: tree_ok_def upd_def split: option.splits if_splits)
next
  case (9 x s)
  then show ?case using tree_ok_links [OF links_deliver] by auto
qed (auto simp: tree_ok_def)

lemma cs_reach_ok: "cs_reach s \<Longrightarrow> tree_ok (entered s) (cw s)"
proof (induction rule: cs_reach.induct)
  case (init v r)
  show ?case by (simp add: tree_ok_def world_new_def scope_new_def)
next
  case (step s a s')
  then show ?case using cs_act_ok by blast
qed

section \<open>Swallowing\<close>

text \<open>Effective cancellation reads three fields only.\<close>

definition same_flags :: "(nat \<Rightarrow> scope) \<Rightarrow> (nat \<Rightarrow> scope) \<Rightarrow> bool" where
  "same_flags ss ss' \<longleftrightarrow> (\<forall>x. sc_called (ss' x) = sc_called (ss x) \<and> sc_shield (ss' x) = sc_shield (ss x)
     \<and> sc_parent (ss' x) = sc_parent (ss x))"

lemma eff_loop_cong: "ends ss so \<Longrightarrow> same_flags ss ss' \<Longrightarrow> eff_loop ss' so = eff_loop ss so"
proof (induction rule: ends.induct)
  case ends_None
  show ?case by (simp add: eff_loop.simps)
next
  case (ends_Some s)
  then show ?case
    by (simp add: eff_loop.simps [of ss "Some s"] eff_loop.simps [of ss' "Some s"] same_flags_def)
qed

lemma parent_visible_cong:
  assumes "\<And>so. ends ss so" "same_flags ss ss'"
  shows "parent_visible ss' s = parent_visible ss s"
  using assms(2) eff_loop_cong [OF assms]
  by (simp add: parent_visible_def effectively_cancelled_def same_flags_def split: option.split)

lemma called_effective: "sc_called (ss s) \<Longrightarrow> effectively_cancelled ss s"
  by (simp add: effectively_cancelled_def eff_loop.simps)

lemma same_flags_refl [simp]: "same_flags ss ss"
  by (simp add: same_flags_def)

lemma same_flags_upd:
  "same_flags ss (scopes w) \<Longrightarrow> (\<And>sc. sc_called (f sc) = sc_called sc \<and> sc_shield (f sc) = sc_shield sc
     \<and> sc_parent (f sc) = sc_parent sc) \<Longrightarrow> same_flags ss (scopes (upd s f w))"
  by (simp add: same_flags_def upd_def)

text \<open>One leaf is swallowed iff it is an AnyIO cancellation and no cancelled parent is visible.\<close>

definition swallows :: "(nat \<Rightarrow> scope) \<Rightarrow> nat \<Rightarrow> exn \<Rightarrow> bool" where
  "swallows ss s e \<longleftrightarrow> sc_called (ss s) \<and> is_cancelled e \<and> anyio_chain e \<and> \<not> parent_visible ss s"

lemma uncancel_keeps:
  "same_flags (scopes w) (scopes (fst (uncancel s e w)))"
  "sc_host (scopes (fst (uncancel s e w)) x) = sc_host (scopes w x)"
  by (simp_all add: uncancel_def same_flags_def upd_def Let_def)

lemma swallow_loop_spec:
  assumes "\<And>so. ends ss so" "same_flags ss (scopes w)" "sc_host (scopes w s) \<noteq> None"
  shows "case swallow_loop s es (w, sw, n) of (w', sw', n') \<Rightarrow>
     (sw' \<and> n' = 0 \<longleftrightarrow> n = 0 \<and> (\<forall>e \<in> set es. swallows ss s e) \<and> (es \<noteq> [] \<or> sw))"
  using assms(2,3)
proof (induction es arbitrary: w sw n)
  case Nil
  then show ?case by auto
next
  case (Cons e es)
  have called: "sc_called (scopes w s) = sc_called (ss s)" using Cons.prems by (simp add: same_flags_def)
  show ?case
  proof (cases "sc_called (ss s) \<and> is_cancelled e")
    case False
    then have "\<not> swallows ss s e" by (auto simp: swallows_def)
    then show ?thesis using Cons.IH [OF Cons.prems, of "Suc n" sw] False called by auto
  next
    case True
    obtain w' b where u: "uncancel s e w = (w', b)" by fastforce
    have b: "b = swallows ss s e"
      using u True Cons.prems called_effective [of "scopes w" s] called
        parent_visible_cong [OF assms(1) Cons.prems(1), of s]
      by (auto simp: uncancel_def swallows_def Let_def split: if_splits)
    have "same_flags ss (scopes w')" "sc_host (scopes w' s) \<noteq> None"
      using uncancel_keeps [where w = w and s = s and e = e] u Cons.prems by (simp_all add: same_flags_def)
    note ih = Cons.IH [OF this, of "if b then n else Suc n" b]
    have eq: "swallow_loop s (e # es) (w, sw, n) = swallow_loop s es (w', b, if b then n else Suc n)"
      using True u called by simp
    show ?thesis
      unfolding eq using ih b by (cases "swallow_loop s es (w', b, if b then n else Suc n)") auto
  qed
qed

lemma undo_loop_spec:
  "undo_loop calls c base = (calls', c') \<Longrightarrow> c = base + calls + ext \<Longrightarrow> c' = base + ext \<or> (calls' < calls \<and> ext = 0 \<and> c' = base)"
  by (induction calls c base arbitrary: calls' c' rule: undo_loop.induct) (auto simp: Let_def split: if_splits)

lemma undo_loop_restores:
  "snd (undo_loop calls (base + calls + ext) base) = base + ext"
  by (cases "undo_loop calls (base + calls + ext) base") (auto dest: undo_loop_spec)

lemma exit_undo_fields:
  "sc_called (scopes (exit_undo s t w) x) = sc_called (scopes w x)"
  "sc_shield (scopes (exit_undo s t w) x) = sc_shield (scopes w x)"
  "sc_parent (scopes (exit_undo s t w) x) = sc_parent (scopes w x)"
  "sc_host (scopes (exit_undo s t w) x) = sc_host (scopes w x)"
  by (cases "sc_cancelling (scopes w s)"; simp add: exit_undo_def upd_def split: prod.split)+

lemma exit_unlink_keeps:
  "same_flags (scopes w) (scopes (fst (exit_unlink s t ts w)))
   \<and> sc_host (scopes (fst (exit_unlink s t ts w)) s) = sc_host (scopes w s)"
  by (simp add: exit_unlink_def Let_def same_flags_def upd_def split: option.split)

lemma exit_finish_result:
  assumes ends: "\<And>so. ends ss so" and flags: "same_flags ss (scopes w)"
    and h: "sc_host (scopes w s) \<noteq> None" and r: "exit_finish s t exc w = (w', b)"
  shows "b \<longleftrightarrow> (\<exists>e. exc = Some e \<and> iterate_exceptions e \<noteq> []
     \<and> (\<forall>x \<in> set (iterate_exceptions e). swallows ss s x))"
proof -
  define leaves where "leaves = (case exc of None \<Rightarrow> [] | Some e \<Rightarrow> iterate_exceptions e)"
  obtain w6 sw n where sl: "swallow_loop s leaves (exit_undo s t w, False, 0) = (w6, sw, n)"
    by (metis prod_cases3)
  have fl: "same_flags ss (scopes (exit_undo s t w))" using flags by (simp add: same_flags_def exit_undo_fields)
  have "sc_host (scopes (exit_undo s t w) s) \<noteq> None" using h by (simp add: exit_undo_fields)
  note swallow_loop_spec [OF ends fl this, where es = leaves and sw = False and n = 0]
  then have "sw \<and> n = 0 \<longleftrightarrow> (\<forall>e \<in> set leaves. swallows ss s e) \<and> leaves \<noteq> []" by (simp add: sl)
  moreover have "b = (sw \<and> n = 0)" using r sl by (simp add: exit_finish_def leaves_def)
  ultimately show ?thesis by (cases exc) (auto simp: leaves_def)
qed

lemma exit_body_result:
  assumes ok: "tree_ok es w" and h: "sc_host (scopes w s) = Some t"
    and r: "exit_body s t ts exc w = (w', Inr b)"
  shows "b \<longleftrightarrow> (\<exists>e. exc = Some e \<and> iterate_exceptions e \<noteq> []
     \<and> (\<forall>x \<in> set (iterate_exceptions e). swallows (scopes w) s x))"
proof -
  obtain w1 u where un: "exit_unlink s t ts w = (w1, Inr u)"
    and fin: "exit_finish s t exc w1 = (w', b)"
    using r by (auto simp: exit_body_def split: prod.splits sum.splits)
  show ?thesis
    by (rule exit_finish_result [OF tree_ok_ends [OF ok] _ _ fin])
      (use exit_unlink_keeps [of w s t ts] un h in simp_all)
qed

lemma cancelling_deliver_task:
  "current w = Some t \<Longrightarrow> atasks (deliver_task self o' u w) t = atasks w t"
  by (auto simp: deliver_task_def eligible_def upd_def Let_def)

text \<open>A delivery leaves the running task alone.\<close>

lemma deliver_current:
  "deliver n self o' w = Some r \<Longrightarrow> current w = Some t \<Longrightarrow> atasks (fst r) t = atasks w t \<and> current (fst r) = Some t"
  "deliver_children n cs o' wr = Some r \<Longrightarrow> current (fst wr) = Some t \<Longrightarrow>
     atasks (fst r) t = atasks (fst wr) t \<and> current (fst r) = Some t"
proof (induction n self o' w and n cs o' wr arbitrary: r and r rule: deliver_deliver_children.induct)
  case (2 n self o' w)
  have f: "atasks (fold (deliver_task self o') ts w) t = atasks w t \<and> current (fold (deliver_task self o') ts w) = Some t" for ts
    using "2.prems"(2)
  proof (induction ts arbitrary: w)
    case (Cons u ts)
    have "current (deliver_task self o' u w) = Some t"
      using same_tree_deliver_task [of w self o' u] Cons.prems by (simp add: same_tree_def)
    then show ?case using Cons by (simp add: cancelling_deliver_task)
  qed simp
  from "2.prems"(1) obtain w2 b where c: "deliver_children n
      (sc_children (scopes (fold (deliver_task self o') (sc_tasks (scopes w self)) w) self)) o'
      (fold (deliver_task self o') (sc_tasks (scopes w self)) w, sc_tasks (scopes w self) \<noteq> []) = Some (w2, b)"
    and r: "r = (if o' = self then upd self (\<lambda>sc. sc\<lparr>sc_handle := b\<rparr>) w2 else w2, b)"
    by (auto simp: Let_def split: option.splits)
  from "2.IH" [OF refl refl c] f have "atasks w2 t = atasks w t \<and> current w2 = Some t" by simp
  then show ?case by (simp add: r upd_def)
next
  case (4 n c cs o' w retry)
  show ?case
  proof (cases "\<not> sc_shield (scopes w c) \<and> \<not> sc_called (scopes w c)")
    case True
    with "4.prems" obtain w' b where d: "deliver n c o' w = Some (w', b)"
      and r: "deliver_children n cs o' (w', b \<or> retry) = Some r"
      by (auto split: option.splits)
    have "atasks w' t = atasks w t \<and> current w' = Some t"
      using "4.IH"(1) [OF True d] "4.prems"(2) by simp
    then show ?thesis using "4.IH"(2) [OF True d refl] r by simp
  next
    case False
    then have "deliver_children n cs o' (w, retry) = Some r" using "4.prems"(1) by (simp split: if_splits)
    then show ?thesis using "4.IH"(3) [OF False] "4.prems"(2) by simp
  qed
qed auto

lemma scope_exit_done:
  assumes "scope_exit s exc w = (w', Inr b)"
  obtains t ts w1 where "sc_host (scopes w s) = Some t" "current w = Some t" "sc_active (scopes w s)"
    "task_states w t = Some ts" "ts_scope ts = Some s" "exit_body s t ts exc w = (w1, Inr b)"
    "w' = upd s (\<lambda>sc. sc\<lparr>sc_host := None\<rparr>) w1"
  using assms by (auto simp: scope_exit_def split: if_splits option.splits prod.splits)

lemma restart_same_tree: "same_tree w (restart_in_parent s w)"
  by (auto simp: restart_in_parent_def deliver_cancellation_tree split: option.split)

text \<open>What the last steps of \<open>__exit__\<close> keep.\<close>

lemma swallow_loop_caught:
  "sc_host (scopes w s) \<noteq> None \<Longrightarrow> (sw \<longrightarrow> sc_caught (scopes w s)) \<Longrightarrow>
     swallow_loop s es (w, sw, n) = (w', sw', n') \<Longrightarrow>
     (sw' \<longrightarrow> sc_caught (scopes w' s)) \<and> atasks w' = atasks w \<and> current w' = current w
     \<and> sc_deadline (scopes w' s) = sc_deadline (scopes w s) \<and> now w' = now w"
proof (induction es arbitrary: w sw n)
  case Nil
  then show ?case by simp
next
  case (Cons e es)
  show ?case
  proof (cases "sc_called (scopes w s) \<and> is_cancelled e")
    case False
    have "swallow_loop s es (w, sw, Suc n) = (w', sw', n')"
      using Cons.prems(3) False by (auto split: if_splits)
    from Cons.IH [OF Cons.prems(1,2) this] show ?thesis .
  next
    case True
    obtain w1 b where u: "uncancel s e w = (w1, b)" by fastforce
    have k: "sc_host (scopes w1 s) \<noteq> None" "b \<longrightarrow> sc_caught (scopes w1 s)"
      "atasks w1 = atasks w" "current w1 = current w" "sc_deadline (scopes w1 s) = sc_deadline (scopes w s)"
      "now w1 = now w"
      using u Cons.prems(1) by (auto simp: uncancel_def Let_def upd_def split: if_splits)
    have "swallow_loop s es (w1, b, if b then n else Suc n) = (w', sw', n')"
      using Cons.prems(3) True u by simp
    from Cons.IH [OF k(1,2) this] k(3-6) show ?thesis by simp
  qed
qed

lemma restart_current:
  "current w = Some t \<Longrightarrow> atasks (restart_in_parent s w) t = atasks w t"
proof -
  assume c: "current w = Some t"
  have "atasks (deliver_cancellation p w) t = atasks w t" for p
    using deliver_current(1) [of "Suc (next_scope w)" p p w _ t] c
    by (cases "deliver (Suc (next_scope w)) p p w") (auto simp: deliver_cancellation_def split: prod.split)
  then show ?thesis by (auto simp: restart_in_parent_def split: option.split)
qed

lemma exit_finish_keeps:
  assumes "sc_host (scopes w s) \<noteq> None" "current w = Some t" "exit_finish s t exc w = (w', b)"
  shows "(b \<longrightarrow> sc_caught (scopes w' s)) \<and> atasks w' t = atasks (exit_undo s t w) t
    \<and> sc_deadline (scopes w' s) = sc_deadline (scopes w s) \<and> now w' = now w"
proof -
  obtain w1 sw n where sl: "swallow_loop s (case exc of None \<Rightarrow> [] | Some e \<Rightarrow> iterate_exceptions e)
      (exit_undo s t w, False, 0) = (w1, sw, n)" by (metis prod_cases3)
  have h: "sc_host (scopes (exit_undo s t w) s) \<noteq> None" using assms(1) by (simp add: exit_undo_fields)
  have u: "current (exit_undo s t w) = Some t" "now (exit_undo s t w) = now w"
    "sc_deadline (scopes (exit_undo s t w) s) = sc_deadline (scopes w s)"
    using assms(2) by (cases "sc_cancelling (scopes w s)"; simp add: exit_undo_def upd_def split: prod.split)+
  from swallow_loop_caught [OF h _ sl] have k: "sw \<longrightarrow> sc_caught (scopes w1 s)"
    "atasks w1 = atasks (exit_undo s t w)" "current w1 = Some t" "now w1 = now w"
    "sc_deadline (scopes w1 s) = sc_deadline (scopes w s)" using u by auto
  have "w' = restart_in_parent s w1" "b = (sw \<and> n = 0)" using assms(3) sl by (simp_all add: exit_finish_def)
  then show ?thesis
    using k restart_same_tree [of w1 s] restart_current [OF k(3), of s]
    by (simp add: same_tree_def)
qed

lemma exit_unlink_fields:
  "atasks (fst (exit_unlink s t ts w)) = atasks w" "current (fst (exit_unlink s t ts w)) = current w"
  "now (fst (exit_unlink s t ts w)) = now w"
  "sc_calls (scopes (fst (exit_unlink s t ts w)) x) = sc_calls (scopes w x)"
  "sc_cancelling (scopes (fst (exit_unlink s t ts w)) x) = sc_cancelling (scopes w x)"
  "sc_deadline (scopes (fst (exit_unlink s t ts w)) x) = sc_deadline (scopes w x)"
  by (simp_all add: exit_unlink_def Let_def upd_def split: option.split)

lemma scope_exit_keeps:
  assumes "scope_exit s exc w = (w', Inr b)" "sc_host (scopes w s) = Some t"
  shows "(b \<longrightarrow> sc_caught (scopes w' s)) \<and> sc_deadline (scopes w' s) = sc_deadline (scopes w s)
    \<and> now w' = now w
    \<and> (sc_cancelling (scopes w s) = Some base \<longrightarrow> t_cancelling (atasks w' t)
        = snd (undo_loop (sc_calls (scopes w s)) (t_cancelling (atasks w t)) base))"
proof -
  from assms obtain ts w1 where c: "current w = Some t"
    and bd: "exit_body s t ts exc w = (w1, Inr b)" and w': "w' = upd s (\<lambda>sc. sc\<lparr>sc_host := None\<rparr>) w1"
    by (auto elim: scope_exit_done)
  obtain w2 u where un: "exit_unlink s t ts w = (w2, Inr u)" and fin: "exit_finish s t exc w2 = (w1, b)"
    using bd by (auto simp: exit_body_def split: prod.splits sum.splits)
  have f: "atasks w2 = atasks w" "current w2 = Some t" "now w2 = now w" "sc_calls (scopes w2 s) = sc_calls (scopes w s)"
    "sc_cancelling (scopes w2 s) = sc_cancelling (scopes w s)" "sc_deadline (scopes w2 s) = sc_deadline (scopes w s)"
    "sc_host (scopes w2 s) \<noteq> None"
    using exit_unlink_fields [where s = s and t = t and ts = ts and w = w] exit_unlink_keeps [of w s t ts] un c assms(2)
    by simp_all
  from exit_finish_keeps [OF f(7,2) fin] f w' show ?thesis
    by (auto simp: upd_def exit_undo_def split: prod.split)
qed

section \<open>Properties\<close>

text \<open>
  C7: In every reachable world the loops over \<open>_parent_scope\<close> end, and everything that asks about
  cancellation agrees: a scope is effectively cancelled iff \<open>cancel()\<close> was called on it or on a scope
  above it that no shield hides; \<open>checkpoint_if_cancelled\<close> blocks and \<open>check_cancelled\<close> raises (naming
  such a scope) exactly then. The effective deadline is \<open>-inf\<close> if the scope is effectively cancelled, and
  otherwise the least deadline that is visible (\<open>inf\<close> without any); so it is \<open>-inf\<close> exactly if the scope
  is effectively cancelled or a visible scope has the deadline \<open>-inf\<close>.
\<close>

theorem cancellation_agrees:
  assumes "cs_reach s" "w = cw s"
  shows "eff_loop (scopes w) so = Some (\<exists>a. visible (scopes w) so a \<and> sc_called (scopes w a))
    \<and> checkpoint_loop (scopes w) so = eff_loop (scopes w) so
    \<and> (\<exists>r. check_cancelled (scopes w) so = Some r
         \<and> (r = Inr () \<longleftrightarrow> eff_loop (scopes w) so = Some False)
         \<and> (r = Inr () \<or> (\<exists>a. visible (scopes w) so a \<and> sc_called (scopes w a)
              \<and> r = Inl (CancelledError (Some (cancel_message a)) None))))
    \<and> (\<exists>v. deadline_loop (scopes w) so PosInf = Some v \<and>
         (if eff_loop (scopes w) so = Some True then v = NegInf
          else (\<forall>a. visible (scopes w) so a \<longrightarrow> v \<le> sc_deadline (scopes w a))
            \<and> (v = PosInf \<or> (\<exists>a. visible (scopes w) so a \<and> v = sc_deadline (scopes w a))))
         \<and> (v = NegInf \<longleftrightarrow> eff_loop (scopes w) so = Some True \<or> (\<exists>a. visible (scopes w) so a \<and> sc_deadline (scopes w a) = NegInf)))"
proof -
  have e: "ends (scopes w) so" using tree_ok_ends [OF cs_reach_ok [OF assms(1)]] by (simp add: assms(2))
  obtain v where v: "deadline_loop (scopes w) so PosInf = Some v"
    and least: "if eff_loop (scopes w) so = Some True then v = NegInf
      else v \<le> PosInf \<and> (\<forall>a. visible (scopes w) so a \<longrightarrow> v \<le> sc_deadline (scopes w a)) \<and>
        (v = PosInf \<or> (\<exists>a. visible (scopes w) so a \<and> v = sc_deadline (scopes w a)))"
    using deadline_loop_spec [OF e, of PosInf] by blast
  have "v = NegInf \<longleftrightarrow> eff_loop (scopes w) so = Some True \<or> (\<exists>a. visible (scopes w) so a \<and> sc_deadline (scopes w a) = NegInf)"
  proof (cases "eff_loop (scopes w) so = Some True")
    case False
    have "v = NegInf" if a: "visible (scopes w) so a" "sc_deadline (scopes w a) = NegInf" for a
    proof -
      have "v \<le> NegInf" using False least a by (metis (full_types))
      then show ?thesis by (cases v) simp_all
    qed
    moreover from False least have "\<exists>a. visible (scopes w) so a \<and> sc_deadline (scopes w a) = NegInf" if "v = NegInf"
      using that by auto
    ultimately show ?thesis using False by blast
  qed (use least in simp)
  with v least have deadline: "\<exists>v. deadline_loop (scopes w) so PosInf = Some v \<and>
      (if eff_loop (scopes w) so = Some True then v = NegInf
       else (\<forall>a. visible (scopes w) so a \<longrightarrow> v \<le> sc_deadline (scopes w a))
         \<and> (v = PosInf \<or> (\<exists>a. visible (scopes w) so a \<and> v = sc_deadline (scopes w a)))) \<and>
      (v = NegInf \<longleftrightarrow> eff_loop (scopes w) so = Some True \<or> (\<exists>a. visible (scopes w) so a \<and> sc_deadline (scopes w a) = NegInf))"
    by (intro exI [of _ v]) simp
  from check_cancelled_spec [OF e] show ?thesis
    by (intro conjI eff_loop_spec [OF e] checkpoint_loop_eq [OF e] deadline)
qed

text \<open>A nested pair of scopes in task 7, the outer one cancelled while the task waits.\<close>

abbreviation waiting :: atask where
  "waiting \<equiv> task_idle\<lparr>t_started := True, t_waiter := WaiterPending\<rparr>"

abbreviation nested_run :: "cs_action list" where
  "nested_run \<equiv> [CsNew PosInf False, CsNew (Fin 5) False, CsCurrent (Some 7), CsEnter 0 7, CsEnter 1 7,
     CsCurrent None, CsTask 7 waiting, CsCancel 0]"

lemmas cs_run_simps = create_scope_def scope_new_def scope_enter_def link_parent_def enter_start_def
  upd_def set_add_def scope_timeout_def scope_cancel_def deliver_cancellation_def deliver_task_def
  eligible_def task_cancel_def waiter_done_def world_new_def task_idle_def Let_def

lemma nested_run_result:
  "\<exists>s. cs_run nested_run \<lparr>cw = world_new True 0, entered = []\<rparr> = Some s
    \<and> sc_called (scopes (cw s) 0) \<and> sc_parent (scopes (cw s) 1) = Some 0 \<and> \<not> sc_shield (scopes (cw s) 1)
    \<and> t_waiter (atasks (cw s) 7) = WaiterCancelled"
  by (simp add: cs_run_simps eval_nat_numeral)

theorem cancellation_agrees_witness:
  "\<exists>s. cs_reach s \<and> eff_loop (scopes (cw s)) (Some 1) = Some True"
proof -
  from nested_run_result obtain s where s: "cs_run nested_run \<lparr>cw = world_new True 0, entered = []\<rparr> = Some s"
    "sc_called (scopes (cw s) 0)" "sc_parent (scopes (cw s) 1) = Some 0" "\<not> sc_shield (scopes (cw s) 1)"
    by blast
  from cs_run_reach [OF cs_reach.init s(1)] have r: "cs_reach s" .
  have "visible (scopes (cw s)) (Some 1) 0" using s(3,4) by (simp add: visible_Some)
  then show ?thesis using cancellation_agrees [OF r refl, of "Some 1"] s(2) r by auto
qed

text \<open>
  C8: In every reachable world a delivery of the cancellation of scope \<open>s\<close> ends (the fuel is
  enough), and afterwards every started task, other than the running one, in \<open>s\<close> or in a scope
  nested in it without a shield or an own cancellation in between has a cancellation on its way (it
  must raise one at its next step, or its future was cancelled), unless the future it awaits had a
  result already: such a task is left as it is. Tasks elsewhere are untouched, a task that already had
  a cancellation on its way keeps it, the tree of scopes stays as it is, and another delivery, which
  tries the tasks left out again, is scheduled exactly when such a scope still has tasks.
\<close>

theorem delivery_reaches:
  assumes "cs_reach sys" "w = cw sys" "w' = deliver_cancellation s w"
  shows "(\<exists>b. deliver (Suc (next_scope w)) s s w = Some (w', b) \<and> (b \<longleftrightarrow> served_tasks w s \<noteq> {}))
    \<and> (\<forall>t. t \<in> served_tasks w s \<and> t_started (atasks w t) \<and> current w \<noteq> Some t \<longrightarrow>
         (if got_result w t then atasks w' t = atasks w t else pending w' t))
    \<and> (\<forall>t. t \<notin> served_tasks w s \<longrightarrow> atasks w' t = atasks w t)
    \<and> (\<forall>t. pending w t \<longrightarrow> pending w' t)
    \<and> same_tree w w' \<and> sc_handle (scopes w' s) = (served_tasks w s \<noteq> {})"
proof -
  have ok: "tree_ok (entered sys) w" using cs_reach_ok [OF assms(1)] by (simp add: assms(2))
  from deliver_cancellation_runs [OF ok, of s] obtain b where
    d: "deliver (Suc (next_scope w)) s s w = Some (w', b)" by (auto simp: assms(3))
  from deliver_effect(1) [OF d] have eff: "only_cancels (served_tasks w s) w w'"
    "\<forall>t \<in> served_tasks w s. t_started (atasks w t) \<and> current w \<noteq> Some t \<and> \<not> got_result w t \<longrightarrow> pending w' t"
    "b \<longleftrightarrow> served_tasks w s \<noteq> {}"
    by (simp_all add: delivers_def)
  moreover have "sc_handle (scopes w' s) = b"
    using d by (auto simp: Let_def upd_def split: option.splits)
  ultimately show ?thesis using d unfolding only_cancels_def by (simp split: if_splits)
qed

theorem delivery_reaches_witness:
  "\<exists>sys. cs_reach sys \<and> pending (deliver_cancellation 0 (cw sys)) 7 \<and> same_tree (cw sys) (deliver_cancellation 0 (cw sys))"
proof -
  from nested_run_result obtain s where s: "cs_run nested_run \<lparr>cw = world_new True 0, entered = []\<rparr> = Some s"
    "t_waiter (atasks (cw s) 7) = WaiterCancelled" by blast
  from cs_run_reach [OF cs_reach.init s(1)] have r: "cs_reach s" .
  have "pending (cw s) 7" using s(2) by (simp add: pending_def)
  with delivery_reaches [OF r refl refl, of 0] r show ?thesis by blast
qed

lemma scope_exit_swallows:
  assumes "cs_reach sys" "scope_exit s exc (cw sys) = (w', Inr b)"
  shows "b \<longleftrightarrow> (\<exists>e. exc = Some e \<and> iterate_exceptions e \<noteq> [] \<and> sc_called (scopes (cw sys) s)
     \<and> \<not> parent_visible (scopes (cw sys)) s
     \<and> (\<forall>x \<in> set (iterate_exceptions e). is_cancelled x \<and> anyio_chain x))"
proof -
  from assms(2) obtain t ts w1 where h: "sc_host (scopes (cw sys) s) = Some t"
    and b: "exit_body s t ts exc (cw sys) = (w1, Inr b)" by (rule scope_exit_done)
  have "xs \<noteq> [] \<and> (\<forall>x\<in>set xs. swallows (scopes (cw sys)) s x) \<longleftrightarrow>
      xs \<noteq> [] \<and> sc_called (scopes (cw sys) s) \<and> \<not> parent_visible (scopes (cw sys)) s
      \<and> (\<forall>x\<in>set xs. is_cancelled x \<and> anyio_chain x)" for xs
    by (cases xs) (auto simp: swallows_def)
  then show ?thesis
    unfolding exit_body_result [OF cs_reach_ok [OF assms(1)] h b] by blast
qed

text \<open>
  C24: Leaving a scope swallows the exception exactly when the scope was cancelled, every leaf of
  the exception is a \<open>CancelledError\<close> raised by AnyIO (itself or in its chain of contexts), and no
  cancelled parent is visible: an error of the block, a native cancellation or a cancellation that
  belongs to an outer scope is never swallowed.
\<close>

theorem exit_swallows:
  assumes "cs_reach sys" "scope_exit s exc (cw sys) = (w', Inr b)"
  shows "b \<longleftrightarrow> (\<exists>e. exc = Some e \<and> iterate_exceptions e \<noteq> [] \<and> sc_called (scopes (cw sys) s)
     \<and> \<not> parent_visible (scopes (cw sys)) s
     \<and> (\<forall>x \<in> set (iterate_exceptions e). is_cancelled x \<and> anyio_chain x))"
  using assms by (rule scope_exit_swallows)

abbreviation exit_run :: "cs_action list" where
  "exit_run \<equiv> [CsNew PosInf False, CsCurrent (Some 7), CsEnter 0 7, CsCancel 0]"

lemma exit_run_result:
  "\<exists>s. cs_run exit_run \<lparr>cw = world_new True 0, entered = []\<rparr> = Some s
    \<and> snd (scope_exit 0 (Some (CancelledError (Some (cancel_message 0)) None)) (cw s)) = Inr True"
  by (simp add: cs_run_simps scope_exit_def exit_body_def exit_unlink_def exit_finish_def exit_undo_def
      is_cancelled_def uncancel_def parent_visible_def effectively_cancelled_def eff_loop.simps
      restart_in_parent_def)

theorem exit_swallows_witness:
  "\<exists>sys. cs_reach sys \<and> sc_called (scopes (cw sys) 0) \<and> \<not> parent_visible (scopes (cw sys)) 0"
proof -
  from exit_run_result obtain s where s: "cs_run exit_run \<lparr>cw = world_new True 0, entered = []\<rparr> = Some s"
    "snd (scope_exit 0 (Some (CancelledError (Some (cancel_message 0)) None)) (cw s)) = Inr True" by blast
  from cs_run_reach [OF cs_reach.init s(1)] have r: "cs_reach s" .
  obtain w' where "scope_exit 0 (Some (CancelledError (Some (cancel_message 0)) None)) (cw s) = (w', Inr True)"
    using s(2) by (metis prod.collapse)
  from exit_swallows [OF r this] r show ?thesis by auto
qed

text \<open>
  Leaving a scope takes back the cancellation requests the scope itself made on its host task
  and no others: the task's \<open>cancelling()\<close> count is then the count at entry plus the requests that
  came from elsewhere.
\<close>

theorem exit_restores_cancelling:
  assumes "scope_exit s exc w = (w', Inr b)" "sc_host (scopes w s) = Some t"
    and "sc_cancelling (scopes w s) = Some base"
    and "t_cancelling (atasks w t) = base + sc_calls (scopes w s) + others"
  shows "t_cancelling (atasks w' t) = base + others"
  using scope_exit_keeps [OF assms(1,2), of base] assms(3,4) undo_loop_restores by simp

abbreviation outside_run :: "cs_action list" where
  "outside_run \<equiv> [CsNew PosInf False, CsCurrent (Some 7), CsEnter 0 7, CsCurrent None, CsTask 7 waiting,
     CsCancel 0, CsTask 7 (task_idle\<lparr>t_started := True, t_cancelling := 2\<rparr>), CsCurrent (Some 7)]"

lemma outside_run_result:
  "\<exists>s. cs_run outside_run \<lparr>cw = world_new True 0, entered = []\<rparr> = Some s
    \<and> sc_host (scopes (cw s) 0) = Some 7 \<and> sc_cancelling (scopes (cw s) 0) = Some 0
    \<and> sc_calls (scopes (cw s) 0) = 1 \<and> t_cancelling (atasks (cw s) 7) = 2
    \<and> snd (scope_exit 0 None (cw s)) = Inr False"
  by (simp add: cs_run_simps scope_exit_def exit_body_def exit_unlink_def exit_finish_def exit_undo_def
      restart_in_parent_def restart_loop.simps split: prod.split)

theorem exit_restores_cancelling_witness:
  "\<exists>s. cs_run outside_run \<lparr>cw = world_new True 0, entered = []\<rparr> = Some s
    \<and> t_cancelling (atasks (fst (scope_exit 0 None (cw s))) 7) = 1"
proof -
  from outside_run_result obtain s where s: "cs_run outside_run \<lparr>cw = world_new True 0, entered = []\<rparr> = Some s"
    "sc_host (scopes (cw s) 0) = Some 7" "sc_cancelling (scopes (cw s) 0) = Some 0"
    "sc_calls (scopes (cw s) 0) = 1" "t_cancelling (atasks (cw s) 7) = 2"
    "snd (scope_exit 0 None (cw s)) = Inr False" by blast
  obtain w' where w': "scope_exit 0 None (cw s) = (w', Inr False)" using s(6) by (metis prod.collapse)
  have "t_cancelling (atasks w' 7) = 0 + 1"
    by (rule exit_restores_cancelling [OF w' s(2,3)]) (simp add: s(4,5))
  with w' s(1) show ?thesis by auto
qed

text \<open>
  A \<open>fail_after\<close> block whose exception its scope swallows raises \<open>TimeoutError\<close> exactly when
  the deadline has passed, and returns normally when the scope was cancelled earlier by hand; an
  exception that is not swallowed propagates unchanged.
\<close>

theorem fail_after_spec:
  assumes "scope_exit s (Some e) w = (w', Inr b)" "sc_host (scopes w s) = Some t"
  shows "fail_after_exit s (Some e) w =
    (w', if \<not> b then Inl e
         else if sc_deadline (scopes w s) \<le> Fin (now w) then Inl TimeoutError else Inr ())"
  using scope_exit_keeps [OF assms] assms(1) by (cases b) (simp_all add: fail_after_exit_def)

theorem fail_after_spec_witness:
  "\<exists>s. cs_run exit_run \<lparr>cw = world_new True 0, entered = []\<rparr> = Some s
    \<and> snd (fail_after_exit 0 (Some (CancelledError (Some (cancel_message 0)) None)) (cw s)) = Inr ()"
proof -
  have "\<exists>s. cs_run exit_run \<lparr>cw = world_new True 0, entered = []\<rparr> = Some s
    \<and> snd (scope_exit 0 (Some (CancelledError (Some (cancel_message 0)) None)) (cw s)) = Inr True
    \<and> sc_host (scopes (cw s) 0) = Some 7 \<and> sc_deadline (scopes (cw s) 0) = PosInf"
    by (simp add: cs_run_simps scope_exit_def exit_body_def exit_unlink_def exit_finish_def exit_undo_def
      is_cancelled_def uncancel_def parent_visible_def effectively_cancelled_def eff_loop.simps
      restart_in_parent_def)
  then obtain s where s: "cs_run exit_run \<lparr>cw = world_new True 0, entered = []\<rparr> = Some s"
    "snd (scope_exit 0 (Some (CancelledError (Some (cancel_message 0)) None)) (cw s)) = Inr True"
    "sc_host (scopes (cw s) 0) = Some 7" "sc_deadline (scopes (cw s) 0) = PosInf" by blast
  obtain w' where w': "scope_exit 0 (Some (CancelledError (Some (cancel_message 0)) None)) (cw s) = (w', Inr True)"
    using s(2) by (metis prod.collapse)
  from fail_after_spec [OF w' s(3)] s(1,4) show ?thesis
    by (auto simp: less_eq_pyfloat.simps)
qed

end
