(* ===== verification/TaskGroups.thy ===== *)
theory TaskGroups
  imports CancelScopes
begin

text \<open>
  Task groups: \<open>TaskGroup\<close>, \<open>_AsyncioTaskStatus\<close> and \<open>_wait\<close> of
  \<open>src/anyio/_backends/_asyncio.py\<close>, over the world of cancel scopes.

  A call of a coroutine function is a \<open>callable\<close> (the names the code reads) and its result: an
  exception, a coroutine, or something else with its \<open>repr\<close>. \<open>create_task\<close> gives a task number
  that the caller chooses. Of the task that ends the code sees the exception it ended with
  (\<open>Task.exception()\<close>, or the \<open>CancelledError\<close> that raises). \<open>__aexit__\<close> deletes \<open>_exceptions\<close>
  at its end; nothing reads it later and the model keeps it.
\<close>

section \<open>State\<close>

record tgroup =
  tg_scope :: nat
  tg_active :: bool
  tg_exceptions :: "exn list"
  tg_tasks :: "task list"

definition tg_new :: "world \<Rightarrow> tgroup \<times> world" where
  "tg_new w = (case create_scope PosInf False w of
     (w', s) \<Rightarrow> (\<lparr>tg_scope = s, tg_active = False, tg_exceptions = [], tg_tasks = []\<rparr>, w'))"

definition tg_aenter :: "task \<Rightarrow> tgroup \<Rightarrow> world \<Rightarrow> tgroup \<times> world \<times> unit res" where
  "tg_aenter t g w =
     (case scope_enter (tg_scope g) t w of
        (w', Inl e) \<Rightarrow> (g, w', Inl e)
      | (w', Inr _) \<Rightarrow> (g\<lparr>tg_active := True\<rparr>, w', Inr ()))"

section \<open>Waiting for tasks\<close>

text \<open>\<open>_wait\<close>: the tasks it still waits for and its waiter; the \<open>finally\<close> drops the callbacks.\<close>

record waitset =
  ws_tasks :: "task list"
  ws_waiter :: "unit future"

definition wait_begin :: "task list \<Rightarrow> waitset" where
  "wait_begin ts = \<lparr>ws_tasks = ts, ws_waiter = Pending\<rparr>"

definition on_completion :: "task \<Rightarrow> waitset \<Rightarrow> waitset" where
  "on_completion t ws =
     (let ts = removeAll t (ws_tasks ws)
      in \<lparr>ws_tasks = ts,
          ws_waiter = (if ts = [] \<and> \<not> fut_done (ws_waiter ws) then FResult () else ws_waiter ws)\<rparr>)"

definition wait_finally :: "waitset \<Rightarrow> waitset" where
  "wait_finally ws = ws\<lparr>ws_tasks := []\<rparr>"

section \<open>Spawning\<close>

record callable =
  c_module :: "string option"
  c_qualname :: "string option"

definition get_callable_name :: "callable \<Rightarrow> string" where
  "get_callable_name f =
     (let names = [x. Some x \<leftarrow> [c_module f, c_qualname f], x \<noteq> []]
      in case names of [] \<Rightarrow> [] | [x] \<Rightarrow> x | x # y # _ \<Rightarrow> x @ ''.'' @ y)"

definition not_active_group :: exn where
  "not_active_group = RuntimeError ''This task group is not active; no new tasks can be started.''"

definition not_a_coroutine :: "callable \<Rightarrow> string \<Rightarrow> exn" where
  "not_a_coroutine f r =
     (case c_qualname f of
        None \<Rightarrow> AttributeError
      | Some q \<Rightarrow> TypeError (''Expected '' @ (case c_module f of None \<Rightarrow> [] | Some m \<Rightarrow> m @ ''.'') @ q
          @ ''() to return a coroutine, but the return value ('' @ r @ '') is not a coroutine object''))"

text \<open>\<open>_spawn\<close>, with or without a future for the task status; the result is the task's name.\<close>

definition tg_spawn ::
  "bool \<Rightarrow> callable \<Rightarrow> string option res \<Rightarrow> string option \<Rightarrow> task \<Rightarrow> tgroup \<Rightarrow> world \<Rightarrow> tgroup \<times> world \<times> string res"
where
  "tg_spawn status f call name t g w =
     (if \<not> tg_active g then (g, w, Inl not_active_group)
      else
        let parent = (if status then current w else sc_host (scopes w (tg_scope g))) in
        case call of
          Inl e \<Rightarrow> (g, w, Inl e)
        | Inr (Some r) \<Rightarrow> (g, w, Inl (not_a_coroutine f r))
        | Inr None \<Rightarrow>
            (g\<lparr>tg_tasks := set_add t (tg_tasks g)\<rparr>,
             (upd (tg_scope g) (\<lambda>sc. sc\<lparr>sc_tasks := set_add t (sc_tasks sc)\<rparr>) w)
               \<lparr>atasks := (atasks w)(t := task_idle),
                task_states := (task_states w)(t := Some \<lparr>ts_parent_id = parent, ts_scope = Some (tg_scope g)\<rparr>)\<rparr>,
             Inr (case name of None \<Rightarrow> get_callable_name f | Some n \<Rightarrow> n)))"

definition tg_start_soon ::
  "callable \<Rightarrow> string option res \<Rightarrow> string option \<Rightarrow> task \<Rightarrow> tgroup \<Rightarrow> world \<Rightarrow> tgroup \<times> world \<times> unit res"
where
  "tg_start_soon f call name t g w =
     (case tg_spawn False f call name t g w of
        (g', w', Inl e) \<Rightarrow> (g', w', Inl e) | (g', w', Inr _) \<Rightarrow> (g', w', Inr ()))"

section \<open>When a task ends\<close>

text \<open>The loop over \<open>__context__\<close> in \<open>task_done\<close>.\<close>

fun innermost :: "exn \<Rightarrow> exn" where
  "innermost (CancelledError m (Some (CancelledError m' c))) = innermost (CancelledError m' c)"
| "innermost e = e"

definition exited_early :: exn where
  "exited_early = RuntimeError ''Child exited without calling task_status.started()''"

text \<open>
  \<open>task_done\<close>: first the bookkeeping (a missing entry raises), then what the outcome means for
  the future of \<open>start\<close> and for the group.
\<close>

definition tg_forget :: "task \<Rightarrow> tgroup \<Rightarrow> world \<Rightarrow> tgroup \<times> world \<times> unit res" where
  "tg_forget t g w =
     (case task_states w t of
        None \<Rightarrow> (g, w, Inl KeyError)
      | Some ts \<Rightarrow>
          (case ts_scope ts of
             None \<Rightarrow> (g, w, Inl AssertionError)
           | Some s \<Rightarrow>
               if t \<notin> set (sc_tasks (scopes w s)) then (g, w, Inl AssertionError)
               else
                 let w1 = upd s (\<lambda>sc. sc\<lparr>sc_tasks := removeAll t (sc_tasks sc)\<rparr>) w in
                 if t \<notin> set (tg_tasks g) then (g, w1, Inl KeyError)
                 else (g\<lparr>tg_tasks := removeAll t (tg_tasks g)\<rparr>,
                       w1\<lparr>task_states := (task_states w1)(t := None)\<rparr>, Inr ())))"

definition tg_outcome ::
  "exn option \<Rightarrow> 'v future option \<Rightarrow> tgroup \<Rightarrow> world \<Rightarrow> tgroup \<times> world \<times> 'v future option"
where
  "tg_outcome out fut g w =
     (case map_option innermost out of
        Some e \<Rightarrow>
          (case fut of
             Some f \<Rightarrow>
               if fut_cancelled f then (g, w, fut)
               else if fut_done f then
                 (g\<lparr>tg_exceptions := tg_exceptions g @ (if is_cancelled e then [] else [e])\<rparr>,
                  if effectively_cancelled (scopes w) (tg_scope g) then w else scope_cancel (tg_scope g) w, fut)
               else (g, w, Some (FFailed e))
           | None \<Rightarrow>
               (g\<lparr>tg_exceptions := tg_exceptions g @ (if is_cancelled e then [] else [e])\<rparr>,
                if effectively_cancelled (scopes w) (tg_scope g) then w else scope_cancel (tg_scope g) w, fut))
      | None \<Rightarrow>
          (g, w, case fut of Some f \<Rightarrow> Some (if fut_done f then f else FFailed exited_early) | None \<Rightarrow> None))"

definition tg_task_done ::
  "task \<Rightarrow> exn option \<Rightarrow> 'v future option \<Rightarrow> tgroup \<Rightarrow> world \<Rightarrow> tgroup \<times> world \<times> 'v future option \<times> unit res"
where
  "tg_task_done t out fut g w =
     (case tg_forget t g w of
        (g', w', Inl e) \<Rightarrow> (g', w', fut, Inl e)
      | (g', w', Inr _) \<Rightarrow> (case tg_outcome out fut g' w' of (g'', w'', fut') \<Rightarrow> (g'', w'', fut', Inr ())))"

section \<open>Starting a task and waiting for it\<close>

definition started_twice :: exn where
  "started_twice = RuntimeError ''called 'started' twice on the same task status''"

text \<open>\<open>task_status.started(value)\<close>, called by the current task; \<open>parent\<close> is the group's host.\<close>

definition status_started ::
  "'v \<Rightarrow> task option \<Rightarrow> 'v future \<Rightarrow> world \<Rightarrow> 'v future \<times> world \<times> unit res"
where
  "status_started v parent fut w =
     (if fut_done fut \<and> \<not> fut_cancelled fut then (fut, w, Inl started_twice)
      else
        let fut' = (case fut_set_result fut v of Inr f \<Rightarrow> f | Inl _ \<Rightarrow> fut) in
        case current w of
          None \<Rightarrow> (fut', w, Inl (TypeError ''cannot create weak reference to 'NoneType' object''))
        | Some t \<Rightarrow>
            (case task_states w t of
               None \<Rightarrow> (fut', w, Inl KeyError)
             | Some ts \<Rightarrow>
                 (fut', w\<lparr>task_states := (task_states w)(t := Some (ts\<lparr>ts_parent_id := parent\<rparr>))\<rparr>, Inr ())))"

text \<open>
  \<open>start\<close>: suspended on the future, then, if that is interrupted, on the cancelled child inside a
  shielded scope. The child's state is \<open>None\<close> while it runs. \<open>suppress(CancelledError)\<close> is that
  of Python before 3.12, which does not look into groups.
\<close>

datatype start_pc = StartFuture task | StartJoin nat exn

definition tg_start_begin ::
  "callable \<Rightarrow> string option res \<Rightarrow> string option \<Rightarrow> task \<Rightarrow> tgroup \<Rightarrow> world
     \<Rightarrow> tgroup \<times> world \<times> (start_pc, 'v) outcome"
where
  "tg_start_begin f call name t g w =
     (case tg_spawn True f call name t g w of
        (g', w', Inl e) \<Rightarrow> (g', w', Raised e) | (g', w', Inr _) \<Rightarrow> (g', w', Suspended (StartFuture t)))"

definition tg_start_join :: "nat \<Rightarrow> exn \<Rightarrow> unit awaited \<Rightarrow> world \<Rightarrow> world \<times> (start_pc, 'v) outcome" where
  "tg_start_join s e r w =
     (let exc = (case r of Resumed _ \<Rightarrow> None | Thrown x \<Rightarrow> if is_cancelled x then None else Some x) in
      case scope_exit s exc w of
        (w', Inl err) \<Rightarrow> (w', Raised err)
      | (w', Inr sw) \<Rightarrow> (w', case exc of Some x \<Rightarrow> Raised (if sw then e else x) | None \<Rightarrow> Raised e))"

definition tg_start_resume ::
  "task \<Rightarrow> task \<Rightarrow> unit awaited option \<Rightarrow> 'v awaited \<Rightarrow> world \<Rightarrow> world \<times> (start_pc, 'v) outcome"
where
  "tg_start_resume host t child r w =
     (case r of
        Resumed v \<Rightarrow> (w, Done v)
      | Thrown e \<Rightarrow>
          if \<not> is_cancelled e then (w, Raised e)
          else
            let w1 = (if child = None then w\<lparr>atasks := (atasks w)(t := task_cancel None (atasks w t))\<rparr> else w) in
            case create_scope PosInf True w1 of
              (w2, s) \<Rightarrow>
                (case scope_enter s host w2 of
                   (w3, Inl err) \<Rightarrow> (w3, Raised err)
                 | (w3, Inr _) \<Rightarrow>
                     (case child of None \<Rightarrow> (w3, Suspended (StartJoin s e)) | Some x \<Rightarrow> tg_start_join s e x w3)))"

section \<open>Leaving the group\<close>

datatype aexit_pc = AexWait nat waitset "exn option" | AexYield nat "exn option"

text \<open>\<open>except BaseException as exc\<close>: the scope may swallow what is raised.\<close>

definition aexit_raise :: "exn \<Rightarrow> tgroup \<Rightarrow> world \<Rightarrow> tgroup \<times> world \<times> (aexit_pc, bool) outcome" where
  "aexit_raise exc g w =
     (case scope_exit (tg_scope g) (Some exc) w of
        (w', Inl e) \<Rightarrow> (g, w', Raised e)
      | (w', Inr sw) \<Rightarrow> (g, w', if sw then Done True else Raised exc))"

definition group_message :: string where
  "group_message = ''unhandled errors in a TaskGroup''"

definition aexit_finish :: "exn option \<Rightarrow> tgroup \<Rightarrow> world \<Rightarrow> tgroup \<times> world \<times> (aexit_pc, bool) outcome" where
  "aexit_finish exc g w =
     (let g' = g\<lparr>tg_active := False\<rparr> in
      if tg_exceptions g \<noteq> [] then aexit_raise (ExcGroup group_message (tg_exceptions g)) g' w
      else case exc of
        Some e \<Rightarrow> aexit_raise e g' w
      | None \<Rightarrow>
          (case scope_exit (tg_scope g) None w of
             (w', Inl e) \<Rightarrow> (g', w', Raised e) | (w', Inr sw) \<Rightarrow> (g', w', Done sw)))"

text \<open>\<open>while self._tasks\<close> inside \<open>with CancelScope() as wait_scope\<close>.\<close>

definition aexit_loop :: "nat \<Rightarrow> exn option \<Rightarrow> tgroup \<Rightarrow> world \<Rightarrow> tgroup \<times> world \<times> (aexit_pc, bool) outcome" where
  "aexit_loop s exc g w =
     (if tg_tasks g \<noteq> [] then (g, w, Suspended (AexWait s (wait_begin (tg_tasks g)) exc))
      else case scope_exit s None w of
        (w', Inl e) \<Rightarrow> aexit_raise e g w'
      | (w', Inr _) \<Rightarrow> aexit_finish exc g w')"

definition tg_aexit_start ::
  "task \<Rightarrow> exn option \<Rightarrow> tgroup \<Rightarrow> world \<Rightarrow> tgroup \<times> world \<times> (aexit_pc, bool) outcome"
where
  "tg_aexit_start t exc g w =
     (let g1 = (case exc of
                  Some e \<Rightarrow> g\<lparr>tg_exceptions := tg_exceptions g @ (if is_cancelled e then [] else [e])\<rparr>
                | None \<Rightarrow> g);
          w1 = (case exc of Some e \<Rightarrow> scope_cancel (tg_scope g) w | None \<Rightarrow> w)
      in case create_scope PosInf (tg_tasks g1 = []) w1 of
           (w2, s) \<Rightarrow>
             (case scope_enter s t w2 of
                (w3, Inl e) \<Rightarrow> aexit_raise e g1 w3
              | (w3, Inr _) \<Rightarrow>
                  if tg_tasks g1 \<noteq> [] then aexit_loop s exc g1 w3
                  else (g1, w3, Suspended (AexYield s exc))))"

text \<open>
  After \<open>_wait\<close>, or after the \<open>sleep(0)\<close> of \<open>cancel_shielded_checkpoint\<close>, whose scope is shielded.
\<close>

fun tg_aexit_resume ::
  "aexit_pc \<Rightarrow> unit awaited \<Rightarrow> tgroup \<Rightarrow> world \<Rightarrow> tgroup \<times> world \<times> (aexit_pc, bool) outcome"
where
  "tg_aexit_resume (AexWait s ws exc) (Resumed _) g w = aexit_loop s exc g w"
| "tg_aexit_resume (AexWait s ws exc) (Thrown e) g w =
     (if is_cancelled e then
        aexit_loop s
          (if (case exc of None \<Rightarrow> True | Some x \<Rightarrow> is_cancelled x \<and> \<not> is_anyio_cancellation e)
           then Some e else exc)
          g (scope_cancel (tg_scope g) (set_shield s True w))
      else case scope_exit s (Some e) w of
        (w', Inl err) \<Rightarrow> aexit_raise err g w'
      | (w', Inr sw) \<Rightarrow> if sw then aexit_finish exc g w' else aexit_raise e g w')"
| "tg_aexit_resume (AexYield s exc) (Resumed _) g w =
     (case scope_exit s None w of
        (w', Inl err) \<Rightarrow> aexit_raise err g w' | (w', Inr _) \<Rightarrow> aexit_finish exc g w')"
| "tg_aexit_resume (AexYield s exc) (Thrown e) g w =
     (case scope_exit s (Some e) w of
        (w', Inl err) \<Rightarrow> aexit_raise err g w'
      | (w', Inr sw) \<Rightarrow> if sw then aexit_finish exc g w' else aexit_raise e g w')"

section \<open>A group and its tasks\<close>

text \<open>
  One group from the end of \<open>__aenter__\<close> on. \<open>futs t\<close> is the future task \<open>t\<close> was started with;
  \<open>spawned\<close>, \<open>finished\<close> (their \<open>task_done\<close> has run) and \<open>failures\<close> (what the block and the
  children raised, cancellations and what went to a \<open>start\<close> left out) are history, and so is
  \<open>raised\<close> (what each child has raised but for cancellations, wherever it went). \<open>GEnv\<close> lets
  everything else change the world in any way. With \<open>strict\<close>, only the block itself and the
  children of the group spawn into it.
\<close>

datatype gphase = InBlock | Leaving aexit_pc | Left "(aexit_pc, bool) outcome"

record 'v gsys =
  gg :: tgroup
  gw :: world
  futs :: "task \<Rightarrow> 'v future option"
  spawned :: "task list"
  finished :: "task list"
  failures :: "exn list"
  raised :: "(task \<times> exn) list"
  gphase :: gphase

datatype 'v gaction =
    GSpawn task bool callable "string option res" "string option" task
  | GDone task "exn option" | GStarted task 'v | GCancelStart task | GExit task "exn option"
  | GResume "unit awaited" | GEnv world

fun leave_to :: "tgroup \<times> world \<times> (aexit_pc, bool) outcome \<Rightarrow> 'v gsys \<Rightarrow> 'v gsys" where
  "leave_to (g, w, Suspended pc) s = s\<lparr>gg := g, gw := w, gphase := Leaving pc\<rparr>"
| "leave_to (g, w, r) s = s\<lparr>gg := g, gw := w, gphase := Left r\<rparr>"

fun may_resume :: "aexit_pc \<Rightarrow> unit awaited \<Rightarrow> bool" where
  "may_resume (AexWait s ws exc) (Resumed _) = (ws_waiter ws = FResult ())"
| "may_resume (AexYield s exc) (Resumed _) = True"
| "may_resume pc (Thrown e) = is_cancelled e"

fun completes :: "task \<Rightarrow> gphase \<Rightarrow> gphase" where
  "completes t (Leaving (AexWait s ws exc)) = Leaving (AexWait s (on_completion t ws) exc)"
| "completes t ph = ph"

definition counted :: "exn option \<Rightarrow> 'v future option \<Rightarrow> exn list" where
  "counted out fut =
     (case out of
        None \<Rightarrow> []
      | Some e \<Rightarrow>
          if is_cancelled e \<or> (case fut of None \<Rightarrow> False | Some f \<Rightarrow> \<not> fut_done f \<or> fut_cancelled f)
          then [] else [e])"

definition raised_by :: "task \<Rightarrow> exn option \<Rightarrow> (task \<times> exn) list" where
  "raised_by t out = (case out of None \<Rightarrow> [] | Some e \<Rightarrow> if is_cancelled e then [] else [(t, e)])"

fun tg_act :: "bool \<Rightarrow> 'v gaction \<Rightarrow> 'v gsys \<Rightarrow> 'v gsys option" where
  "tg_act strict (GSpawn who status f call name t) s =
     (if t \<in> set (spawned s) \<or> (strict \<and> gphase s \<noteq> InBlock \<and> who \<notin> set (tg_tasks (gg s))) then None
      else case tg_spawn status f call name t (gg s) (gw s) of
        (g, w, Inl e) \<Rightarrow> Some (s\<lparr>gg := g, gw := w\<rparr>)
      | (g, w, Inr _) \<Rightarrow>
          Some (s\<lparr>gg := g, gw := w, spawned := spawned s @ [t],
                  futs := (futs s)(t := if status then Some Pending else None)\<rparr>))"
| "tg_act strict (GDone t out) s =
     (if t \<notin> set (tg_tasks (gg s)) then None
      else case tg_task_done t out (futs s t) (gg s) (gw s) of
        (g, w, fut, Inl e) \<Rightarrow> Some (s\<lparr>gg := g, gw := w, gphase := completes t (gphase s)\<rparr>)
      | (g, w, fut, Inr _) \<Rightarrow>
          Some (s\<lparr>gg := g, gw := w, futs := (futs s)(t := fut), finished := finished s @ [t],
                  failures := failures s @ counted out (futs s t), raised := raised s @ raised_by t out,
                  gphase := completes t (gphase s)\<rparr>))"
| "tg_act strict (GStarted t v) s =
     (case futs s t of
        None \<Rightarrow> None
      | Some f \<Rightarrow> (case status_started v (sc_host (scopes (gw s) (tg_scope (gg s)))) f (gw s) of
          (f', w, r) \<Rightarrow> Some (s\<lparr>futs := (futs s)(t := Some f'), gw := w\<rparr>)))"
| "tg_act strict (GCancelStart t) s = Some (s\<lparr>futs := (futs s)(t := map_option fut_cancel (futs s t))\<rparr>)"
| "tg_act strict (GExit t exc) s =
     (if gphase s \<noteq> InBlock then None
      else Some (leave_to (tg_aexit_start t exc (gg s) (gw s)) (s\<lparr>failures := failures s @ counted exc (None :: 'v future option)\<rparr>)))"
| "tg_act strict (GResume r) s =
     (case gphase s of
        Leaving pc \<Rightarrow> if may_resume pc r then Some (leave_to (tg_aexit_resume pc r (gg s) (gw s)) s) else None
      | _ \<Rightarrow> None)"
| "tg_act strict (GEnv w) s = Some (s\<lparr>gw := w\<rparr>)"

definition gsys_new :: "tgroup \<Rightarrow> world \<Rightarrow> 'v gsys" where
  "gsys_new g w = \<lparr>gg = g, gw = w, futs = (\<lambda>_. None), spawned = [], finished = [], failures = [], raised = [],
     gphase = InBlock\<rparr>"

inductive tg_reach :: "bool \<Rightarrow> 'v gsys \<Rightarrow> bool" for strict where
  init: "tg_aenter t (fst (tg_new w0)) (snd (tg_new w0)) = (g, w, Inr ()) \<Longrightarrow> tg_reach strict (gsys_new g w)"
| step: "tg_reach strict s \<Longrightarrow> tg_act strict a s = Some s' \<Longrightarrow> tg_reach strict s'"

fun tg_run :: "bool \<Rightarrow> 'v gaction list \<Rightarrow> 'v gsys \<Rightarrow> 'v gsys option" where
  "tg_run strict [] s = Some s"
| "tg_run strict (a # as) s = (case tg_act strict a s of None \<Rightarrow> None | Some s' \<Rightarrow> tg_run strict as s')"

lemma tg_run_reach: "tg_reach strict s \<Longrightarrow> tg_run strict as s = Some s' \<Longrightarrow> tg_reach strict s'"
  by (induction as arbitrary: s) (auto split: option.splits intro: tg_reach.step)

lemma innermost_cancelled [simp]: "is_cancelled (innermost e) = is_cancelled e"
  by (induction e rule: innermost.induct) (simp_all add: is_cancelled_def)

lemma innermost_other: "\<not> is_cancelled e \<Longrightarrow> innermost e = e"
  by (induction e rule: innermost.induct) (simp_all add: is_cancelled_def)

text \<open>What leaving a group whose tasks raised \<open>es\<close> may give.\<close>

definition scope_misuse :: "exn set" where
  "scope_misuse = {not_active, wrong_task, not_current, KeyError, AssertionError}"

definition reports :: "exn list \<Rightarrow> (aexit_pc, bool) outcome \<Rightarrow> bool" where
  "reports es r \<longleftrightarrow>
     (\<exists>e. r = Raised e \<and> (e = ExcGroup group_message es \<or> e \<in> scope_misuse))
     \<or> (r = Done True \<and> (\<forall>e \<in> set es. \<forall>x \<in> set (iterate_exceptions e). is_cancelled x))"

lemma swallow_loop_count:
  "swallow_loop s es (w, sw, n) = (w', sw', 0) \<Longrightarrow> n = 0 \<and> (\<forall>e \<in> set es. is_cancelled e)"
proof (induction es arbitrary: w sw n)
  case (Cons e es)
  then show ?case by (auto split: if_splits prod.splits)
qed simp

lemma scope_exit_result:
  assumes "scope_exit s (Some e) w = (w', r)"
  shows "(\<exists>x \<in> scope_misuse. r = Inl x) \<or> r = Inr False
    \<or> (r = Inr True \<and> (\<forall>x \<in> set (iterate_exceptions e). is_cancelled x))"
  using assms
  by (auto simp: scope_exit_def exit_body_def exit_unlink_def exit_finish_def Let_def scope_misuse_def
      dest: swallow_loop_count split: if_splits option.splits prod.splits)

lemma aexit_raise_group [simp]: "fst (aexit_raise e g w) = g"
  by (simp add: aexit_raise_def split: prod.split sum.split)

lemma aexit_raise_ends: "snd (snd (aexit_raise e g w)) \<noteq> Suspended pc"
  by (simp add: aexit_raise_def split: prod.split sum.split)

lemma aexit_finish_group [simp]: "fst (aexit_finish exc g w) = g\<lparr>tg_active := False\<rparr>"
  by (simp add: aexit_finish_def Let_def split: prod.split sum.split option.split)

lemma aexit_finish_ends: "snd (snd (aexit_finish exc g w)) \<noteq> Suspended pc"
  by (simp add: aexit_finish_def Let_def aexit_raise_ends split: prod.split sum.split option.split)

lemma aexit_finish_reports:
  "tg_exceptions g \<noteq> [] \<Longrightarrow> reports (tg_exceptions g) (snd (snd (aexit_finish exc g w)))"
  using scope_exit_result [of "tg_scope g" "ExcGroup group_message (tg_exceptions g)" w]
  by (auto simp: aexit_finish_def Let_def aexit_raise_def reports_def split: prod.splits sum.splits)

text \<open>The three ways a step of \<open>__aexit__\<close> can end: misuse of a scope, waiting, finishing.\<close>

definition aexit_ends :: "bool \<Rightarrow> tgroup \<Rightarrow> tgroup \<times> world \<times> (aexit_pc, bool) outcome \<Rightarrow> bool" where
  "aexit_ends strict g = (\<lambda>(g', w', r).
     (g' = g \<and> (\<forall>pc. r \<noteq> Suspended pc))
     \<or> (g' = g \<and> (\<exists>s ws exc. r = Suspended (AexWait s ws exc)))
     \<or> (g' = g\<lparr>tg_active := False\<rparr> \<and> (strict \<longrightarrow> tg_tasks g = []) \<and> (\<forall>pc. r \<noteq> Suspended pc)
        \<and> (tg_exceptions g \<noteq> [] \<longrightarrow> reports (tg_exceptions g) r)))"

lemma aexit_ends_raise [simp]: "aexit_ends strict g (aexit_raise e g w)"
  using aexit_raise_ends [of e g w] aexit_raise_group [of e g w]
  by (cases "aexit_raise e g w") (auto simp: aexit_ends_def)

lemma aexit_ends_finish [simp]: "strict \<longrightarrow> tg_tasks g = [] \<Longrightarrow> aexit_ends strict g (aexit_finish exc g w)"
  using aexit_finish_ends [of exc g w] aexit_finish_group [of exc g w] aexit_finish_reports [of g exc w]
  by (cases "aexit_finish exc g w") (auto simp: aexit_ends_def)

lemma aexit_ends_wait [simp]: "aexit_ends strict g (g, w, Suspended (AexWait s ws exc))"
  by (simp add: aexit_ends_def)

lemma aexit_ends_loop [simp]: "aexit_ends strict g (aexit_loop s exc g w)"
  by (simp add: aexit_loop_def split: prod.split sum.split)

lemma aexit_ends_resume:
  assumes "may_resume pc r" "\<And>s exc. pc = AexYield s exc \<Longrightarrow> strict \<longrightarrow> tg_tasks g = []"
  shows "aexit_ends strict g (tg_aexit_resume pc r g w)"
proof (cases pc)
  case (AexWait s ws exc)
  then show ?thesis using assms(1) by (cases r) simp_all
next
  case (AexYield s exc)
  then show ?thesis using assms(2) by (cases r) (auto split: prod.split sum.split)
qed

lemma tg_aexit_start_cases:
  fixes v :: "'v future option"
  defines "g' \<equiv> \<lambda>g exc. g\<lparr>tg_exceptions := tg_exceptions g @ counted exc (None :: 'v future option)\<rparr>"
  shows "aexit_ends strict (g' g exc) (tg_aexit_start t exc g w)
    \<or> (\<exists>w' x. tg_aexit_start t exc g w = (g' g exc, w', Suspended (AexYield x exc)) \<and> tg_tasks (g' g exc) = [])"
proof -
  have "(case exc of Some e \<Rightarrow> g\<lparr>tg_exceptions := tg_exceptions g @ (if is_cancelled e then [] else [e])\<rparr> | None \<Rightarrow> g)
      = g' g exc"
    by (simp add: g'_def counted_def split: option.split)
  then show ?thesis
    by (auto simp: tg_aexit_start_def Let_def g'_def split: prod.split sum.split)
qed

section \<open>The invariant\<close>

text \<open>The group accounts for every task and every failure.\<close>

definition tg_ok :: "bool \<Rightarrow> 'v gsys \<Rightarrow> bool" where
  "tg_ok strict s \<longleftrightarrow>
     set (spawned s) = set (tg_tasks (gg s)) \<union> set (finished s)
   \<and> tg_exceptions (gg s) = failures s
   \<and> (\<forall>t f. futs s t = Some f \<longrightarrow> t \<in> set (spawned s))
   \<and> (\<forall>t \<in> set (finished s). \<forall>f. futs s t = Some f \<longrightarrow> fut_done f)
   \<and> (gphase s = InBlock \<longrightarrow> tg_active (gg s))
   \<and> (strict \<longrightarrow> (\<forall>x exc. gphase s = Leaving (AexYield x exc) \<longrightarrow> tg_tasks (gg s) = [])
       \<and> (\<not> tg_active (gg s) \<longrightarrow> tg_tasks (gg s) = [] \<and>
            (\<exists>r. gphase s = Left r \<and> (failures s \<noteq> [] \<longrightarrow> reports (failures s) r))))"

lemma completes_left [simp]:
  "completes t ph = InBlock \<longleftrightarrow> ph = InBlock" "completes t ph = Left r \<longleftrightarrow> ph = Left r"
  "completes t ph = Leaving (AexYield x e) \<longleftrightarrow> ph = Leaving (AexYield x e)"
  by (cases "(t, ph)" rule: completes.cases; simp)+

lemma tg_okD:
  assumes "tg_ok strict s"
  shows "set (spawned s) = set (tg_tasks (gg s)) \<union> set (finished s)"
    "tg_exceptions (gg s) = failures s"
    "futs s t = Some f \<Longrightarrow> t \<in> set (spawned s)"
    "t \<in> set (finished s) \<Longrightarrow> futs s t = Some f \<Longrightarrow> fut_done f"
    "gphase s = InBlock \<Longrightarrow> tg_active (gg s)"
    "strict \<Longrightarrow> gphase s = Leaving (AexYield x exc) \<Longrightarrow> tg_tasks (gg s) = []"
    "strict \<Longrightarrow> \<not> tg_active (gg s) \<Longrightarrow> tg_tasks (gg s) = [] \<and>
        (\<exists>r. gphase s = Left r \<and> (failures s \<noteq> [] \<longrightarrow> reports (failures s) r))"
  using assms unfolding tg_ok_def by blast+

lemma tg_okI:
  assumes "set (spawned s) = set (tg_tasks (gg s)) \<union> set (finished s)" "tg_exceptions (gg s) = failures s"
    "\<And>t f. futs s t = Some f \<Longrightarrow> t \<in> set (spawned s)"
    "\<And>t f. futs s t = Some f \<Longrightarrow> t \<in> set (finished s) \<Longrightarrow> fut_done f"
    "gphase s = InBlock \<Longrightarrow> tg_active (gg s)"
    "\<And>x exc. strict \<Longrightarrow> gphase s = Leaving (AexYield x exc) \<Longrightarrow> tg_tasks (gg s) = []"
    "strict \<Longrightarrow> \<not> tg_active (gg s) \<Longrightarrow> tg_tasks (gg s) = [] \<and>
        (\<exists>r. gphase s = Left r \<and> (failures s \<noteq> [] \<longrightarrow> reports (failures s) r))"
  shows "tg_ok strict s"
  using assms unfolding tg_ok_def by blast

lemma tg_ok_same:
  assumes "tg_ok strict s" "gg s' = gg s" "futs s' = futs s" "spawned s' = spawned s"
    "finished s' = finished s" "failures s' = failures s" "gphase s' = completes t (gphase s) \<or> gphase s' = gphase s"
  shows "tg_ok strict s'"
proof -
  have "tg_ok strict s' = tg_ok strict s"
    using assms(7) by (rule disjE) (simp_all add: tg_ok_def assms(2-6))
  with assms(1) show ?thesis by simp
qed

lemma tg_forget_cases:
  "tg_forget t g w = (g', w', r) \<Longrightarrow> t \<in> set (tg_tasks g) \<Longrightarrow>
     (r = Inr () \<and> g' = g\<lparr>tg_tasks := removeAll t (tg_tasks g)\<rparr>) \<or> (\<exists>e. r = Inl e \<and> g' = g)"
  by (auto simp: tg_forget_def Let_def split: option.splits if_splits)

lemma tg_outcome_cases:
  "tg_outcome out fut g w = (g', w', fut') \<Longrightarrow>
     g' = g\<lparr>tg_exceptions := tg_exceptions g @ counted out fut\<rparr>
     \<and> (case fut of None \<Rightarrow> fut' = None | Some f \<Rightarrow> \<exists>f'. fut' = Some f' \<and> fut_done f')"
  by (auto simp: tg_outcome_def counted_def innermost_other fut_cancelled_done split: option.splits if_splits)

lemma tg_task_done_cases:
  assumes "tg_task_done t out fut g w = (g', w', fut', r)" "t \<in> set (tg_tasks g)"
  shows "(\<exists>e. r = Inl e \<and> g' = g \<and> fut' = fut)
    \<or> (r = Inr () \<and> (case fut of None \<Rightarrow> fut' = None | Some f \<Rightarrow> \<exists>f'. fut' = Some f' \<and> fut_done f')
       \<and> g' = g\<lparr>tg_tasks := removeAll t (tg_tasks g), tg_exceptions := tg_exceptions g @ counted out fut\<rparr>)"
proof -
  obtain g1 w1 r1 where f: "tg_forget t g w = (g1, w1, r1)" by (metis prod_cases3)
  obtain g2 w2 f2 where u: "tg_outcome out fut g1 w1 = (g2, w2, f2)" by (metis prod_cases3)
  show ?thesis
    using assms(1) f u tg_forget_cases [OF f assms(2)] tg_outcome_cases [OF u]
    by (auto simp: tg_task_done_def split: option.splits)
qed

lemma tg_spawn_cases:
  "tg_spawn status f call name t g w = (g', w', r) \<Longrightarrow>
     (\<exists>e. r = Inl e \<and> g' = g) \<or>
     (tg_active g \<and> (\<exists>n. r = Inr n) \<and> g' = g\<lparr>tg_tasks := set_add t (tg_tasks g)\<rparr>)"
  by (auto simp: tg_spawn_def Let_def split: if_splits sum.splits option.splits)

lemma status_started_done:
  "status_started v p f w = (f', w', r) \<Longrightarrow> fut_done f'"
  by (auto simp: status_started_def Let_def fut_set_result_def fut_cancelled_done
      split: if_splits option.splits sum.splits)

lemma set_set_add [simp]: "set (set_add x xs) = insert x (set xs)"
  by (auto simp: set_add_def)

lemma leave_to_fields [simp]:
  "gg (leave_to (g, w, r) s) = g" "futs (leave_to (g, w, r) s) = futs s"
  "spawned (leave_to (g, w, r) s) = spawned s" "finished (leave_to (g, w, r) s) = finished s"
  "failures (leave_to (g, w, r) s) = failures s"
  "gphase (leave_to (g, w, r) s) = (case r of Suspended pc \<Rightarrow> Leaving pc | _ \<Rightarrow> Left r)"
  by (cases r; simp)+

lemma tg_ok_settle:
  assumes "tg_ok strict s" "futs s t = Some f" "fut_done f'"
  shows "tg_ok strict (s\<lparr>futs := (futs s)(t := Some f'), gw := w\<rparr>)"
proof -
  note k = tg_okD [OF assms(1)]
  have A: "x \<in> set (spawned s)" "x \<in> set (finished s) \<Longrightarrow> fut_done y"
    if "((futs s)(t := Some f')) x = Some y" for x y
    using that k(3,4) assms(2,3) by (auto split: if_splits)
  show ?thesis
  proof (rule tg_okI, goal_cases)
    case (3 x y) then show ?case using A(1) [of x y] by simp
  next
    case (4 x y) then show ?case using A(2) [of x y] by simp
  qed (use k(1,2,5) k(6,7) in simp_all)
qed

lemma tg_ok_leave:
  assumes "aexit_ends strict g res" "tg_ok strict (s\<lparr>gg := g, gphase := gphase s\<rparr>)" "gphase s = InBlock \<or> (\<exists>pc. gphase s = Leaving pc)"
  shows "tg_ok strict (leave_to res s)"
proof -
  obtain g' w' r where res: "res = (g', w', r)" by (metis prod_cases3)
  have base: "set (spawned s) = set (tg_tasks g) \<union> set (finished s)" "tg_exceptions g = failures s"
    "\<forall>t f. futs s t = Some f \<longrightarrow> t \<in> set (spawned s)"
    "\<forall>t \<in> set (finished s). \<forall>f. futs s t = Some f \<longrightarrow> fut_done f" "strict \<longrightarrow> tg_active g"
    using assms(2,3) unfolding tg_ok_def by auto
  from assms(1) consider
      (ended) "g' = g" "\<forall>pc. r \<noteq> Suspended pc"
    | (waits) x ws exc where "g' = g" "r = Suspended (AexWait x ws exc)"
    | (finished) "g' = g\<lparr>tg_active := False\<rparr>" "strict \<longrightarrow> tg_tasks g = []" "\<forall>pc. r \<noteq> Suspended pc"
        "tg_exceptions g \<noteq> [] \<longrightarrow> reports (tg_exceptions g) r"
    unfolding res aexit_ends_def by blast
  then show ?thesis
  proof cases
    case ended
    then show ?thesis using base by (cases r) (simp_all add: tg_ok_def res)
  next
    case waits
    then show ?thesis using base by (simp add: tg_ok_def res)
  next
    case finished
    then show ?thesis using base by (cases r) (simp_all add: tg_ok_def res)
  qed
qed

lemma tg_ok_act:
  fixes s s' :: "'v gsys"
  shows "tg_ok strict s \<Longrightarrow> tg_act strict a s = Some s' \<Longrightarrow> tg_ok strict s'"
proof (induction strict a s rule: tg_act.induct)
  case (1 strict who status f call name t s)
  note ok = "1.prems"(1)
  obtain g w r where sp: "tg_spawn status f call name t (gg s) (gw s) = (g, w, r)" by (metis prod_cases3)
  from tg_spawn_cases [OF sp] show ?case
  proof
    assume "\<exists>e. r = Inl e \<and> g = gg s"
    then have "s' = s\<lparr>gg := gg s, gw := w\<rparr>" using "1.prems"(2) sp by (auto split: if_splits)
    then show ?case by (intro tg_ok_same [OF ok, where t = t]) simp_all
  next
    assume c: "tg_active (gg s) \<and> (\<exists>n. r = Inr n) \<and> g = (gg s)\<lparr>tg_tasks := set_add t (tg_tasks (gg s))\<rparr>"
    then have s': "s' = s\<lparr>gg := g, gw := w, spawned := spawned s @ [t], futs := (futs s)(t := if status then Some Pending else None)\<rparr>"
      and new: "t \<notin> set (spawned s)" "\<not> (strict \<and> gphase s \<noteq> InBlock \<and> who \<notin> set (tg_tasks (gg s)))"
      using "1.prems"(2) sp by (auto split: if_splits)
    from new(1) ok have nf: "t \<notin> set (finished s)" by (auto simp: tg_ok_def)
    note k = tg_okD [OF ok]
    have strict_yield: "strict \<Longrightarrow> \<nexists>x exc. gphase s = Leaving (AexYield x exc)"
      using new(2) k(6) by fastforce
    have "set (spawned s @ [t]) = set (tg_tasks g) \<union> set (finished s)" using c k(1) by auto
    moreover have "tg_exceptions g = failures s" "tg_active g" using c k(2) by simp_all
    moreover have "\<forall>x f. (if x = t then if status then Some Pending else None else futs s x) = Some f
        \<longrightarrow> x \<in> set (tg_tasks g) \<or> x \<in> set (finished s)" using k(1,3) c by (auto split: if_splits)
    moreover have "\<forall>x \<in> set (finished s). \<forall>f. (if x = t then if status then Some Pending else None else futs s x) = Some f
        \<longrightarrow> fut_done f" using k(4) nf by auto
    ultimately show ?case using strict_yield unfolding s' tg_ok_def by simp
  qed
next
  case (2 strict t out s)
  note ok = "2.prems"(1)
  obtain g w fut r where d: "tg_task_done t out (futs s t) (gg s) (gw s) = (g, w, fut, r)" by (metis prod_cases4)
  have t: "t \<in> set (tg_tasks (gg s))" using "2.prems"(2) by (auto split: if_splits)
  have act: "strict \<longrightarrow> tg_active (gg s)" using ok t by (auto simp: tg_ok_def)
  from tg_task_done_cases [OF d t] show ?case
  proof
    assume "\<exists>e. r = Inl e \<and> g = gg s \<and> fut = futs s t"
    then have "s' = s\<lparr>gg := gg s, gw := w, gphase := completes t (gphase s)\<rparr>" using "2.prems"(2) t d by auto
    then show ?case by (intro tg_ok_same [OF ok, where t = t]) simp_all
  next
    assume c: "r = Inr () \<and> (case futs s t of None \<Rightarrow> fut = None | Some f \<Rightarrow> \<exists>f'. fut = Some f' \<and> fut_done f')
      \<and> g = (gg s)\<lparr>tg_tasks := removeAll t (tg_tasks (gg s)), tg_exceptions := tg_exceptions (gg s) @ counted out (futs s t)\<rparr>"
    then have s': "s' = s\<lparr>gg := g, gw := w, futs := (futs s)(t := fut), finished := finished s @ [t],
        failures := failures s @ counted out (futs s t), raised := raised s @ raised_by t out,
        gphase := completes t (gphase s)\<rparr>"
      using "2.prems"(2) t d by auto
    have fd: "\<forall>f. fut = Some f \<longrightarrow> fut_done f" "fut \<noteq> None \<longrightarrow> futs s t \<noteq> None"
      using c by (auto split: option.splits)
    note k = tg_okD [OF ok]
    have A: "x \<in> set (spawned s)" "x \<in> set (finished s @ [t]) \<Longrightarrow> fut_done f"
      if "((futs s)(t := fut)) x = Some f" for x f
      using that k(3,4) fd by (auto split: if_splits)
    have B: "set (spawned s) = set (tg_tasks g) \<union> set (finished s @ [t])"
      "tg_exceptions g = failures s @ counted out (futs s t)" "tg_active g = tg_active (gg s)"
      using c k(1,2) t by auto
    have C: "strict \<Longrightarrow> gphase s \<noteq> Leaving (AexYield x exc)" for x exc using k(6) t by force
    show ?case unfolding s'
    proof (rule tg_okI, goal_cases)
      case 1 then show ?case using B(1) by simp
    next
      case 2 then show ?case using B(2) by simp
    next
      case (3 x f) then show ?case using A(1) [of x f] by simp
    next
      case (4 x f) then show ?case using A(2) [of x f] by simp
    next
      case 5 then show ?case using B(3) k(5) by simp
    next
      case (6 x exc) then show ?case using C [of x exc] by simp
    next
      case 7 then show ?case using B(3) act by simp
    qed
  qed
next
  case (3 strict t v s)
  obtain f f' w r where f: "futs s t = Some f"
    and st: "status_started v (sc_host (scopes (gw s) (tg_scope (gg s)))) f (gw s) = (f', w, r)"
    and s': "s' = s\<lparr>futs := (futs s)(t := Some f'), gw := w\<rparr>"
    using "3.prems"(2) by (auto split: option.splits prod.splits)
  show ?case unfolding s'
    by (rule tg_ok_settle [OF "3.prems"(1) f]) (use status_started_done [OF st] in simp_all)
next
  case (4 strict t s)
  show ?case
  proof (cases "futs s t")
    case None
    then have "s' = s\<lparr>futs := futs s\<rparr>" using "4.prems"(2) by (simp add: fun_upd_idem)
    then show ?thesis by (intro tg_ok_same [OF "4.prems"(1)]) auto
  next
    case (Some f)
    then have s': "s' = s\<lparr>futs := (futs s)(t := Some (fut_cancel f)), gw := gw s\<rparr>" using "4.prems"(2) by (cases s) auto
    have "fut_done (fut_cancel f)" by (simp add: fut_cancel_def)
    then show ?thesis unfolding s' by (rule tg_ok_settle [OF "4.prems"(1) Some])
  qed
next
  case (5 strict t exc s)
  note ok = "5.prems"(1)
  define g where "g = (gg s)\<lparr>tg_exceptions := tg_exceptions (gg s) @ counted exc (None :: 'v future option)\<rparr>"
  define s1 where "s1 = s\<lparr>failures := failures s @ counted exc (None :: 'v future option)\<rparr>"
  have ph: "gphase s = InBlock" and s': "s' = leave_to (tg_aexit_start t exc (gg s) (gw s)) s1"
    using "5.prems"(2) by (auto simp: s1_def split: if_splits)
  note k = tg_okD [OF ok]
  have act: "tg_active (gg s)" by (rule k(5) [OF ph])
  have ok1: "tg_ok strict (s1\<lparr>gg := g, gphase := gphase s1\<rparr>)"
    by (rule tg_okI) (use k ph act in \<open>simp_all add: s1_def g_def\<close>)
  have "aexit_ends strict g (tg_aexit_start t exc (gg s) (gw s))
    \<or> (\<exists>w x. tg_aexit_start t exc (gg s) (gw s) = (g, w, Suspended (AexYield x exc)) \<and> tg_tasks g = [])"
    unfolding g_def by (rule tg_aexit_start_cases)
  then show ?case
  proof
    assume "aexit_ends strict g (tg_aexit_start t exc (gg s) (gw s))"
    from tg_ok_leave [OF this ok1] show ?case unfolding s' using ph by (simp add: s1_def)
  next
    assume "\<exists>w x. tg_aexit_start t exc (gg s) (gw s) = (g, w, Suspended (AexYield x exc)) \<and> tg_tasks g = []"
    then obtain w x where e: "tg_aexit_start t exc (gg s) (gw s) = (g, w, Suspended (AexYield x exc))"
      "tg_tasks g = []" by blast
    note k1 = tg_okD [OF ok1, simplified]
    show ?case unfolding s' e by (rule tg_okI) (use k1 act e(2) in \<open>simp_all add: s1_def g_def\<close>)
  qed
next
  case (6 strict r s)
  note ok = "6.prems"(1)
  obtain pc where ph: "gphase s = Leaving pc" and may: "may_resume pc r"
    and s': "s' = leave_to (tg_aexit_resume pc r (gg s) (gw s)) s"
    using "6.prems"(2) by (auto split: gphase.splits if_splits)
  have "aexit_ends strict (gg s) (tg_aexit_resume pc r (gg s) (gw s))"
    using tg_okD(6) [OF ok] ph by (intro aexit_ends_resume [OF may]) auto
  moreover have "s\<lparr>gg := gg s, gphase := gphase s\<rparr> = s" by simp
  ultimately show ?case unfolding s' using tg_ok_leave [of strict "gg s" _ s] ok ph by metis
next
  case (7 strict w s)
  then show ?case by (intro tg_ok_same [OF "7.prems"(1)]) auto
qed

lemma tg_ok_init:
  "tg_aenter t (fst (tg_new w0)) (snd (tg_new w0)) = (g, w, Inr ()) \<Longrightarrow> tg_ok strict (gsys_new g w)"
  by (auto simp: tg_aenter_def tg_new_def tg_ok_def gsys_new_def split: prod.splits sum.splits)

lemma tg_reach_ok: "tg_reach strict s \<Longrightarrow> tg_ok strict s"
proof (induction rule: tg_reach.induct)
  case (init t w0 g w)
  then show ?case by (rule tg_ok_init)
next
  case (step s a s')
  then show ?case using tg_ok_act by blast
qed







lemma raised_leave_to [simp]: "raised (leave_to (g, w, r) s) = raised s"
  by (cases r) simp_all




section \<open>Properties\<close>

text \<open>
  C4: No child outlives its group: once the group is inactive again, every task ever spawned into
  it has ended and its \<open>task_done\<close> has run, provided only the block and the group's own children
  spawn into it.
\<close>

theorem group_outlives_children:
  assumes "tg_reach True s" "\<not> tg_active (gg s)"
  shows "tg_tasks (gg s) = [] \<and> set (spawned s) = set (finished s)"
  using tg_okD(1,7) [OF tg_reach_ok [OF assms(1)]] assms(2) by simp

abbreviation a_callable :: callable where
  "a_callable \<equiv> \<lparr>c_module = Some ''app'', c_qualname = Some ''child''\<rparr>"

abbreviation group_world :: world where
  "group_world \<equiv> (world_new True 0)\<lparr>current := Some 0\<rparr>"

definition group_start :: "nat gsys" where
  "group_start = (case tg_aenter 0 (fst (tg_new group_world)) (snd (tg_new group_world)) of
     (g, w, _) \<Rightarrow> gsys_new g w)"

lemmas tg_run_simps = group_start_def tg_aenter_def tg_new_def create_scope_def world_new_def scope_new_def
  scope_enter_def link_parent_def enter_start_def scope_timeout_def upd_def set_add_def gsys_new_def
  tg_spawn_def tg_aexit_start_def aexit_loop_def aexit_finish_def aexit_raise_def tg_task_done_def
  tg_forget_def tg_outcome_def on_completion_def wait_begin_def task_idle_def get_callable_name_def
  scope_exit_def exit_body_def exit_unlink_def exit_finish_def exit_undo_def effectively_cancelled_def
  eff_loop.simps uncancel_def parent_visible_def restart_in_parent_def is_cancelled_def counted_def
  restart_loop.simps Let_def

lemma group_start_reach: "tg_reach strict group_start"
proof -
  obtain g w r where e: "tg_aenter 0 (fst (tg_new group_world)) (snd (tg_new group_world)) = (g, w, r)"
    by (metis prod_cases3)
  moreover from e have "r = Inr ()" by (auto simp: tg_run_simps)
  ultimately show ?thesis by (auto simp: group_start_def intro: tg_reach.init)
qed

abbreviation group_run :: "nat gaction list" where
  "group_run \<equiv> [GSpawn 0 False a_callable (Inr None) None 1, GExit 0 None, GDone 1 None, GResume (Resumed ())]"

lemma group_run_result:
  "\<exists>s. tg_run True group_run group_start = Some s \<and> \<not> tg_active (gg s) \<and> spawned s = [1]"
  by (simp add: tg_run_simps)

theorem group_outlives_children_witness:
  "\<exists>s. tg_run True group_run group_start = Some s \<and> set (finished s) = {1}"
proof -
  from group_run_result obtain s where s: "tg_run True group_run group_start = Some s"
    "\<not> tg_active (gg s)" "spawned s = [1]" by blast
  from group_outlives_children [OF tg_run_reach [OF group_start_reach s(1)] s(2)] s show ?thesis by auto
qed


text \<open>A child that fails before its \<open>start\<close> was answered makes that call fail, and not the group.\<close>

lemma start_takes_failure:
  "\<exists>s. tg_run True [GSpawn 0 True a_callable (Inr None) None 1, GDone 1 (Some (UserException 5)), GExit 0 None,
      GResume (Resumed ())] group_start = Some s \<and>
     raised s = [(1, UserException 5)] \<and> failures s = [] \<and> futs s 1 = Some (FFailed (UserException 5)) \<and>
     gphase s = Left (Done False)"
  by (simp add: tg_run_simps cs_run_simps iterate_leaf raised_by_def)




lemma scope_cancel_effective: "effectively_cancelled (scopes (scope_cancel s w)) s"
  by (rule called_effective [OF scope_cancel_called])

text \<open>
  A failing child cancels its group: after \<open>task_done\<close> of a task that ended with an exception
  (a cancellation included) and whose \<open>start\<close> is not waiting any more, the scope of the group is
  effectively cancelled.
\<close>

theorem child_failure_cancels:
  assumes "tg_task_done t (Some e) fut g w = (g', w', fut', Inr ())"
    and "case fut of None \<Rightarrow> True | Some f \<Rightarrow> fut_done f \<and> \<not> fut_cancelled f"
  shows "effectively_cancelled (scopes w') (tg_scope g')"
proof -
  obtain g1 w1 where "tg_forget t g w = (g1, w1, Inr ())" and u: "tg_outcome (Some e) fut g1 w1 = (g', w', fut')"
    using assms(1) by (auto simp: tg_task_done_def split: prod.splits sum.splits)
  then show ?thesis
    using u assms(2) scope_cancel_effective
    by (auto simp: tg_outcome_def split: option.splits if_splits)
qed

theorem child_failure_cancels_witness:
  "\<exists>s w. tg_run True [GSpawn 0 False a_callable (Inr None) None 1] group_start = Some s
    \<and> fst (snd (tg_task_done 1 (Some KeyError) (None :: nat future option) (gg s) (gw s))) = w \<and> effectively_cancelled (scopes w) 0"
proof -
  have "\<exists>s. tg_run True [GSpawn 0 False a_callable (Inr None) None 1] group_start = Some s
    \<and> snd (snd (snd (tg_task_done 1 (Some KeyError) (None :: nat future option) (gg s) (gw s)))) = Inr ()
    \<and> tg_scope (fst (tg_task_done 1 (Some KeyError) (None :: nat future option) (gg s) (gw s))) = 0"
    by (simp add: tg_run_simps)
  then obtain s where s: "tg_run True [GSpawn 0 False a_callable (Inr None) None 1] group_start = Some s"
    "snd (snd (snd (tg_task_done 1 (Some KeyError) (None :: nat future option) (gg s) (gw s)))) = Inr ()"
    "tg_scope (fst (tg_task_done 1 (Some KeyError) (None :: nat future option) (gg s) (gw s))) = 0" by blast
  obtain g' w' f' r where d: "tg_task_done 1 (Some KeyError) (None :: nat future option) (gg s) (gw s) = (g', w', f', r)"
    by (metis prod_cases4)
  then have r: "r = Inr ()" "tg_scope g' = 0" using s(2,3) by simp_all
  from child_failure_cancels [OF d [unfolded r]] have "effectively_cancelled (scopes w') 0" by (simp add: r)
  with s(1) d show ?thesis by (intro exI conjI) (assumption, simp_all del: tg_run.simps)
qed

text \<open>
  C6: \<open>start()\<close> is always answered: the future of a task that was started with one is settled when
  the task has ended, whether it called \<open>started()\<close>, raised before, or returned without calling it.
\<close>

theorem start_answered:
  assumes "tg_reach strict s" "t \<in> set (finished s)" "futs s t = Some f"
  shows "fut_await f \<noteq> None"
  using tg_okD(4) [OF tg_reach_ok [OF assms(1)] assms(2,3)] by (cases f) simp_all

abbreviation silent_run :: "nat gaction list" where
  "silent_run \<equiv> [GSpawn 0 True a_callable (Inr None) None 1, GDone 1 None]"

theorem start_answered_witness:
  "\<exists>s f. tg_run True silent_run group_start = Some s \<and> futs s 1 = Some f \<and> fut_await f \<noteq> None"
proof -
  have "\<exists>s. tg_run True silent_run group_start = Some s \<and> 1 \<in> set (finished s) \<and> (\<exists>f. futs s 1 = Some f)"
    by (simp add: tg_run_simps)
  then obtain s f where s: "tg_run True silent_run group_start = Some s" "1 \<in> set (finished s)" "futs s 1 = Some f"
    by blast
  from start_answered [OF tg_run_reach [OF group_start_reach s(1)] s(2,3)] s show ?thesis by blast
qed

text \<open>
  A task from outside can leave a child behind: \<open>__aexit__\<close> of a group without children runs one
  checkpoint and then deactivates the group without looking at \<open>_tasks\<close> again, so a task that
  \<open>start_soon\<close> adds during that checkpoint is not waited for.
\<close>

theorem group_orphan:
  "\<exists>s. tg_run False [GExit 0 None, GSpawn 9 False a_callable (Inr None) None 1, GResume (Resumed ())] group_start = Some s
     \<and> gphase s = Left (Done False) \<and> tg_tasks (gg s) = [1] \<and> finished s = []"
  by (simp add: tg_run_simps)

end
