(* ===== verification/SocketStreams.thy ===== *)
theory SocketStreams
  imports Conditions Buffered
begin

text \<open>
  TCP streams of \<open>src/anyio/_backends/_asyncio.py\<close>: \<open>StreamProtocol\<close>, whose callbacks the event loop
  calls, and \<open>SocketStream\<close>, which reads from its queue and writes to the transport.

  The transport is asyncio's: \<open>tr_closing\<close> is \<open>is_closing()\<close>, \<open>tr_written\<close> what \<open>write\<close> was given,
  \<open>tr_write_exc\<close> and \<open>tr_eof_exc\<close> are the exceptions \<open>write\<close> and \<open>write_eof\<close> raise, if any, and
  \<open>tr_full\<close> says that the operating system does not take the data at once, so that \<open>write\<close> calls
  \<open>pause_writing\<close> (the protocol has set the buffer limit to 0). \<open>pause_writing\<close> replaces the write
  event by a new one: the protocol keeps all of them, the last is the current one.
\<close>

section \<open>The protocol\<close>

record sproto =
  read_queue :: "bytes list"
  read_ev :: aevent
  write_evs :: "aevent list"
  proto_exc :: "exn option"
  at_eof :: bool

definition connection_made :: sproto where
  "connection_made = \<lparr>read_queue = [], read_ev = aevent_new, write_evs = [aevent_set aevent_new],
     proto_exc = None, at_eof = False\<rparr>"

definition set_write_event :: "sproto \<Rightarrow> sproto" where
  "set_write_event p = p\<lparr>write_evs := butlast (write_evs p) @ [aevent_set (last (write_evs p))]\<rparr>"

definition connection_lost :: "exn option \<Rightarrow> sproto \<Rightarrow> sproto" where
  "connection_lost exc p =
     set_write_event (p\<lparr>proto_exc := (if exc = None then proto_exc p else Some BrokenResourceError),
                        read_ev := aevent_set (read_ev p)\<rparr>)"

definition data_received :: "bytes \<Rightarrow> sproto \<Rightarrow> sproto" where
  "data_received data p = p\<lparr>read_queue := read_queue p @ [data], read_ev := aevent_set (read_ev p)\<rparr>"

definition eof_received :: "sproto \<Rightarrow> sproto" where
  "eof_received p = p\<lparr>at_eof := True, read_ev := aevent_set (read_ev p)\<rparr>"

definition pause_writing :: "sproto \<Rightarrow> sproto" where
  "pause_writing p = p\<lparr>write_evs := write_evs p @ [aevent_new]\<rparr>"

definition resume_writing :: "sproto \<Rightarrow> sproto" where
  "resume_writing p = set_write_event p"

section \<open>The stream\<close>

record transport =
  tr_closing :: bool
  tr_reading :: bool
  tr_written :: bytes
  tr_eof :: bool
  tr_aborted :: bool
  tr_full :: bool
  tr_write_exc :: "exn option"
  tr_eof_exc :: "exn option"

record sstream =
  ss_t :: transport
  ss_p :: sproto
  ss_rguard :: guard
  ss_sguard :: guard
  ss_closed :: bool

definition sstream_new :: "transport \<Rightarrow> sproto \<Rightarrow> sstream" where
  "sstream_new t p = \<lparr>ss_t = t, ss_p = p, ss_rguard = guard_new ''reading from'',
     ss_sguard = guard_new ''writing to'', ss_closed = False\<rparr>"

datatype srcv_pc = SRcvCheckpoint | SRcvWait

definition leave_rguard :: "sstream \<Rightarrow> sstream" where
  "leave_rguard s = s\<lparr>ss_rguard := guard_exit (ss_rguard s)\<rparr>"

definition leave_sguard :: "sstream \<Rightarrow> sstream" where
  "leave_sguard s = s\<lparr>ss_sguard := guard_exit (ss_sguard s)\<rparr>"

text \<open>\<open>receive\<close> up to its first suspension.\<close>

definition sock_receive_start :: "task \<Rightarrow> sstream \<Rightarrow> sstream \<times> (srcv_pc, bytes) outcome" where
  "sock_receive_start t s =
     (case guard_enter (ss_rguard s) of
        (g, Inl e) \<Rightarrow> (s, Raised e)
      | (g, Inr _) \<Rightarrow>
          let s1 = s\<lparr>ss_rguard := g\<rparr> in
          if \<not> ev_flag (read_ev (ss_p s)) \<and> \<not> tr_closing (ss_t s) \<and> \<not> at_eof (ss_p s) then
            (s1\<lparr>ss_t := (ss_t s1)\<lparr>tr_reading := True\<rparr>,
                ss_p := (ss_p s1)\<lparr>read_ev := fst (aevent_wait_start t (read_ev (ss_p s1)))\<rparr>\<rparr>,
             Suspended SRcvWait)
          else (s1, Suspended SRcvCheckpoint))"

text \<open>From \<open>popleft\<close> to the end.\<close>

definition sock_take :: "int \<Rightarrow> sstream \<Rightarrow> sstream \<times> bytes res" where
  "sock_take max_bytes s =
     (case read_queue (ss_p s) of
        [] \<Rightarrow> (s, Inl (if ss_closed s then ClosedResourceError
                      else case proto_exc (ss_p s) of Some e \<Rightarrow> e | None \<Rightarrow> EndOfStream))
      | c # q \<Rightarrow>
          let (chunk, q') = (if int (length c) > max_bytes
                             then (slice_to c max_bytes, slice_from c max_bytes # q) else (c, q));
              ev = (if q' = [] then aevent_clear (read_ev (ss_p s)) else read_ev (ss_p s))
          in (s\<lparr>ss_p := (ss_p s)\<lparr>read_queue := q', read_ev := ev\<rparr>\<rparr>, Inr chunk))"

fun sock_receive_resume ::
  "task \<Rightarrow> int \<Rightarrow> srcv_pc \<Rightarrow> unit awaited \<Rightarrow> sstream \<Rightarrow> sstream \<times> (srcv_pc, bytes) outcome"
where
  "sock_receive_resume t n SRcvCheckpoint (Thrown e) s = (leave_rguard s, Raised e)"
| "sock_receive_resume t n SRcvCheckpoint (Resumed _) s =
     (case sock_take n s of (s', r) \<Rightarrow> (leave_rguard s', of_res r))"
| "sock_receive_resume t n SRcvWait r s =
     (case aevent_wait_resume t r (read_ev (ss_p s)) of
        (ev, out) \<Rightarrow>
          let s1 = s\<lparr>ss_p := (ss_p s)\<lparr>read_ev := ev\<rparr>\<rparr> in
          case out of
            Done _ \<Rightarrow>
              (case sock_take n (s1\<lparr>ss_t := (ss_t s1)\<lparr>tr_reading := False\<rparr>\<rparr>) of
                 (s', r') \<Rightarrow> (leave_rguard s', of_res r'))
          | Raised e \<Rightarrow> (leave_rguard s1, Raised e)
          | Suspended _ \<Rightarrow> (s1, Suspended SRcvWait))"

subsection \<open>Sending\<close>

datatype ssnd_pc = SSndCheckpoint | SSndWait nat

definition sock_send_start :: "sstream \<Rightarrow> sstream \<times> (ssnd_pc, unit) outcome" where
  "sock_send_start s =
     (case guard_enter (ss_sguard s) of
        (g, Inl e) \<Rightarrow> (s, Raised e) | (g, Inr _) \<Rightarrow> (s\<lparr>ss_sguard := g\<rparr>, Suspended SSndCheckpoint))"

text \<open>\<open>transport.write\<close> followed by \<open>write_event.wait()\<close>.\<close>

definition sock_write :: "task \<Rightarrow> bytes \<Rightarrow> sstream \<Rightarrow> sstream \<times> (ssnd_pc, unit) outcome" where
  "sock_write t item s =
     (case tr_write_exc (ss_t s) of
        Some e \<Rightarrow>
          (leave_sguard s,
           Raised (case e of RuntimeError _ \<Rightarrow> if tr_closing (ss_t s) then BrokenResourceError else e | _ \<Rightarrow> e))
      | None \<Rightarrow>
          let s1 = s\<lparr>ss_t := (ss_t s)\<lparr>tr_written := tr_written (ss_t s) @ item\<rparr>,
                     ss_p := (if tr_full (ss_t s) then pause_writing (ss_p s) else ss_p s)\<rparr>;
              evs = write_evs (ss_p s1); k = length evs - 1
          in case aevent_wait_start t (last evs) of
               (ev, Suspended _) \<Rightarrow>
                 (s1\<lparr>ss_p := (ss_p s1)\<lparr>write_evs := evs[k := ev]\<rparr>\<rparr>, Suspended (SSndWait k))
             | (ev, _) \<Rightarrow> (leave_sguard s1, Done ()))"

fun sock_send_resume ::
  "task \<Rightarrow> bytes \<Rightarrow> ssnd_pc \<Rightarrow> unit awaited \<Rightarrow> sstream \<Rightarrow> sstream \<times> (ssnd_pc, unit) outcome"
where
  "sock_send_resume t item SSndCheckpoint (Thrown e) s = (leave_sguard s, Raised e)"
| "sock_send_resume t item SSndCheckpoint (Resumed _) s =
     (if ss_closed s then (leave_sguard s, Raised ClosedResourceError)
      else case proto_exc (ss_p s) of
        Some e \<Rightarrow> (leave_sguard s, Raised e)
      | None \<Rightarrow> sock_write t item s)"
| "sock_send_resume t item (SSndWait k) r s =
     (leave_sguard (s\<lparr>ss_p := (ss_p s)\<lparr>write_evs :=
          (write_evs (ss_p s))[k := fst (aevent_wait_resume t r (write_evs (ss_p s) ! k))]\<rparr>\<rparr>),
      case r of Resumed _ \<Rightarrow> Done () | Thrown e \<Rightarrow> Raised e)"

subsection \<open>Closing\<close>

definition tr_write_eof :: "transport \<Rightarrow> transport \<times> unit res" where
  "tr_write_eof tr = (case tr_eof_exc tr of Some e \<Rightarrow> (tr, Inl e) | None \<Rightarrow> (tr\<lparr>tr_eof := True\<rparr>, Inr ()))"

text \<open>\<open>send_eof\<close>, and the same statements in \<open>aclose\<close>: an \<open>OSError\<close> is ignored.\<close>

definition sock_send_eof :: "sstream \<Rightarrow> sstream \<times> unit res" where
  "sock_send_eof s =
     (case tr_write_eof (ss_t s) of
        (tr, Inl e) \<Rightarrow> (s\<lparr>ss_t := tr\<rparr>, if is_oserror e then Inr () else Inl e)
      | (tr, Inr _) \<Rightarrow> (s\<lparr>ss_t := tr\<rparr>, Inr ()))"

definition sock_aclose_start :: "sstream \<Rightarrow> sstream \<times> (unit, unit) outcome" where
  "sock_aclose_start s =
     (if tr_closing (ss_t s) then (s, Done ())
      else case sock_send_eof (s\<lparr>ss_closed := True\<rparr>) of
        (s1, Inl e) \<Rightarrow> (s1, Raised e)
      | (s1, Inr _) \<Rightarrow> (s1\<lparr>ss_t := (ss_t s1)\<lparr>tr_closing := True\<rparr>\<rparr>, Suspended ()))"

definition sock_aclose_resume :: "unit awaited \<Rightarrow> sstream \<Rightarrow> sstream \<times> (unit, unit) outcome" where
  "sock_aclose_resume r s =
     (case r of
        Thrown e \<Rightarrow> (s, Raised e)
      | Resumed _ \<Rightarrow> (s\<lparr>ss_t := (ss_t s)\<lparr>tr_aborted := True\<rparr>\<rparr>, Done ()))"

section \<open>Reading under any interleaving\<close>

text \<open>
  The callbacks of the event loop, the tasks that receive (with native cancellation of the task,
  and of its wait before it runs), sending and closing in any order. \<open>arrived\<close> and \<open>got\<close> are
  history: the bytes the transport delivered and those \<open>receive\<close> returned.
\<close>

record ssys =
  sk :: sstream
  rcalls :: "(task \<times> int \<times> srcv_pc) list"
  arrived :: bytes
  got_bytes :: bytes

datatype sock_action =
    SkData bytes | SkEof | SkLost "exn option" | SkPause | SkResumeWriting
  | SkReceive task int | SkReceiveResume task "unit awaited" | SkCancelWait task
  | SkSendStart | SkSend task bytes ssnd_pc "unit awaited" | SkSendEof | SkClose | SkAbort
  | SkTransport transport

definition sk_receive_end :: "task \<Rightarrow> int \<Rightarrow> sstream \<times> (srcv_pc, bytes) outcome \<Rightarrow> ssys \<Rightarrow> ssys" where
  "sk_receive_end t n = (\<lambda>(s', r) s.
     s\<lparr>sk := s', rcalls := (case r of Suspended pc \<Rightarrow> rcalls s @ [(t, n, pc)] | _ \<Rightarrow> rcalls s),
       got_bytes := got_bytes s @ (case r of Done c \<Rightarrow> c | _ \<Rightarrow> [])\<rparr>)"

fun may_wake :: "aevent \<Rightarrow> task \<Rightarrow> srcv_pc \<Rightarrow> unit awaited \<Rightarrow> bool" where
  "may_wake ev t SRcvWait (Resumed _) \<longleftrightarrow> (t, FResult ()) \<in> set (ev_waiters ev)"
| "may_wake ev t pc r \<longleftrightarrow> True"

fun sk_act :: "sock_action \<Rightarrow> ssys \<Rightarrow> ssys option" where
  "sk_act (SkData d) s =
     Some (s\<lparr>sk := (sk s)\<lparr>ss_p := data_received d (ss_p (sk s))\<rparr>, arrived := arrived s @ d\<rparr>)"
| "sk_act SkEof s = Some (s\<lparr>sk := (sk s)\<lparr>ss_p := eof_received (ss_p (sk s))\<rparr>\<rparr>)"
| "sk_act (SkLost e) s = Some (s\<lparr>sk := (sk s)\<lparr>ss_p := connection_lost e (ss_p (sk s))\<rparr>\<rparr>)"
| "sk_act SkPause s = Some (s\<lparr>sk := (sk s)\<lparr>ss_p := pause_writing (ss_p (sk s))\<rparr>\<rparr>)"
| "sk_act SkResumeWriting s = Some (s\<lparr>sk := (sk s)\<lparr>ss_p := resume_writing (ss_p (sk s))\<rparr>\<rparr>)"
| "sk_act (SkReceive t n) s =
     (if t \<in> fst ` set (rcalls s) then None
      else Some (sk_receive_end t n (sock_receive_start t (sk s)) s))"
| "sk_act (SkReceiveResume t r) s =
     (case find (\<lambda>c. fst c = t) (rcalls s) of
        None \<Rightarrow> None
      | Some (_, n, pc) \<Rightarrow>
          if may_wake (read_ev (ss_p (sk s))) t pc r
          then Some (sk_receive_end t n (sock_receive_resume t n pc r (sk s))
                 (s\<lparr>rcalls := filter (\<lambda>c. fst c \<noteq> t) (rcalls s)\<rparr>))
          else None)"
| "sk_act (SkCancelWait t) s =
     Some (s\<lparr>sk := (sk s)\<lparr>ss_p := (ss_p (sk s))\<lparr>read_ev := aevent_cancel_waiter t (read_ev (ss_p (sk s)))\<rparr>\<rparr>\<rparr>)"
| "sk_act SkSendStart s = Some (s\<lparr>sk := fst (sock_send_start (sk s))\<rparr>)"
| "sk_act (SkSend t item pc r) s = Some (s\<lparr>sk := fst (sock_send_resume t item pc r (sk s))\<rparr>)"
| "sk_act SkSendEof s = Some (s\<lparr>sk := fst (sock_send_eof (sk s))\<rparr>)"
| "sk_act SkClose s = Some (s\<lparr>sk := fst (sock_aclose_start (sk s))\<rparr>)"
| "sk_act SkAbort s = Some (s\<lparr>sk := fst (sock_aclose_resume (Resumed ()) (sk s))\<rparr>)"
| "sk_act (SkTransport tr) s = Some (s\<lparr>sk := (sk s)\<lparr>ss_t := tr\<rparr>\<rparr>)"

definition ssys_new :: "transport \<Rightarrow> ssys" where
  "ssys_new tr = \<lparr>sk = sstream_new tr connection_made, rcalls = [], arrived = [], got_bytes = []\<rparr>"

inductive sk_reach :: "ssys \<Rightarrow> bool" where
  init: "sk_reach (ssys_new tr)"
| step: "sk_reach s \<Longrightarrow> sk_act a s = Some s' \<Longrightarrow> sk_reach s'"

fun sk_run :: "sock_action list \<Rightarrow> ssys \<Rightarrow> ssys option" where
  "sk_run [] s = Some s"
| "sk_run (a # as) s = (case sk_act a s of None \<Rightarrow> None | Some s' \<Rightarrow> sk_run as s')"

lemma sk_run_reach: "sk_reach s \<Longrightarrow> sk_run as s = Some s' \<Longrightarrow> sk_reach s'"
  by (induction as arbitrary: s) (auto split: option.splits intro: sk_reach.step)

text \<open>The part of the protocol that reading is about.\<close>

definition reading_ok :: "sproto \<Rightarrow> bool" where
  "reading_ok p \<longleftrightarrow> aevent_ok (read_ev p)
     \<and> (read_queue p \<noteq> [] \<longrightarrow> ev_flag (read_ev p))
     \<and> (at_eof p \<longrightarrow> (\<forall>(t, f) \<in> set (ev_waiters (read_ev p)). fut_done f))"

definition sk_ok :: "ssys \<Rightarrow> bool" where
  "sk_ok s \<longleftrightarrow> reading_ok (ss_p (sk s)) \<and> arrived s = got_bytes s @ concat (read_queue (ss_p (sk s)))"

lemma aevent_waiters_simps [simp]:
  "ev_waiters (aevent_clear ev) = ev_waiters ev" "ev_flag (aevent_clear ev) = False"
  "ev_flag (aevent_set ev)"
  "ev_flag (fst (aevent_wait_start t ev)) = ev_flag ev" "ev_flag (fst (aevent_wait_resume t r ev)) = ev_flag ev"
  "ev_flag (aevent_cancel_waiter t ev) = ev_flag ev"
  by (simp_all add: aevent_clear_def aevent_set_def aevent_wait_start_def aevent_wait_resume_def
      aevent_cancel_waiter_def)

lemma aevent_set_done: "aevent_ok ev \<Longrightarrow> \<forall>(t, f) \<in> set (ev_waiters (aevent_set ev)). fut_done f"
  by (auto simp: aevent_ok_def aevent_set_def)

lemma reading_ok_event:
  "reading_ok p \<Longrightarrow> reading_ok (data_received d p)" "reading_ok p \<Longrightarrow> reading_ok (eof_received p)"
  "reading_ok p \<Longrightarrow> reading_ok (connection_lost e p)" "reading_ok p \<Longrightarrow> reading_ok (pause_writing p)"
  "reading_ok p \<Longrightarrow> reading_ok (resume_writing p)"
  using aevent_set_done [of "read_ev p"] aevent_ok_set [of "read_ev p"]
  by (simp_all add: reading_ok_def data_received_def eof_received_def connection_lost_def
      set_write_event_def pause_writing_def resume_writing_def)

lemma reading_ok_wait:
  "reading_ok p \<Longrightarrow> \<not> at_eof p \<Longrightarrow> reading_ok (p\<lparr>read_ev := fst (aevent_wait_start t (read_ev p))\<rparr>)"
  using aevent_ok_wait [of "read_ev p" t] by (simp add: reading_ok_def)

lemma reading_ok_resume:
  "reading_ok p \<Longrightarrow> reading_ok (p\<lparr>read_ev := fst (aevent_wait_resume t r (read_ev p))\<rparr>)"
  using aevent_ok_resume [of "read_ev p" t r] by (auto simp: reading_ok_def aevent_wait_resume_def)

lemma reading_ok_cancel:
  "reading_ok p \<Longrightarrow> reading_ok (p\<lparr>read_ev := aevent_cancel_waiter t (read_ev p)\<rparr>)"
  using aevent_ok_cancel [of "read_ev p" t]
  by (auto simp: reading_ok_def aevent_cancel_waiter_def fut_cancel_def split: if_splits)

lemma sock_take_ok:
  assumes "sock_take n s = (s', r)" "reading_ok (ss_p s)"
  shows "reading_ok (ss_p s') \<and> concat (read_queue (ss_p s)) =
    (case r of Inr c \<Rightarrow> c | Inl e \<Rightarrow> []) @ concat (read_queue (ss_p s'))"
proof (cases "read_queue (ss_p s)")
  case Nil
  then show ?thesis using assms by (auto simp: sock_take_def)
next
  case (Cons c q)
  then show ?thesis using assms
    by (auto simp: sock_take_def Let_def reading_ok_def aevent_ok_def slice_simps simp flip: append_assoc
        split: if_splits)
qed

lemma leave_guard_fields [simp]:
  "ss_p (leave_rguard s) = ss_p s" "ss_p (leave_sguard s) = ss_p s"
  by (simp_all add: leave_rguard_def leave_sguard_def)

lemma sock_receive_start_ok:
  assumes "sock_receive_start t s = (s', r)" "reading_ok (ss_p s)"
  shows "reading_ok (ss_p s') \<and> read_queue (ss_p s') = read_queue (ss_p s) \<and> (\<forall>c. r \<noteq> Done c)"
  using assms reading_ok_wait [of "ss_p s" t]
  by (auto simp: sock_receive_start_def Let_def split: prod.splits sum.splits if_splits)

lemma sock_receive_resume_ok:
  assumes "sock_receive_resume t n pc r s = (s', out)" "reading_ok (ss_p s)"
  shows "reading_ok (ss_p s') \<and> concat (read_queue (ss_p s)) =
    (case out of Done c \<Rightarrow> c | _ \<Rightarrow> []) @ concat (read_queue (ss_p s'))"
proof (cases "(t, n, pc, r, s)" rule: sock_receive_resume.cases)
  case (1 t n e s)
  then show ?thesis using assms by auto
next
  case (2 t n u s)
  obtain s1 r1 where k: "sock_take n s = (s1, r1)" by fastforce
  then show ?thesis using 2 assms sock_take_ok [OF k] by (cases r1) auto
next
  case (3 t n r s)
  define s1 where "s1 = s\<lparr>ss_p := (ss_p s)\<lparr>read_ev := fst (aevent_wait_resume t r (read_ev (ss_p s)))\<rparr>\<rparr>"
  have ok1: "reading_ok (ss_p s1)" "read_queue (ss_p s1) = read_queue (ss_p s)"
    using reading_ok_resume [of "ss_p s" t r] assms(2) 3 by (simp_all add: s1_def)
  show ?thesis
  proof (cases r)
    case (Resumed u)
    obtain s2 r2 where k: "sock_take n (s1\<lparr>ss_t := (ss_t s1)\<lparr>tr_reading := False\<rparr>\<rparr>) = (s2, r2)" by fastforce
    have "s' = leave_rguard s2" "out = of_res r2"
      using assms(1) 3 k Resumed by (auto simp: s1_def aevent_wait_resume_def)
    then show ?thesis using sock_take_ok [OF k] ok1 3 by (cases r2) auto
  next
    case (Thrown e)
    have "s' = leave_rguard s1" "out = Raised e"
      using assms(1) 3 Thrown by (auto simp: s1_def aevent_wait_resume_def)
    then show ?thesis using ok1 3 by simp
  qed
qed

text \<open>Sending and closing leave the reading side alone.\<close>

definition same_reading :: "sproto \<Rightarrow> sproto \<Rightarrow> bool" where
  "same_reading p p' \<longleftrightarrow> read_queue p' = read_queue p \<and> read_ev p' = read_ev p \<and> at_eof p' = at_eof p"

lemma same_reading_ok: "same_reading p p' \<Longrightarrow> reading_ok p' = reading_ok p"
  by (simp add: same_reading_def reading_ok_def)

lemma same_reading_refl [simp]: "same_reading p p"
  by (simp add: same_reading_def)

lemma same_reading_write: "same_reading (ss_p s) (ss_p (fst (sock_write t item s)))"
  by (simp add: sock_write_def Let_def same_reading_def pause_writing_def split: option.split prod.split outcome.split)

lemma same_reading_send:
  "same_reading (ss_p s) (ss_p (fst (sock_send_start s)))"
  "same_reading (ss_p s) (ss_p (fst (sock_send_resume t item pc r s)))"
  "same_reading (ss_p s) (ss_p (fst (sock_send_eof s)))"
  "same_reading (ss_p s) (ss_p (fst (sock_aclose_start s)))"
  "same_reading (ss_p s) (ss_p (fst (sock_aclose_resume q s)))"
  subgoal by (simp add: sock_send_start_def split: prod.split sum.split)
  subgoal
    by (cases "(t, item, pc, r, s)" rule: sock_send_resume.cases)
       (auto simp: same_reading_write [unfolded same_reading_def] same_reading_def split: option.split)
  subgoal by (simp add: sock_send_eof_def split: prod.split sum.split)
  subgoal by (simp add: sock_aclose_start_def sock_send_eof_def split: prod.split sum.split)
  subgoal by (simp add: sock_aclose_resume_def split: awaited.split)
  done

lemma sk_ok_same:
  assumes "sk_ok s" "same_reading (ss_p (sk s)) (ss_p s1)"
  shows "sk_ok (s\<lparr>sk := s1\<rparr>)"
  using assms same_reading_ok [OF assms(2)] by (simp add: sk_ok_def same_reading_def)

lemma sk_ok_event:
  assumes "sk_ok s" "reading_ok p" "read_queue p = read_queue (ss_p (sk s)) @ ds"
  shows "sk_ok (s\<lparr>sk := (sk s)\<lparr>ss_p := p\<rparr>, arrived := arrived s @ concat ds\<rparr>)"
  using assms by (simp add: sk_ok_def)

lemma sk_ok_act: "sk_ok s \<Longrightarrow> sk_act a s = Some s' \<Longrightarrow> sk_ok s'"
proof (induction a s rule: sk_act.induct)
  case (6 t n s)
  obtain s1 r where st: "sock_receive_start t (sk s) = (s1, r)" by fastforce
  with 6 sock_receive_start_ok [OF st] show ?case
    by (cases r) (auto simp: sk_ok_def sk_receive_end_def split: if_splits)
next
  case (7 t r s)
  then obtain n pc where s': "s' = sk_receive_end t n (sock_receive_resume t n pc r (sk s))
      (s\<lparr>rcalls := filter (\<lambda>c. fst c \<noteq> t) (rcalls s)\<rparr>)"
    by (auto split: option.splits if_splits)
  obtain s1 out where rs: "sock_receive_resume t n pc r (sk s) = (s1, out)" by fastforce
  show ?case using sock_receive_resume_ok [OF rs] 7(1) unfolding s' rs
    by (cases out) (auto simp: sk_ok_def sk_receive_end_def)
qed (auto simp: sk_ok_def same_reading_ok [OF same_reading_send(1)] same_reading_ok [OF same_reading_send(2)]
      same_reading_ok [OF same_reading_send(3)] same_reading_ok [OF same_reading_send(4)]
      same_reading_ok [OF same_reading_send(5)] reading_ok_event reading_ok_cancel
      same_reading_send [unfolded same_reading_def]
      simp: data_received_def eof_received_def connection_lost_def pause_writing_def resume_writing_def set_write_event_def
      dest: reading_ok_event [unfolded data_received_def eof_received_def connection_lost_def pause_writing_def
        resume_writing_def set_write_event_def])

lemma sk_reach_ok: "sk_reach s \<Longrightarrow> sk_ok s"
proof (induction rule: sk_reach.induct)
  case (init tr)
  show ?case
    by (simp add: sk_ok_def ssys_new_def sstream_new_def connection_made_def reading_ok_def aevent_ok_new)
next
  case (step s a s')
  then show ?case using sk_ok_act by blast
qed

section \<open>A socket stream is a source of bytes\<close>

text \<open>
  \<open>sock_source\<close> is one complete call of \<open>receive\<close> while the transport delivers the peer's chunks:
  a call that has to wait is woken by the next chunk, or by the end of the stream.
\<close>

definition deliver_next :: "sstream \<times> bytes list \<Rightarrow> sstream \<times> bytes list" where
  "deliver_next = (\<lambda>(s, incoming). case incoming of
     [] \<Rightarrow> (s\<lparr>ss_p := eof_received (ss_p s)\<rparr>, [])
   | c # cs \<Rightarrow> (s\<lparr>ss_p := data_received c (ss_p s)\<rparr>, cs))"

definition sock_source :: "nat \<Rightarrow> sstream \<times> bytes list \<Rightarrow> (sstream \<times> bytes list) \<times> bytes res" where
  "sock_source n = (\<lambda>(s, incoming).
     case sock_receive_start 0 s of
       (s1, Done c) \<Rightarrow> ((s1, incoming), Inr c)
     | (s1, Raised e) \<Rightarrow> ((s1, incoming), Inl e)
     | (s1, Suspended pc) \<Rightarrow>
         (case (if pc = SRcvWait then deliver_next (s1, incoming) else (s1, incoming)) of
            (s2, incoming') \<Rightarrow>
              (case sock_receive_resume 0 (int n) pc (Resumed ()) s2 of
                 (s3, Done c) \<Rightarrow> ((s3, incoming'), Inr c)
               | (s3, Raised e) \<Rightarrow> ((s3, incoming'), Inl e)
               | (s3, Suspended _) \<Rightarrow> ((s3, incoming'), Inl WouldBlock))))"

definition sock_rest :: "sstream \<times> bytes list \<Rightarrow> bytes" where
  "sock_rest = (\<lambda>(s, incoming). concat (read_queue (ss_p s)) @ concat incoming)"

definition sock_ok :: "sstream \<times> bytes list \<Rightarrow> bool" where
  "sock_ok = (\<lambda>(s, incoming).
     \<not> guarded_flag (ss_rguard s) \<and> \<not> ss_closed s \<and> \<not> tr_closing (ss_t s) \<and> proto_exc (ss_p s) = None
     \<and> [] \<notin> set (read_queue (ss_p s)) \<and> [] \<notin> set incoming
     \<and> (if at_eof (ss_p s) then incoming = [] else ev_flag (read_ev (ss_p s)) = (read_queue (ss_p s) \<noteq> [])))"

lemma sock_take_cons:
  assumes "read_queue (ss_p s) = c # q" "c \<noteq> []" "0 < n"
  shows "\<exists>q' ev. sock_take (int n) s = (s\<lparr>ss_p := (ss_p s)\<lparr>read_queue := q', read_ev := ev\<rparr>\<rparr>, Inr (take n c))
    \<and> concat (read_queue (ss_p s)) = take n c @ concat q' \<and> ([] \<notin> set q \<longrightarrow> [] \<notin> set q')
    \<and> (ev_flag ev = (ev_flag (read_ev (ss_p s)) \<and> q' \<noteq> []))"
proof -
  define q' where "q' = (if length c > n then drop n c # q else q)"
  define ev where "ev = (if q' = [] then aevent_clear (read_ev (ss_p s)) else read_ev (ss_p s))"
  have "sock_take (int n) s = (s\<lparr>ss_p := (ss_p s)\<lparr>read_queue := q', read_ev := ev\<rparr>\<rparr>, Inr (take n c))"
    using assms(1) by (simp add: sock_take_def Let_def slice_simps q'_def ev_def)
  moreover have "concat (read_queue (ss_p s)) = take n c @ concat q' \<and> ([] \<notin> set q \<longrightarrow> [] \<notin> set q')"
    using assms by (simp add: q'_def)
  moreover have "ev_flag ev = (ev_flag (read_ev (ss_p s)) \<and> q' \<noteq> [])" by (simp add: ev_def)
  ultimately show ?thesis by blast
qed

lemma sock_receive_run:
  assumes "sock_ok (s, inc)" "0 < n"
  shows "(sock_rest (s, inc) \<noteq> [] \<longrightarrow> (\<exists>x c. sock_source n (s, inc) = (x, Inr c) \<and> sock_ok x \<and> c \<noteq> []
        \<and> length c \<le> n \<and> sock_rest (s, inc) = c @ sock_rest x))
    \<and> (sock_rest (s, inc) = [] \<longrightarrow> (\<exists>x. sock_source n (s, inc) = (x, Inl EndOfStream) \<and> sock_ok x \<and> sock_rest x = []))"
proof (cases "read_queue (ss_p s)")
  case (Cons c q)
  define s1 where "s1 = s\<lparr>ss_rguard := (ss_rguard s)\<lparr>guarded_flag := True\<rparr>\<rparr>"
  have start: "sock_receive_start 0 s = (s1, Suspended SRcvCheckpoint)"
    using assms Cons by (auto simp: sock_receive_start_def guard_enter_def sock_ok_def s1_def split: if_splits)
  from assms Cons have "c \<noteq> []" by (auto simp: sock_ok_def)
  from sock_take_cons [of s1 c q n] this assms(2) Cons obtain q' ev where
    k: "sock_take (int n) s1 = (s1\<lparr>ss_p := (ss_p s1)\<lparr>read_queue := q', read_ev := ev\<rparr>\<rparr>, Inr (take n c))"
      "concat (read_queue (ss_p s)) = take n c @ concat q'" "[] \<notin> set q \<longrightarrow> [] \<notin> set q'"
      "ev_flag ev = (ev_flag (read_ev (ss_p s)) \<and> q' \<noteq> [])"
    by (auto simp: s1_def)
  have "sock_source n (s, inc) = ((leave_rguard (s1\<lparr>ss_p := (ss_p s1)\<lparr>read_queue := q', read_ev := ev\<rparr>\<rparr>), inc), Inr (take n c))"
    by (simp add: sock_source_def start k(1))
  moreover have "sock_ok (leave_rguard (s1\<lparr>ss_p := (ss_p s1)\<lparr>read_queue := q', read_ev := ev\<rparr>\<rparr>), inc)"
    using assms(1) Cons k(3,4) by (auto simp: sock_ok_def leave_rguard_def guard_exit_def s1_def split: if_splits)
  moreover have "sock_rest (s, inc) = take n c @ sock_rest (leave_rguard (s1\<lparr>ss_p := (ss_p s1)\<lparr>read_queue := q', read_ev := ev\<rparr>\<rparr>), inc)"
    using k(2) by (simp add: sock_rest_def)
  ultimately show ?thesis using \<open>c \<noteq> []\<close> assms(2) by auto
next
  case Nil
  show ?thesis
  proof (cases "at_eof (ss_p s)")
    case True
    then show ?thesis using assms Nil
      by (auto simp: sock_source_def sock_receive_start_def guard_enter_def sock_ok_def sock_rest_def sock_take_def
          leave_rguard_def guard_exit_def)
  next
    case False
    define ev where "ev = (read_ev (ss_p s))\<lparr>ev_waiters := ev_waiters (read_ev (ss_p s)) @ [(0, Pending)]\<rparr>"
    define s1 where "s1 = s\<lparr>ss_rguard := (ss_rguard s)\<lparr>guarded_flag := True\<rparr>,
      ss_t := (ss_t s)\<lparr>tr_reading := True\<rparr>, ss_p := (ss_p s)\<lparr>read_ev := ev\<rparr>\<rparr>"
    have start: "sock_receive_start 0 s = (s1, Suspended SRcvWait)"
      using assms Nil False
      by (simp add: sock_receive_start_def guard_enter_def sock_ok_def s1_def ev_def aevent_wait_start_def)
    show ?thesis
    proof (cases inc)
      case Nil' : Nil
      have rest: "sock_rest (s, inc) = []" using Nil Nil' by (simp add: sock_rest_def)
      define s2 where "s2 = leave_rguard (s1\<lparr>ss_t := (ss_t s1)\<lparr>tr_reading := False\<rparr>,
        ss_p := (eof_received (ss_p s1))\<lparr>read_ev := fst (aevent_wait_resume 0 (Resumed ()) (aevent_set ev))\<rparr>\<rparr>)"
      have "sock_source n (s, inc) = ((s2, []), Inl EndOfStream)"
        using assms Nil by (simp add: sock_source_def start Nil' deliver_next_def s2_def s1_def eof_received_def
            aevent_wait_resume_def sock_take_def sock_ok_def leave_rguard_def guard_exit_def)
      moreover have "sock_ok (s2, [])" "sock_rest (s2, []) = []"
        using assms Nil by (simp_all add: sock_ok_def sock_rest_def s2_def s1_def eof_received_def leave_rguard_def guard_exit_def)
      ultimately show ?thesis using rest by auto
    next
      case Cons' : (Cons c cs)
      define s2 where "s2 = s1\<lparr>
        ss_p := (data_received c (ss_p s1))\<lparr>read_ev := fst (aevent_wait_resume 0 (Resumed ()) (aevent_set ev))\<rparr>,
        ss_t := (ss_t s1)\<lparr>tr_reading := False\<rparr>\<rparr>"
      have re: "read_ev (ss_p s1) = ev" by (simp add: s1_def)
      have c: "c \<noteq> []" "[] \<notin> set cs" using assms Cons' by (auto simp: sock_ok_def)
      have rq: "read_queue (ss_p s2) = [c]" using Nil by (simp add: s2_def s1_def data_received_def)
      from sock_take_cons [OF rq c(1) assms(2)] obtain q' ev' where
        k: "sock_take (int n) s2 = (s2\<lparr>ss_p := (ss_p s2)\<lparr>read_queue := q', read_ev := ev'\<rparr>\<rparr>, Inr (take n c))"
          "concat (read_queue (ss_p s2)) = take n c @ concat q'" "[] \<notin> set q'"
          "ev_flag ev' = (ev_flag (read_ev (ss_p s2)) \<and> q' \<noteq> [])"
        by auto
      define s3 where "s3 = leave_rguard (s2\<lparr>ss_p := (ss_p s2)\<lparr>read_queue := q', read_ev := ev'\<rparr>\<rparr>)"
      have "sock_receive_resume 0 (int n) SRcvWait (Resumed ()) (s1\<lparr>ss_p := data_received c (ss_p s1)\<rparr>)
          = (case sock_take (int n) s2 of (s', r') \<Rightarrow> (leave_rguard s', of_res r'))"
        by (simp add: aevent_wait_resume_def data_received_def s2_def re)
      then have "sock_source n (s, inc) = ((s3, cs), Inr (take n c))"
        by (simp add: sock_source_def start Cons' deliver_next_def k(1) s3_def)
      moreover have "sock_ok (s3, cs)"
        using assms(1) c k(3,4) False
        by (simp add: sock_ok_def s3_def s2_def s1_def data_received_def leave_rguard_def guard_exit_def)
      moreover have "sock_rest (s, inc) = take n c @ sock_rest (s3, cs)"
        using k(2) rq Nil by (simp add: sock_rest_def Cons' s3_def)
      ultimately show ?thesis using c(1) assms(2) by auto
    qed
  qed
qed

interpretation sock: byte_source sock_ok sock_rest sock_source
proof
  fix x :: "sstream \<times> bytes list" and n :: nat
  assume "sock_ok x" "0 < n"
  moreover obtain s inc where "x = (s, inc)" by (cases x)
  ultimately show
    "sock_rest x \<noteq> [] \<Longrightarrow> \<exists>x' c. sock_source n x = (x', Inr c) \<and> sock_ok x' \<and> c \<noteq> [] \<and> length c \<le> n \<and> sock_rest x = c @ sock_rest x'"
    "sock_rest x = [] \<Longrightarrow> \<exists>x'. sock_source n x = (x', Inl EndOfStream) \<and> sock_ok x' \<and> sock_rest x' = []"
    using sock_receive_run [of s inc n] by auto
qed

interpretation sockbuf: buffered_stream sock_ok sock_rest sock_source
  by unfold_locales

section \<open>Properties\<close>

text \<open>
  C13: In every reachable state of a socket stream, under any interleaving of the transport's
  callbacks with receives, sends, cancellations and closing, the bytes that arrived are exactly
  those \<open>receive\<close> returned followed by those still queued, in order: no byte is lost, duplicated or
  moved, whatever chunks are split.
\<close>

theorem socket_bytes_in_order:
  assumes "sk_reach s"
  shows "arrived s = got_bytes s @ concat (read_queue (ss_p (sk s)))"
  using sk_reach_ok [OF assms] by (simp add: sk_ok_def)

abbreviation a_transport :: transport where
  "a_transport \<equiv> \<lparr>tr_closing = False, tr_reading = False, tr_written = [], tr_eof = False,
     tr_aborted = False, tr_full = False, tr_write_exc = None, tr_eof_exc = None\<rparr>"

abbreviation socket_run :: "sock_action list" where
  "socket_run \<equiv> [SkReceive 1 2, SkData [7, 8, 9], SkReceiveResume 1 (Resumed ())]"

lemma socket_run_result: "\<exists>s. sk_run socket_run (ssys_new a_transport) = Some s \<and> got_bytes s = [7, 8]"
  by (simp add: ssys_new_def sstream_new_def connection_made_def sk_receive_end_def sock_receive_start_def
      guard_new_def guard_enter_def aevent_new_def aevent_wait_start_def data_received_def aevent_set_def
      aevent_wait_resume_def sock_take_def slice_simps Let_def)

theorem socket_bytes_in_order_witness:
  "\<exists>s. sk_run socket_run (ssys_new a_transport) = Some s \<and> got_bytes s = [7, 8] \<and>
     arrived s = [7, 8] @ concat (read_queue (ss_p (sk s)))"
proof -
  from socket_run_result obtain s where s: "sk_run socket_run (ssys_new a_transport) = Some s" "got_bytes s = [7, 8]"
    by blast
  from socket_bytes_in_order [OF sk_run_reach [OF sk_reach.init s(1)]] s show ?thesis by auto
qed

text \<open>
  A receiver of a socket stream never sleeps while there is something for it: in every
  reachable state in which a task waits for the read event, nothing is queued and the end of the
  stream has not been received.
\<close>

theorem socket_waits_only_when_empty:
  assumes "sk_reach s" "(t, Pending) \<in> set (ev_waiters (read_ev (ss_p (sk s))))"
  shows "read_queue (ss_p (sk s)) = [] \<and> \<not> at_eof (ss_p (sk s))"
  using sk_reach_ok [OF assms(1)] assms(2) by (auto simp: sk_ok_def reading_ok_def aevent_ok_def)

theorem socket_waits_only_when_empty_witness:
  "\<exists>s. sk_run [SkReceive 1 2] (ssys_new a_transport) = Some s \<and> read_queue (ss_p (sk s)) = []"
proof -
  have "\<exists>s. sk_run [SkReceive 1 2] (ssys_new a_transport) = Some s \<and> (1, Pending) \<in> set (ev_waiters (read_ev (ss_p (sk s))))"
    by (simp add: ssys_new_def sstream_new_def connection_made_def sk_receive_end_def sock_receive_start_def
      guard_new_def guard_enter_def aevent_new_def aevent_wait_start_def Let_def)
  then obtain s where s: "sk_run [SkReceive 1 2] (ssys_new a_transport) = Some s"
    "(1, Pending) \<in> set (ev_waiters (read_ev (ss_p (sk s))))" by blast
  from socket_waits_only_when_empty [OF sk_run_reach [OF sk_reach.init s(1)] s(2)] s(1) show ?thesis by blast
qed

text \<open>
  \<open>receive_exactly(n)\<close> of a buffered stream over a TCP stream returns the first \<open>n\<close> bytes the
  peer sent, whatever chunks the network makes of them, and raises \<open>IncompleteRead\<close> when the peer
  sent fewer.
\<close>

theorem receive_exactly_from_socket:
  assumes "[] \<notin> set chunks"
  shows "\<exists>st' x. buf_run (ask sock_source) (Suc (length (concat chunks))) (receive_exactly_step (int n) (bstate_new True))
      (sstream_new a_transport connection_made, chunks)
    = Some (st', x, if n \<le> length (concat chunks) then Inr (take n (concat chunks)) else Inl IncompleteRead)"
proof -
  have ok: "sock_ok (sstream_new a_transport connection_made, chunks)"
    using assms by (simp add: sock_ok_def sstream_new_def connection_made_def guard_new_def aevent_new_def)
  have rest: "sock_rest (sstream_new a_transport connection_made, chunks) = concat chunks"
    by (simp add: sock_rest_def sstream_new_def connection_made_def)
  have "length (concat chunks) < Suc (length (concat chunks))" by simp
  from sock.exactly_run [OF ok, of "Suc (length (concat chunks))" n "bstate_new True"] rest
  show ?thesis by (force simp: bstate_new_def)
qed

theorem receive_exactly_from_socket_witness:
  "\<exists>st' x. buf_run (ask sock_source) 4 (receive_exactly_step 2 (bstate_new True))
      (sstream_new a_transport connection_made, [[1], [2, 3]]) = Some (st', x, Inr [1, 2])"
  using receive_exactly_from_socket [of "[[1], [2, 3]]" 2] by (simp add: eval_nat_numeral del: buf_run.simps)

end
