(* ===== verification/RawSockets.thy ===== *)
theory RawSockets
  imports Conditions CancelScopes
begin

text \<open>
  Sockets that asyncio's backend drives by system calls: \<open>_RawSocketMixin\<close>, \<open>UNIXSocketStream\<close>,
  \<open>UNIXDatagramSocket\<close>, \<open>ConnectedUNIXDatagramSocket\<close> and the two listeners of
  \<open>src/anyio/_backends/_asyncio.py\<close>.

  What a system call gives is an argument of the step that makes it: an exception or its value.
  \<open>send\<close> makes several calls in a row, so it takes the call as a function on the state of the
  kernel. The exceptions of \<open>socket\<close> are \<open>BlockingIOError\<close> (try again later) and other \<open>OSError\<close>s.
\<close>

section \<open>Waiting for a raw socket\<close>

record rawsock =
  rs_open :: bool
  rs_closing :: bool
  rs_rfut :: "unit future option"
  rs_sfut :: "unit future option"
  rs_rguard :: guard
  rs_sguard :: guard

definition rawsock_new :: rawsock where
  "rawsock_new = \<lparr>rs_open = True, rs_closing = False, rs_rfut = None, rs_sfut = None,
     rs_rguard = guard_new ''reading from'', rs_sguard = guard_new ''writing to''\<rparr>"

definition wait_until_readable :: "rawsock \<Rightarrow> rawsock" where
  "wait_until_readable s = s\<lparr>rs_rfut := Some Pending\<rparr>"

definition wait_until_writable :: "rawsock \<Rightarrow> rawsock" where
  "wait_until_writable s = s\<lparr>rs_sfut := Some Pending\<rparr>"

text \<open>The event loop sets the future's result; the done callback, later, deletes the attribute.\<close>

definition raw_readable :: "rawsock \<Rightarrow> rawsock" where
  "raw_readable s = s\<lparr>rs_rfut := map_option (\<lambda>f. if fut_done f then f else FResult ()) (rs_rfut s)\<rparr>"

definition raw_writable :: "rawsock \<Rightarrow> rawsock" where
  "raw_writable s = s\<lparr>rs_sfut := map_option (\<lambda>f. if fut_done f then f else FResult ()) (rs_sfut s)\<rparr>"

definition receive_callback :: "rawsock \<Rightarrow> rawsock" where
  "receive_callback s = s\<lparr>rs_rfut := None\<rparr>"

definition send_callback :: "rawsock \<Rightarrow> rawsock" where
  "send_callback s = s\<lparr>rs_sfut := None\<rparr>"

definition raw_aclose :: "rawsock \<Rightarrow> rawsock \<times> unit res" where
  "raw_aclose s =
     (if rs_closing s then (s, Inr ())
      else
        let s1 = s\<lparr>rs_closing := True, rs_open := False\<rparr> in
        case (case rs_rfut s1 of
                None \<Rightarrow> Inr s1
              | Some f \<Rightarrow> (case fut_set_result f () of Inl e \<Rightarrow> Inl e | Inr f' \<Rightarrow> Inr (s1\<lparr>rs_rfut := Some f'\<rparr>))) of
          Inl e \<Rightarrow> (s1, Inl e)
        | Inr s2 \<Rightarrow>
            (case rs_sfut s2 of
               None \<Rightarrow> (s2, Inr ())
             | Some f \<Rightarrow> (case fut_set_result f () of
                 Inl e \<Rightarrow> (s2, Inl e) | Inr f' \<Rightarrow> (s2\<lparr>rs_sfut := Some f'\<rparr>, Inr ()))))"

text \<open>The \<open>except OSError\<close> clause all methods share.\<close>

definition raw_error :: "exn \<Rightarrow> bool \<Rightarrow> exn" where
  "raw_error e closing = (if is_oserror e then if closing then ClosedResourceError else BrokenResourceError else e)"

section \<open>Receiving\<close>

datatype raw_pc = RawCheckpoint | RawWait

definition exit_rguard :: "rawsock \<Rightarrow> rawsock" where
  "exit_rguard s = s\<lparr>rs_rguard := guard_exit (rs_rguard s)\<rparr>"

definition exit_sguard :: "rawsock \<Rightarrow> rawsock" where
  "exit_sguard s = s\<lparr>rs_sguard := guard_exit (rs_sguard s)\<rparr>"

text \<open>
  One turn of a receiving loop: \<open>result\<close> turns the value of the system call into that of the
  method.
\<close>

definition raw_receive_turn ::
  "('v \<Rightarrow> 'a res) \<Rightarrow> 'v res \<Rightarrow> rawsock \<Rightarrow> rawsock \<times> (raw_pc, 'a) outcome"
where
  "raw_receive_turn result sys s =
     (case sys of
        Inl BlockingIOError \<Rightarrow> (wait_until_readable s, Suspended RawWait)
      | Inl e \<Rightarrow> (exit_rguard s, Raised (raw_error e (rs_closing s)))
      | Inr v \<Rightarrow> (exit_rguard s, of_res (result v)))"

fun raw_receive_resume ::
  "('v \<Rightarrow> 'a res) \<Rightarrow> raw_pc \<Rightarrow> 'v res \<Rightarrow> unit awaited \<Rightarrow> rawsock \<Rightarrow> rawsock \<times> (raw_pc, 'a) outcome"
where
  "raw_receive_resume result RawCheckpoint sys (Thrown e) s = (s, Raised e)"
| "raw_receive_resume result RawCheckpoint sys (Resumed _) s =
     (case guard_enter (rs_rguard s) of
        (g, Inl e) \<Rightarrow> (s, Raised e)
      | (g, Inr _) \<Rightarrow> raw_receive_turn result sys (s\<lparr>rs_rguard := g\<rparr>))"
| "raw_receive_resume result RawWait sys (Thrown e) s = (exit_rguard s, Raised e)"
| "raw_receive_resume result RawWait sys (Resumed _) s = raw_receive_turn result sys s"

text \<open>\<open>UNIXSocketStream.receive\<close>: an empty result is the end of the stream.\<close>

definition unix_receive_resume ::
  "raw_pc \<Rightarrow> bytes res \<Rightarrow> unit awaited \<Rightarrow> rawsock \<Rightarrow> rawsock \<times> (raw_pc, bytes) outcome"
where
  "unix_receive_resume = raw_receive_resume (\<lambda>data. if data = [] then Inl EndOfStream else Inr data)"

definition datagram_receive_resume ::
  "raw_pc \<Rightarrow> (bytes \<times> 'addr) res \<Rightarrow> unit awaited \<Rightarrow> rawsock \<Rightarrow> rawsock \<times> (raw_pc, bytes \<times> 'addr) outcome"
where
  "datagram_receive_resume = raw_receive_resume Inr"

definition connected_receive_resume ::
  "raw_pc \<Rightarrow> bytes res \<Rightarrow> unit awaited \<Rightarrow> rawsock \<Rightarrow> rawsock \<times> (raw_pc, bytes) outcome"
where
  "connected_receive_resume = raw_receive_resume Inr"

section \<open>Sending\<close>

text \<open>\<open>sendto\<close> and \<open>send\<close> of the datagram sockets, \<open>sendmsg\<close> of \<open>send_fds\<close>: one call does it.\<close>

definition raw_send_turn :: "unit res \<Rightarrow> rawsock \<Rightarrow> rawsock \<times> (raw_pc, unit) outcome" where
  "raw_send_turn sys s =
     (case sys of
        Inl BlockingIOError \<Rightarrow> (wait_until_writable s, Suspended RawWait)
      | Inl e \<Rightarrow> (exit_sguard s, Raised (raw_error e (rs_closing s)))
      | Inr _ \<Rightarrow> (exit_sguard s, Done ()))"

fun raw_send_resume :: "raw_pc \<Rightarrow> unit res \<Rightarrow> unit awaited \<Rightarrow> rawsock \<Rightarrow> rawsock \<times> (raw_pc, unit) outcome" where
  "raw_send_resume RawCheckpoint sys (Thrown e) s = (s, Raised e)"
| "raw_send_resume RawCheckpoint sys (Resumed _) s =
     (case guard_enter (rs_sguard s) of
        (g, Inl e) \<Rightarrow> (s, Raised e)
      | (g, Inr _) \<Rightarrow> raw_send_turn sys (s\<lparr>rs_sguard := g\<rparr>))"
| "raw_send_resume RawWait sys (Thrown e) s = (exit_sguard s, Raised e)"
| "raw_send_resume RawWait sys (Resumed _) s = raw_send_turn sys s"

text \<open>\<open>UNIXSocketStream.send\<close>: \<open>while view\<close>, until the kernel does not take more or an error.\<close>

partial_function (option) usend_loop ::
  "('k \<Rightarrow> bytes \<Rightarrow> 'k \<times> nat res) \<Rightarrow> bytes \<Rightarrow> 'k \<Rightarrow> ('k \<times> bytes \<times> unit res) option"
where
  "usend_loop ks view k =
     (if view = [] then Some (k, [], Inr ())
      else case ks k view of
        (k', Inl e) \<Rightarrow> Some (k', view, Inl e)
      | (k', Inr n) \<Rightarrow> usend_loop ks (drop n view) k')"

datatype usend_pc = USndCheckpoint | USndWait bytes

definition unix_send_turn ::
  "('k \<Rightarrow> bytes \<Rightarrow> 'k \<times> nat res) \<Rightarrow> bytes \<Rightarrow> 'k \<Rightarrow> rawsock \<Rightarrow> ('k \<times> rawsock \<times> (usend_pc, unit) outcome) option"
where
  "unix_send_turn ks view k s =
     map_option (\<lambda>(k', rest, r).
       case r of
         Inr _ \<Rightarrow> (k', exit_sguard s, Done ())
       | Inl BlockingIOError \<Rightarrow> (k', wait_until_writable s, Suspended (USndWait rest))
       | Inl e \<Rightarrow> (k', exit_sguard s, Raised (raw_error e (rs_closing s))))
     (usend_loop ks view k)"

fun unix_send_resume ::
  "('k \<Rightarrow> bytes \<Rightarrow> 'k \<times> nat res) \<Rightarrow> bytes \<Rightarrow> usend_pc \<Rightarrow> unit awaited \<Rightarrow> 'k \<Rightarrow> rawsock
     \<Rightarrow> ('k \<times> rawsock \<times> (usend_pc, unit) outcome) option"
where
  "unix_send_resume ks item USndCheckpoint (Thrown e) k s = Some (k, s, Raised e)"
| "unix_send_resume ks item USndCheckpoint (Resumed _) k s =
     (case guard_enter (rs_sguard s) of
        (g, Inl e) \<Rightarrow> Some (k, s, Raised e)
      | (g, Inr _) \<Rightarrow> unix_send_turn ks item k (s\<lparr>rs_sguard := g\<rparr>))"
| "unix_send_resume ks item (USndWait view) (Thrown e) k s = Some (k, exit_sguard s, Raised e)"
| "unix_send_resume ks item (USndWait view) (Resumed _) k s = unix_send_turn ks view k s"

text \<open>\<open>send_eof\<close>: \<open>shutdown\<close> inside the guard.\<close>

definition unix_send_eof :: "unit res \<Rightarrow> rawsock \<Rightarrow> rawsock \<times> unit res" where
  "unix_send_eof sys s =
     (case guard_enter (rs_sguard s) of
        (g, Inl e) \<Rightarrow> (s, Inl e) | (g, Inr _) \<Rightarrow> (exit_sguard (s\<lparr>rs_sguard := g\<rparr>), sys))"

section \<open>Passing file descriptors\<close>

text \<open>\<open>array("i")\<close>: 32-bit signed integers, little endian; \<open>frombytes\<close> of a multiple of 4 bytes.\<close>

definition int_bytes :: "int \<Rightarrow> bytes" where
  "int_bytes n = map (\<lambda>i. word_of_int (n div 256 ^ i)) [0, 1, 2, 3]"

fun bytes_ints :: "bytes \<Rightarrow> int list" where
  "bytes_ints (a # b # c # d # bs) =
     (let u = uint a + 256 * (uint b + 256 * (uint c + 256 * uint d))
      in (if u < 2 ^ 31 then u else u - 2 ^ 32) # bytes_ints bs)"
| "bytes_ints _ = []"

definition fd_array :: "int list \<Rightarrow> bytes res" where
  "fd_array fds =
     (case find (\<lambda>n. n < - (2 ^ 31) \<or> 2 ^ 31 \<le> n) fds of
        Some n \<Rightarrow> Inl (OverflowError (if 0 < n then ''signed integer is greater than maximum''
                        else ''signed integer is less than minimum''))
      | None \<Rightarrow> Inr (concat (map int_bytes fds)))"

definition sol_socket :: int where "sol_socket = 1"

definition scm_rights :: int where "scm_rights = 1"

definition unexpected_ancillary :: "string \<Rightarrow> int \<Rightarrow> int \<Rightarrow> exn" where
  "unexpected_ancillary msg_repr level kind =
     RuntimeError (''Received unexpected ancillary data; message = '' @ msg_repr @ '', cmsg_level = ''
       @ dec_int level @ '', cmsg_type = '' @ dec_int kind)"

fun collect_fds :: "string \<Rightarrow> (int \<times> int \<times> bytes) list \<Rightarrow> int list \<Rightarrow> int list res" where
  "collect_fds r [] fds = Inr fds"
| "collect_fds r ((level, kind, data) # anc) fds =
     (if level \<noteq> sol_socket \<or> kind \<noteq> scm_rights then Inl (unexpected_ancillary r level kind)
      else collect_fds r anc (fds @ bytes_ints (take (length data - length data mod 4) data)))"

definition receive_fds_check :: "int \<Rightarrow> int \<Rightarrow> unit res" where
  "receive_fds_check msglen maxfds =
     (if msglen < 0 then Inl (ValueError ''msglen must be a non-negative integer'')
      else if maxfds < 1 then Inl (ValueError ''maxfds must be a positive integer'') else Inr ())"

text \<open>\<open>receive_fds\<close> after the checks; \<open>msg_repr\<close> is Python's \<open>repr\<close> of bytes.\<close>

definition receive_fds_resume ::
  "(bytes \<Rightarrow> string) \<Rightarrow> raw_pc \<Rightarrow> (bytes \<times> (int \<times> int \<times> bytes) list) res \<Rightarrow> unit awaited \<Rightarrow> rawsock
     \<Rightarrow> rawsock \<times> (raw_pc, bytes \<times> int list) outcome"
where
  "receive_fds_resume msg_repr =
     raw_receive_resume (\<lambda>(message, anc).
       if message = [] \<and> anc = [] then Inl EndOfStream
       else case collect_fds (msg_repr message) anc [] of Inl e \<Rightarrow> Inl e | Inr fds \<Rightarrow> Inr (message, fds))"

datatype fd_item = FdInt int | FdFile int | FdOther

text \<open>\<open>send_fds\<close> up to its checkpoint: what it will pass to \<open>sendmsg\<close>.\<close>

definition send_fds_start :: "bytes \<Rightarrow> fd_item list \<Rightarrow> (bytes \<times> (int \<times> int \<times> bytes) list) res" where
  "send_fds_start message fds =
     (if message = [] then Inl (ValueError ''message must not be empty'')
      else if fds = [] then Inl (ValueError ''fds must not be empty'')
      else case fd_array (concat (map (\<lambda>x. case x of FdInt n \<Rightarrow> [n] | FdFile n \<Rightarrow> [n] | FdOther \<Rightarrow> []) fds)) of
        Inl e \<Rightarrow> Inl e
      | Inr a \<Rightarrow> Inr (message, [(sol_socket, scm_rights, a)]))"

section \<open>Listeners\<close>

record ulistener =
  ul_guard :: guard
  ul_closed :: bool
  ul_open :: bool

definition ulistener_new :: ulistener where
  "ulistener_new = \<lparr>ul_guard = guard_new ''accepting connections from'', ul_closed = False, ul_open = True\<rparr>"

definition unix_accept_turn :: "unit res \<Rightarrow> ulistener \<Rightarrow> ulistener \<times> (raw_pc, rawsock) outcome" where
  "unix_accept_turn sys l =
     (case sys of
        Inl BlockingIOError \<Rightarrow> (l, Suspended RawWait)
      | Inl e \<Rightarrow> (l\<lparr>ul_guard := guard_exit (ul_guard l)\<rparr>, Raised (raw_error e (ul_closed l)))
      | Inr _ \<Rightarrow> (l\<lparr>ul_guard := guard_exit (ul_guard l)\<rparr>, Done rawsock_new))"

text \<open>
  The wait is inside of the handler of \<open>BlockingIOError\<close>: what it raises goes out as it is, not through
  the handler of \<open>OSError\<close> beside it.
\<close>

fun unix_accept_resume :: "raw_pc \<Rightarrow> unit res \<Rightarrow> unit awaited \<Rightarrow> ulistener \<Rightarrow> ulistener \<times> (raw_pc, rawsock) outcome" where
  "unix_accept_resume RawCheckpoint sys (Thrown e) l = (l, Raised e)"
| "unix_accept_resume RawCheckpoint sys (Resumed _) l =
     (case guard_enter (ul_guard l) of
        (g, Inl e) \<Rightarrow> (l, Raised e)
      | (g, Inr _) \<Rightarrow> unix_accept_turn sys (l\<lparr>ul_guard := g\<rparr>))"
| "unix_accept_resume RawWait sys (Thrown e) l =
     (l\<lparr>ul_guard := guard_exit (ul_guard l)\<rparr>, Raised e)"
| "unix_accept_resume RawWait sys (Resumed _) l = unix_accept_turn sys l"

definition unix_listener_aclose :: "ulistener \<Rightarrow> ulistener" where
  "unix_listener_aclose l = l\<lparr>ul_closed := True, ul_open := False\<rparr>"

text \<open>\<open>TCPSocketListener\<close>: \<open>accept\<close> waits inside a cancel scope that \<open>aclose\<close> cancels.\<close>

record tlistener =
  tl_scope :: "nat option"
  tl_closed :: bool
  tl_open :: bool
  tl_guard :: guard

definition tlistener_new :: tlistener where
  "tlistener_new = \<lparr>tl_scope = None, tl_closed = False, tl_open = True,
     tl_guard = guard_new ''accepting connections from''\<rparr>"

datatype accept_pc = AccCheckpoint | AccWait nat | AccConnect

definition tcp_accept_start :: "tlistener \<Rightarrow> tlistener \<times> (accept_pc, unit) outcome" where
  "tcp_accept_start l =
     (if tl_closed l then (l, Raised ClosedResourceError)
      else case guard_enter (tl_guard l) of
        (g, Inl e) \<Rightarrow> (l, Raised e) | (g, Inr _) \<Rightarrow> (l\<lparr>tl_guard := g\<rparr>, Suspended AccCheckpoint))"

definition leave_accept :: "tlistener \<Rightarrow> tlistener" where
  "leave_accept l = l\<lparr>tl_guard := guard_exit (tl_guard l)\<rparr>"

text \<open>
  \<open>r\<close> is what the \<open>await\<close> gave: of the checkpoint, of \<open>sock_accept\<close>, of \<open>connect_accepted_socket\<close>;
  \<open>opt\<close> is the result of \<open>setsockopt\<close>. If the scope swallowed an exception there would be no
  client socket.
\<close>

fun tcp_accept_resume ::
  "task \<Rightarrow> accept_pc \<Rightarrow> unit res \<Rightarrow> unit awaited \<Rightarrow> tlistener \<Rightarrow> world \<Rightarrow> tlistener \<times> world \<times> (accept_pc, unit) outcome"
where
  "tcp_accept_resume t AccCheckpoint opt (Thrown e) l w = (leave_accept l, w, Raised e)"
| "tcp_accept_resume t AccCheckpoint opt (Resumed _) l w =
     (case create_scope PosInf False w of
        (w1, s) \<Rightarrow>
          (case scope_enter s t w1 of
             (w2, Inl e) \<Rightarrow> (leave_accept l, w2, Raised e)
           | (w2, Inr _) \<Rightarrow> (l\<lparr>tl_scope := Some s\<rparr>, w2, Suspended (AccWait s))))"
| "tcp_accept_resume t (AccWait s) opt r l w =
     (let exc = (case r of
                   Resumed _ \<Rightarrow> None
                 | Thrown e \<Rightarrow> Some (if is_cancelled e \<and> tl_closed l then ClosedResourceError else e));
          l1 = leave_accept (l\<lparr>tl_scope := None\<rparr>)
      in case scope_exit s exc w of
           (w', Inl e) \<Rightarrow> (l1, w', Raised e)
         | (w', Inr sw) \<Rightarrow>
             (case exc of
                Some e \<Rightarrow> (l1, w', Raised (if sw then NameError ''client_sock'' else e))
              | None \<Rightarrow> (case opt of Inl e \<Rightarrow> (l1, w', Raised e) | Inr _ \<Rightarrow> (l1, w', Suspended AccConnect))))"
| "tcp_accept_resume t AccConnect opt r l w =
     (l, w, case r of Resumed _ \<Rightarrow> Done () | Thrown e \<Rightarrow> Raised e)"

definition tcp_aclose_start :: "tlistener \<Rightarrow> world \<Rightarrow> tlistener \<times> world \<times> (unit, unit) outcome" where
  "tcp_aclose_start l w =
     (if tl_closed l then (l, w, Done ())
      else case tl_scope l of
        Some s \<Rightarrow> (l\<lparr>tl_closed := True\<rparr>, scope_cancel s w, Suspended ())
      | None \<Rightarrow> (l\<lparr>tl_closed := True, tl_open := False\<rparr>, w, Done ()))"

definition tcp_aclose_resume :: "unit awaited \<Rightarrow> tlistener \<Rightarrow> tlistener \<times> (unit, unit) outcome" where
  "tcp_aclose_resume r l =
     (case r of Thrown e \<Rightarrow> (l, Raised e) | Resumed _ \<Rightarrow> (l\<lparr>tl_open := False\<rparr>, Done ()))"

section \<open>Sending everything\<close>

text \<open>
  What \<open>socket.send\<close> promises: it accepts at least one byte of a non-empty view, a prefix of it,
  or raises and accepts nothing. \<open>out k\<close> is what the kernel has accepted so far.
\<close>

definition send_contract :: "('k \<Rightarrow> bytes \<Rightarrow> 'k \<times> nat res) \<Rightarrow> ('k \<Rightarrow> bytes) \<Rightarrow> bool" where
  "send_contract ks out \<longleftrightarrow>
     (\<forall>k v. v \<noteq> [] \<longrightarrow>
        (case ks k v of
           (k', Inr n) \<Rightarrow> 0 < n \<and> n \<le> length v \<and> out k' = out k @ take n v
         | (k', Inl e) \<Rightarrow> out k' = out k))"

lemma usend_loop_sends:
  assumes "send_contract ks out"
  shows "\<exists>k' rest r. usend_loop ks view k = Some (k', rest, r) \<and> out k' @ rest = out k @ view \<and> (r = Inr () \<longrightarrow> rest = [])"
proof (induction "length view" arbitrary: view k rule: less_induct)
  case less
  show ?case
  proof (cases "view = []")
    case True
    then show ?thesis by (simp add: usend_loop.simps)
  next
    case False
    obtain k1 r where ks: "ks k view = (k1, r)" by fastforce
    have c: "case r of Inr n \<Rightarrow> 0 < n \<and> n \<le> length view \<and> out k1 = out k @ take n view
        | Inl e \<Rightarrow> out k1 = out k"
      using assms [unfolded send_contract_def, rule_format, OF False, of k] by (simp add: ks)
    show ?thesis
    proof (cases r)
      case (Inl e)
      then show ?thesis using False ks c by (simp add: usend_loop.simps [of ks view])
    next
      case (Inr n)
      with c have n: "0 < n" "n \<le> length view" "out k1 = out k @ take n view" by simp_all
      then have "length (drop n view) < length view" using False by simp
      from less [OF this, of k1] n Inr False ks show ?thesis
        by (simp add: usend_loop.simps [of ks view])
    qed
  qed
qed

text \<open>A whole call of \<open>send\<close>: \<open>wakes\<close> are the states of the kernel in which it is resumed.\<close>

fun unix_send_run ::
  "('k \<Rightarrow> bytes \<Rightarrow> 'k \<times> nat res) \<Rightarrow> ('k \<Rightarrow> 'k) list \<Rightarrow> bytes \<Rightarrow> usend_pc \<Rightarrow> 'k \<Rightarrow> rawsock
     \<Rightarrow> ('k \<times> rawsock \<times> (usend_pc, unit) outcome) option"
where
  "unix_send_run ks [] item pc k s = Some (k, s, Suspended pc)"
| "unix_send_run ks (wake # wakes) item pc k s =
     (case unix_send_resume ks item pc (Resumed ()) (wake k) s of
        Some (k', s', Suspended pc') \<Rightarrow> unix_send_run ks wakes item pc' k' s'
      | r \<Rightarrow> r)"

fun still_to_send :: "bytes \<Rightarrow> usend_pc \<Rightarrow> bytes" where
  "still_to_send item USndCheckpoint = item"
| "still_to_send item (USndWait view) = view"

text \<open>\<open>todo\<close> is what the kernel will have accepted when the call returns.\<close>

definition send_post :: "('k \<Rightarrow> bytes) \<Rightarrow> bytes \<Rightarrow> bytes \<Rightarrow> 'k \<Rightarrow> (usend_pc, unit) outcome \<Rightarrow> bool" where
  "send_post out item todo k r \<longleftrightarrow>
     (case r of Done _ \<Rightarrow> out k = todo | Suspended pc \<Rightarrow> out k @ still_to_send item pc = todo
      | Raised _ \<Rightarrow> (\<exists>rest. out k @ rest = todo))"

lemma unix_send_turn_sends:
  assumes "send_contract ks out"
  shows "\<exists>k' s' r. unix_send_turn ks view k s = Some (k', s', r) \<and> send_post out item (out k @ view) k' r"
proof -
  from usend_loop_sends [OF assms, of view k] obtain k' rest r where
    u: "usend_loop ks view k = Some (k', rest, r)" "out k' @ rest = out k @ view" "r = Inr () \<longrightarrow> rest = []" by blast
  show ?thesis
  proof (cases r)
    case (Inr x)
    then show ?thesis using u by (simp add: unix_send_turn_def send_post_def)
  next
    case (Inl e)
    then show ?thesis using u by (cases e) (auto simp: unix_send_turn_def send_post_def)
  qed
qed

lemma unix_send_resume_sends:
  assumes "send_contract ks out"
  shows "\<exists>k' s' r. unix_send_resume ks item pc (Resumed ()) k s = Some (k', s', r)
    \<and> send_post out item (out k @ still_to_send item pc) k' r"
proof (cases pc)
  case USndCheckpoint
  obtain g r where g: "guard_enter (rs_sguard s) = (g, r)" by fastforce
  then show ?thesis
    using USndCheckpoint unix_send_turn_sends [OF assms, of item k "s\<lparr>rs_sguard := g\<rparr>" item]
    by (cases r) (simp_all add: send_post_def [of _ _ _ _ "Raised _"])
next
  case (USndWait view)
  then show ?thesis using unix_send_turn_sends [OF assms, of view k s item] by simp
qed

lemma unix_send_run_sends:
  assumes "send_contract ks out" "\<forall>wake \<in> set wakes. \<forall>x. out (wake x) = out x"
  shows "\<exists>k' s' r. unix_send_run ks wakes item pc k s = Some (k', s', r)
    \<and> send_post out item (out k @ still_to_send item pc) k' r"
  using assms(2)
proof (induction wakes arbitrary: pc k s)
  case Nil
  then show ?case by (simp add: send_post_def)
next
  case (Cons wake wakes)
  from unix_send_resume_sends [OF assms(1), of item pc "wake k" s] obtain k1 s1 r1 where
    r1: "unix_send_resume ks item pc (Resumed ()) (wake k) s = Some (k1, s1, r1)"
      "send_post out item (out (wake k) @ still_to_send item pc) k1 r1" by blast
  have w: "out (wake k) = out k" using Cons.prems by simp
  show ?case
  proof (cases r1)
    case (Suspended pc')
    with r1(2) w have "out k1 @ still_to_send item pc' = out k @ still_to_send item pc" by (simp add: send_post_def)
    with Cons.IH [of pc' k1 s1] Cons.prems r1 Suspended show ?thesis by simp
  qed (use r1 w in auto)
qed

section \<open>File descriptors survive the trip\<close>

lemma int_bytes_explicit:
  "int_bytes n = [word_of_int n, word_of_int (n div 256), word_of_int (n div 65536), word_of_int (n div 16777216)]"
  by (simp add: int_bytes_def)

lemma bytes_ints_int_bytes:
  assumes "- (2 ^ 31) \<le> n" "n < 2 ^ 31"
  shows "bytes_ints (int_bytes n @ bs) = n # bytes_ints bs"
proof -
  have d: "n div 65536 = n div 256 div 256" "n div 16777216 = n div 256 div 256 div 256"
    by (simp_all add: zdiv_zmult2_eq [symmetric])
  define a b c where "a = n div 256" and "b = a div 256" and "c = b div 256"
  define r0 r1 r2 where "r0 = n mod 256" and "r1 = a mod 256" and "r2 = b mod 256"
  have r: "0 \<le> r0" "r0 < 256" "0 \<le> r1" "r1 < 256" "0 \<le> r2" "r2 < 256" by (simp_all add: r0_def r1_def r2_def)
  have split: "n = 256 * a + r0" "a = 256 * b + r1" "b = 256 * c + r2"
    by (simp_all add: a_def b_def c_def r0_def r1_def r2_def)
  have lo: "- 2147483648 \<le> n" and hi: "n < 2147483648" using assms by simp_all
  have c: "- 128 \<le> c" "c < 128" using split r lo hi by linarith+
  have cm: "c mod 256 = (if c < 0 then c + 256 else c)"
  proof (cases "c < 0")
    case True
    have "c mod 256 = (c + 256) mod 256" by simp
    also have "\<dots> = c + 256" using c True by (intro mod_pos_pos_trivial) linarith+
    finally show ?thesis using True by simp
  next
    case False
    then show ?thesis using c by (simp add: mod_pos_pos_trivial)
  qed
  define u where "u = r0 + 256 * (r1 + 256 * (r2 + 256 * (c mod 256)))"
  have u: "u = (if n < 0 then n + 4294967296 else n)"
  proof (cases "c < 0")
    case True
    then have "n < 0" using split r by linarith
    then show ?thesis using True split cm by (simp add: u_def)
  next
    case False
    then have "\<not> n < 0" using split r by linarith
    then show ?thesis using False split cm by (simp add: u_def)
  qed
  have "bytes_ints (int_bytes n @ bs) = (if u < 2 ^ 31 then u else u - 2 ^ 32) # bytes_ints bs"
    by (simp add: int_bytes_explicit d uint_word_of_int a_def [symmetric] b_def [symmetric] c_def [symmetric]
        r0_def [symmetric] r1_def [symmetric] r2_def [symmetric] u_def Let_def)
  moreover have "(if u < 2 ^ 31 then u else u - 2 ^ 32) = n" using u lo hi by simp
  ultimately show ?thesis by simp
qed

lemma length_int_bytes: "length (concat (map int_bytes fds)) = 4 * length fds"
  by (induction fds) (simp_all add: int_bytes_def)

lemma bytes_ints_concat:
  "list_all (\<lambda>n. - (2 ^ 31) \<le> n \<and> n < 2 ^ 31) fds \<Longrightarrow> bytes_ints (concat (map int_bytes fds)) = fds"
  by (induction fds) (simp_all add: bytes_ints_int_bytes)

lemma find_none: "list_all (\<lambda>n. - (2 ^ 31) \<le> n \<and> n < 2 ^ 31) fds \<Longrightarrow>
    find (\<lambda>n. n < - (2 ^ 31) \<or> 2 ^ 31 \<le> n) fds = (None :: int option)"
  by (auto simp: find_None_iff list_all_iff)

section \<open>Properties\<close>

text \<open>
  C15: \<open>UNIXSocketStream.send\<close> ends every turn of its loop, and hands the item to the kernel
  exactly once and in order: whenever it waits, what the kernel accepted followed by what is left
  is the item; when it returns, the kernel has accepted the whole item, however it splits it.
\<close>

theorem unix_send_complete:
  assumes "send_contract ks out" "\<forall>wake \<in> set wakes. \<forall>x. out (wake x) = out x"
  shows "\<exists>k' s' r. unix_send_run ks wakes item USndCheckpoint k s = Some (k', s', r) \<and>
    (case r of Done _ \<Rightarrow> out k' = out k @ item
     | Suspended pc \<Rightarrow> out k' @ still_to_send item pc = out k @ item
     | Raised _ \<Rightarrow> \<exists>rest. out k' @ rest = out k @ item)"
  using unix_send_run_sends [OF assms, of item USndCheckpoint k s] by (simp add: send_post_def)

text \<open>A kernel with a send buffer: the room left and the bytes accepted.\<close>

definition buffer_send :: "nat \<times> bytes \<Rightarrow> bytes \<Rightarrow> (nat \<times> bytes) \<times> nat res" where
  "buffer_send = (\<lambda>(room, sent) v.
     if room = 0 then ((room, sent), Inl BlockingIOError)
     else let n = min room (length v) in ((room - n, sent @ take n v), Inr n))"

lemma buffer_send_contract: "send_contract buffer_send snd"
  by (auto simp: send_contract_def buffer_send_def Let_def)

theorem unix_send_complete_witness:
  "\<exists>k' s'. unix_send_run buffer_send [\<lambda>k. k, \<lambda>(room, sent). (2, sent)] [1, 2, 3] USndCheckpoint (1, []) rawsock_new
     = Some (k', s', Done ()) \<and> snd k' = [1, 2, 3]"
proof -
  let ?wakes = "[\<lambda>k. k, \<lambda>(room, sent). (2, sent)] :: (nat \<times> bytes \<Rightarrow> nat \<times> bytes) list"
  have fin: "r = Done ()"
    if "unix_send_run buffer_send ?wakes [1, 2, 3] USndCheckpoint (1, []) rawsock_new = Some (k', s', r)" for k' s' r
    using that
    by (simp add: buffer_send_def usend_loop.simps unix_send_turn_def rawsock_new_def guard_new_def guard_enter_def)
  have "\<forall>wake \<in> set ?wakes. \<forall>x. snd (wake x) = snd x" by (simp split: prod.split)
  from unix_send_complete [OF buffer_send_contract this, of "[1, 2, 3]" "(1, [])" rawsock_new]
  obtain k' s' r where run: "unix_send_run buffer_send ?wakes [1, 2, 3] USndCheckpoint (1, []) rawsock_new = Some (k', s', r)"
    and post: "case r of Done _ \<Rightarrow> snd k' = snd (1 :: nat, []) @ [1, 2, 3]
     | Suspended pc \<Rightarrow> snd k' @ still_to_send [1, 2, 3] pc = snd (1 :: nat, []) @ [1, 2, 3]
     | Raised _ \<Rightarrow> \<exists>rest. snd k' @ rest = snd (1 :: nat, []) @ [1, 2, 3]" by blast
  from fin [OF run] run post show ?thesis by (simp del: unix_send_run.simps)
qed

text \<open>
  The file descriptors \<open>send_fds\<close> packs into the ancillary data are the ones \<open>receive_fds\<close>
  unpacks from it, in order, for all 32-bit values (negative ones included), and the message
  arrives with them.
\<close>

theorem fds_roundtrip:
  assumes "list_all (\<lambda>n. - (2 ^ 31) \<le> n \<and> n < 2 ^ 31) fds" "fds \<noteq> []" "message \<noteq> []"
  shows "\<exists>anc. send_fds_start message (map FdInt fds) = Inr (message, anc) \<and> collect_fds r anc [] = Inr fds"
proof -
  have "fd_array fds = Inr (concat (map int_bytes fds))"
    unfolding fd_array_def find_none [OF assms(1)] by simp
  moreover have "concat (map (\<lambda>x. case x of FdInt n \<Rightarrow> [n] | FdFile n \<Rightarrow> [n] | FdOther \<Rightarrow> []) (map FdInt fds)) = fds"
    by (induction fds) simp_all
  ultimately show ?thesis
    using assms by (simp add: send_fds_start_def length_int_bytes bytes_ints_concat sol_socket_def scm_rights_def)
qed

theorem fds_roundtrip_witness:
  "\<exists>anc. send_fds_start [1] (map FdInt [3, 258]) = Inr ([1], anc) \<and> collect_fds [] anc [] = Inr [3, 258]"
  by (rule fds_roundtrip) simp_all

text \<open>
  \<open>aclose\<close> of a raw socket can fail: when the event loop has found the socket readable but the
  future's callback has not run yet, \<open>set_result\<close> raises \<open>InvalidStateError\<close>, and a task that waits
  to send is never woken.
\<close>

theorem raw_aclose_race:
  "\<exists>s'. raw_aclose (raw_readable (wait_until_readable (wait_until_writable rawsock_new))) = (s', Inl InvalidStateError)
     \<and> rs_sfut s' = Some Pending"
  by (simp add: raw_aclose_def raw_readable_def wait_until_readable_def wait_until_writable_def rawsock_new_def
      fut_set_result_def)

end
