(* ===== verification/SocketHelpers.thy ===== *)
theory SocketHelpers
  imports Conditions "HOL-Library.Multiset" "HOL-Library.Product_Lexorder" "HOL-Library.List_Lexorder" "HOL-Library.Char_ord"
begin

text \<open>
  The functions of \<open>src/anyio/_core/_sockets.py\<close> that resolve, order and convert addresses and open
  sockets: \<open>convert_ipv6_sockaddr\<close>, \<open>getaddrinfo\<close>, \<open>connect_tcp\<close> (happy eyeballs),
  \<open>create_tcp_listener\<close>, \<open>create_unix_listener\<close>, \<open>setup_unix_local_socket\<close> and the UDP functions, with
  \<open>wait_socket_readable\<close>, \<open>wait_socket_writable\<close> and the connecting functions of the asyncio backend.

  The operating system and the resolver are arguments: the results of \<open>getaddrinfo\<close> (entries of
  family, type, protocol, canonical name and address), and what a call on a socket raises, if
  anything. The constants are those of Linux.
\<close>

section \<open>Addresses\<close>

definition af_unspec :: int where "af_unspec = 0"
definition af_inet :: int where "af_inet = 2"
definition af_inet6 :: int where "af_inet6 = 10"
definition sock_stream :: int where "sock_stream = 1"

datatype sockaddr = Addr2 string int | Addr4 string int int int

type_synonym addr = "string \<times> int"
type_synonym gai = "int \<times> int \<times> int \<times> string \<times> addr"

definition before_percent :: "string \<Rightarrow> string" where
  "before_percent h = takeWhile (\<lambda>c. c \<noteq> CHR ''%'') h"

definition convert_ipv6_sockaddr :: "sockaddr \<Rightarrow> addr" where
  "convert_ipv6_sockaddr sa =
     (case sa of
        Addr2 host port \<Rightarrow> (host, port)
      | Addr4 host port flow scope_id \<Rightarrow>
          if scope_id \<noteq> 0 then (before_percent host @ ''%'' @ dec_int scope_id, port) else (host, port))"

text \<open>
  \<open>getaddrinfo\<close>: a name that is not ASCII is encoded by \<open>idna.encode\<close>, then the backend resolves it.
\<close>

definition is_ascii :: "string \<Rightarrow> bool" where
  "is_ascii s = list_all (\<lambda>c. (of_char c :: nat) < 128) s"

definition getaddrinfo ::
  "(string \<Rightarrow> string res) \<Rightarrow> (string option \<Rightarrow> (int \<times> int \<times> int \<times> string \<times> sockaddr) list res) \<Rightarrow> string option \<Rightarrow> gai list res"
where
  "getaddrinfo idna resolve host =
     (case (case host of
              Some h \<Rightarrow> if is_ascii h then Inr (Some h) else (case idna h of Inl e \<Rightarrow> Inl e | Inr x \<Rightarrow> Inr (Some x))
            | None \<Rightarrow> Inr None) of
        Inl e \<Rightarrow> Inl e
      | Inr encoded \<Rightarrow>
          (case resolve encoded of
             Inl e \<Rightarrow> Inl e
           | Inr gs \<Rightarrow> Inr (map (\<lambda>(f, k, p, c, sa). (f, k, p, c, convert_ipv6_sockaddr sa)) gs)))"

section \<open>Happy eyeballs\<close>

text \<open>\<open>list.insert\<close> with an index that may be past the end.\<close>

definition list_insert :: "nat \<Rightarrow> 'a \<Rightarrow> 'a list \<Rightarrow> 'a list" where
  "list_insert i x xs = take i xs @ x # drop i xs"

text \<open>The loop that orders the addresses, with \<open>v6_found\<close> and \<open>v4_found\<close>.\<close>

fun order_loop :: "gai list \<Rightarrow> bool \<Rightarrow> bool \<Rightarrow> (int \<times> string) list \<Rightarrow> (int \<times> string) list" where
  "order_loop [] v6 v4 ts = ts"
| "order_loop ((af, k, p, c, host, port) # gs) v6 v4 ts =
     (if af = af_inet6 \<and> \<not> v6 then order_loop gs True v4 (list_insert 0 (af, host) ts)
      else if af = af_inet \<and> \<not> v4 \<and> v6 then order_loop gs v6 True (list_insert 1 (af, host) ts)
      else order_loop gs v6 v4 (ts @ [(af, host)]))"

definition target_addrs :: "(int \<times> string) option \<Rightarrow> gai list \<Rightarrow> (int \<times> string) list" where
  "target_addrs literal gs = (case literal of Some t \<Rightarrow> [t] | None \<Rightarrow> order_loop gs False False [])"

text \<open>
  The attempts. An attempt ends with a stream or an exception; \<open>try_connect\<close> keeps the first stream
  (and cancels the group), closes the others and collects \<open>OSError\<close>s; anything else propagates.
  It sets the event of the attempt in every case.
\<close>

record eyeballs =
  he_stream :: "nat option"
  he_closed :: "nat list"
  he_errors :: "exn list"
  he_cancel :: bool
  he_events :: "nat list"

definition eyeballs_new :: eyeballs where
  "eyeballs_new = \<lparr>he_stream = None, he_closed = [], he_errors = [], he_cancel = False, he_events = []\<rparr>"

definition try_connect :: "nat \<Rightarrow> nat res \<Rightarrow> eyeballs \<Rightarrow> eyeballs \<times> unit res" where
  "try_connect i result h =
     (let (h1, r) =
        (case result of
           Inl e \<Rightarrow> if is_oserror e then (h\<lparr>he_errors := he_errors h @ [e]\<rparr>, Inr ()) else (h, Inl e)
         | Inr stream \<Rightarrow>
             (case he_stream h of
                None \<Rightarrow> (h\<lparr>he_stream := Some stream, he_cancel := True\<rparr>, Inr ())
              | Some _ \<Rightarrow> (h\<lparr>he_closed := he_closed h @ [stream]\<rparr>, Inr ())))
      in (h1\<lparr>he_events := he_events h1 @ [i]\<rparr>, r))"

text \<open>
  After the group: the cause of the exception, if one is raised, and the result. \<open>OSError 0\<close> stands
  for \<open>OSError("All connection attempts failed")\<close>, which has no error number; a group without members
  cannot be made.
\<close>

definition connect_result :: "eyeballs \<Rightarrow> exn option \<times> nat res" where
  "connect_result h =
     (case he_stream h of
        Some s \<Rightarrow> (None, Inr s)
      | None \<Rightarrow>
          (case he_errors h of
             [] \<Rightarrow> (None, Inl (ValueError ''second argument (exceptions) must be a non-empty sequence''))
           | [e] \<Rightarrow> (Some e, Inl (OSError 0))
           | es \<Rightarrow> (Some (ExcGroup ''multiple connection attempts failed'' es), Inl (OSError 0))))"

section \<open>Listeners\<close>

datatype sock_call = NewSocket int | SetOpt string | Bind sockaddr | Listen int

definition split_scope :: "addr \<Rightarrow> sockaddr res" where
  "split_scope = (\<lambda>(host, port).
     if CHR ''%'' \<in> set host then
       (case parse_nat (tl (dropWhile (\<lambda>c. c \<noteq> CHR ''%'') host)) of
          Some n \<Rightarrow> Inr (Addr4 (before_percent host) port 0 (int n))
        | None \<Rightarrow> Inl (ValueError ''invalid literal for int() with base 10''))
     else Inr (Addr2 host port))"

record tcp_setup =
  ts_sockets :: "gai list"
  ts_listeners :: "gai list"
  ts_closed :: "gai list"
  ts_calls :: "(gai \<times> sock_call) list"

fun run_calls :: "(gai \<Rightarrow> sock_call \<Rightarrow> unit res) \<Rightarrow> gai \<Rightarrow> sock_call list \<Rightarrow> tcp_setup \<Rightarrow> tcp_setup \<times> unit res" where
  "run_calls os g [] t = (t, Inr ())"
| "run_calls os g (c # cs) t =
     (let t' = t\<lparr>ts_calls := ts_calls t @ [(g, c)]\<rparr> in
      case os g c of
        Inl e \<Rightarrow> (t', Inl e)
      | Inr _ \<Rightarrow> run_calls os g cs (case c of NewSocket _ \<Rightarrow> t'\<lparr>ts_sockets := ts_sockets t' @ [g]\<rparr> | _ \<Rightarrow> t'))"

text \<open>The body of the loop for one address, on Linux: the address must be of type \<open>SOCK_STREAM\<close>.\<close>

definition tcp_entry :: "(gai \<Rightarrow> sock_call \<Rightarrow> unit res) \<Rightarrow> int \<Rightarrow> bool \<Rightarrow> gai \<Rightarrow> tcp_setup \<Rightarrow> tcp_setup \<times> unit res" where
  "tcp_entry os backlog reuse_port g t =
     (case g of (fam, kind, proto, canon, sa) \<Rightarrow>
        if kind \<noteq> sock_stream then (t, Inr ())
        else case run_calls os g
               ([NewSocket fam, SetOpt ''SO_REUSEADDR''] @ (if reuse_port then [SetOpt ''SO_REUSEPORT''] else [])
                @ (if fam = af_inet6 then [SetOpt ''IPV6_V6ONLY''] else [])) t of
          (t1, Inl e) \<Rightarrow> (t1, Inl e)
        | (t1, Inr _) \<Rightarrow>
            (case (if fam = af_inet6 then split_scope sa else Inr (Addr2 (fst sa) (snd sa))) of
               Inl e \<Rightarrow> (t1, Inl e)
             | Inr sa' \<Rightarrow>
                 (case run_calls os g [Bind sa', Listen backlog] t1 of
                    (t2, Inl e) \<Rightarrow> (t2, Inl e)
                  | (t2, Inr _) \<Rightarrow> (t2\<lparr>ts_listeners := ts_listeners t2 @ [g]\<rparr>, Inr ()))))"

fun tcp_entries :: "(gai \<Rightarrow> sock_call \<Rightarrow> unit res) \<Rightarrow> int \<Rightarrow> bool \<Rightarrow> gai list \<Rightarrow> tcp_setup \<Rightarrow> tcp_setup \<times> unit res" where
  "tcp_entries os backlog reuse_port [] t = (t, Inr ())"
| "tcp_entries os backlog reuse_port (g # gs) t =
     (case tcp_entry os backlog reuse_port g t of
        (t', Inl e) \<Rightarrow> (t', Inl e) | (t', Inr _) \<Rightarrow> tcp_entries os backlog reuse_port gs t')"

definition create_tcp_listener ::
  "(gai \<Rightarrow> sock_call \<Rightarrow> unit res) \<Rightarrow> int \<Rightarrow> bool \<Rightarrow> gai list \<Rightarrow> tcp_setup \<times> gai list res"
where
  "create_tcp_listener os backlog reuse_port gs =
     (case tcp_entries os (min backlog 65536) reuse_port (sort (remdups gs))
             \<lparr>ts_sockets = [], ts_listeners = [], ts_closed = [], ts_calls = []\<rparr> of
        (t, Inl e) \<Rightarrow> (t\<lparr>ts_closed := ts_listeners t\<rparr>, Inl e)
      | (t, Inr _) \<Rightarrow> (t, Inr (ts_listeners t)))"

section \<open>Waiting for a socket\<close>

text \<open>
  \<open>wait_socket_readable\<close> and \<open>wait_socket_writable\<close>: the dictionary of events by socket. The
  dictionary is that of the running event loop; taking the entry out from under a waiting task
  makes it raise \<open>ClosedResourceError\<close>.
\<close>

datatype ws_pc = WsCheckpoint | WsEvent

fun wait_socket_resume ::
  "string \<Rightarrow> task \<Rightarrow> nat \<Rightarrow> ws_pc \<Rightarrow> unit awaited \<Rightarrow> (nat \<rightharpoonup> aevent) \<Rightarrow> (nat \<rightharpoonup> aevent) \<times> (ws_pc, unit) outcome"
where
  "wait_socket_resume action t fd WsCheckpoint (Thrown e) evs = (evs, Raised e)"
| "wait_socket_resume action t fd WsCheckpoint (Resumed _) evs =
     (if evs fd \<noteq> None then (evs, Raised (BusyResourceError action))
      else (evs(fd \<mapsto> fst (aevent_wait_start t aevent_new)), Suspended WsEvent))"
| "wait_socket_resume action t fd WsEvent r evs =
     (evs(fd := None),
      case r of
        Thrown e \<Rightarrow> Raised e
      | Resumed _ \<Rightarrow> if evs fd \<noteq> None then Done () else Raised ClosedResourceError)"

section \<open>UDP and UNIX sockets\<close>

definition need_family :: exn where
  "need_family = ValueError ''Either \"family\" or \"local_host\" must be given''"

text \<open>
  What \<open>create_udp_socket\<close> passes to the backend: the family and the local address. \<open>resolved\<close> is the
  result of \<open>getaddrinfo\<close> for the local host; Python takes its first entry.
\<close>

definition first_gai :: "gai list \<Rightarrow> gai res" where
  "first_gai gs = (case gs of [] \<Rightarrow> Inl IndexError | g # _ \<Rightarrow> Inr g)"

definition gai_addr :: "gai \<Rightarrow> addr" where
  "gai_addr = (\<lambda>(f, k, p, c, sa). sa)"

definition udp_local :: "int \<Rightarrow> string option \<Rightarrow> int \<Rightarrow> gai list res \<Rightarrow> (int \<times> addr) res" where
  "udp_local family local_host local_port resolved =
     (if family = af_unspec \<and> (local_host = None \<or> local_host = Some []) then Inl need_family
      else if local_host \<noteq> None \<and> local_host \<noteq> Some [] then
        (case resolved of
           Inl e \<Rightarrow> Inl e
         | Inr gs \<Rightarrow> (case first_gai gs of Inl e \<Rightarrow> Inl e | Inr g \<Rightarrow> Inr (fst g, gai_addr g)))
      else if family = af_inet6 then Inr (af_inet6, (''::'', 0))
      else Inr (family, (''0.0.0.0'', 0)))"

definition connected_udp ::
  "int \<Rightarrow> string option \<Rightarrow> gai list res \<Rightarrow> (int \<Rightarrow> gai list res) \<Rightarrow> (int \<times> addr option \<times> addr) res"
where
  "connected_udp family local_host local_resolved remote_resolve =
     (case (if local_host \<noteq> None \<and> local_host \<noteq> Some [] then
              (case local_resolved of
                 Inl e \<Rightarrow> Inl e
               | Inr gs \<Rightarrow> (case first_gai gs of Inl e \<Rightarrow> Inl e | Inr g \<Rightarrow> Inr (fst g, Some (gai_addr g))))
            else Inr (family, None)) of
        Inl e \<Rightarrow> Inl e
      | Inr (family', local_address) \<Rightarrow>
          (case remote_resolve family' of
             Inl e \<Rightarrow> Inl e
           | Inr gs \<Rightarrow> (case first_gai gs of Inl e \<Rightarrow> Inl e | Inr g \<Rightarrow> Inr (fst g, local_address, gai_addr g))))"

text \<open>
  \<open>setup_unix_local_socket\<close> up to the thread calls: a socket file in the way is removed. \<open>stat\<close>
  gives the error number or whether the path is a socket.
\<close>

definition ignored_errnos :: "nat set" where
  "ignored_errnos = {2, 20, 9, 40}"

definition unix_local_prepare :: "string option \<Rightarrow> (string \<Rightarrow> (nat, bool) sum) \<Rightarrow> (string \<Rightarrow> unit res) \<Rightarrow> string list \<times> string option res" where
  "unix_local_prepare path stat unlink =
     (case path of
        None \<Rightarrow> ([], Inr None)
      | Some p \<Rightarrow>
          if p \<noteq> [] \<and> hd p = char_of (0 :: nat) then ([], Inr (Some p))
          else case stat p of
            Inl en \<Rightarrow> ([], if en \<in> ignored_errnos then Inr (Some p) else Inl (OSError en))
          | Inr True \<Rightarrow> (case unlink p of Inl e \<Rightarrow> ([], Inl e) | Inr _ \<Rightarrow> ([p], Inr (Some p)))
          | Inr False \<Rightarrow> ([], Inr (Some p)))"

text \<open>The calls in worker threads, \<open>bind\<close> and \<open>chmod\<close>; the result says whether the socket was closed.\<close>

definition unix_local_bind :: "string option \<Rightarrow> nat option \<Rightarrow> unit awaited \<Rightarrow> unit awaited \<Rightarrow> bool \<times> unit res" where
  "unix_local_bind path mode bound chmod =
     (case path of
        None \<Rightarrow> (False, Inr ())
      | Some p \<Rightarrow>
          (case bound of
             Thrown e \<Rightarrow> (True, Inl e)
           | Resumed _ \<Rightarrow>
               (case mode of
                  None \<Rightarrow> (False, Inr ())
                | Some m \<Rightarrow> (case chmod of Thrown e \<Rightarrow> (True, Inl e) | Resumed _ \<Rightarrow> (False, Inr ())))))"

definition create_unix_listener :: "int \<Rightarrow> (int \<Rightarrow> unit res) \<Rightarrow> bool \<times> unit res" where
  "create_unix_listener backlog listen =
     (case listen (min backlog 65536) of Inl e \<Rightarrow> (True, Inl e) | Inr _ \<Rightarrow> (False, Inr ()))"

text \<open>
  \<open>connect_unix\<close> of the asyncio backend, the loop over \<open>connect\<close>: the result says whether the socket
  was closed. \<open>UcWait\<close> is the \<open>await\<close> inside the \<open>except BlockingIOError\<close> clause.
\<close>

datatype uc_pc = UcCheckpoint | UcWait

definition unix_connect_turn :: "unit res \<Rightarrow> bool \<times> (uc_pc, unit) outcome" where
  "unix_connect_turn sys =
     (case sys of
        Inl BlockingIOError \<Rightarrow> (False, Suspended UcWait)
      | Inl e \<Rightarrow> (True, Raised e)
      | Inr _ \<Rightarrow> (False, Done ()))"

fun unix_connect_resume :: "uc_pc \<Rightarrow> unit res \<Rightarrow> unit awaited \<Rightarrow> bool \<times> (uc_pc, unit) outcome" where
  "unix_connect_resume pc sys (Thrown e) = (False, Raised e)"
| "unix_connect_resume pc sys (Resumed _) = unix_connect_turn sys"

definition unix_datagram_resume :: "string option \<Rightarrow> uc_pc \<Rightarrow> unit res \<Rightarrow> unit awaited \<Rightarrow> bool \<times> (uc_pc, unit) outcome" where
  "unix_datagram_resume remote pc sys r =
     (case r of
        Thrown e \<Rightarrow> (False, Raised e)
      | Resumed _ \<Rightarrow> if remote = None \<or> remote = Some [] then (False, Done ()) else unix_connect_turn sys)"

section \<open>Lemmas\<close>

definition gai_target :: "gai \<Rightarrow> int \<times> string" where
  "gai_target = (\<lambda>(af, k, p, c, host, port). (af, host))"

definition order_ok :: "bool \<Rightarrow> bool \<Rightarrow> (int \<times> string) list \<Rightarrow> bool" where
  "order_ok v6 v4 ts \<longleftrightarrow>
     (v6 = (af_inet6 \<in> fst ` set ts)) \<and> (v4 \<longrightarrow> v6 \<and> af_inet \<in> fst ` set ts)
     \<and> (v6 \<longrightarrow> ts \<noteq> [] \<and> fst (ts ! 0) = af_inet6)
     \<and> (v6 \<and> af_inet \<in> fst ` set ts \<longrightarrow> 2 \<le> length ts \<and> fst (ts ! 1) = af_inet)"

lemma list_insert_mset [simp]: "mset (list_insert i x xs) = add_mset x (mset xs)"
proof -
  have "mset xs = mset (take i xs) + mset (drop i xs)" by (simp flip: mset_append)
  then show ?thesis by (simp add: list_insert_def)
qed

lemma list_insert_set [simp]: "set (list_insert i x xs) = insert x (set xs)"
  by (metis list_insert_mset set_mset_add_mset_insert set_mset_mset)

lemma length_list_insert [simp]: "length (list_insert i x xs) = Suc (length xs)"
  by (simp add: list_insert_def)

lemma list_insert_0 [simp]: "list_insert 0 x xs = x # xs"
  by (simp add: list_insert_def)

lemma list_insert_1 [simp]: "list_insert (Suc 0) x (y # ys) = y # x # ys"
  by (simp add: list_insert_def)

lemma order_step6:
  assumes "order_ok False v4 ts" "\<forall>t \<in> set ts. fst t \<in> {af_inet, af_inet6}"
  shows "order_ok True v4 ((af_inet6, host) # ts)"
proof (cases ts)
  case (Cons t us)
  with assms have "fst t = af_inet" by (force simp: order_ok_def)
  then show ?thesis using assms Cons by (auto simp: order_ok_def af_inet_def af_inet6_def)
qed (use assms in \<open>auto simp: order_ok_def af_inet_def af_inet6_def\<close>)

lemma order_step4:
  "order_ok True False ts \<Longrightarrow> order_ok True True (list_insert 1 (af_inet, host) ts)"
  by (cases ts) (auto simp: order_ok_def)

lemma order_append:
  assumes "order_ok v6 v4 ts" "\<not> (af = af_inet6 \<and> \<not> v6)" "\<not> (af = af_inet \<and> \<not> v4 \<and> v6)"
  shows "order_ok v6 v4 (ts @ [(af, host)])"
  using assms by (auto simp: order_ok_def nth_append af_inet_def af_inet6_def)

lemma order_loop_ok:
  assumes "order_ok v6 v4 ts" "\<forall>t \<in> set ts. fst t \<in> {af_inet, af_inet6}" "\<forall>g \<in> set gs. fst g \<in> {af_inet, af_inet6}"
  shows "\<exists>v6' v4'. order_ok v6' v4' (order_loop gs v6 v4 ts)"
  using assms
proof (induction gs v6 v4 ts rule: order_loop.induct)
  case (2 af k p c host port gs v6 v4 ts)
  show ?case
  proof (cases "af = af_inet6 \<and> \<not> v6")
    case True
    with 2(1) [OF True] order_step6 [of v4 ts host] 2(4-6) show ?thesis by simp
  next
    case a: False
    show ?thesis
    proof (cases "af = af_inet \<and> \<not> v4 \<and> v6")
      case True
      with 2(2) [OF a True] order_step4 [of ts host] 2(4-6) a show ?thesis by simp
    next
      case False
      with 2(3) [OF a False] order_append [OF 2(4) a False, of host] 2(5,6) a show ?thesis by auto
    qed
  qed
qed auto

lemma order_loop_mset: "mset (order_loop gs v6 v4 ts) = mset ts + mset (map gai_target gs)"
  by (induction gs v6 v4 ts rule: order_loop.induct) (simp_all add: gai_target_def)

lemma run_calls_fields:
  "run_calls os g cs t = (t', r) \<Longrightarrow> (\<forall>f. NewSocket f \<notin> set cs) \<Longrightarrow>
     ts_sockets t' = ts_sockets t \<and> ts_listeners t' = ts_listeners t \<and> ts_closed t' = ts_closed t"
proof (induction cs arbitrary: t)
  case (Cons c cs)
  then show ?case by (cases c) (auto simp: Let_def split: sum.splits)
qed auto

text \<open>One address: nothing, a socket that became a listener, or a failure with at most one socket.\<close>

lemma tcp_entry_cases:
  assumes "tcp_entry os b rp g t = (t', r)"
  shows "(fst (snd g) \<noteq> sock_stream \<and> t' = t \<and> r = Inr ())
    \<or> (fst (snd g) = sock_stream \<and> r = Inr () \<and> ts_sockets t' = ts_sockets t @ [g]
        \<and> ts_listeners t' = ts_listeners t @ [g] \<and> ts_closed t' = ts_closed t)
    \<or> ((\<exists>e. r = Inl e) \<and> ts_listeners t' = ts_listeners t
        \<and> (ts_sockets t' = ts_sockets t \<or> ts_sockets t' = ts_sockets t @ [g]))"
proof (cases "fst (snd g) \<noteq> sock_stream")
  case True
  then show ?thesis using assms by (cases g) (auto simp: tcp_entry_def)
next
  case False
  obtain fam kind proto canon sa where g: "g = (fam, kind, proto, canon, sa)" by (metis prod_cases5)
  define cs where "cs = SetOpt ''SO_REUSEADDR'' # (if rp then [SetOpt ''SO_REUSEPORT''] else [])
                @ (if fam = af_inet6 then [SetOpt ''IPV6_V6ONLY''] else [])"
  obtain t1 r1 where r1: "run_calls os g (NewSocket fam # cs) t = (t1, r1)" by fastforce
  have no: "\<forall>f. NewSocket f \<notin> set cs" by (auto simp: cs_def)
  from r1 have s1: "ts_listeners t1 = ts_listeners t \<and> ts_closed t1 = ts_closed t \<and>
      (if r1 = Inr () then ts_sockets t1 = ts_sockets t @ [g]
       else ts_sockets t1 = ts_sockets t \<or> ts_sockets t1 = ts_sockets t @ [g])"
    using run_calls_fields [OF _ no] by (auto simp: Let_def split: sum.splits)
  show ?thesis
  proof (cases r1)
    case (Inl e)
    then show ?thesis using assms r1 s1 False by (auto simp: tcp_entry_def g cs_def)
  next
    case (Inr u)
    define sp where "sp = (if fam = af_inet6 then split_scope sa else Inr (Addr2 (fst sa) (snd sa)))"
    show ?thesis
    proof (cases sp)
      case (Inl e)
      then show ?thesis using assms r1 s1 False Inr by (auto simp: tcp_entry_def g cs_def sp_def)
    next
      case sp: (Inr sa')
      obtain t2 r2 where r2: "run_calls os g [Bind sa', Listen b] t1 = (t2, r2)" by fastforce
      have s2: "ts_sockets t2 = ts_sockets t1 \<and> ts_listeners t2 = ts_listeners t1 \<and> ts_closed t2 = ts_closed t1"
        by (rule run_calls_fields [OF r2]) simp
      have "(t', r) = (case r2 of Inl e \<Rightarrow> (t2, Inl e) | Inr _ \<Rightarrow> (t2\<lparr>ts_listeners := ts_listeners t2 @ [g]\<rparr>, Inr ()))"
        using assms r1 r2 False Inr sp by (auto simp: tcp_entry_def g cs_def sp_def split: sum.splits)
      then show ?thesis using s1 s2 Inr False by (cases r2) auto
    qed
  qed
qed

lemma tcp_entries_cases:
  assumes "tcp_entries os b rp gs t = (t', r)" "ts_sockets t = ts_listeners t"
  shows "\<exists>k \<le> length gs. ts_listeners t' = ts_listeners t @ filter (\<lambda>g. fst (snd g) = sock_stream) (take k gs)
     \<and> (if r = Inr () then k = length gs \<and> ts_sockets t' = ts_listeners t'
        else \<exists>rest. ts_sockets t' = ts_listeners t' @ rest \<and> length rest \<le> 1)"
  using assms
proof (induction gs arbitrary: t)
  case Nil
  then show ?case by auto
next
  case (Cons g gs)
  obtain t1 r1 where e: "tcp_entry os b rp g t = (t1, r1)" by fastforce
  show ?case
  proof (cases r1)
    case (Inl x)
    with Cons.prems e have "t' = t1" "r = Inl x" by simp_all
    with tcp_entry_cases [OF e] Inl Cons.prems(2) show ?thesis by (intro exI [of _ 0]) auto
  next
    case (Inr u)
    with tcp_entry_cases [OF e] Cons.prems(2) have "ts_sockets t1 = ts_listeners t1"
      "ts_listeners t1 = ts_listeners t @ filter (\<lambda>g. fst (snd g) = sock_stream) [g]" by auto
    moreover have "tcp_entries os b rp gs t1 = (t', r)" using Cons.prems(1) e Inr by simp
    ultimately obtain k where "k \<le> length gs"
      "ts_listeners t' = ts_listeners t @ filter (\<lambda>g. fst (snd g) = sock_stream) [g] @ filter (\<lambda>g. fst (snd g) = sock_stream) (take k gs)"
      "if r = Inr () then k = length gs \<and> ts_sockets t' = ts_listeners t'
        else \<exists>rest. ts_sockets t' = ts_listeners t' @ rest \<and> length rest \<le> 1"
      using Cons.IH [of t1] by auto
    then show ?thesis by (intro exI [of _ "Suc k"]) (auto split: if_splits)
  qed
qed

section \<open>Properties\<close>

text \<open>
  The addresses \<open>connect_tcp\<close> tries are exactly those the resolver gave; if there is an IPv6
  address the first one tried is IPv6, and if there is an IPv4 address too the second one is IPv4,
  in whatever order the resolver gave them.
\<close>

theorem eyeballs_order:
  assumes "\<forall>g \<in> set gs. fst g \<in> {af_inet, af_inet6}" "g6 \<in> set gs" "fst g6 = af_inet6"
  shows "mset (target_addrs None gs) = mset (map gai_target gs) \<and> fst (target_addrs None gs ! 0) = af_inet6
    \<and> (af_inet \<in> fst ` set gs \<longrightarrow> fst (target_addrs None gs ! 1) = af_inet)"
proof -
  have m: "mset (target_addrs None gs) = mset (map gai_target gs)" by (simp add: target_addrs_def order_loop_mset)
  then have "set (target_addrs None gs) = gai_target ` set gs" by (metis set_mset_mset set_map)
  moreover have "fst (gai_target g) = fst g" for g by (cases g) (simp add: gai_target_def)
  ultimately have "fst ` set (target_addrs None gs) = fst ` set gs" by (simp add: image_image)
  moreover have "order_ok False False []" by (simp add: order_ok_def)
  from order_loop_ok [OF this _ assms(1)] obtain v6 v4 where "order_ok v6 v4 (target_addrs None gs)"
    by (auto simp: target_addrs_def)
  moreover have "af_inet6 \<in> fst ` set gs" using assms(2,3) by force
  ultimately show ?thesis using m by (simp add: order_ok_def)
qed

abbreviation three_addresses :: "gai list" where
  "three_addresses \<equiv> [(2, 1, 6, [], (''10.0.0.1'', 80)), (2, 1, 6, [], (''10.0.0.2'', 80)), (10, 1, 6, [], (''fe80::1'', 80))]"

theorem eyeballs_order_witness:
  "fst (target_addrs None three_addresses ! 0) = 10 \<and> fst (target_addrs None three_addresses ! 1) = 2"
  using eyeballs_order [of three_addresses "(10, 1, 6, [], (''fe80::1'', 80))"]
  by (simp add: af_inet_def af_inet6_def del: One_nat_def)

fun attempts :: "(nat \<times> nat res) list \<Rightarrow> eyeballs \<Rightarrow> eyeballs" where
  "attempts [] h = h"
| "attempts ((i, r) # rs) h = attempts rs (fst (try_connect i r h))"

fun streams :: "(nat \<times> nat res) list \<Rightarrow> nat list" where
  "streams [] = []"
| "streams ((i, Inr s) # rs) = s # streams rs"
| "streams ((i, Inl e) # rs) = streams rs"

lemma attempts_spec:
  "(case he_stream (attempts rs h) of None \<Rightarrow> [] | Some s \<Rightarrow> [s]) @ he_closed (attempts rs h)
     = (case he_stream h of None \<Rightarrow> [] | Some s \<Rightarrow> [s]) @ he_closed h @ streams rs"
  if "he_stream h = None \<longrightarrow> he_closed h = []"
  using that
proof (induction rs h rule: attempts.induct)
  case (2 i r rs h)
  show ?case
  proof (cases r)
    case (Inl e)
    then show ?thesis using 2 by (auto simp: try_connect_def Let_def)
  next
    case (Inr s)
    then show ?thesis using 2 by (cases "he_stream h") (auto simp: try_connect_def Let_def)
  qed
qed simp

text \<open>
  Happy eyeballs keeps one stream: whatever the attempts give and in whatever order they end, the
  stream \<open>connect_tcp\<close> returns is that of the first attempt that succeeded, and every other stream
  an attempt got was closed; without a success every attempt's \<open>OSError\<close> is reported.
\<close>

theorem eyeballs_one_winner:
  "(case snd (connect_result (attempts rs eyeballs_new)) of Inr s \<Rightarrow> [s] | Inl _ \<Rightarrow> [])
     @ he_closed (attempts rs eyeballs_new) = streams rs"
proof -
  have "(case snd (connect_result h) of Inr s \<Rightarrow> [s] | Inl _ \<Rightarrow> []) = (case he_stream h of None \<Rightarrow> [] | Some s \<Rightarrow> [s])" for h
    by (auto simp: connect_result_def split: option.split list.split)
  then show ?thesis using attempts_spec [of eyeballs_new rs] by (simp add: eyeballs_new_def)
qed

text \<open>
  A scoped IPv6 address survives the conversion to a pair and back: what \<open>create_tcp_listener\<close>
  makes of the result of \<open>convert_ipv6_sockaddr\<close> is the original address and scope, with flow
  information 0 (and without an interface name PyPy may have left in the host).
\<close>

theorem scope_roundtrip:
  assumes "0 < scope_id"
  shows "split_scope (convert_ipv6_sockaddr (Addr4 host port flow scope_id))
    = Inr (Addr4 (before_percent host) port 0 scope_id)"
proof -
  have no: "CHR ''%'' \<notin> set (before_percent host)"
    by (metis before_percent_def set_takeWhileD)
  have d: "dropWhile (\<lambda>c. c \<noteq> CHR ''%'') (before_percent host @ CHR ''%'' # ds) = CHR ''%'' # ds" for ds
    using no by (induction "before_percent host") (auto simp: dropWhile_append)
  have t: "takeWhile (\<lambda>c. c \<noteq> CHR ''%'') (before_percent host @ CHR ''%'' # ds) = before_percent host" for ds
    using no by (simp add: takeWhile_append)
  show ?thesis using assms
    by (simp add: convert_ipv6_sockaddr_def split_scope_def dec_int_def d before_percent_def [of "_ @ _"] t)
qed

theorem scope_roundtrip_witness:
  "split_scope (convert_ipv6_sockaddr (Addr4 ''fe80::1'' 80 0 3)) = Inr (Addr4 ''fe80::1'' 80 0 3)"
  using scope_roundtrip [of 3 "''fe80::1''" 80 0] by (simp add: before_percent_def)

text \<open>
  \<open>create_tcp_listener\<close> listens on every address of type \<open>SOCK_STREAM\<close> the resolver gave, once
  each and in sorted order, or fails; when it fails it closes every listener it made, so that at
  most the one socket it was working on is left open.
\<close>

theorem tcp_listener_all_or_nothing:
  "case create_tcp_listener os backlog reuse_port gs of
     (t, Inr ls) \<Rightarrow> ls = filter (\<lambda>g. fst (snd g) = sock_stream) (sort (remdups gs)) \<and> ts_sockets t = ls
   | (t, Inl e) \<Rightarrow> \<exists>rest. ts_sockets t = ts_closed t @ rest \<and> length rest \<le> 1"
proof -
  obtain t r where e: "tcp_entries os (min backlog 65536) reuse_port (sort (remdups gs))
      \<lparr>ts_sockets = [], ts_listeners = [], ts_closed = [], ts_calls = []\<rparr> = (t, r)" by fastforce
  from tcp_entries_cases [OF e] show ?thesis
    by (cases r) (auto simp: create_tcp_listener_def e)
qed

text \<open>The socket that is left open: binding fails after it was made.\<close>

lemma tcp_listener_leak:
  "\<exists>t. create_tcp_listener (\<lambda>g c. case c of Bind _ \<Rightarrow> Inl (OSError 98) | _ \<Rightarrow> Inr ()) 5 False
      [(2, 1, 6, [], (''127.0.0.1'', 80))] = (t, Inl (OSError 98))
    \<and> ts_sockets t = [(2, 1, 6, [], (''127.0.0.1'', 80))] \<and> ts_closed t = []"
  by (simp add: create_tcp_listener_def tcp_entry_def sock_stream_def af_inet6_def Let_def)

text \<open>The port is ignored when only a family is given.\<close>

lemma udp_port_ignored: "udp_local af_inet None 5353 r = Inr (af_inet, (''0.0.0.0'', 0))"
  by (simp add: udp_local_def af_inet_def af_inet6_def af_unspec_def)

text \<open>A cancelled wait in \<open>connect_unix\<close> leaves the socket open; a failing \<open>connect\<close> closes it.\<close>

lemma unix_connect_leak:
  "fst (unix_connect_resume UcWait sys (Thrown e)) = False"
  "\<not> e' = BlockingIOError \<Longrightarrow> fst (unix_connect_resume UcWait (Inl e') (Resumed ())) = True"
  by (cases e'; simp add: unix_connect_turn_def)+

end
