(* ===== verification/Datagrams.thy ===== *)
theory Datagrams
  imports SocketHelpers "HOL-Library.Sublist"
begin

text \<open>
  UDP sockets of \<open>src/anyio/_backends/_asyncio.py\<close>: \<open>DatagramProtocol\<close>, whose queue keeps the last 100
  datagrams (\<open>deque(maxlen=100)\<close>), \<open>UDPSocket\<close> and \<open>ConnectedUDPSocket\<close>. The transport is its
  \<open>is_closing()\<close> flag and the packets \<open>sendto\<close> was given.
\<close>

section \<open>The protocol\<close>

record dproto =
  dq :: "(bytes \<times> addr) list"
  d_read_ev :: aevent
  d_write_ev :: aevent
  d_exc :: "exn option"

definition datagram_maxlen :: nat where "datagram_maxlen = 100"

definition dconnection_made :: dproto where
  "dconnection_made = \<lparr>dq = [], d_read_ev = aevent_new, d_write_ev = aevent_set aevent_new, d_exc = None\<rparr>"

definition dconnection_lost :: "dproto \<Rightarrow> dproto" where
  "dconnection_lost p = p\<lparr>d_read_ev := aevent_set (d_read_ev p), d_write_ev := aevent_set (d_write_ev p)\<rparr>"

text \<open>\<open>append\<close> on a full deque drops the oldest entry.\<close>

definition datagram_received :: "bytes \<Rightarrow> sockaddr \<Rightarrow> dproto \<Rightarrow> dproto" where
  "datagram_received data sa p =
     (let q = dq p @ [(data, convert_ipv6_sockaddr sa)]
      in p\<lparr>dq := drop (length q - datagram_maxlen) q, d_read_ev := aevent_set (d_read_ev p)\<rparr>)"

definition error_received :: "exn \<Rightarrow> dproto \<Rightarrow> dproto" where
  "error_received e p = p\<lparr>d_exc := Some e\<rparr>"

definition dpause_writing :: "dproto \<Rightarrow> dproto" where
  "dpause_writing p = p\<lparr>d_write_ev := aevent_clear (d_write_ev p)\<rparr>"

definition dresume_writing :: "dproto \<Rightarrow> dproto" where
  "dresume_writing p = p\<lparr>d_write_ev := aevent_set (d_write_ev p)\<rparr>"

section \<open>The socket\<close>

record usock =
  us_p :: dproto
  us_closing :: bool
  us_sent :: "(bytes \<times> addr option) list"
  us_rguard :: guard
  us_sguard :: guard
  us_closed :: bool

definition usock_new :: "dproto \<Rightarrow> usock" where
  "usock_new p = \<lparr>us_p = p, us_closing = False, us_sent = [], us_rguard = guard_new ''reading from'',
     us_sguard = guard_new ''writing to'', us_closed = False\<rparr>"

text \<open>
  \<open>create_udp_socket\<close> of the backend after \<open>create_datagram_endpoint\<close>: an error the protocol has
  already received closes the transport and is raised.
\<close>

definition backend_udp_socket :: "dproto \<Rightarrow> usock \<times> unit res" where
  "backend_udp_socket p =
     (case d_exc p of
        Some e \<Rightarrow> ((usock_new p)\<lparr>us_closing := True\<rparr>, Inl e) | None \<Rightarrow> (usock_new p, Inr ()))"

definition udp_aclose :: "usock \<Rightarrow> usock" where
  "udp_aclose s = (if us_closing s then s else s\<lparr>us_closed := True, us_closing := True\<rparr>)"

datatype udp_pc = UdpCheckpoint | UdpWait

definition udp_receive_start :: "usock \<Rightarrow> usock \<times> (udp_pc, bytes \<times> addr) outcome" where
  "udp_receive_start s =
     (case guard_enter (us_rguard s) of
        (g, Inl e) \<Rightarrow> (s, Raised e) | (g, Inr _) \<Rightarrow> (s\<lparr>us_rguard := g\<rparr>, Suspended UdpCheckpoint))"

definition udp_leave_r :: "usock \<Rightarrow> usock" where
  "udp_leave_r s = s\<lparr>us_rguard := guard_exit (us_rguard s)\<rparr>"

definition udp_leave_s :: "usock \<Rightarrow> usock" where
  "udp_leave_s s = s\<lparr>us_sguard := guard_exit (us_sguard s)\<rparr>"

definition udp_pop :: "usock \<Rightarrow> usock \<times> (udp_pc, bytes \<times> addr) outcome" where
  "udp_pop s =
     (case dq (us_p s) of
        x # q \<Rightarrow> (udp_leave_r (s\<lparr>us_p := (us_p s)\<lparr>dq := q\<rparr>\<rparr>), Done x)
      | [] \<Rightarrow> (udp_leave_r s, Raised (if us_closed s then ClosedResourceError else BrokenResourceError)))"

fun udp_receive_resume :: "task \<Rightarrow> udp_pc \<Rightarrow> unit awaited \<Rightarrow> usock \<Rightarrow> usock \<times> (udp_pc, bytes \<times> addr) outcome" where
  "udp_receive_resume t UdpCheckpoint (Thrown e) s = (udp_leave_r s, Raised e)"
| "udp_receive_resume t UdpCheckpoint (Resumed _) s =
     (if dq (us_p s) = [] \<and> \<not> us_closing s then
        (s\<lparr>us_p := (us_p s)\<lparr>d_read_ev := fst (aevent_wait_start t (aevent_clear (d_read_ev (us_p s))))\<rparr>\<rparr>,
         Suspended UdpWait)
      else udp_pop s)"
| "udp_receive_resume t UdpWait r s =
     (let s1 = s\<lparr>us_p := (us_p s)\<lparr>d_read_ev := fst (aevent_wait_resume t r (d_read_ev (us_p s)))\<rparr>\<rparr> in
      case r of Thrown e \<Rightarrow> (udp_leave_r s1, Raised e) | Resumed _ \<Rightarrow> udp_pop s1)"

text \<open>\<open>ConnectedUDPSocket.receive\<close> keeps the data only.\<close>

definition connected_udp_receive :: "(udp_pc, bytes \<times> addr) outcome \<Rightarrow> (udp_pc, bytes) outcome" where
  "connected_udp_receive r = (case r of Done x \<Rightarrow> Done (fst x) | Raised e \<Rightarrow> Raised e | Suspended pc \<Rightarrow> Suspended pc)"

definition udp_send_start :: "usock \<Rightarrow> usock \<times> (udp_pc, unit) outcome" where
  "udp_send_start s =
     (case guard_enter (us_sguard s) of
        (g, Inl e) \<Rightarrow> (s, Raised e) | (g, Inr _) \<Rightarrow> (s\<lparr>us_sguard := g\<rparr>, Suspended UdpCheckpoint))"

text \<open>After the waits; a connected socket sends without an address.\<close>

definition udp_sendto :: "bytes \<times> addr option \<Rightarrow> usock \<Rightarrow> usock \<times> (udp_pc, unit) outcome" where
  "udp_sendto item s =
     (if us_closed s then (udp_leave_s s, Raised ClosedResourceError)
      else if us_closing s then (udp_leave_s s, Raised BrokenResourceError)
      else (udp_leave_s (s\<lparr>us_sent := us_sent s @ [item]\<rparr>), Done ()))"

fun udp_send_resume ::
  "task \<Rightarrow> bytes \<times> addr option \<Rightarrow> udp_pc \<Rightarrow> unit awaited \<Rightarrow> usock \<Rightarrow> usock \<times> (udp_pc, unit) outcome"
where
  "udp_send_resume t item UdpCheckpoint (Thrown e) s = (udp_leave_s s, Raised e)"
| "udp_send_resume t item UdpCheckpoint (Resumed _) s =
     (case aevent_wait_start t (d_write_ev (us_p s)) of
        (ev, Suspended _) \<Rightarrow> (s\<lparr>us_p := (us_p s)\<lparr>d_write_ev := ev\<rparr>\<rparr>, Suspended UdpWait)
      | (ev, _) \<Rightarrow> udp_sendto item s)"
| "udp_send_resume t item UdpWait r s =
     (let s1 = s\<lparr>us_p := (us_p s)\<lparr>d_write_ev := fst (aevent_wait_resume t r (d_write_ev (us_p s)))\<rparr>\<rparr> in
      case r of Thrown e \<Rightarrow> (udp_leave_s s1, Raised e) | Resumed _ \<Rightarrow> udp_sendto item s1)"

section \<open>Receiving under any interleaving\<close>

text \<open>\<open>darrived\<close> and \<open>dgot\<close> are history.\<close>

record usys =
  uk :: usock
  darrived :: "(bytes \<times> addr) list"
  dgot :: "(bytes \<times> addr) list"

datatype udp_action =
    UdData bytes sockaddr | UdLost | UdError exn | UdPause | UdResume | UdReceive
  | UdReceiveResume task udp_pc "unit awaited" | UdCancelWait task | UdSendStart
  | UdSend task "bytes \<times> addr option" udp_pc "unit awaited" | UdClose

definition ud_end :: "usock \<times> (udp_pc, bytes \<times> addr) outcome \<Rightarrow> usys \<Rightarrow> usys" where
  "ud_end = (\<lambda>(k, r) s. s\<lparr>uk := k, dgot := dgot s @ (case r of Done x \<Rightarrow> [x] | _ \<Rightarrow> [])\<rparr>)"

fun ud_act :: "udp_action \<Rightarrow> usys \<Rightarrow> usys" where
  "ud_act (UdData d sa) s =
     s\<lparr>uk := (uk s)\<lparr>us_p := datagram_received d sa (us_p (uk s))\<rparr>, darrived := darrived s @ [(d, convert_ipv6_sockaddr sa)]\<rparr>"
| "ud_act UdLost s = s\<lparr>uk := (uk s)\<lparr>us_p := dconnection_lost (us_p (uk s)), us_closing := True\<rparr>\<rparr>"
| "ud_act (UdError e) s = s\<lparr>uk := (uk s)\<lparr>us_p := error_received e (us_p (uk s))\<rparr>\<rparr>"
| "ud_act UdPause s = s\<lparr>uk := (uk s)\<lparr>us_p := dpause_writing (us_p (uk s))\<rparr>\<rparr>"
| "ud_act UdResume s = s\<lparr>uk := (uk s)\<lparr>us_p := dresume_writing (us_p (uk s))\<rparr>\<rparr>"
| "ud_act UdReceive s = ud_end (udp_receive_start (uk s)) s"
| "ud_act (UdReceiveResume t pc r) s = ud_end (udp_receive_resume t pc r (uk s)) s"
| "ud_act (UdCancelWait t) s =
     s\<lparr>uk := (uk s)\<lparr>us_p := (us_p (uk s))\<lparr>d_read_ev := aevent_cancel_waiter t (d_read_ev (us_p (uk s)))\<rparr>\<rparr>\<rparr>"
| "ud_act UdSendStart s = s\<lparr>uk := fst (udp_send_start (uk s))\<rparr>"
| "ud_act (UdSend t item pc r) s = s\<lparr>uk := fst (udp_send_resume t item pc r (uk s))\<rparr>"
| "ud_act UdClose s = s\<lparr>uk := udp_aclose (uk s)\<rparr>"

definition usys_new :: usys where
  "usys_new = \<lparr>uk = usock_new dconnection_made, darrived = [], dgot = []\<rparr>"

definition ud_run :: "udp_action list \<Rightarrow> usys" where
  "ud_run as = fold ud_act as usys_new"

text \<open>The queue is the end of what arrived, what was received is in order before it.\<close>

definition ud_ok :: "usys \<Rightarrow> bool" where
  "ud_ok s \<longleftrightarrow> length (dq (us_p (uk s))) \<le> datagram_maxlen
     \<and> (\<exists>before. darrived s = before @ dq (us_p (uk s)) \<and> subseq (dgot s) before)
     \<and> aevent_ok (d_read_ev (us_p (uk s)))
     \<and> (dq (us_p (uk s)) \<noteq> [] \<longrightarrow> ev_flag (d_read_ev (us_p (uk s))))"

text \<open>Steps that keep the queue, and those that take its first entry.\<close>

definition same_queue :: "usock \<Rightarrow> usock \<Rightarrow> bool" where
  "same_queue k k' \<longleftrightarrow> dq (us_p k') = dq (us_p k) \<and> (aevent_ok (d_read_ev (us_p k)) \<longrightarrow> aevent_ok (d_read_ev (us_p k')))
     \<and> (dq (us_p k) \<noteq> [] \<and> ev_flag (d_read_ev (us_p k)) \<longrightarrow> ev_flag (d_read_ev (us_p k')))"

lemma same_queue_refl [simp]: "same_queue k k"
  by (simp add: same_queue_def)

lemma ud_ok_same: "ud_ok s \<Longrightarrow> same_queue (uk s) k \<Longrightarrow> ud_ok (s\<lparr>uk := k\<rparr>)"
  by (auto simp: ud_ok_def same_queue_def)

lemma event_flags [simp]:
  "ev_flag (fst (aevent_wait_start t ev)) = ev_flag ev" "ev_flag (fst (aevent_wait_resume t r ev)) = ev_flag ev"
  "ev_flag (aevent_cancel_waiter t ev) = ev_flag ev" "ev_flag (aevent_set ev)" "\<not> ev_flag (aevent_clear ev)"
  by (simp_all add: aevent_wait_start_def aevent_wait_resume_def aevent_cancel_waiter_def aevent_set_def aevent_clear_def)

lemma aevent_ok_clear: "aevent_ok (aevent_clear ev)"
  by (simp add: aevent_ok_def aevent_clear_def)

lemma us_p_leave [simp]: "us_p (udp_leave_r k) = us_p k" "us_p (udp_leave_s k) = us_p k"
  by (simp_all add: udp_leave_r_def udp_leave_s_def)

lemma same_queue_steps:
  "same_queue k (fst (udp_receive_start k))" "same_queue k (fst (udp_send_start k))"
  "same_queue k (fst (udp_send_resume t item pc r k))" "same_queue k (udp_aclose k)"
  subgoal by (simp add: udp_receive_start_def same_queue_def split: prod.split sum.split)
  subgoal by (simp add: udp_send_start_def same_queue_def split: prod.split sum.split)
  subgoal
    by (cases "(t, item, pc, r, k)" rule: udp_send_resume.cases)
       (auto simp: same_queue_def udp_sendto_def Let_def split: prod.split outcome.split awaited.split)
  subgoal by (simp add: udp_aclose_def same_queue_def)
  done

lemma udp_pop_ok:
  assumes "ud_ok s" "same_queue (uk s) k"
  shows "ud_ok (ud_end (udp_pop k) s)"
proof (cases "dq (us_p k)")
  case Nil
  then show ?thesis using ud_ok_same [OF assms] by (simp add: udp_pop_def ud_end_def ud_ok_def)
next
  case (Cons x q)
  obtain before where b: "darrived s = before @ x # q" "subseq (dgot s) before"
    using assms Cons by (auto simp: ud_ok_def same_queue_def)
  have q: "dq (us_p (uk s)) = x # q" using assms(2) Cons by (simp add: same_queue_def)
  from b have b': "\<exists>before. darrived s = before @ q \<and> subseq (dgot s @ [x]) before"
    by (intro exI [of _ "before @ [x]"]) (simp add: list_emb_append_mono)
  have e: "ud_end (udp_pop k) s = s\<lparr>uk := udp_leave_r (k\<lparr>us_p := (us_p k)\<lparr>dq := q\<rparr>\<rparr>), dgot := dgot s @ [x]\<rparr>"
    by (simp add: udp_pop_def ud_end_def Cons)
  have k: "length q \<le> datagram_maxlen" "aevent_ok (d_read_ev (us_p k))" "ev_flag (d_read_ev (us_p k))"
    using assms q by (simp_all add: ud_ok_def same_queue_def)
  then show ?thesis unfolding e ud_ok_def using b' by simp
qed

lemma udp_receive_resume_ok:
  assumes "ud_ok s"
  shows "ud_ok (ud_end (udp_receive_resume t pc r (uk s)) s)"
proof (cases "(t, pc, r, uk s)" rule: udp_receive_resume.cases)
  case (1 t' e k)
  then show ?thesis using assms by (simp add: ud_end_def ud_ok_def)
next
  case (2 t' u k)
  show ?thesis
  proof (cases "dq (us_p (uk s)) = [] \<and> \<not> us_closing (uk s)")
    case True
    then show ?thesis using 2 assms
      by (auto simp: ud_end_def ud_ok_def intro: aevent_ok_wait aevent_ok_clear)
  next
    case False
    then show ?thesis using 2 udp_pop_ok [OF assms same_queue_refl] by auto
  qed
next
  case (3 t' r' k)
  define k1 where "k1 = (uk s)\<lparr>us_p := (us_p (uk s))\<lparr>d_read_ev := fst (aevent_wait_resume t r (d_read_ev (us_p (uk s))))\<rparr>\<rparr>"
  have k1: "same_queue (uk s) k1" using aevent_ok_resume by (simp add: same_queue_def k1_def)
  show ?thesis
  proof (cases r)
    case (Resumed u)
    then show ?thesis using 3 udp_pop_ok [OF assms k1] by (auto simp: k1_def Let_def)
  next
    case (Thrown e)
    then show ?thesis using 3 ud_ok_same [OF assms k1] by (auto simp: k1_def ud_end_def ud_ok_def Let_def)
  qed
qed

lemma datagram_queue:
  "length q \<le> datagram_maxlen \<Longrightarrow> drop (length (q @ [x]) - datagram_maxlen) (q @ [x])
     = (if length q = datagram_maxlen then tl q else q) @ [x]"
  by (cases q) (auto simp: datagram_maxlen_def)

lemma ud_ok_act: "ud_ok s \<Longrightarrow> ud_ok (ud_act a s)"
proof (induction a s rule: ud_act.induct)
  case (1 d sa s)
  let ?x = "(d, convert_ipv6_sockaddr sa)" and ?q = "dq (us_p (uk s))"
  from 1 obtain before where b: "darrived s = before @ ?q" "subseq (dgot s) before" and len: "length ?q \<le> datagram_maxlen"
    by (auto simp: ud_ok_def)
  have "\<exists>before'. darrived s @ [?x] = before' @ (if length ?q = datagram_maxlen then tl ?q else ?q) @ [?x] \<and> subseq (dgot s) before'"
  proof (cases "length ?q = datagram_maxlen")
    case True
    then obtain y q' where "?q = y # q'" by (cases ?q) (auto simp: datagram_maxlen_def)
    then show ?thesis using b True by (intro exI [of _ "before @ [y]"]) (auto intro: list_emb_append2 subseq_order.trans)
  qed (use b in auto)
  moreover have "length (if length ?q = datagram_maxlen then tl ?q else ?q) < datagram_maxlen"
    using len by (auto simp: datagram_maxlen_def)
  ultimately show ?case using 1 datagram_queue [OF len, of ?x]
    by (auto simp: ud_ok_def datagram_received_def Let_def intro: aevent_ok_set)
next
  case (6 s)
  have "\<nexists>x. snd (udp_receive_start (uk s)) = Done x" by (simp add: udp_receive_start_def split: prod.split sum.split)
  then show ?case using ud_ok_same [OF 6 same_queue_steps(1)]
    by (cases "udp_receive_start (uk s)") (auto simp: ud_end_def ud_ok_def split: outcome.split)
next
  case (7 t pc r s)
  then show ?case using udp_receive_resume_ok by simp
next
  case (9 s)
  then show ?case using ud_ok_same same_queue_steps(2) by simp
next
  case (10 t item pc r s)
  then show ?case using ud_ok_same same_queue_steps(3) by simp
next
  case (11 s)
  then show ?case using ud_ok_same same_queue_steps(4) by simp
qed (auto simp: ud_ok_def dconnection_lost_def error_received_def dpause_writing_def dresume_writing_def
      intro: aevent_ok_set aevent_ok_cancel)

lemma ud_ok_run: "ud_ok (ud_run as)"
proof -
  have "ud_ok s \<Longrightarrow> ud_ok (fold ud_act as s)" for s
    by (induction as arbitrary: s) (simp_all add: ud_ok_act)
  moreover have "ud_ok usys_new"
    by (simp add: ud_ok_def usys_new_def usock_new_def dconnection_made_def aevent_ok_new)
  ultimately show ?thesis by (simp add: ud_run_def)
qed

section \<open>Properties\<close>

text \<open>
  The queue of a UDP socket never holds more than 100 datagrams, whatever arrives and whoever
  receives, and it holds the most recent ones: what arrived is, in order, what was received or
  dropped followed by the queue, what was received came in that order, and a task waits for a
  datagram only while the queue is empty.
\<close>

theorem udp_keeps_latest:
  "length (dq (us_p (uk (ud_run as)))) \<le> 100
   \<and> (\<exists>before. darrived (ud_run as) = before @ dq (us_p (uk (ud_run as))) \<and> subseq (dgot (ud_run as)) before)
   \<and> \<not> ((t, Pending) \<in> set (ev_waiters (d_read_ev (us_p (uk (ud_run as))))) \<and> dq (us_p (uk (ud_run as))) \<noteq> [])"
  using ud_ok_run [of as] by (auto simp: ud_ok_def aevent_ok_def datagram_maxlen_def)

end
