(* ===== verification/WorkerThreads.thy ===== *)
theory WorkerThreads
  imports CancelScopes
begin

text \<open>
  Worker threads of the asyncio backend: class \<open>WorkerThread\<close> and the pool part of
  \<open>AsyncIOBackend.run_sync_in_worker_thread\<close> in \<open>src/anyio/_backends/_asyncio.py\<close>.

  A thread takes items from its own \<open>Queue(2)\<close>, an item being the number of the caller's future
  (\<open>Some f\<close>) or the stop command (\<open>None\<close>). What the event loop does and what the threads do are
  separate steps: a thread takes an item, calls the function, and hands the result to the loop
  (\<open>call_soon_threadsafe\<close>), which runs \<open>_report_result\<close> later.
\<close>

section \<open>Idle workers\<close>

text \<open>
  Both pools of the library, threads and processes, keep idle workers in a deque, the least
  recently used on the left, and drop from the left those that have been idle for too long.
\<close>

fun prune_loop :: "('w \<Rightarrow> real) \<Rightarrow> real \<Rightarrow> real \<Rightarrow> 'w list \<Rightarrow> 'w list \<times> 'w list" where
  "prune_loop since limit time [] = ([], [])"
| "prune_loop since limit time (w # ws) =
     (if time - since w < limit then ([], w # ws)
      else (case prune_loop since limit time ws of (expired, kept) \<Rightarrow> (w # expired, kept)))"

lemma prune_split: "prune_loop since limit time ws = (expired, kept) \<Longrightarrow> ws = expired @ kept"
  by (induction ws arbitrary: expired) (auto split: if_splits prod.splits)

lemma prune_sorted:
  assumes "sorted (map since ws)"
  shows "prune_loop since limit time ws =
     (filter (\<lambda>w. limit \<le> time - since w) ws, filter (\<lambda>w. time - since w < limit) ws)"
  using assms
proof (induction ws)
  case (Cons w ws)
  show ?case
  proof (cases "time - since w < limit")
    case True
    with Cons.prems have "\<forall>x \<in> set (w # ws). time - since x < limit" by auto
    then have "filter (\<lambda>w. time - since w < limit) (w # ws) = w # ws"
      "filter (\<lambda>w. limit \<le> time - since w) (w # ws) = []"
      by (simp_all only: filter_id_conv filter_empty_conv not_le)
    then show ?thesis using True by simp
  next
    case False
    then show ?thesis using Cons by simp
  qed
qed simp

text \<open>
  The contract of a pool: its deque is sorted by age. Then taking the last worker and pruning the
  rest finds all workers that have been idle too long, although the loop stops at the first young
  one.
\<close>

locale idle_pool =
  fixes inv :: "'s \<Rightarrow> bool" and idle :: "'s \<Rightarrow> 'w list" and since :: "'s \<Rightarrow> 'w \<Rightarrow> real" and limit :: real
  assumes by_age: "inv s \<Longrightarrow> sorted (map (since s) (idle s))"
begin

lemma prune_take:
  assumes "inv s"
  shows "prune_loop (since s) limit time (take k (idle s)) =
     (filter (\<lambda>w. limit \<le> time - since s w) (take k (idle s)),
      filter (\<lambda>w. time - since s w < limit) (take k (idle s)))"
proof -
  have "sorted (map (since s) (take k (idle s)))"
    using by_age [OF assms] by (simp add: take_map [symmetric] sorted_wrt_take)
  then show ?thesis by (rule prune_sorted)
qed

lemma prune_rest:
  assumes "inv s"
  shows "prune_loop (since s) limit time (butlast (idle s)) =
     (filter (\<lambda>w. limit \<le> time - since s w) (butlast (idle s)),
      filter (\<lambda>w. time - since s w < limit) (butlast (idle s)))"
  unfolding butlast_conv_take by (rule prune_take [OF assms])

end

section \<open>The pool\<close>

record wthread =
  wt_since :: real
  wt_stopping :: bool
  wt_queue :: "nat option list"
  wt_busy :: "nat option"
  wt_exited :: bool

record 'a tpool =
  tp_threads :: "nat \<Rightarrow> wthread"
  tp_next :: nat
  tp_workers :: "nat list"
  tp_idle :: "nat list"
  tp_callbacks :: "nat list"
  tp_futures :: "nat \<Rightarrow> 'a future"
  tp_reports :: "(nat \<times> nat \<times> 'a res) list"

definition max_idle_time :: real where "max_idle_time = 10"

definition wthread_new :: "real \<Rightarrow> wthread" where
  "wthread_new time = \<lparr>wt_since = time, wt_stopping = False, wt_queue = [], wt_busy = None, wt_exited = False\<rparr>"

definition tpool_new :: "'a tpool" where
  "tpool_new = \<lparr>tp_threads = (\<lambda>_. wthread_new 0), tp_next = 0, tp_workers = [], tp_idle = [],
     tp_callbacks = [], tp_futures = (\<lambda>_. Pending), tp_reports = []\<rparr>"

definition upd_thread :: "nat \<Rightarrow> (wthread \<Rightarrow> wthread) \<Rightarrow> 'a tpool \<Rightarrow> 'a tpool" where
  "upd_thread w f p = p\<lparr>tp_threads := (tp_threads p)(w := f (tp_threads p w))\<rparr>"

text \<open>\<open>stop\<close>: the order to stop goes into the queue, the worker out of both collections.\<close>

definition worker_stop :: "nat \<Rightarrow> 'a tpool \<Rightarrow> 'a tpool" where
  "worker_stop w p =
     (upd_thread w (\<lambda>t. t\<lparr>wt_stopping := True, wt_queue := wt_queue t @ [None]\<rparr>) p)
       \<lparr>tp_workers := removeAll w (tp_workers p), tp_idle := remove1 w (tp_idle p)\<rparr>"

text \<open>
  The choice of a worker: a new one, or the most recently used with the others pruned, whose
  \<open>stop\<close> is then no callback of the root task any more.
\<close>

definition pick_worker :: "real \<Rightarrow> 'a tpool \<Rightarrow> nat \<times> 'a tpool" where
  "pick_worker time p =
     (if tp_idle p = [] then
        let w = tp_next p in
        (w, p\<lparr>tp_threads := (tp_threads p)(w := wthread_new time), tp_next := Suc w,
              tp_workers := tp_workers p @ [w], tp_callbacks := tp_callbacks p @ [w]\<rparr>)
      else
        let w = last (tp_idle p); p1 = p\<lparr>tp_idle := butlast (tp_idle p)\<rparr> in
        case prune_loop (\<lambda>x. wt_since (tp_threads p1 x)) max_idle_time time (tp_idle p1) of
          (expired, kept) \<Rightarrow>
            (w, fold (\<lambda>x q. worker_stop x (q\<lparr>tp_callbacks := removeAll x (tp_callbacks q)\<rparr>)) expired
                  (p1\<lparr>tp_idle := kept\<rparr>)))"

definition submit :: "real \<Rightarrow> nat \<Rightarrow> 'a tpool \<Rightarrow> 'a tpool" where
  "submit time f p = (case pick_worker time p of
     (w, p') \<Rightarrow> upd_thread w (\<lambda>t. t\<lparr>wt_queue := wt_queue t @ [Some f]\<rparr>) p')"

text \<open>The scope the function is run in: \<open>check_cancelled\<close> in the thread looks there.\<close>

definition worker_scope :: "bool \<Rightarrow> nat \<Rightarrow> world \<Rightarrow> nat" where
  "worker_scope abandon s w =
     (case sc_parent (scopes w s) of None \<Rightarrow> s | Some p \<Rightarrow> if abandon then s else p)"

text \<open>\<open>run\<close>: the thread takes an item; a call whose future is cancelled already is skipped.\<close>

definition thread_take :: "nat \<Rightarrow> 'a tpool \<Rightarrow> 'a tpool option" where
  "thread_take w p =
     (let t = tp_threads p w in
      if wt_exited t \<or> wt_busy t \<noteq> None then None
      else case wt_queue t of
        [] \<Rightarrow> None
      | None # q \<Rightarrow> Some (upd_thread w (\<lambda>t. t\<lparr>wt_queue := q, wt_exited := True\<rparr>) p)
      | Some f # q \<Rightarrow>
          if fut_cancelled (tp_futures p f) then Some (upd_thread w (\<lambda>t. t\<lparr>wt_queue := q\<rparr>) p)
          else Some (upd_thread w (\<lambda>t. t\<lparr>wt_queue := q, wt_busy := Some f\<rparr>) p))"

definition thread_finish :: "nat \<Rightarrow> 'a res \<Rightarrow> bool \<Rightarrow> 'a tpool \<Rightarrow> 'a tpool option" where
  "thread_finish w r loop_closed p =
     (case wt_busy (tp_threads p w) of
        None \<Rightarrow> None
      | Some f \<Rightarrow>
          Some ((upd_thread w (\<lambda>t. t\<lparr>wt_busy := None\<rparr>) p)
            \<lparr>tp_reports := tp_reports p @ (if loop_closed then [] else [(w, f, r)])\<rparr>))"

definition stop_iteration :: exn where
  "stop_iteration = RuntimeError ''coroutine raised StopIteration''"

text \<open>\<open>_report_result\<close>, run by the loop for the oldest report.\<close>

definition report_result :: "real \<Rightarrow> 'a tpool \<Rightarrow> ('a tpool \<times> unit res) option" where
  "report_result time p =
     (case tp_reports p of
        [] \<Rightarrow> None
      | (w, f, r) # rs \<Rightarrow>
          let p1 = (upd_thread w (\<lambda>t. t\<lparr>wt_since := time\<rparr>) p)\<lparr>tp_reports := rs\<rparr>;
              p2 = (if wt_stopping (tp_threads p w) then p1 else p1\<lparr>tp_idle := tp_idle p1 @ [w]\<rparr>)
          in if fut_cancelled (tp_futures p2 f) then Some (p2, Inr ())
             else case (case r of
                          Inr v \<Rightarrow> fut_set_result (tp_futures p2 f) v
                        | Inl e \<Rightarrow> fut_set_exception (tp_futures p2 f) (if e = StopIteration then stop_iteration else e)) of
                    Inl e \<Rightarrow> Some (p2, Inl e)
                  | Inr f' \<Rightarrow> Some (p2\<lparr>tp_futures := (tp_futures p2)(f := f')\<rparr>, Inr ()))"

section \<open>Threads and loop in any order\<close>

datatype 'a tp_action =
    TpSubmit nat | TpTake nat | TpFinish nat "'a res" bool | TpReport | TpCancel nat | TpRootDone
  | TpTick real

record 'a tpsys =
  tpp :: "'a tpool"
  tp_now :: real
  submitted :: "nat list"

definition root_done :: "'a tpool \<Rightarrow> 'a tpool" where
  "root_done p = fold worker_stop (tp_callbacks p) (p\<lparr>tp_callbacks := []\<rparr>)"

fun tp_act :: "'a tp_action \<Rightarrow> 'a tpsys \<Rightarrow> 'a tpsys option" where
  "tp_act (TpSubmit f) s =
     (if f \<in> set (submitted s) then None
      else Some (s\<lparr>tpp := submit (tp_now s) f (tpp s), submitted := submitted s @ [f]\<rparr>))"
| "tp_act (TpTake w) s = map_option (\<lambda>p. s\<lparr>tpp := p\<rparr>) (thread_take w (tpp s))"
| "tp_act (TpFinish w r c) s = map_option (\<lambda>p. s\<lparr>tpp := p\<rparr>) (thread_finish w r c (tpp s))"
| "tp_act TpReport s = map_option (\<lambda>(p, _). s\<lparr>tpp := p\<rparr>) (report_result (tp_now s) (tpp s))"
| "tp_act (TpCancel f) s =
     Some (s\<lparr>tpp := (tpp s)\<lparr>tp_futures := (tp_futures (tpp s))(f := fut_cancel (tp_futures (tpp s) f))\<rparr>\<rparr>)"
| "tp_act TpRootDone s = Some (s\<lparr>tpp := root_done (tpp s)\<rparr>)"
| "tp_act (TpTick d) s = (if d < 0 then None else Some (s\<lparr>tp_now := tp_now s + d\<rparr>))"

definition tpsys_new :: "real \<Rightarrow> 'a tpsys" where
  "tpsys_new time = \<lparr>tpp = tpool_new, tp_now = time, submitted = []\<rparr>"

inductive tp_reach :: "'a tpsys \<Rightarrow> bool" where
  init: "tp_reach (tpsys_new time)"
| step: "tp_reach s \<Longrightarrow> tp_act a s = Some s' \<Longrightarrow> tp_reach s'"

fun tp_run :: "'a tp_action list \<Rightarrow> 'a tpsys \<Rightarrow> 'a tpsys option" where
  "tp_run [] s = Some s"
| "tp_run (a # as) s = (case tp_act a s of None \<Rightarrow> None | Some s' \<Rightarrow> tp_run as s')"

lemma tp_run_reach: "tp_reach s \<Longrightarrow> tp_run as s = Some s' \<Longrightarrow> tp_reach s'"
  by (induction as arbitrary: s) (auto split: option.splits intro: tp_reach.step)

section \<open>The invariant\<close>

text \<open>How many calls worker \<open>w\<close> stands for: idle, queued, running, or with a result to report.\<close>

definition load :: "'a tpool \<Rightarrow> nat \<Rightarrow> nat" where
  "load p w = count_list (tp_idle p) w + length (filter (\<lambda>x. x \<noteq> None) (wt_queue (tp_threads p w)))
     + (if wt_busy (tp_threads p w) = None then 0 else 1) + length (filter (\<lambda>r. fst r = w) (tp_reports p))"

definition stops :: "'a tpool \<Rightarrow> nat \<Rightarrow> nat" where
  "stops p w = length (filter (\<lambda>x. x = None) (wt_queue (tp_threads p w)))"

definition worker_ok :: "'a tpool \<Rightarrow> nat \<Rightarrow> bool" where
  "worker_ok p w \<longleftrightarrow> load p w \<le> 1 \<and> stops p w \<le> (if wt_stopping (tp_threads p w) then 1 else 0)
     \<and> (wt_stopping (tp_threads p w) \<longrightarrow> w \<notin> set (tp_idle p) \<and> w \<notin> set (tp_callbacks p))
     \<and> (tp_next p \<le> w \<longrightarrow> load p w = 0 \<and> w \<notin> set (tp_callbacks p))"

definition pool_ok :: "real \<Rightarrow> 'a tpool \<Rightarrow> bool" where
  "pool_ok time p \<longleftrightarrow> (\<forall>w. worker_ok p w) \<and> distinct (tp_callbacks p)
     \<and> sorted (map (\<lambda>w. wt_since (tp_threads p w)) (tp_idle p))
     \<and> (\<forall>w \<in> set (tp_idle p). wt_since (tp_threads p w) \<le> time)"

lemma pool_okI:
  assumes "\<And>w. worker_ok p w" "distinct (tp_callbacks p)"
    "sorted (map (\<lambda>w. wt_since (tp_threads p w)) (tp_idle p))"
    "\<And>w. w \<in> set (tp_idle p) \<Longrightarrow> wt_since (tp_threads p w) \<le> time"
  shows "pool_ok time p"
  using assms by (simp add: pool_ok_def)

lemma count_remove1: "count_list (remove1 x xs) y = count_list xs y - (if x = y then 1 else 0)"
  by (induction xs) auto

lemma sorted_map_remove1: "sorted (map f xs) \<Longrightarrow> sorted (map f (remove1 x xs))"
  by (induction xs) (auto dest: set_remove1_subset [THEN subsetD])

lemma worker_stop_fields [simp]:
  "tp_idle (worker_stop w p) = remove1 w (tp_idle p)" "tp_next (worker_stop w p) = tp_next p"
  "tp_callbacks (worker_stop w p) = tp_callbacks p" "tp_reports (worker_stop w p) = tp_reports p"
  "wt_since (tp_threads (worker_stop w p) x) = wt_since (tp_threads p x)"
  "wt_busy (tp_threads (worker_stop w p) x) = wt_busy (tp_threads p x)"
  "wt_stopping (tp_threads (worker_stop w p) x) = (wt_stopping (tp_threads p x) \<or> x = w)"
  "wt_queue (tp_threads (worker_stop w p) x) = wt_queue (tp_threads p x) @ (if x = w then [None] else [])"
  by (simp_all add: worker_stop_def upd_thread_def)

lemma zero_if [simp]: "(if b then 0 else Suc 0) = 0 \<longleftrightarrow> b" "(if b then 0 else 1) = (0 :: nat) \<longleftrightarrow> b"
  by simp_all

lemma load_futures [simp]: "load (p\<lparr>tp_futures := fs\<rparr>) w = load p w" "stops (p\<lparr>tp_futures := fs\<rparr>) w = stops p w"
  by (simp_all add: load_def stops_def)

lemma pool_ok_futures: "pool_ok time p \<Longrightarrow> pool_ok time (p\<lparr>tp_futures := fs\<rparr>)"
  by (simp add: pool_ok_def worker_ok_def)

lemma load_le_idle: "count_list (tp_idle p) w \<le> load p w"
  by (simp add: load_def)

lemma count_le_distinct: "(\<And>x. count_list xs x \<le> 1) \<Longrightarrow> distinct xs"
proof (induction xs)
  case (Cons y xs)
  from Cons.prems [of y] have "y \<notin> set xs" by (simp add: count_list_0_iff)
  moreover have "count_list xs x \<le> 1" for x using Cons.prems [of x] by (simp split: if_splits)
  ultimately show ?case using Cons.IH by simp
qed simp

lemma pool_ok_distinct:
  assumes "pool_ok time p"
  shows "distinct (tp_idle p)"
proof (rule count_le_distinct)
  fix w
  have "worker_ok p w" using assms by (simp add: pool_ok_def)
  then show "count_list (tp_idle p) w \<le> 1" using load_le_idle [of p w] by (simp add: worker_ok_def)
qed

lemma pool_ok_stop:
  assumes ok: "pool_ok time p" and w: "w \<notin> set (tp_callbacks p)" "\<not> wt_stopping (tp_threads p w)"
  shows "pool_ok time (worker_stop w p)"
proof (rule pool_okI)
  fix x
  have k: "worker_ok p x" using ok by (simp add: pool_ok_def)
  have l: "load (worker_stop w p) x \<le> load p x" by (auto simp: load_def count_remove1)
  have gone: "w \<notin> set (remove1 w (tp_idle p))" using pool_ok_distinct [OF ok] by simp
  show "worker_ok (worker_stop w p) x"
    using k l w gone notin_set_remove1 [of x "tp_idle p" w]
    by (cases "x = w") (auto simp: worker_ok_def stops_def)
next
  show "distinct (tp_callbacks (worker_stop w p))" using ok by (simp add: pool_ok_def)
  show "sorted (map (\<lambda>x. wt_since (tp_threads (worker_stop w p) x)) (tp_idle (worker_stop w p)))"
    using ok by (simp add: pool_ok_def sorted_map_remove1)
  show "x \<in> set (tp_idle (worker_stop w p)) \<Longrightarrow> wt_since (tp_threads (worker_stop w p) x) \<le> time" for x
    using ok set_remove1_subset [of w "tp_idle p"] by (auto simp: pool_ok_def)
qed

lemma pool_ok_forget:
  assumes "pool_ok time p"
  shows "pool_ok time (p\<lparr>tp_callbacks := removeAll x (tp_callbacks p)\<rparr>)"
  using assms by (auto simp: pool_ok_def worker_ok_def load_def stops_def distinct_removeAll)

lemma pool_ok_fold_stop:
  assumes "pool_ok time p" "distinct ws" "\<forall>w \<in> set ws. \<not> wt_stopping (tp_threads p w) \<and> w \<notin> set (tp_idle p)"
  shows "pool_ok time (fold (\<lambda>x q. worker_stop x (q\<lparr>tp_callbacks := removeAll x (tp_callbacks q)\<rparr>)) ws p)
    \<and> tp_idle (fold (\<lambda>x q. worker_stop x (q\<lparr>tp_callbacks := removeAll x (tp_callbacks q)\<rparr>)) ws p) = tp_idle p
    \<and> (\<forall>x. x \<notin> set ws \<longrightarrow> tp_threads (fold (\<lambda>x q. worker_stop x (q\<lparr>tp_callbacks := removeAll x (tp_callbacks q)\<rparr>)) ws p) x = tp_threads p x)
    \<and> tp_reports (fold (\<lambda>x q. worker_stop x (q\<lparr>tp_callbacks := removeAll x (tp_callbacks q)\<rparr>)) ws p) = tp_reports p
    \<and> tp_next (fold (\<lambda>x q. worker_stop x (q\<lparr>tp_callbacks := removeAll x (tp_callbacks q)\<rparr>)) ws p) = tp_next p"
  using assms
proof (induction ws arbitrary: p)
  case (Cons w ws)
  define q where "q = worker_stop w (p\<lparr>tp_callbacks := removeAll w (tp_callbacks p)\<rparr>)"
  have q: "pool_ok time q" unfolding q_def
    using Cons.prems by (intro pool_ok_stop pool_ok_forget) simp_all
  have idle: "tp_idle q = tp_idle p" using Cons.prems(3) by (simp add: q_def remove1_idem)
  have same: "x \<noteq> w \<Longrightarrow> tp_threads q x = tp_threads p x" for x
    by (simp add: q_def worker_stop_def upd_thread_def)
  have rest: "tp_reports q = tp_reports p" "tp_next q = tp_next p" by (simp_all add: q_def)
  have "\<forall>x \<in> set ws. \<not> wt_stopping (tp_threads q x) \<and> x \<notin> set (tp_idle q)"
  proof
    fix x assume "x \<in> set ws"
    moreover from this Cons.prems(2) have "x \<noteq> w" by auto
    ultimately show "\<not> wt_stopping (tp_threads q x) \<and> x \<notin> set (tp_idle q)"
      using Cons.prems(3) same [of x] idle by simp
  qed
  from Cons.IH [OF q _ this] Cons.prems(2) idle same rest show ?case by (simp add: q_def [symmetric])
qed simp

text \<open>What picking gives: a worker without any load that is not stopping.\<close>

definition free_worker :: "'a tpool \<Rightarrow> nat \<Rightarrow> bool" where
  "free_worker p w \<longleftrightarrow> load p w = 0 \<and> \<not> wt_stopping (tp_threads p w) \<and> w < tp_next p"

lemma pick_worker_ok:
  assumes ok: "pool_ok time p" and pk: "pick_worker t p = (w, p')"
  shows "pool_ok time p' \<and> free_worker p' w"
proof (cases "tp_idle p = []")
  case True
  define n where "n = tp_next p"
  have p': "w = n" "p' = p\<lparr>tp_threads := (tp_threads p)(n := wthread_new t), tp_next := Suc n,
      tp_workers := tp_workers p @ [n], tp_callbacks := tp_callbacks p @ [n]\<rparr>"
    using pk True by (auto simp: pick_worker_def n_def Let_def)
  have k: "worker_ok p x" for x using ok by (simp add: pool_ok_def)
  have n: "load p n = 0" "n \<notin> set (tp_callbacks p)" using k [of n] by (simp_all add: worker_ok_def n_def)
  have l: "load p' x = (if x = n then 0 else load p x)" for x
    using n(1) by (auto simp: load_def p' wthread_new_def)
  have st: "stops p' x = (if x = n then 0 else stops p x)" for x by (simp add: stops_def p' wthread_new_def)
  have "worker_ok p' x" for x
    using k [of x] l [of x] st [of x] True by (auto simp: worker_ok_def p' n_def wthread_new_def)
  moreover have "distinct (tp_callbacks p')" using ok n(2) by (simp add: pool_ok_def p')
  ultimately have "pool_ok time p'" using True by (auto simp: pool_ok_def p')
  then show ?thesis using l [of n] by (simp add: free_worker_def p' wthread_new_def)
next
  case False
  define ids where "ids = butlast (tp_idle p)"
  have idle: "tp_idle p = ids @ [w]" using pk False
    by (auto simp: pick_worker_def Let_def ids_def split: prod.splits)
  define p1 where "p1 = p\<lparr>tp_idle := ids\<rparr>"
  obtain expired kept where pr: "prune_loop (\<lambda>x. wt_since (tp_threads p x)) max_idle_time t ids = (expired, kept)"
    by fastforce
  have p': "p' = fold (\<lambda>x q. worker_stop x (q\<lparr>tp_callbacks := removeAll x (tp_callbacks q)\<rparr>)) expired (p1\<lparr>tp_idle := kept\<rparr>)"
    using pk False pr by (simp add: pick_worker_def Let_def ids_def p1_def)
  have sp: "ids = expired @ kept"
    using prune_split [OF pr] .
  have k: "worker_ok p x" for x using ok by (simp add: pool_ok_def)
  have d: "distinct (tp_idle p)" by (rule pool_ok_distinct [OF ok])
  have ok1: "pool_ok time (p1\<lparr>tp_idle := kept\<rparr>)"
  proof (rule pool_okI)
    fix x
    have "load (p1\<lparr>tp_idle := kept\<rparr>) x \<le> load p x" by (simp add: load_def p1_def idle sp)
    then show "worker_ok (p1\<lparr>tp_idle := kept\<rparr>) x"
      using k [of x] by (auto simp: worker_ok_def p1_def stops_def idle sp)
  qed (use ok in \<open>auto simp: pool_ok_def p1_def idle sp sorted_append\<close>)
  have ex: "\<forall>x \<in> set expired. \<not> wt_stopping (tp_threads (p1\<lparr>tp_idle := kept\<rparr>) x) \<and> x \<notin> set (tp_idle (p1\<lparr>tp_idle := kept\<rparr>))"
    using k d by (auto simp: p1_def idle sp worker_ok_def)
  from d have "distinct expired" "w \<notin> set expired" "w \<notin> set kept" by (simp_all add: idle sp)
  note f = pool_ok_fold_stop [OF ok1 this(1) ex, folded p']
  have "load p' w = 0"
  proof -
    have "load p w \<le> 1" using k [of w] by (simp add: worker_ok_def)
    moreover have "count_list (tp_idle p) w = 1" using d by (simp add: idle count_list_0_iff)
    moreover have "count_list kept w = 0" using \<open>w \<notin> set kept\<close> by simp
    ultimately show ?thesis using f \<open>w \<notin> set expired\<close> by (simp add: load_def p1_def)
  qed
  moreover have "\<not> wt_stopping (tp_threads p' w)" "w < tp_next p'"
    using f \<open>w \<notin> set expired\<close> k [of w] by (auto simp: p1_def worker_ok_def idle load_def not_le intro: leI)
  ultimately show ?thesis using f by (simp add: free_worker_def)
qed

lemma pool_ok_upd:
  assumes ok: "pool_ok time p" and "\<And>x. worker_ok (upd_thread w f p) x"
    and "wt_since (f (tp_threads p w)) = wt_since (tp_threads p w)"
  shows "pool_ok time (upd_thread w f p)"
proof -
  have "wt_since (tp_threads (upd_thread w f p) x) = wt_since (tp_threads p x)" for x
    using assms(3) by (simp add: upd_thread_def)
  then show ?thesis using ok assms(2) by (simp add: pool_ok_def upd_thread_def)
qed

lemma pool_ok_submit:
  assumes "pool_ok time p"
  shows "pool_ok time (submit t f p)"
proof -
  obtain w p' where pk: "pick_worker t p = (w, p')" by fastforce
  from pick_worker_ok [OF assms pk] have ok: "pool_ok time p'" "free_worker p' w" by simp_all
  have "worker_ok (upd_thread w (\<lambda>t. t\<lparr>wt_queue := wt_queue t @ [Some f]\<rparr>) p') x" for x
  proof -
    have "worker_ok p' x" using ok(1) by (simp add: pool_ok_def)
    then show ?thesis using ok(2)
      by (cases "x = w") (auto simp: worker_ok_def free_worker_def load_def stops_def upd_thread_def)
  qed
  from pool_ok_upd [OF ok(1) this] show ?thesis by (simp add: submit_def pk)
qed

lemma pool_ok_take:
  assumes "pool_ok time p" "thread_take w p = Some p'"
  shows "pool_ok time p'"
proof -
  have k: "worker_ok p x" for x using assms(1) by (simp add: pool_ok_def)
  from assms(2) consider
      (stop) q where "wt_queue (tp_threads p w) = None # q" "p' = upd_thread w (\<lambda>t. t\<lparr>wt_queue := q, wt_exited := True\<rparr>) p"
    | (skip) f q where "wt_queue (tp_threads p w) = Some f # q" "p' = upd_thread w (\<lambda>t. t\<lparr>wt_queue := q\<rparr>) p"
    | (run) f q where "wt_queue (tp_threads p w) = Some f # q" "wt_busy (tp_threads p w) = None"
        "p' = upd_thread w (\<lambda>t. t\<lparr>wt_queue := q, wt_busy := Some f\<rparr>) p"
    by (auto simp: thread_take_def Let_def split: if_splits list.splits option.splits)
  then show ?thesis
  proof cases
    case stop
    have "worker_ok (upd_thread w (\<lambda>t. t\<lparr>wt_queue := q, wt_exited := True\<rparr>) p) x" for x
      using k [of x] stop by (cases "x = w") (auto simp: worker_ok_def load_def stops_def upd_thread_def)
    from pool_ok_upd [OF assms(1) this] show ?thesis by (simp add: stop)
  next
    case skip
    have "worker_ok (upd_thread w (\<lambda>t. t\<lparr>wt_queue := q\<rparr>) p) x" for x
      using k [of x] skip by (cases "x = w") (auto simp: worker_ok_def load_def stops_def upd_thread_def)
    from pool_ok_upd [OF assms(1) this] show ?thesis by (simp add: skip)
  next
    case run
    have "worker_ok (upd_thread w (\<lambda>t. t\<lparr>wt_queue := q, wt_busy := Some f\<rparr>) p) x" for x
      using k [of x] run by (cases "x = w") (auto simp: worker_ok_def load_def stops_def upd_thread_def)
    from pool_ok_upd [OF assms(1) this] show ?thesis by (simp add: run)
  qed
qed

lemma pool_ok_finish:
  assumes "pool_ok time p" "thread_finish w r c p = Some p'"
  shows "pool_ok time p'"
proof -
  obtain f where f: "wt_busy (tp_threads p w) = Some f"
    and p': "p' = (upd_thread w (\<lambda>t. t\<lparr>wt_busy := None\<rparr>) p)\<lparr>tp_reports := tp_reports p @ (if c then [] else [(w, f, r)])\<rparr>"
    using assms(2) by (auto simp: thread_finish_def split: option.splits)
  have "worker_ok p' x" for x
  proof -
    have "worker_ok p x" using assms(1) by (simp add: pool_ok_def)
    then show ?thesis unfolding p' using f
      by (cases "x = w") (auto simp: worker_ok_def load_def stops_def upd_thread_def)
  qed
  moreover have "wt_since (tp_threads p' x) = wt_since (tp_threads p x)" for x by (simp add: p' upd_thread_def)
  moreover have "tp_idle p' = tp_idle p" "tp_callbacks p' = tp_callbacks p" by (simp_all add: p' upd_thread_def)
  ultimately show ?thesis using assms(1) by (simp add: pool_ok_def)
qed

lemma report_result_shape:
  assumes "report_result time p = Some (p', res)" "tp_reports p = (w, f, r) # rs"
  defines "p1 \<equiv> (upd_thread w (\<lambda>t. t\<lparr>wt_since := time\<rparr>) p)\<lparr>tp_reports := rs\<rparr>"
  defines "p2 \<equiv> (if wt_stopping (tp_threads p w) then p1 else p1\<lparr>tp_idle := tp_idle p1 @ [w]\<rparr>)"
  shows "\<exists>fs. p' = p2\<lparr>tp_futures := fs\<rparr>"
proof -
  have "p' = p2 \<or> (\<exists>f'. p' = p2\<lparr>tp_futures := (tp_futures p2)(f := f')\<rparr>)"
    using assms(1,2) unfolding report_result_def p2_def p1_def
    by (simp add: Let_def split: if_split_asm sum.split_asm) blast+
  moreover have "p2 = p2\<lparr>tp_futures := tp_futures p2\<rparr>" by simp
  ultimately show ?thesis by metis
qed

lemma pool_ok_report:
  assumes ok: "pool_ok time p" and rep: "report_result time p = Some (p', res)"
  shows "pool_ok time p'"
proof -
  obtain w f r rs where q: "tp_reports p = (w, f, r) # rs" using rep
    by (cases "tp_reports p") (auto simp: report_result_def)
  define p1 where "p1 = (upd_thread w (\<lambda>t. t\<lparr>wt_since := time\<rparr>) p)\<lparr>tp_reports := rs\<rparr>"
  define p2 where "p2 = (if wt_stopping (tp_threads p w) then p1 else p1\<lparr>tp_idle := tp_idle p1 @ [w]\<rparr>)"
  have p': "\<exists>fs. p' = p2\<lparr>tp_futures := fs\<rparr>"
    using report_result_shape [OF rep q] unfolding p2_def p1_def .
  have k: "worker_ok p x" for x using ok by (simp add: pool_ok_def)
  have lw: "load p w = 1" "w \<notin> set (tp_idle p)"
  proof -
    have "load p w \<le> 1" using k [of w] by (simp add: worker_ok_def)
    then show "load p w = 1" "w \<notin> set (tp_idle p)" by (auto simp: load_def q count_list_0_iff [symmetric])
  qed
  have l2: "load p2 x \<le> load p x" for x by (auto simp: load_def p2_def p1_def upd_thread_def q)
  have "worker_ok p2 x" for x
    using k [of x] l2 [of x] lw(2) k [of w] lw(1)
    by (cases "x = w") (auto simp: worker_ok_def p2_def p1_def upd_thread_def stops_def)
  moreover have "distinct (tp_callbacks p2)" using ok by (simp add: pool_ok_def p2_def p1_def upd_thread_def)
  moreover have since: "x \<in> set (tp_idle p) \<Longrightarrow> wt_since (tp_threads p2 x) = wt_since (tp_threads p x)" for x
    using lw(2) by (auto simp: p2_def p1_def upd_thread_def)
  have m: "map (\<lambda>x. wt_since (tp_threads p2 x)) (tp_idle p) = map (\<lambda>x. wt_since (tp_threads p x)) (tp_idle p)"
    using since by simp
  have "sorted (map (\<lambda>x. wt_since (tp_threads p2 x)) (tp_idle p2))
    \<and> (\<forall>x \<in> set (tp_idle p2). wt_since (tp_threads p2 x) \<le> time)"
  proof (cases "wt_stopping (tp_threads p w)")
    case True
    then have i: "tp_idle p2 = tp_idle p" by (simp add: p2_def p1_def upd_thread_def)
    show ?thesis unfolding i m using ok since by (simp add: pool_ok_def)
  next
    case False
    then have i: "tp_idle p2 = tp_idle p @ [w]" "wt_since (tp_threads p2 w) = time"
      by (simp_all add: p2_def p1_def upd_thread_def)
    have "sorted (map (\<lambda>x. wt_since (tp_threads p2 x)) (tp_idle p))" unfolding m using ok by (simp add: pool_ok_def)
    moreover have "\<forall>x \<in> set (tp_idle p). wt_since (tp_threads p2 x) \<le> time" using ok since by (simp add: pool_ok_def)
    ultimately show ?thesis using i by (auto simp: sorted_append)
  qed
  ultimately have "pool_ok time p2" by (simp add: pool_ok_def)
  then show ?thesis using p' pool_ok_futures by blast
qed

lemma pool_ok_later: "pool_ok time p \<Longrightarrow> time \<le> time' \<Longrightarrow> pool_ok time' p"
  by (auto simp: pool_ok_def)

lemma pool_ok_root:
  assumes "pool_ok time p" "distinct ws" "\<forall>w \<in> set ws. \<not> wt_stopping (tp_threads p w)" "tp_callbacks p = []"
  shows "pool_ok time (fold worker_stop ws p)"
  using assms
proof (induction ws arbitrary: p)
  case (Cons w ws)
  have "pool_ok time (worker_stop w p)" using Cons.prems by (intro pool_ok_stop) simp_all
  moreover have "\<forall>x \<in> set ws. \<not> wt_stopping (tp_threads (worker_stop w p) x)"
    using Cons.prems(2,3) by auto
  ultimately show ?case using Cons by simp
qed simp

lemma pool_ok_root_done:
  assumes "pool_ok time p"
  shows "pool_ok time (root_done p)"
  unfolding root_done_def
proof (rule pool_ok_root)
  show "pool_ok time (p\<lparr>tp_callbacks := []\<rparr>)"
    using assms by (auto simp: pool_ok_def worker_ok_def load_def stops_def)
qed (use assms in \<open>auto simp: pool_ok_def worker_ok_def\<close>)

definition tp_inv :: "'a tpsys \<Rightarrow> bool" where "tp_inv s \<longleftrightarrow> pool_ok (tp_now s) (tpp s)"

lemma tp_inv_act: "tp_inv s \<Longrightarrow> tp_act a s = Some s' \<Longrightarrow> tp_inv s'"
  by (cases a) (auto simp: tp_inv_def split: if_splits
      intro: pool_ok_submit pool_ok_take pool_ok_finish pool_ok_report pool_ok_root_done pool_ok_futures
        pool_ok_later)

lemma tp_inv_new: "tp_inv (tpsys_new time)"
  by (simp add: tp_inv_def tpsys_new_def pool_ok_def worker_ok_def load_def stops_def tpool_new_def wthread_new_def)

lemma tp_reach_inv: "tp_reach s \<Longrightarrow> tp_inv s"
  by (induction rule: tp_reach.induct) (auto intro: tp_inv_act tp_inv_new)

section \<open>Properties\<close>

interpretation threads: idle_pool tp_inv "\<lambda>s. tp_idle (tpp s)" "\<lambda>s w. wt_since (tp_threads (tpp s) w)" max_idle_time
  by unfold_locales (simp add: tp_inv_def pool_ok_def)

lemma queue_length: "length (wt_queue (tp_threads p w)) \<le> load p w + stops p w"
proof -
  have "length q = length (filter (\<lambda>x. x \<noteq> None) q) + length (filter (\<lambda>x. x = None) q)"
    for q :: "nat option list" by (induction q) auto
  from this [of "wt_queue (tp_threads p w)"] show ?thesis by (simp add: load_def stops_def)
qed

text \<open>
  C19: A worker thread never has more than one call: it is idle, or has one call queued, or runs one, or
  has one result on the way to the loop. Its queue never holds more than one call and the order to
  stop, so \<open>put_nowait\<close> on the \<open>Queue(2)\<close> never raises \<open>queue.Full\<close>; a worker that was ordered to
  stop is not handed out again.
\<close>
theorem thread_serves_one:
  assumes "tp_reach s"
  shows "load (tpp s) w \<le> 1 \<and> length (wt_queue (tp_threads (tpp s) w)) \<le> 2
    \<and> (wt_stopping (tp_threads (tpp s) w) \<longrightarrow> w \<notin> set (tp_idle (tpp s)))"
proof -
  have k: "worker_ok (tpp s) w" using tp_reach_inv [OF assms] by (simp add: tp_inv_def pool_ok_def)
  then have "load (tpp s) w + stops (tpp s) w \<le> 2" by (simp add: worker_ok_def split: if_splits)
  then show ?thesis using k queue_length [of "tpp s" w] by (simp add: worker_ok_def)
qed

text \<open>Two calls at once, the second thread is ordered to stop while it runs its call.\<close>

definition two_calls :: "nat tp_action list" where
  "two_calls = [TpSubmit 0, TpSubmit 1, TpTake 0, TpFinish 0 (Inr 5) False, TpReport, TpRootDone]"

lemma thread_serves_one_witness:
  "\<exists>s. tp_run two_calls (tpsys_new 0) = Some s \<and> wt_queue (tp_threads (tpp s) 1) = [Some 1, None]
    \<and> tp_futures (tpp s) 0 = FResult 5 \<and> load (tpp s) 1 \<le> 1"
proof -
  obtain s where s: "tp_run two_calls (tpsys_new 0) = Some s"
      "wt_queue (tp_threads (tpp s) 1) = [Some 1, None]" "tp_futures (tpp s) 0 = FResult 5"
    by (simp add: two_calls_def tpsys_new_def tpool_new_def submit_def pick_worker_def upd_thread_def
        thread_take_def thread_finish_def report_result_def root_done_def worker_stop_def wthread_new_def
        fut_set_result_def Let_def)
  have "tp_reach s" using s(1) by (rule tp_run_reach [OF tp_reach.init])
  from thread_serves_one [OF this, of 1] s show ?thesis by auto
qed

lemma fold_stop_idle:
  assumes "\<forall>x \<in> set ws. x \<notin> set (tp_idle q)"
  shows "tp_idle (fold (\<lambda>x q. worker_stop x (q\<lparr>tp_callbacks := removeAll x (tp_callbacks q)\<rparr>)) ws q) = tp_idle q"
    and "wt_stopping (tp_threads (fold (\<lambda>x q. worker_stop x (q\<lparr>tp_callbacks := removeAll x (tp_callbacks q)\<rparr>)) ws q) x)
      \<longleftrightarrow> wt_stopping (tp_threads q x) \<or> x \<in> set ws"
  using assms by (induction ws arbitrary: q) (auto simp: remove1_idem)

text \<open>
  With idle workers, a call goes to the most recently used one, and pruning is exact: although the
  loop stops at the first worker that has been idle for less than \<open>MAX_IDLE_TIME\<close>, it finds just
  those of the others that have been idle for that long, orders each of them to stop, and keeps
  the rest in order.
\<close>
theorem prune_exact:
  assumes "tp_reach s" "tp_idle (tpp s) \<noteq> []" "pick_worker (tp_now s) (tpp s) = (w, p)"
  shows "w = last (tp_idle (tpp s))
    \<and> tp_idle p = filter (\<lambda>x. tp_now s - wt_since (tp_threads (tpp s) x) < max_idle_time) (butlast (tp_idle (tpp s)))
    \<and> (\<forall>x. x \<in> set (butlast (tp_idle (tpp s))) \<longrightarrow>
         (wt_stopping (tp_threads p x) \<longleftrightarrow> max_idle_time \<le> tp_now s - wt_since (tp_threads (tpp s) x)))"
proof -
  define ex where "ex = filter (\<lambda>x. max_idle_time \<le> tp_now s - wt_since (tp_threads (tpp s) x)) (butlast (tp_idle (tpp s)))"
  define kept where "kept = filter (\<lambda>x. tp_now s - wt_since (tp_threads (tpp s) x) < max_idle_time) (butlast (tp_idle (tpp s)))"
  define q where "q = (tpp s)\<lparr>tp_idle := butlast (tp_idle (tpp s))\<rparr>\<lparr>tp_idle := kept\<rparr>"
  note inv = tp_reach_inv [OF assms(1)]
  have p: "p = fold (\<lambda>x q. worker_stop x (q\<lparr>tp_callbacks := removeAll x (tp_callbacks q)\<rparr>)) ex q"
    and w: "w = last (tp_idle (tpp s))"
    using assms(2,3) threads.prune_rest [OF inv, of "tp_now s"]
    by (simp_all add: pick_worker_def Let_def ex_def kept_def q_def)
  have ok: "pool_ok (tp_now s) (tpp s)" using inv by (simp add: tp_inv_def)
  have run: "\<not> wt_stopping (tp_threads (tpp s) x)" if "x \<in> set (tp_idle (tpp s))" for x
    using ok that by (auto simp: pool_ok_def worker_ok_def)
  have "\<forall>x \<in> set ex. x \<notin> set kept" by (auto simp: ex_def kept_def)
  then have idle: "tp_idle p = kept" "wt_stopping (tp_threads p x) \<longleftrightarrow> wt_stopping (tp_threads q x) \<or> x \<in> set ex" for x
    unfolding p using fold_stop_idle [of ex q] by (simp_all add: q_def)
  have "wt_stopping (tp_threads p x) \<longleftrightarrow> max_idle_time \<le> tp_now s - wt_since (tp_threads (tpp s) x)"
    if "x \<in> set (butlast (tp_idle (tpp s)))" for x
    using idle that run [OF in_set_butlastD [OF that]] by (simp add: q_def ex_def)
  then show ?thesis using idle w by (simp add: kept_def)
qed

text \<open>
  Three workers: the first went idle at time 0, the second at time 3, the third at time 11, and a
  call arrives at time 12.
\<close>

definition three_workers :: "nat tp_action list" where
  "three_workers = [TpSubmit 0, TpSubmit 1, TpSubmit 2, TpTake 0, TpTake 1, TpTake 2,
     TpFinish 0 (Inr 5) False, TpReport, TpTick 3, TpFinish 1 (Inr 6) False, TpReport, TpTick 8,
     TpFinish 2 (Inr 7) False, TpReport, TpTick 1]"

lemma prune_exact_witness:
  "\<exists>s p. tp_run three_workers (tpsys_new 0) = Some s \<and> pick_worker 12 (tpp s) = (2, p) \<and> tp_idle p = [1]"
proof -
  obtain s where s: "tp_run three_workers (tpsys_new 0) = Some s" "tp_idle (tpp s) = [0, 1, 2]" "tp_now s = 12"
      "wt_since (tp_threads (tpp s) 0) = 0" "wt_since (tp_threads (tpp s) 1) = 3"
    by (simp add: three_workers_def tpsys_new_def tpool_new_def submit_def pick_worker_def upd_thread_def
        thread_take_def thread_finish_def report_result_def wthread_new_def fut_set_result_def Let_def)
  have r: "tp_reach s" using s(1) by (rule tp_run_reach [OF tp_reach.init])
  obtain w p where "pick_worker (tp_now s) (tpp s) = (w, p)" by fastforce
  with prune_exact [OF r _ this] s show ?thesis by (simp add: max_idle_time_def)
qed

text \<open>A worker without load gets none again, unless it is in the deque of idle workers.\<close>

definition stranded :: "nat \<Rightarrow> 'a tpsys \<Rightarrow> bool" where
  "stranded w s \<longleftrightarrow> load (tpp s) w = 0 \<and> w < tp_next (tpp s)"

lemma load_le_others:
  "load (worker_stop w p) x \<le> load p x"
  by (auto simp: load_def count_remove1)

lemma load_fold_stop:
  "load (fold (\<lambda>x q. worker_stop x (q\<lparr>tp_callbacks := removeAll x (tp_callbacks q)\<rparr>)) ws p) x \<le> load p x"
  "load (fold worker_stop ws p) x \<le> load p x"
proof -
  have forget: "load (q\<lparr>tp_callbacks := cs\<rparr>) x = load q x" for q :: "'a tpool" and cs by (simp add: load_def)
  show "load (fold (\<lambda>x q. worker_stop x (q\<lparr>tp_callbacks := removeAll x (tp_callbacks q)\<rparr>)) ws p) x \<le> load p x"
  proof (induction ws arbitrary: p)
    case (Cons w ws)
    have "load (worker_stop w (p\<lparr>tp_callbacks := removeAll w (tp_callbacks p)\<rparr>)) x \<le> load p x"
      using load_le_others forget by metis
    then show ?case using Cons order_trans by fastforce
  qed simp
  show "load (fold worker_stop ws p) x \<le> load p x"
    by (induction ws arbitrary: p) (simp, metis fold_simps(2) load_le_others order_trans)
qed

lemma next_fold_stop:
  "tp_next (fold (\<lambda>x q. worker_stop x (q\<lparr>tp_callbacks := removeAll x (tp_callbacks q)\<rparr>)) ws p) = tp_next p"
  "tp_next (fold worker_stop ws p) = tp_next p"
  by (induction ws arbitrary: p) simp_all

lemma pick_worker_stranded:
  assumes "load p x = 0" "x < tp_next p" "pick_worker t p = (w, p')"
  shows "w \<noteq> x \<and> load p' x = 0 \<and> x < tp_next p'"
proof (cases "tp_idle p = []")
  case True
  then show ?thesis using assms by (auto simp: pick_worker_def Let_def load_def)
next
  case False
  obtain ex kept where pr: "prune_loop (\<lambda>x. wt_since (tp_threads p x)) max_idle_time t (butlast (tp_idle p)) = (ex, kept)"
    by fastforce
  define q where "q = p\<lparr>tp_idle := butlast (tp_idle p)\<rparr>\<lparr>tp_idle := kept\<rparr>"
  have w: "w = last (tp_idle p)" and p': "p' = fold (\<lambda>x q. worker_stop x (q\<lparr>tp_callbacks := removeAll x (tp_callbacks q)\<rparr>)) ex q"
    using assms(3) False pr by (simp_all add: pick_worker_def Let_def q_def)
  have nx: "x \<notin> set (tp_idle p)" using assms(1) by (simp add: load_def count_list_0_iff)
  then have "x \<notin> set (ex @ kept)" using prune_split [OF pr] in_set_butlastD by metis
  then have "load q x = 0" using assms(1) by (simp add: load_def q_def)
  then have "load p' x = 0" using load_fold_stop(1) [of ex q x] by (simp add: p')
  moreover have "w \<noteq> x" using nx False w last_in_set by metis
  ultimately show ?thesis using assms(2) by (simp add: p' next_fold_stop q_def)
qed

lemma stranded_act: "stranded w s \<Longrightarrow> tp_act a s = Some s' \<Longrightarrow> stranded w s'"
proof (cases a)
  case (TpSubmit f)
  assume s: "stranded w s" "tp_act a s = Some s'"
  obtain x p where "pick_worker (tp_now s) (tpp s) = (x, p)" by fastforce
  with s pick_worker_stranded [OF _ _ this, of w] TpSubmit show ?thesis
    by (auto simp: stranded_def submit_def upd_thread_def load_def split: if_splits)
next
  case TpReport
  assume s: "stranded w s" "tp_act a s = Some s'"
  then obtain p res where rep: "report_result (tp_now s) (tpp s) = Some (p, res)" "s' = s\<lparr>tpp := p\<rparr>"
    using TpReport by auto
  then obtain x f r rs where q: "tp_reports (tpp s) = (x, f, r) # rs"
    by (cases "tp_reports (tpp s)") (auto simp: report_result_def)
  have "x \<noteq> w" using s(1) q by (auto simp: stranded_def load_def)
  with report_result_shape [OF rep(1) q] s(1) rep(2) show ?thesis
    by (auto simp: stranded_def load_def upd_thread_def q)
next
  case TpRootDone
  assume s: "stranded w s" "tp_act a s = Some s'"
  have "load (root_done (tpp s)) w \<le> load ((tpp s)\<lparr>tp_callbacks := []\<rparr>) w"
    unfolding root_done_def by (rule load_fold_stop(2))
  with s TpRootDone show ?thesis by (auto simp: stranded_def load_def root_done_def next_fold_stop)
qed (auto simp: stranded_def thread_take_def thread_finish_def load_def upd_thread_def Let_def
    split: if_splits list.splits option.splits)

text \<open>
  A call cancelled before its thread takes it costs the pool a thread: the thread skips the item
  without reporting anything, so the loop never puts the worker back among the idle ones. It has
  nothing to do, whatever happens later; its thread waits for an order to stop that comes only
  with the end of the root task.
\<close>
theorem thread_lost:
  assumes "tp_reach s" "wt_queue (tp_threads (tpp s) w) = Some f # q" "fut_cancelled (tp_futures (tpp s) f)"
    "tp_act (TpTake w) s = Some s1" "tp_run as s1 = Some s2"
  shows "load (tpp s2) w = 0 \<and> w \<notin> set (tp_idle (tpp s2))"
proof -
  have "worker_ok (tpp s) w" using tp_reach_inv [OF assms(1)] by (simp add: tp_inv_def pool_ok_def)
  then have "load (tpp s) w = 1" "w < tp_next (tpp s)"
    using assms(2) by (auto simp: worker_ok_def load_def not_le [symmetric])
  then have "stranded w s1" using assms(2-4)
    by (auto simp: stranded_def thread_take_def load_def upd_thread_def Let_def split: if_splits)
  then have "stranded w s2" using assms(5)
    by (induction as arbitrary: s1) (auto split: option.splits intro: stranded_act)
  then show ?thesis by (simp add: stranded_def load_def count_list_0_iff)
qed

lemma thread_lost_witness:
  "\<exists>s. tp_run [TpSubmit 0, TpCancel 0, TpTake 0, TpSubmit 1] (tpsys_new 0 :: nat tpsys) = Some s
    \<and> tp_workers (tpp s) = [0, 1] \<and> load (tpp s) 0 = 0 \<and> 0 \<notin> set (tp_idle (tpp s))"
proof -
  note defs = tpsys_new_def tpool_new_def submit_def pick_worker_def upd_thread_def
        thread_take_def wthread_new_def fut_cancel_def Let_def
  obtain s where s: "tp_run [TpSubmit 0, TpCancel 0] (tpsys_new 0 :: nat tpsys) = Some s"
      "wt_queue (tp_threads (tpp s) 0) = Some 0 # []" "fut_cancelled (tp_futures (tpp s) 0)"
    by (simp add: defs)
  have r: "tp_reach s" using s(1) by (rule tp_run_reach [OF tp_reach.init])
  obtain s1 s2 where t: "tp_act (TpTake 0) s = Some s1" "tp_run [TpSubmit 1] s1 = Some s2"
      "tp_workers (tpp s2) = [0, 1]"
    using s(1) by (auto simp: defs)
  have "tp_run [TpSubmit 0, TpCancel 0, TpTake 0, TpSubmit 1] (tpsys_new 0 :: nat tpsys) = Some s2"
    using s(1) t by (auto simp del: tp_act.simps split: option.split_asm)
  then show ?thesis using thread_lost [OF r s(2,3) t(1,2)] t(3) by blast
qed

end
