(* ===== verification/Portal.thy ===== *)
theory Portal
  imports TaskGroups
begin

text \<open>
  Calling the event loop from other threads: \<open>src/anyio/from_thread.py\<close> with the parts of the
  asyncio backend it uses.

  The futures are those of \<open>concurrent.futures\<close>, which another thread may cancel at any moment.
  So what the loop's thread does between two operations on a future is split into steps of its
  own, and the threads' steps fall in between: \<open>po_running\<close> is the call whose task the loop is
  in the middle of, and no other task runs until it lets go.
\<close>

section \<open>Futures of threads\<close>

datatype 'v cfstate = CfPending | CfRunning | CfCancelled | CfNotified | CfFinished "'v res"

definition cf_cancelled :: "'v cfstate \<Rightarrow> bool" where
  "cf_cancelled f \<longleftrightarrow> f = CfCancelled \<or> f = CfNotified"

definition cf_done :: "'v cfstate \<Rightarrow> bool" where
  "cf_done f \<longleftrightarrow> f \<noteq> CfPending \<and> f \<noteq> CfRunning"

definition cf_set :: "'v res \<Rightarrow> 'v cfstate \<Rightarrow> 'v cfstate res" where
  "cf_set r f = (if cf_done f then Inl InvalidStateError else Inr (CfFinished r))"

fun cf_cancel :: "'v cfstate \<Rightarrow> 'v cfstate" where
  "cf_cancel CfPending = CfCancelled"
| "cf_cancel f = f"

fun cf_notify :: "'v cfstate \<Rightarrow> ('v cfstate \<times> bool) res" where
  "cf_notify CfCancelled = Inr (CfNotified, False)"
| "cf_notify CfPending = Inr (CfRunning, True)"
| "cf_notify f = Inl (RuntimeError ''Future in unexpected state'')"

text \<open>What \<open>future.result()\<close> gives once it is done.\<close>

fun cf_result :: "'v cfstate \<Rightarrow> 'v res option" where
  "cf_result CfPending = None"
| "cf_result CfRunning = None"
| "cf_result (CfFinished r) = Some r"
| "cf_result f = Some (Inl (CancelledError None None))"

lemma cf_simps [simp]:
  "cf_cancelled CfCancelled" "cf_cancelled CfNotified" "\<not> cf_cancelled CfPending" "\<not> cf_cancelled CfRunning"
  "\<not> cf_cancelled (CfFinished r)" "cf_done CfCancelled" "cf_done CfNotified" "cf_done (CfFinished r)"
  "\<not> cf_done CfPending" "\<not> cf_done CfRunning"
  by (simp_all add: cf_cancelled_def cf_done_def)

lemma cf_cancelled_done: "cf_cancelled f \<Longrightarrow> cf_done f"
  by (cases f) simp_all

lemma cf_cancel_cancelled: "cf_cancelled f \<Longrightarrow> cf_cancel f = f"
  by (cases f) simp_all

section \<open>The portal\<close>

text \<open>
  A call is the user's function or, from the callback of a cancelled future, \<open>scope.cancel\<close> of
  another call. \<open>None\<close> in the place of the value says that \<open>retval\<close> is not bound.
\<close>

datatype what = UserFunc | ScopeCancel nat

datatype 'v cpc =
    CQueued | CRejected | CReady | CAdd | CAwaiting
  | CEnding "'v option res" | CSetting "'v option res" | COver "exn option"

fun is_over :: "'v cpc \<Rightarrow> bool" where
  "is_over (COver r) = True"
| "is_over _ = False"

record 'v pcall =
  pc_what :: what
  pc_at :: "'v cpc"
  pc_future :: "'v cfstate"
  pc_callback :: bool
  pc_scope_cancelled :: bool
  pc_returned :: "'v res option"

record 'v portal =
  po_thread :: "nat option"
  po_loop :: nat
  po_stop_event :: bool
  po_active :: bool
  po_group_cancelled :: bool
  po_failures :: "exn list"
  po_calls :: "nat \<Rightarrow> 'v pcall"
  po_next :: nat
  po_queue :: "nat list"
  po_running :: "nat option"

definition pcall_new :: "what \<Rightarrow> 'v pcall" where
  "pcall_new wh = \<lparr>pc_what = wh, pc_at = CQueued, pc_future = CfPending, pc_callback = False,
     pc_scope_cancelled = False, pc_returned = None\<rparr>"

text \<open>\<open>__init__\<close> and \<open>__aenter__\<close>, in the thread of the loop.\<close>

definition portal_new :: "nat \<Rightarrow> 'v portal" where
  "portal_new th = \<lparr>po_thread = Some th, po_loop = th, po_stop_event = False, po_active = True,
     po_group_cancelled = False, po_failures = [], po_calls = (\<lambda>_. pcall_new UserFunc), po_next = 0,
     po_queue = [], po_running = None\<rparr>"

definition upd_call :: "nat \<Rightarrow> ('v pcall \<Rightarrow> 'v pcall) \<Rightarrow> 'v portal \<Rightarrow> 'v portal" where
  "upd_call c f p = p\<lparr>po_calls := (po_calls p)(c := f (po_calls p c))\<rparr>"

definition portal_check :: "nat \<Rightarrow> 'v portal \<Rightarrow> unit res" where
  "portal_check th p =
     (if po_thread p = None then Inl (RuntimeError ''This portal is not running'')
      else if po_thread p = Some th then
        Inl (RuntimeError ''This method cannot be called from the event loop thread'')
      else Inr ())"

text \<open>\<open>start_task_soon\<close>: the wrapper that will start the task goes to the loop's queue.\<close>

definition portal_start :: "nat \<Rightarrow> what \<Rightarrow> 'v portal \<Rightarrow> 'v portal \<times> nat res" where
  "portal_start th wh p =
     (case portal_check th p of
        Inl e \<Rightarrow> (p, Inl e)
      | Inr _ \<Rightarrow>
          (p\<lparr>po_calls := (po_calls p)(po_next p := pcall_new wh), po_next := Suc (po_next p),
             po_queue := po_queue p @ [po_next p]\<rparr>, Inr (po_next p)))"

text \<open>The loop runs the oldest wrapper, \<open>task_group.start_soon\<close>.\<close>

definition portal_spawn :: "'v portal \<Rightarrow> 'v portal option" where
  "portal_spawn p =
     (case po_queue p of
        [] \<Rightarrow> None
      | c # cs \<Rightarrow>
          if po_running p \<noteq> None then None
          else Some (upd_call c (\<lambda>k. k\<lparr>pc_at := (if po_active p then CReady else CRejected)\<rparr>) (p\<lparr>po_queue := cs\<rparr>)))"

definition portal_stop :: "bool \<Rightarrow> 'v portal \<Rightarrow> 'v portal" where
  "portal_stop cancel_remaining p =
     p\<lparr>po_thread := None, po_stop_event := True,
       po_group_cancelled := (po_group_cancelled p \<or> cancel_remaining)\<rparr>"

section \<open>_call_func\<close>

datatype 'v callret = Returns 'v | Raises exn | Awaitable

text \<open>The task ends; an exception that escapes makes the task group cancel itself.\<close>

definition call_over :: "nat \<Rightarrow> exn option \<Rightarrow> 'v portal \<Rightarrow> 'v portal" where
  "call_over c r p =
     (upd_call c (\<lambda>k. k\<lparr>pc_at := COver r\<rparr>) p)
       \<lparr>po_running := None,
        po_failures := po_failures p @ (case r of None \<Rightarrow> [] | Some e \<Rightarrow> [e]),
        po_group_cancelled := (po_group_cancelled p \<or> r \<noteq> None)\<rparr>"

text \<open>The \<open>except\<close> clauses and \<open>else\<close>, up to the question whether the future is cancelled.\<close>

definition call_settle :: "nat \<Rightarrow> 'v option res \<Rightarrow> 'v portal \<Rightarrow> 'v portal" where
  "call_settle c r p =
     (case r of
        Inl e \<Rightarrow>
          if is_cancelled e then
            (case cf_notify (cf_cancel (pc_future (po_calls p c))) of
               Inr (f, _) \<Rightarrow> call_over c None (upd_call c (\<lambda>k. k\<lparr>pc_future := f\<rparr>) p)
             | Inl e' \<Rightarrow> call_over c (Some e') (upd_call c (\<lambda>k. k\<lparr>pc_future := cf_cancel (pc_future k)\<rparr>) p))
          else (upd_call c (\<lambda>k. k\<lparr>pc_at := CEnding r\<rparr>) p)\<lparr>po_running := Some c\<rparr>
      | Inr v \<Rightarrow> (upd_call c (\<lambda>k. k\<lparr>pc_at := CEnding r\<rparr>) p)\<lparr>po_running := Some c\<rparr>)"

text \<open>
  The task's first step: it calls the function. For \<open>scope.cancel\<close> of another call the effect is
  on the scope of that call.
\<close>

definition call_scope :: "what \<Rightarrow> 'v portal \<Rightarrow> 'v portal" where
  "call_scope wh p =
     (case wh of UserFunc \<Rightarrow> p | ScopeCancel d \<Rightarrow> upd_call d (\<lambda>k. k\<lparr>pc_scope_cancelled := True\<rparr>) p)"

definition call_begin :: "nat \<Rightarrow> 'v callret \<Rightarrow> 'v portal \<Rightarrow> 'v portal option" where
  "call_begin c ret p =
     (let k = po_calls p c in
      if po_running p \<noteq> None \<or> pc_at k \<noteq> CReady then None
      else case ret of
        Raises e \<Rightarrow>
          if pc_what k = UserFunc then
            Some (call_settle c (Inl e) (upd_call c (\<lambda>k. k\<lparr>pc_returned := Some (Inl e)\<rparr>) p))
          else None
      | Returns v \<Rightarrow>
          Some (call_settle c (Inr (Some v)) (upd_call c (\<lambda>k. k\<lparr>pc_returned := Some (Inr v)\<rparr>) (call_scope (pc_what k) p)))
      | Awaitable \<Rightarrow>
          if pc_what k \<noteq> UserFunc then None
          else if cf_cancelled (pc_future k) then
            Some (upd_call c (\<lambda>k. k\<lparr>pc_at := CAwaiting, pc_scope_cancelled := True\<rparr>) p)
          else Some ((upd_call c (\<lambda>k. k\<lparr>pc_at := CAdd\<rparr>) p)\<lparr>po_running := Some c\<rparr>))"

text \<open>
  \<open>add_done_callback\<close>: on a future that is done by now the callback runs here, in the thread of
  the loop, where it does nothing.
\<close>

definition call_add :: "nat \<Rightarrow> 'v portal \<Rightarrow> 'v portal option" where
  "call_add c p =
     (if pc_at (po_calls p c) \<noteq> CAdd then None
      else Some ((upd_call c (\<lambda>k. k\<lparr>pc_at := CAwaiting, pc_callback := \<not> cf_done (pc_future k)\<rparr>) p)\<lparr>po_running := None\<rparr>))"

text \<open>
  The awaitable ends. Leaving the scope may swallow a cancellation, if the scope was cancelled
  (\<open>CancelScopes\<close> says exactly when); \<open>retval\<close> stays unbound then.
\<close>

definition call_resume :: "nat \<Rightarrow> 'v res \<Rightarrow> bool \<Rightarrow> 'v portal \<Rightarrow> 'v portal option" where
  "call_resume c r swallow p =
     (let k = po_calls p c; p1 = upd_call c (\<lambda>k. k\<lparr>pc_returned := Some r\<rparr>) p in
      if po_running p \<noteq> None \<or> pc_at k \<noteq> CAwaiting then None
      else case r of
        Inr v \<Rightarrow> if swallow then None else Some (call_settle c (Inr (Some v)) p1)
      | Inl e \<Rightarrow>
          if \<not> swallow then Some (call_settle c (Inl e) p1)
          else if pc_scope_cancelled k \<and> list_all is_cancelled (iterate_exceptions e) then
            Some (call_settle c (Inr None) p1)
          else None)"

definition escapes :: "'v option res \<Rightarrow> exn option" where
  "escapes r = (case r of Inl e \<Rightarrow> if is_Exception e then None else Some e | Inr _ \<Rightarrow> None)"

text \<open>\<open>if not future.cancelled()\<close>\<close>

definition call_ask :: "nat \<Rightarrow> 'v portal \<Rightarrow> 'v portal option" where
  "call_ask c p =
     (case pc_at (po_calls p c) of
        CEnding r \<Rightarrow>
          if cf_cancelled (pc_future (po_calls p c)) then Some (call_over c (escapes r) p)
          else Some (upd_call c (\<lambda>k. k\<lparr>pc_at := CSetting r\<rparr>) p)
      | _ \<Rightarrow> None)"

definition unbound_retval :: exn where
  "unbound_retval = NameError ''retval''"

text \<open>\<open>future.set_exception(exc)\<close>, \<open>future.set_result(retval)\<close>\<close>

definition call_set :: "nat \<Rightarrow> 'v portal \<Rightarrow> 'v portal option" where
  "call_set c p =
     (case pc_at (po_calls p c) of
        CSetting r \<Rightarrow>
          (case r of
             Inr None \<Rightarrow> Some (call_over c (Some unbound_retval) p)
           | Inr (Some v) \<Rightarrow>
               (case cf_set (Inr v) (pc_future (po_calls p c)) of
                  Inl e' \<Rightarrow> Some (call_over c (Some e') p)
                | Inr f \<Rightarrow> Some (call_over c None (upd_call c (\<lambda>k. k\<lparr>pc_future := f\<rparr>) p)))
           | Inl e \<Rightarrow>
               (case cf_set (Inl e) (pc_future (po_calls p c)) of
                  Inl e' \<Rightarrow> Some (call_over c (Some e') p)
                | Inr f \<Rightarrow> Some (call_over c (escapes r) (upd_call c (\<lambda>k. k\<lparr>pc_future := f\<rparr>) p))))
      | _ \<Rightarrow> None)"

text \<open>
  Thread \<open>th\<close> cancels the future of a call. The callback runs in that thread; once the task is
  over its \<open>scope\<close> is \<open>None\<close> and the callback fails, which \<open>concurrent.futures\<close> only logs.
\<close>

definition future_cancel :: "nat \<Rightarrow> nat \<Rightarrow> 'v portal \<Rightarrow> 'v portal" where
  "future_cancel th c p =
     (let k = po_calls p c; p1 = upd_call c (\<lambda>k. k\<lparr>pc_future := cf_cancel (pc_future k)\<rparr>) p in
      if \<not> cf_done (pc_future k) \<and> pc_callback k \<and> cf_cancelled (cf_cancel (pc_future k))
         \<and> po_thread p \<noteq> None \<and> po_thread p \<noteq> Some th \<and> \<not> is_over (pc_at k)
      then fst (portal_start th (ScopeCancel c) p1)
      else p1)"

section \<open>Threads and loop in any order\<close>

datatype 'v po_action =
    PoStart nat | PoSpawn | PoBegin nat "'v callret" | PoAdd nat | PoResume nat "'v res" bool | PoAsk nat
  | PoSet nat | PoCancel nat nat | PoStop bool | PoExit

text \<open>
  The task group is left when none of its tasks is left; threads cancel futures of calls that were
  made.
\<close>

definition settled :: "'v cpc \<Rightarrow> bool" where
  "settled pc \<longleftrightarrow> pc = CQueued \<or> pc = CRejected \<or> is_over pc"

fun po_act :: "'v po_action \<Rightarrow> 'v portal \<Rightarrow> 'v portal option" where
  "po_act (PoStart th) p = Some (fst (portal_start th UserFunc p))"
| "po_act PoSpawn p = portal_spawn p"
| "po_act (PoBegin c ret) p = call_begin c ret p"
| "po_act (PoAdd c) p = call_add c p"
| "po_act (PoResume c r sw) p = call_resume c r sw p"
| "po_act (PoAsk c) p = call_ask c p"
| "po_act (PoSet c) p = call_set c p"
| "po_act (PoCancel th c) p = (if c < po_next p then Some (future_cancel th c p) else None)"
| "po_act (PoStop b) p = (if po_running p = None then Some (portal_stop b p) else None)"
| "po_act PoExit p =
     (if po_thread p = None \<and> po_running p = None \<and> list_all (\<lambda>c. settled (pc_at (po_calls p c))) [0..<po_next p]
      then Some (p\<lparr>po_active := False\<rparr>) else None)"

inductive po_reach :: "'v portal \<Rightarrow> bool" where
  init: "po_reach (portal_new th)"
| step: "po_reach p \<Longrightarrow> po_act a p = Some p' \<Longrightarrow> po_reach p'"

fun po_run :: "'v po_action list \<Rightarrow> 'v portal \<Rightarrow> 'v portal option" where
  "po_run [] p = Some p"
| "po_run (a # as) p = (case po_act a p of None \<Rightarrow> None | Some p' \<Rightarrow> po_run as p')"

lemma po_run_reach: "po_reach p \<Longrightarrow> po_run as p = Some p' \<Longrightarrow> po_reach p'"
  by (induction as arbitrary: p) (auto split: option.splits intro: po_reach.step)

section \<open>The invariant\<close>

fun returned_as :: "'v option res \<Rightarrow> 'v res option \<Rightarrow> bool" where
  "returned_as (Inl e) r \<longleftrightarrow> r = Some (Inl e)"
| "returned_as (Inr (Some v)) r \<longleftrightarrow> r = Some (Inr v)"
| "returned_as (Inr None) r \<longleftrightarrow> True"

fun pc_ok :: "'v pcall \<Rightarrow> 'v cpc \<Rightarrow> bool" where
  "pc_ok k (COver r) \<longleftrightarrow> cf_done (pc_future k) \<and>
     (\<forall>e. r = Some e \<longrightarrow> (\<not> is_Exception e \<and> pc_returned k = Some (Inl e))
        \<or> (e = InvalidStateError \<and> cf_cancelled (pc_future k)))"
| "pc_ok k (CEnding r) \<longleftrightarrow> returned_as r (pc_returned k) \<and> (r = Inr None \<longrightarrow> cf_cancelled (pc_future k))
     \<and> (pc_future k = CfPending \<or> pc_future k = CfCancelled)"
| "pc_ok k (CSetting r) \<longleftrightarrow> returned_as r (pc_returned k) \<and> r \<noteq> Inr None
     \<and> (pc_future k = CfPending \<or> pc_future k = CfCancelled)"
| "pc_ok k _ \<longleftrightarrow> pc_future k = CfPending \<or> pc_future k = CfCancelled"

definition call_ok :: "'v pcall \<Rightarrow> bool" where
  "call_ok k \<longleftrightarrow> pc_ok k (pc_at k) \<and> (pc_scope_cancelled k \<longrightarrow> cf_cancelled (pc_future k))
     \<and> (\<forall>r. pc_future k = CfFinished r \<longrightarrow> pc_returned k = Some r) \<and> pc_future k \<noteq> CfRunning"

definition target_ok :: "'v portal \<Rightarrow> what \<Rightarrow> bool" where
  "target_ok p wh = (case wh of UserFunc \<Rightarrow> True | ScopeCancel d \<Rightarrow> cf_cancelled (pc_future (po_calls p d)))"

definition portal_ok :: "'v portal \<Rightarrow> bool" where
  "portal_ok p \<longleftrightarrow> (\<forall>c. call_ok (po_calls p c) \<and> target_ok p (pc_what (po_calls p c)))
     \<and> distinct (po_queue p) \<and> set (po_queue p) \<subseteq> {c. c < po_next p \<and> pc_at (po_calls p c) = CQueued}
     \<and> (\<forall>c. po_next p \<le> c \<longrightarrow> po_calls p c = pcall_new UserFunc)
     \<and> set (po_failures p) \<subseteq> {e. \<exists>c. pc_at (po_calls p c) = COver (Some e)}"

lemma portal_okD:
  assumes "portal_ok p"
  shows "call_ok (po_calls p c)" "target_ok p (pc_what (po_calls p c))"
    "c \<in> set (po_queue p) \<Longrightarrow> pc_at (po_calls p c) = CQueued \<and> c < po_next p"
    "po_next p \<le> c \<Longrightarrow> po_calls p c = pcall_new UserFunc"
    "e \<in> set (po_failures p) \<Longrightarrow> \<exists>c. pc_at (po_calls p c) = COver (Some e)"
  using assms by (auto simp: portal_ok_def)

lemma used_call: "portal_ok p \<Longrightarrow> pc_at (po_calls p c) \<noteq> CQueued \<Longrightarrow> c < po_next p"
  using portal_okD(4) [of p c] by (auto simp: pcall_new_def not_le [symmetric])

lemma used_future: "portal_ok p \<Longrightarrow> cf_cancelled (pc_future (po_calls p c)) \<Longrightarrow> c < po_next p"
  using portal_okD(4) [of p c] by (auto simp: pcall_new_def not_le [symmetric])

text \<open>
  A step that changes one call keeps the invariant if the call is fine after it, its future does
  not become less cancelled, and a failure is one the call is over with.
\<close>

lemma portal_ok_step:
  assumes ok: "portal_ok p"
    and p': "po_calls p' = (po_calls p)(c := k)" "po_next p' = po_next p" "set (po_queue p') \<subseteq> set (po_queue p)"
    and k: "call_ok k" "pc_what k = pc_what (po_calls p c)" "c < po_next p"
    and mono: "cf_cancelled (pc_future (po_calls p c)) \<Longrightarrow> cf_cancelled (pc_future k)"
    and queue: "c \<in> set (po_queue p') \<Longrightarrow> pc_at k = CQueued"
    and over: "\<And>e. pc_at (po_calls p c) = COver e \<Longrightarrow> pc_at k = COver e"
    and fail: "set (po_failures p') \<subseteq> set (po_failures p) \<union> {e. pc_at k = COver (Some e)}"
    and dist: "distinct (po_queue p) \<Longrightarrow> distinct (po_queue p')"
  shows "portal_ok p'"
proof -
  have calls: "call_ok (po_calls p' d)" for d using portal_okD(1) [OF ok] k(1) by (simp add: p')
  have canc: "cf_cancelled (pc_future (po_calls p d)) \<Longrightarrow> cf_cancelled (pc_future (po_calls p' d))" for d
    using mono by (cases "d = c") (simp_all add: p')
  have "target_ok p' (pc_what (po_calls p' d))" for d
  proof -
    have "pc_what (po_calls p' d) = pc_what (po_calls p d)" using k(2) by (simp add: p')
    then show ?thesis using portal_okD(2) [OF ok, of d] canc by (simp add: target_ok_def split: what.splits)
  qed
  moreover have "d < po_next p' \<and> pc_at (po_calls p' d) = CQueued" if "d \<in> set (po_queue p')" for d
    using that p' queue portal_okD(3) [OF ok, of d] by (cases "d = c") auto
  moreover have "distinct (po_queue p')" using dist ok by (simp add: portal_ok_def)
  moreover have "po_calls p' d = pcall_new UserFunc" if "po_next p' \<le> d" for d
    using that k(3) portal_okD(4) [OF ok, of d] by (simp add: p')
  moreover have "\<exists>d. pc_at (po_calls p' d) = COver (Some e)" if e: "e \<in> set (po_failures p')" for e
  proof (cases "pc_at k = COver (Some e)")
    case True
    then have "pc_at (po_calls p' c) = COver (Some e)" by (simp add: p')
    then show ?thesis ..
  next
    case False
    then have "e \<in> set (po_failures p)" using fail e by auto
    then obtain d where d: "pc_at (po_calls p d) = COver (Some e)" using portal_okD(5) [OF ok] by blast
    then have "pc_at (po_calls p' d) = COver (Some e)" using over [of "Some e"] by (cases "d = c") (simp_all add: p')
    then show ?thesis ..
  qed
  ultimately show ?thesis using calls by (auto simp: portal_ok_def)
qed

lemma portal_ok_same:
  assumes "portal_ok p" "po_calls p' = po_calls p" "po_next p' = po_next p" "po_queue p' = po_queue p"
    "po_failures p' = po_failures p"
  shows "portal_ok p'"
proof -
  have "target_ok p' wh = target_ok p wh" for wh by (simp add: target_ok_def assms(2) split: what.split)
  then show ?thesis using assms by (simp add: portal_ok_def)
qed

lemma upd_call_fields [simp]:
  "po_calls (upd_call c f p) = (po_calls p)(c := f (po_calls p c))" "po_next (upd_call c f p) = po_next p"
  "po_queue (upd_call c f p) = po_queue p" "po_failures (upd_call c f p) = po_failures p"
  "po_thread (upd_call c f p) = po_thread p" "po_running (upd_call c f p) = po_running p"
  "po_active (upd_call c f p) = po_active p" "po_loop (upd_call c f p) = po_loop p"
  "po_group_cancelled (upd_call c f p) = po_group_cancelled p"
  by (simp_all add: upd_call_def)

lemma portal_ok_over:
  assumes "portal_ok p" "pc_at (po_calls p c) \<noteq> CQueued" "\<not> is_over (pc_at (po_calls p c))"
    "call_ok ((po_calls p c)\<lparr>pc_future := f, pc_at := COver r\<rparr>)"
    "cf_cancelled (pc_future (po_calls p c)) \<Longrightarrow> cf_cancelled f"
  shows "portal_ok (call_over c r (upd_call c (\<lambda>k. k\<lparr>pc_future := f\<rparr>) p))"
proof (rule portal_ok_step [OF assms(1)])
  show "po_calls (call_over c r (upd_call c (\<lambda>k. k\<lparr>pc_future := f\<rparr>) p)) =
      (po_calls p)(c := (po_calls p c)\<lparr>pc_future := f, pc_at := COver r\<rparr>)"
    by (simp add: call_over_def)
  show "c \<in> set (po_queue (call_over c r (upd_call c (\<lambda>k. k\<lparr>pc_future := f\<rparr>) p))) \<Longrightarrow>
      pc_at ((po_calls p c)\<lparr>pc_future := f, pc_at := COver r\<rparr>) = CQueued"
    using assms(1,2) portal_okD(3) by (auto simp: call_over_def)
qed (use assms used_call [OF assms(1,2)] in \<open>auto simp: call_over_def split: option.splits\<close>)

lemma portal_ok_over_plain:
  assumes "portal_ok p" "pc_at (po_calls p c) \<noteq> CQueued" "\<not> is_over (pc_at (po_calls p c))"
    "call_ok ((po_calls p c)\<lparr>pc_at := COver r\<rparr>)"
  shows "portal_ok (call_over c r p)"
proof -
  have "upd_call c (\<lambda>k. k\<lparr>pc_future := pc_future (po_calls p c)\<rparr>) p = p" by (simp add: upd_call_def)
  then show ?thesis using portal_ok_over [OF assms(1-3), where r = r and f = "pc_future (po_calls p c)"] assms(4) by simp
qed

text \<open>Between two steps on its future the task of a call is not over, and its future not answered.\<close>

definition midway :: "'v portal \<Rightarrow> nat \<Rightarrow> bool" where
  "midway p c \<longleftrightarrow> pc_at (po_calls p c) \<noteq> CQueued \<and> \<not> is_over (pc_at (po_calls p c))
     \<and> (pc_future (po_calls p c) = CfPending \<or> pc_future (po_calls p c) = CfCancelled)"

lemma midway_ok: "portal_ok p \<Longrightarrow> pc_at (po_calls p c) \<noteq> CQueued \<Longrightarrow> \<not> is_over (pc_at (po_calls p c)) \<Longrightarrow> midway p c"
  using portal_okD(1) [of p c] by (cases "pc_at (po_calls p c)") (auto simp: midway_def call_ok_def)

lemma portal_ok_at:
  assumes ok: "portal_ok p" and m: "midway p c" and k: "pc_ok (po_calls p c) pc" "pc \<noteq> CQueued" "\<not> is_over pc"
  shows "portal_ok ((upd_call c (\<lambda>k. k\<lparr>pc_at := pc\<rparr>) p)\<lparr>po_running := r\<rparr>)"
proof (rule portal_ok_step [OF ok])
  have "pc_ok ((po_calls p c)\<lparr>pc_at := pc\<rparr>) pc" using k(1) by (cases pc) simp_all
  then show "call_ok ((po_calls p c)\<lparr>pc_at := pc\<rparr>)"
    using portal_okD(1) [OF ok, of c] by (simp add: call_ok_def)
  show "c < po_next p" using m used_call [OF ok, of c] by (simp add: midway_def)
qed (use ok m portal_okD(3) [OF ok, of c] in \<open>auto simp: midway_def\<close>)

lemma portal_ok_settle:
  assumes ok: "portal_ok p" and m: "midway p c" and r: "returned_as r (pc_returned (po_calls p c))"
    "r = Inr None \<Longrightarrow> cf_cancelled (pc_future (po_calls p c))"
  shows "portal_ok (call_settle c r p)"
proof (cases "\<exists>e. r = Inl e \<and> is_cancelled e")
  case True
  then obtain e where e: "r = Inl e" "is_cancelled e" by blast
  have "cf_cancel (pc_future (po_calls p c)) = CfCancelled" using m by (auto simp: midway_def)
  then have s: "call_settle c r p = call_over c None (upd_call c (\<lambda>k. k\<lparr>pc_future := CfNotified\<rparr>) p)"
    using e by (simp add: call_settle_def)
  show ?thesis unfolding s
    using m ok by (intro portal_ok_over) (auto simp: midway_def call_ok_def)
next
  case False
  then have s: "call_settle c r p = (upd_call c (\<lambda>k. k\<lparr>pc_at := CEnding r\<rparr>) p)\<lparr>po_running := Some c\<rparr>"
    by (auto simp: call_settle_def split: sum.splits)
  show ?thesis unfolding s using m r by (intro portal_ok_at [OF ok m]) (auto simp: midway_def)
qed

lemma portal_ok_returned:
  assumes ok: "portal_ok p" and m: "midway p c" and pc: "pc_at (po_calls p c) = CReady \<or> pc_at (po_calls p c) = CAwaiting"
  shows "portal_ok (upd_call c (\<lambda>k. k\<lparr>pc_returned := r\<rparr>) p) \<and> midway (upd_call c (\<lambda>k. k\<lparr>pc_returned := r\<rparr>) p) c"
proof
  show "portal_ok (upd_call c (\<lambda>k. k\<lparr>pc_returned := r\<rparr>) p)"
  proof (rule portal_ok_step [OF ok])
    show "c < po_next p" using m used_call [OF ok, of c] by (simp add: midway_def)
    show "call_ok ((po_calls p c)\<lparr>pc_returned := r\<rparr>)"
      using m pc portal_okD(1) [OF ok, of c] by (auto simp: call_ok_def midway_def)
  qed (use portal_okD(3) [OF ok, of c] in auto)
  show "midway (upd_call c (\<lambda>k. k\<lparr>pc_returned := r\<rparr>) p) c" using m by (simp add: midway_def)
qed

lemma portal_ok_scope:
  assumes ok: "portal_ok p" and t: "target_ok p wh"
  shows "portal_ok (call_scope wh p)"
proof (cases wh)
  case (ScopeCancel d)
  then have c: "cf_cancelled (pc_future (po_calls p d))" using t by (simp add: target_ok_def)
  have "portal_ok (upd_call d (\<lambda>k. k\<lparr>pc_scope_cancelled := True\<rparr>) p)"
  proof (rule portal_ok_step [OF ok])
    show "d < po_next p" using c by (rule used_future [OF ok])
    have "pc_ok ((po_calls p d)\<lparr>pc_scope_cancelled := True\<rparr>) (pc_at (po_calls p d))"
      using portal_okD(1) [OF ok, of d] by (cases "pc_at (po_calls p d)") (simp_all add: call_ok_def)
    then show "call_ok ((po_calls p d)\<lparr>pc_scope_cancelled := True\<rparr>)"
      using c portal_okD(1) [OF ok, of d] by (simp add: call_ok_def)
  qed (use portal_okD(3) [OF ok, of d] in auto)
  then show ?thesis by (simp add: call_scope_def ScopeCancel)
qed (use ok in \<open>simp add: call_scope_def\<close>)

lemma call_scope_same [simp]:
  "po_running (call_scope wh p) = po_running p"
  "pc_at (po_calls (call_scope wh p) c) = pc_at (po_calls p c)"
  "pc_future (po_calls (call_scope wh p) c) = pc_future (po_calls p c)"
  by (simp_all add: call_scope_def split: what.split)

lemma portal_ok_start:
  assumes ok: "portal_ok p" and t: "target_ok p wh"
  shows "portal_ok (fst (portal_start th wh p))"
proof (cases "portal_check th p")
  case (Inr u)
  define n where "n = po_next p"
  define q where "q = p\<lparr>po_calls := (po_calls p)(n := pcall_new wh), po_next := Suc n, po_queue := po_queue p @ [n]\<rparr>"
  have fresh: "po_calls p n = pcall_new UserFunc" using portal_okD(4) [OF ok] by (simp add: n_def)
  have fut: "pc_future (po_calls q d) = pc_future (po_calls p d)" for d
    using fresh by (simp add: q_def pcall_new_def)
  have "call_ok (po_calls q d)" for d
    using portal_okD(1) [OF ok, of d] by (simp add: q_def call_ok_def pcall_new_def)
  moreover have "target_ok q (pc_what (po_calls q d))" for d
  proof -
    have "target_ok q x = target_ok p x" for x using fut by (simp add: target_ok_def split: what.split)
    then show ?thesis using portal_okD(2) [OF ok, of d] t by (simp add: q_def pcall_new_def)
  qed
  moreover have "pc_at (po_calls q d) = pc_at (po_calls p d)" for d
    using fresh by (simp add: q_def pcall_new_def)
  moreover have "po_calls q d = pcall_new UserFunc" if "Suc n \<le> d" for d
    using that portal_okD(4) [OF ok, of d] by (simp add: q_def n_def)
  moreover have "pc_at (po_calls p n) = CQueued" using fresh by (simp add: pcall_new_def)
  moreover have "distinct (po_queue q)" "set (po_queue q) \<subseteq> {d. d < po_next q \<and> pc_at (po_calls p d) = CQueued}"
    using portal_okD(3) [OF ok] ok calculation(5) by (force simp: q_def n_def portal_ok_def)+
  ultimately have "portal_ok q" using portal_okD(5) [OF ok] by (auto simp: portal_ok_def q_def n_def)
  then show ?thesis using Inr by (simp add: portal_start_def q_def n_def)
qed (use ok in \<open>simp add: portal_start_def\<close>)

lemma portal_ok_begin:
  assumes ok: "portal_ok p" and act: "call_begin c ret p = Some p'"
  shows "portal_ok p'"
proof -
  have r: "pc_at (po_calls p c) = CReady" using act by (auto simp: call_begin_def Let_def split: if_splits)
  have m: "midway p c" by (rule midway_ok [OF ok]) (simp_all add: r)
  show ?thesis
  proof (cases ret)
    case (Returns v)
    define q where "q = call_scope (pc_what (po_calls p c)) p"
    have q: "portal_ok q" unfolding q_def using portal_okD(2) [OF ok] by (intro portal_ok_scope ok)
    have mq: "midway q c" using m by (simp add: midway_def q_def)
    have "pc_at (po_calls q c) = CReady \<or> pc_at (po_calls q c) = CAwaiting" using r by (simp add: q_def)
    note q1 = portal_ok_returned [OF q mq this, of "Some (Inr v)"]
    show ?thesis using act Returns q1
      by (auto simp: call_begin_def Let_def q_def [symmetric] split: if_splits intro!: portal_ok_settle)
  next
    case (Raises e)
    note q1 = portal_ok_returned [OF ok m, of "Some (Inl e)"]
    show ?thesis using act Raises q1 r
      by (auto simp: call_begin_def Let_def split: if_splits intro!: portal_ok_settle)
  next
    case Awaitable
    show ?thesis
    proof (cases "cf_cancelled (pc_future (po_calls p c))")
      case True
      then have p': "p' = upd_call c (\<lambda>k. k\<lparr>pc_at := CAwaiting, pc_scope_cancelled := True\<rparr>) p"
        using act Awaitable by (auto simp: call_begin_def Let_def split: if_splits)
      show ?thesis unfolding p'
      proof (rule portal_ok_step [OF ok])
        show "call_ok ((po_calls p c)\<lparr>pc_at := CAwaiting, pc_scope_cancelled := True\<rparr>)"
          using m True by (auto simp: call_ok_def midway_def)
        show "c < po_next p" using m used_call [OF ok, of c] by (simp add: midway_def)
      qed (use r portal_okD(3) [OF ok, of c] in auto)
    next
      case False
      then have p': "p' = (upd_call c (\<lambda>k. k\<lparr>pc_at := CAdd\<rparr>) p)\<lparr>po_running := Some c\<rparr>"
        using act Awaitable by (auto simp: call_begin_def Let_def split: if_splits)
      show ?thesis unfolding p' using m by (intro portal_ok_at [OF ok m]) (auto simp: midway_def)
    qed
  qed
qed

lemma portal_ok_add:
  assumes ok: "portal_ok p" and act: "call_add c p = Some p'"
  shows "portal_ok p'"
proof -
  have r: "pc_at (po_calls p c) = CAdd"
    and p': "p' = (upd_call c (\<lambda>k. k\<lparr>pc_at := CAwaiting, pc_callback := \<not> cf_done (pc_future k)\<rparr>) p)\<lparr>po_running := None\<rparr>"
    using act by (auto simp: call_add_def split: if_splits)
  show ?thesis unfolding p'
  proof (rule portal_ok_step [OF ok])
    show "call_ok ((po_calls p c)\<lparr>pc_at := CAwaiting, pc_callback := \<not> cf_done (pc_future (po_calls p c))\<rparr>)"
      using portal_okD(1) [OF ok, of c] by (auto simp: call_ok_def r)
    show "c < po_next p" using used_call [OF ok, of c] by (simp add: r)
  qed (use r portal_okD(3) [OF ok, of c] in auto)
qed

lemma portal_ok_resume:
  assumes ok: "portal_ok p" and act: "call_resume c r sw p = Some p'"
  shows "portal_ok p'"
proof -
  have pc: "pc_at (po_calls p c) = CAwaiting" using act by (auto simp: call_resume_def Let_def split: if_splits)
  have m: "midway p c" by (rule midway_ok [OF ok]) (simp_all add: pc)
  have "pc_at (po_calls p c) = CReady \<or> pc_at (po_calls p c) = CAwaiting" by (simp add: pc)
  note q = portal_ok_returned [OF ok m this, of "Some r"]
  have canc: "pc_scope_cancelled (po_calls p c) \<Longrightarrow> cf_cancelled (pc_future (po_calls p c))"
    using portal_okD(1) [OF ok, of c] by (simp add: call_ok_def)
  show ?thesis using act q canc
    by (auto simp: call_resume_def Let_def split: if_splits sum.splits intro!: portal_ok_settle)
qed

lemma portal_ok_ask:
  assumes ok: "portal_ok p" and act: "call_ask c p = Some p'"
  shows "portal_ok p'"
proof -
  obtain r where pc: "pc_at (po_calls p c) = CEnding r" using act by (auto simp: call_ask_def split: cpc.splits)
  have k: "pc_ok (po_calls p c) (CEnding r)" "call_ok (po_calls p c)"
    using portal_okD(1) [OF ok, of c] by (simp_all add: call_ok_def pc)
  show ?thesis
  proof (cases "cf_cancelled (pc_future (po_calls p c))")
    case True
    then have p': "p' = call_over c (escapes r) p" using act pc by (simp add: call_ask_def)
    show ?thesis unfolding p' using k True pc
      by (intro portal_ok_over_plain [OF ok])
        (auto simp: call_ok_def escapes_def cf_cancelled_done split: sum.splits if_splits)
  next
    case False
    then have p': "p' = upd_call c (\<lambda>k. k\<lparr>pc_at := CSetting r\<rparr>) p" using act pc by (simp add: call_ask_def)
    have m: "midway p c" by (rule midway_ok [OF ok]) (simp_all add: pc)
    have "portal_ok ((upd_call c (\<lambda>k. k\<lparr>pc_at := CSetting r\<rparr>) p)\<lparr>po_running := po_running p\<rparr>)"
      using k False by (intro portal_ok_at [OF ok m]) auto
    then show ?thesis unfolding p' by (simp add: upd_call_def)
  qed
qed

lemma portal_ok_set:
  assumes ok: "portal_ok p" and act: "call_set c p = Some p'"
  shows "portal_ok p'"
proof -
  obtain r where pc: "pc_at (po_calls p c) = CSetting r" using act by (auto simp: call_set_def split: cpc.splits)
  have k: "pc_ok (po_calls p c) (CSetting r)" "call_ok (po_calls p c)"
    using portal_okD(1) [OF ok, of c] by (simp_all add: call_ok_def pc)
  obtain x where x: "returned_as r (pc_returned (po_calls p c))" "pc_returned (po_calls p c) = Some x"
      "(\<exists>v. r = Inr (Some v) \<and> x = Inr v) \<or> (\<exists>e. r = Inl e \<and> x = Inl e)"
    using k(1) by (cases r rule: returned_as.cases [of "(r, pc_returned (po_calls p c))" for r]) auto
  show ?thesis
  proof (cases "cf_cancelled (pc_future (po_calls p c))")
    case True
    then have p': "p' = call_over c (Some InvalidStateError) p"
      using act pc x(3) by (auto simp: call_set_def cf_set_def cf_cancelled_done)
    show ?thesis unfolding p' using k True pc
      by (intro portal_ok_over_plain [OF ok]) (auto simp: call_ok_def cf_cancelled_done)
  next
    case False
    then have pend: "pc_future (po_calls p c) = CfPending" using k(1) by auto
    then have p': "p' = call_over c (escapes r) (upd_call c (\<lambda>k. k\<lparr>pc_future := CfFinished x\<rparr>) p)"
      using act pc x(3) by (auto simp: call_set_def cf_set_def escapes_def)
    show ?thesis unfolding p' using k x pend pc
      by (intro portal_ok_over [OF ok]) (auto simp: call_ok_def escapes_def split: if_splits)
  qed
qed

lemma portal_ok_cancel:
  assumes ok: "portal_ok p" and c: "c < po_next p"
  shows "portal_ok (future_cancel th c p)"
proof -
  define q where "q = upd_call c (\<lambda>k. k\<lparr>pc_future := cf_cancel (pc_future k)\<rparr>) p"
  have k: "call_ok (po_calls p c)" by (rule portal_okD(1) [OF ok])
  have "call_ok ((po_calls p c)\<lparr>pc_future := cf_cancel (pc_future (po_calls p c))\<rparr>)"
  proof (cases "pc_future (po_calls p c) = CfPending")
    case True
    then show ?thesis using k by (cases "pc_at (po_calls p c)") (auto simp: call_ok_def)
  next
    case False
    then have "cf_cancel (pc_future (po_calls p c)) = pc_future (po_calls p c)"
      by (cases "pc_future (po_calls p c)") simp_all
    then show ?thesis using k by simp
  qed
  then have q: "portal_ok q" unfolding q_def using c portal_okD(3) [OF ok, of c]
    by (intro portal_ok_step [OF ok, where c = c and k = "(po_calls p c)\<lparr>pc_future := cf_cancel (pc_future (po_calls p c))\<rparr>"])
      (simp_all add: cf_cancel_cancelled)
  show ?thesis
  proof (cases "future_cancel th c p = q")
    case False
    then have "future_cancel th c p = fst (portal_start th (ScopeCancel c) q)"
        "cf_cancelled (pc_future (po_calls q c))"
      by (auto simp: future_cancel_def Let_def q_def split: if_splits)
    then show ?thesis using portal_ok_start [OF q, of "ScopeCancel c" th] by (simp add: target_ok_def)
  qed (use q in simp)
qed

lemma portal_ok_spawn:
  assumes ok: "portal_ok p" and act: "portal_spawn p = Some p'"
  shows "portal_ok p'"
proof -
  obtain c cs where q: "po_queue p = c # cs"
    and p': "p' = upd_call c (\<lambda>k. k\<lparr>pc_at := (if po_active p then CReady else CRejected)\<rparr>) (p\<lparr>po_queue := cs\<rparr>)"
    using act by (auto simp: portal_spawn_def split: list.splits if_splits)
  have c: "pc_at (po_calls p c) = CQueued" "c < po_next p" "c \<notin> set cs"
    using portal_okD(3) [OF ok, of c] ok by (auto simp: q portal_ok_def)
  show ?thesis unfolding p'
  proof (rule portal_ok_step [OF ok])
    show "call_ok ((po_calls p c)\<lparr>pc_at := if po_active p then CReady else CRejected\<rparr>)"
      using portal_okD(1) [OF ok, of c] by (auto simp: call_ok_def c(1))
  qed (use c in \<open>auto simp: q\<close>)
qed

lemma portal_ok_act:
  assumes ok: "portal_ok p" and act: "po_act a p = Some p'"
  shows "portal_ok p'"
proof (cases a)
  case (PoStart th)
  then show ?thesis using act portal_ok_start [OF ok, of UserFunc th] by (auto simp: target_ok_def)
next
  case (PoStop b)
  then show ?thesis using act by (auto simp: portal_stop_def split: if_splits intro!: portal_ok_same [OF ok])
next
  case PoExit
  then show ?thesis using act by (auto split: if_splits intro!: portal_ok_same [OF ok])
qed (use act in \<open>auto split: if_splits intro: portal_ok_spawn [OF ok] portal_ok_begin [OF ok] portal_ok_add [OF ok]
       portal_ok_resume [OF ok] portal_ok_ask [OF ok] portal_ok_set [OF ok] portal_ok_cancel [OF ok]\<close>)

lemma portal_ok_new: "portal_ok (portal_new th)"
  by (simp add: portal_ok_def portal_new_def target_ok_def pcall_new_def call_ok_def)

lemma po_reach_ok: "po_reach p \<Longrightarrow> portal_ok p"
  by (induction rule: po_reach.induct) (auto intro: portal_ok_act portal_ok_new)

section \<open>Properties of a portal\<close>

text \<open>
  C17: Every call is answered: once its task is over its future is done, and unless the future was
  cancelled it holds exactly what the function returned or raised, so \<open>portal.call\<close> returns that.
\<close>
theorem portal_answers:
  assumes "po_reach p" "pc_at (po_calls p c) = COver out"
  shows "cf_done (pc_future (po_calls p c)) \<and>
    (\<not> cf_cancelled (pc_future (po_calls p c)) \<longrightarrow>
       cf_result (pc_future (po_calls p c)) = pc_returned (po_calls p c) \<and> pc_returned (po_calls p c) \<noteq> None)"
  using portal_okD(1) [OF po_reach_ok [OF assms(1)], of c] assms(2)
  by (cases "pc_future (po_calls p c)") (auto simp: call_ok_def)

definition one_call :: "nat po_action list" where
  "one_call = [PoStart 1, PoSpawn, PoBegin 0 Awaitable, PoAdd 0, PoResume 0 (Inr 7) False, PoAsk 0, PoSet 0]"

lemmas portal_steps = portal_new_def portal_start_def portal_check_def pcall_new_def portal_spawn_def upd_call_def
  call_begin_def call_scope_def call_add_def call_resume_def call_ask_def call_set_def call_settle_def call_over_def escapes_def
  cf_set_def Let_def

lemma portal_answers_witness:
  "\<exists>p. po_run one_call (portal_new 0) = Some p \<and> cf_result (pc_future (po_calls p 0)) = Some (Inr 7)"
proof -
  obtain p where p: "po_run one_call (portal_new 0) = Some p" "pc_at (po_calls p 0) = COver None"
      "\<not> cf_cancelled (pc_future (po_calls p 0))" "pc_returned (po_calls p 0) = Some (Inr 7)"
    by (simp add: one_call_def portal_steps)
  have "po_reach p" using p(1) by (rule po_run_reach [OF po_reach.init])
  from portal_answers [OF this p(2)] p show ?thesis by auto
qed

text \<open>
  C16: A call that fails does not take the portal down: what makes the portal's task group fail is a
  function raising an exception that is no \<open>Exception\<close>, or the \<open>InvalidStateError\<close> of an answer to
  a future that was cancelled in the meantime. In particular \<open>retval\<close> is never read unbound, and
  \<open>set_running_or_notify_cancel\<close> never finds the future in an unexpected state.
\<close>
theorem portal_isolates:
  assumes "po_reach p" "e \<in> set (po_failures p)"
  shows "\<exists>c. (\<not> is_Exception e \<and> pc_returned (po_calls p c) = Some (Inl e))
     \<or> (e = InvalidStateError \<and> cf_cancelled (pc_future (po_calls p c)))"
proof -
  note ok = po_reach_ok [OF assms(1)]
  obtain c where "pc_at (po_calls p c) = COver (Some e)" using portal_okD(5) [OF ok assms(2)] by blast
  then show ?thesis using portal_okD(1) [OF ok, of c] by (auto simp: call_ok_def)
qed

text \<open>
  The race is there: a thread cancels the future after the loop asked whether it is cancelled and
  before it sets the result. The \<open>InvalidStateError\<close> leaves the task, and the task group of the
  portal cancels every other call.
\<close>

definition late_cancel :: "nat po_action list" where
  "late_cancel = [PoStart 1, PoSpawn, PoBegin 0 (Returns 7), PoAsk 0, PoCancel 1 0, PoSet 0]"

lemma portal_isolates_witness:
  "\<exists>p. po_run late_cancel (portal_new 0) = Some p \<and> po_group_cancelled p \<and> po_failures p = [InvalidStateError]
    \<and> (\<exists>c. cf_cancelled (pc_future (po_calls p c)))"
proof -
  obtain p where p: "po_run late_cancel (portal_new 0) = Some p" "po_group_cancelled p" "po_failures p = [InvalidStateError]"
    by (simp add: late_cancel_def portal_steps future_cancel_def)
  have "po_reach p" using p(1) by (rule po_run_reach [OF po_reach.init])
  from portal_isolates [OF this, of InvalidStateError] p show ?thesis by auto
qed

lemma call_what_stable:
  assumes "c < po_next p" "po_act a p = Some p'"
  shows "c < po_next p' \<and> pc_what (po_calls p' c) = pc_what (po_calls p c)"
proof -
  have settle: "po_next (call_settle d r q) = po_next q" "pc_what (po_calls (call_settle d r q) c) = pc_what (po_calls q c)"
    for d r and q :: "'a portal"
    by (auto simp: call_settle_def call_over_def split: sum.splits)
  have scope: "po_next (call_scope wh q) = po_next q" "pc_what (po_calls (call_scope wh q) d) = pc_what (po_calls q d)"
    for wh d and q :: "'a portal" by (simp_all add: call_scope_def split: what.split)
  have start: "c < po_next q \<Longrightarrow> c < po_next (fst (portal_start th wh q))
      \<and> pc_what (po_calls (fst (portal_start th wh q)) c) = pc_what (po_calls q c)" for th wh and q :: "'a portal"
    by (simp add: portal_start_def split: sum.split)
  show ?thesis
  proof (cases a)
    case (PoStart th)
    then show ?thesis using assms start by auto
  next
    case PoSpawn
    then show ?thesis using assms by (auto simp: portal_spawn_def split: list.splits if_splits)
  next
    case (PoBegin d ret)
    then show ?thesis using assms by (auto simp: call_begin_def Let_def settle scope split: callret.splits if_splits)
  next
    case (PoResume d r sw)
    then show ?thesis using assms by (auto simp: call_resume_def Let_def settle split: sum.splits if_splits)
  next
    case (PoAsk d)
    then show ?thesis using assms by (auto simp: call_ask_def call_over_def split: cpc.splits if_splits)
  next
    case (PoSet d)
    then show ?thesis using assms
      by (auto simp: call_set_def call_over_def split: cpc.splits sum.splits option.splits)
  next
    case (PoCancel th d)
    then show ?thesis using assms start by (auto simp: future_cancel_def Let_def split: if_splits)
  qed (use assms in \<open>auto simp: call_add_def portal_stop_def split: if_splits\<close>)
qed

lemma call_what_run:
  "c < po_next p \<Longrightarrow> po_run as p = Some p' \<Longrightarrow> pc_what (po_calls p' c) = pc_what (po_calls p c)"
proof (induction as arbitrary: p)
  case (Cons a as)
  then obtain q where q: "po_act a p = Some q" "po_run as q = Some p'" by (auto split: option.splits)
  note st = call_what_stable [OF Cons.prems(1) q(1)]
  then have "pc_what (po_calls p' c) = pc_what (po_calls q c)" using Cons.IH q(2) by blast
  then show ?case using st by simp
qed simp

lemma settle_scope_cancelled:
  "pc_scope_cancelled (po_calls (call_settle d r q) c) = pc_scope_cancelled (po_calls q c)"
  by (auto simp: call_settle_def call_over_def split: sum.splits)

text \<open>
  C18: Cancelling the future of a call that awaits, from another thread and while the portal runs, makes
  the future's \<open>result()\<close> raise and asks the loop for the cancellation of the call's scope; when
  the loop comes to that request, whatever happened before, the scope is cancelled.
\<close>
theorem cancel_reaches_scope:
  assumes "po_reach p" "pc_at (po_calls p c) = CAwaiting" "pc_callback (po_calls p c)" "pc_future (po_calls p c) = CfPending"
    "po_thread p = Some l" "th \<noteq> l"
  defines "p1 \<equiv> future_cancel th c p"
  shows "cf_result (pc_future (po_calls p1 c)) = Some (Inl (CancelledError None None))
    \<and> po_queue p1 = po_queue p @ [po_next p]
    \<and> (po_run as p1 = Some q \<longrightarrow> po_act (PoBegin (po_next p) ret) q = Some q' \<longrightarrow> pc_scope_cancelled (po_calls q' c))"
proof -
  define p0 where "p0 = upd_call c (\<lambda>k. k\<lparr>pc_future := CfCancelled\<rparr>) p"
  have c: "c < po_next p" using used_call [OF po_reach_ok [OF assms(1)], of c] assms(2) by simp
  have p1: "p1 = p0\<lparr>po_calls := (po_calls p0)(po_next p := pcall_new (ScopeCancel c)), po_next := Suc (po_next p),
             po_queue := po_queue p @ [po_next p]\<rparr>"
    unfolding p1_def future_cancel_def using assms(2-6)
    by (simp add: Let_def portal_start_def portal_check_def p0_def upd_call_def)
  have "pc_scope_cancelled (po_calls q' c)"
    if q: "po_run as p1 = Some q" "po_act (PoBegin (po_next p) ret) q = Some q'"
  proof -
    have "pc_what (po_calls q (po_next p)) = ScopeCancel c"
      using call_what_run [OF _ q(1), of "po_next p"] by (simp add: p1 pcall_new_def)
    then show ?thesis using q(2)
      by (auto simp: call_begin_def Let_def call_scope_def settle_scope_cancelled split: callret.splits if_splits)
  qed
  moreover have "cf_result (pc_future (po_calls p1 c)) = Some (Inl (CancelledError None None))"
    using c by (simp add: p1 p0_def)
  ultimately show ?thesis by (simp add: p1)
qed

lemma cancel_reaches_scope_witness:
  "\<exists>p q. po_run (take 4 one_call) (portal_new 0) = Some p
    \<and> po_run [PoSpawn, PoBegin 1 (Returns 0)] (future_cancel 1 0 p) = Some q \<and> pc_scope_cancelled (po_calls q 0)"
proof -
  obtain p where p: "po_run (take 4 one_call) (portal_new 0) = Some p" "pc_at (po_calls p 0) = CAwaiting"
      "pc_callback (po_calls p 0)" "pc_future (po_calls p 0) = CfPending" "po_thread p = Some 0" "po_next p = 1"
      "po_run [PoSpawn] (future_cancel 1 0 p) \<noteq> None"
      "po_run [PoSpawn, PoBegin 1 (Returns 0)] (future_cancel 1 0 p) \<noteq> None"
    by (simp add: one_call_def portal_steps future_cancel_def)
  have r: "po_reach p" using p(1) by (rule po_run_reach [OF po_reach.init])
  obtain q where q: "po_run [PoSpawn] (future_cancel 1 0 p) = Some q" using p(7) by blast
  obtain q' where q': "po_act (PoBegin 1 (Returns 0)) q = Some q'"
    using p(8) q by (auto split: option.splits)
  have "pc_scope_cancelled (po_calls q' 0)"
    using cancel_reaches_scope [OF r p(2-5), of 1 "[PoSpawn]" q "Returns 0" q'] q q' p(6) by simp
  moreover have "po_run [PoSpawn, PoBegin 1 (Returns 0)] (future_cancel 1 0 p) = Some q'"
    using q q' by (auto split: option.splits)
  ultimately show ?thesis using p(1) by blast
qed

end
