(* ===== verification/ThreadBridge.thy ===== *)
theory ThreadBridge
  imports Portal WorkerThreads
begin

text \<open>
  Between threads and the event loop: what worker threads may ask (\<open>run\<close>, \<open>run_sync\<close>,
  \<open>check_cancelled\<close> of \<open>src/anyio/from_thread.py\<close>, \<open>claim_worker_thread\<close> of
  \<open>src/anyio/_core/_eventloop.py\<close> and the two \<open>run_..._from_thread\<close> functions of the asyncio
  backend), and the managers on top of a portal: \<open>start_task\<close>, \<open>_BlockingAsyncContextManager\<close>,
  \<open>start_blocking_portal\<close> and \<open>BlockingPortalProvider\<close>.
\<close>

section \<open>Thread-local state\<close>

text \<open>The attributes of \<open>threadlocals\<close> that may be set: backend and token, and the scope.\<close>

record threadloc =
  tl_token :: "nat option"
  tl_scope :: "nat option"

definition claim_worker_thread :: "nat \<Rightarrow> threadloc \<Rightarrow> threadloc" where
  "claim_worker_thread token l = l\<lparr>tl_token := Some token\<rparr>"

definition release_worker_thread :: "threadloc \<Rightarrow> threadloc res" where
  "release_worker_thread l = (if tl_token l = None then Inl AttributeError else Inr (l\<lparr>tl_token := None\<rparr>))"

definition not_worker_thread :: exn where
  "not_worker_thread = RuntimeError ''This function can only be run from an AnyIO worker thread''"

text \<open>\<open>run\<close> and \<open>run_sync\<close> call the backend with the token of the loop.\<close>

definition thread_token :: "threadloc \<Rightarrow> nat res" where
  "thread_token l = (case tl_token l of None \<Rightarrow> Inl not_worker_thread | Some token \<Rightarrow> Inr token)"

text \<open>\<open>None\<close>: the loop over the scopes does not end.\<close>

definition thread_check_cancelled :: "threadloc \<Rightarrow> world \<Rightarrow> unit res option" where
  "thread_check_cancelled l w =
     (if tl_token l = None then Some (Inl not_worker_thread)
      else case tl_scope l of None \<Rightarrow> Some (Inl AttributeError) | Some s \<Rightarrow> check_cancelled (scopes w) (Some s))"

text \<open>\<open>wrapper\<close> of \<open>run_sync_from_thread\<close>: the future, and what goes on to the loop.\<close>

definition sync_wrapper :: "'v res \<Rightarrow> 'v cfstate \<times> exn option" where
  "sync_wrapper r =
     (CfFinished r, case r of Inl e \<Rightarrow> if is_Exception e then None else Some e | Inr _ \<Rightarrow> None)"

text \<open>\<open>task_wrapper\<close> of \<open>run_async_from_thread\<close>, in its task \<open>t\<close>, before and after the call.\<close>

definition task_wrapper_begin :: "task \<Rightarrow> nat \<Rightarrow> world \<Rightarrow> world" where
  "task_wrapper_begin t s w =
     upd s (\<lambda>sc. sc\<lparr>sc_tasks := set_add t (sc_tasks sc)\<rparr>)
       (w\<lparr>task_states := (task_states w)(t := Some \<lparr>ts_parent_id = None, ts_scope = Some s\<rparr>)\<rparr>)"

definition task_wrapper_end :: "task \<Rightarrow> nat \<Rightarrow> 'v res \<Rightarrow> world \<Rightarrow> world \<times> 'v res" where
  "task_wrapper_end t s r w =
     (upd s (\<lambda>sc. sc\<lparr>sc_tasks := removeAll t (sc_tasks sc)\<rparr>) w,
      case r of
        Inl e \<Rightarrow> if is_cancelled e then Inl (CancelledError (exn_str e) None) else r
      | Inr v \<Rightarrow> r)"

text \<open>
  What a worker thread learns from \<open>check_cancelled\<close>: with \<open>abandon_on_cancel\<close> the scope around the
  call is not shielded and the thread looks from there; otherwise it looks from the scope the
  caller is in, past the shield. Either way it raises exactly if a scope around the caller that no
  other shield hides was cancelled, or the scope of the call itself when the call may be abandoned.
\<close>
theorem worker_sees_cancellation:
  assumes "cs_reach sys" "w = cw sys" "sc_parent (scopes w s) = Some p" "sc_shield (scopes w s) = (\<not> abandon)"
    "tl_token l \<noteq> None" "tl_scope l = Some (worker_scope abandon s w)"
  shows "\<exists>r. thread_check_cancelled l w = Some r
    \<and> (r \<noteq> Inr () \<longleftrightarrow> (\<exists>a. visible (scopes w) (Some p) a \<and> sc_called (scopes w a)) \<or> abandon \<and> sc_called (scopes w s))"
proof -
  have e: "ends (scopes w) so" for so using tree_ok_ends [OF cs_reach_ok [OF assms(1)]] by (simp add: assms(2))
  have t: "thread_check_cancelled l w = check_cancelled (scopes w) (Some (worker_scope abandon s w))"
    using assms(5,6) by (auto simp: thread_check_cancelled_def)
  have v: "(\<exists>a. visible (scopes w) (Some (worker_scope abandon s w)) a \<and> sc_called (scopes w a))
    \<longleftrightarrow> (\<exists>a. visible (scopes w) (Some p) a \<and> sc_called (scopes w a)) \<or> abandon \<and> sc_called (scopes w s)"
    using assms(3,4) by (auto simp: worker_scope_def visible_Some [of _ s])
  show ?thesis unfolding t v [symmetric]
    using check_cancelled_spec [OF e, of "Some (worker_scope abandon s w)"] eff_loop_spec [OF e, of "Some (worker_scope abandon s w)"]
    by auto
qed

text \<open>Scope 0 of task 7 is cancelled; the call's shielded scope 1 is inside it.\<close>

abbreviation shielded_run :: "cs_action list" where
  "shielded_run \<equiv> [CsNew PosInf False, CsNew PosInf True, CsCurrent (Some 7), CsEnter 0 7, CsEnter 1 7,
     CsCurrent None, CsTask 7 waiting, CsCancel 0]"

lemma worker_sees_cancellation_witness:
  "\<exists>s r. cs_run shielded_run \<lparr>cw = world_new True 0, entered = []\<rparr> = Some s
    \<and> thread_check_cancelled \<lparr>tl_token = Some 0, tl_scope = Some (worker_scope False 1 (cw s))\<rparr> (cw s) = Some r
    \<and> r \<noteq> Inr ()"
proof -
  obtain s where s: "cs_run shielded_run \<lparr>cw = world_new True 0, entered = []\<rparr> = Some s"
      "sc_called (scopes (cw s) 0)" "sc_parent (scopes (cw s) 1) = Some 0" "sc_shield (scopes (cw s) 1)"
    by (simp add: cs_run_simps eval_nat_numeral)
  from cs_run_reach [OF cs_reach.init s(1)] have r: "cs_reach s" .
  have "visible (scopes (cw s)) (Some 0) 0" by (rule visible.here)
  then show ?thesis
    using worker_sees_cancellation [OF r refl s(3), of False
        "\<lparr>tl_token = Some 0, tl_scope = Some (worker_scope False 1 (cw s))\<rparr>"] s by auto
qed

section \<open>start_task\<close>

text \<open>
  \<open>started\<close> of \<open>_BlockingPortalTaskStatus\<close>, and the callback \<open>task_done\<close> that looks at both futures.
\<close>

definition portal_started :: "'v \<Rightarrow> 'v cfstate \<Rightarrow> 'v cfstate res" where
  "portal_started v status = cf_set (Inr v) status"

definition portal_exited_early :: exn where
  "portal_exited_early = RuntimeError ''Task exited without calling task_status.started()''"

definition portal_task_done :: "'v cfstate \<Rightarrow> 'w cfstate \<Rightarrow> 'w cfstate res" where
  "portal_task_done fut status =
     (if cf_done status then Inr status
      else if cf_cancelled fut then Inr (cf_cancel status)
      else case fut of
        CfFinished (Inl e) \<Rightarrow> cf_set (Inl e) status
      | _ \<Rightarrow> cf_set (Inl portal_exited_early) status)"

text \<open>The calls of \<open>started\<close> one after the other; those that raise change nothing.\<close>

fun portal_starts :: "'w list \<Rightarrow> 'w cfstate \<Rightarrow> 'w cfstate" where
  "portal_starts [] f = f"
| "portal_starts (v # vs) f = portal_starts vs (case portal_started v f of Inl _ \<Rightarrow> f | Inr f' \<Rightarrow> f')"

lemma portal_starts_done: "cf_done f \<Longrightarrow> portal_starts vs f = f"
  by (induction vs arbitrary: f) (simp_all add: portal_started_def cf_set_def)

text \<open>
  \<open>start_task\<close> returns: once the task's future is done, the status future is done too. It holds
  the value of the first \<open>started\<close>, or else the exception of the task, or the complaint that it
  exited early, or it is cancelled as the task's future is.
\<close>
theorem portal_start_task_answers:
  assumes "cf_done fut"
  shows "portal_task_done fut (portal_starts vs CfPending) =
    Inr (case vs of
           v # _ \<Rightarrow> CfFinished (Inr v)
         | [] \<Rightarrow> (case fut of
                   CfFinished (Inl e) \<Rightarrow> CfFinished (Inl e)
                 | CfFinished (Inr _) \<Rightarrow> CfFinished (Inl portal_exited_early)
                 | _ \<Rightarrow> CfCancelled))"
proof (cases vs)
  case Nil
  then show ?thesis using assms
    by (cases fut) (auto simp: portal_task_done_def cf_set_def split: sum.split)
next
  case (Cons v ws)
  then show ?thesis
    by (simp add: portal_task_done_def portal_started_def cf_set_def portal_starts_done)
qed

lemma portal_start_task_answers_witness:
  "portal_task_done (CfFinished (Inr 3 :: nat res)) (portal_starts [5 :: nat, 6] CfPending) = Inr (CfFinished (Inr 5))"
  using portal_start_task_answers [of "CfFinished (Inr 3 :: nat res)" "[5 :: nat, 6]"] by simp

section \<open>Asynchronous context managers in threads\<close>

datatype bcm_pc = BNew | BEntering | BWaiting | BExiting | BOver "bool res"

text \<open>
  Beside the state of the code: the exceptions \<open>__aexit__\<close> was called with, and how the wait for the
  exit event ended, with whether \<open>__exit__\<close> had been called by then.
\<close>

record 'v bcm =
  bc_pc :: bcm_pc
  bc_enter :: "'v cfstate"
  bc_event :: bool
  bc_exit_exc :: "exn option"
  bc_exited :: bool
  bc_aexits :: "exn option list"
  bc_woken :: "(unit awaited \<times> bool) option"

definition bcm_new :: "'v bcm" where
  "bcm_new = \<lparr>bc_pc = BNew, bc_enter = CfPending, bc_event = False, bc_exit_exc = None, bc_exited = False, bc_aexits = [],
     bc_woken = None\<rparr>"

text \<open>\<open>run_async_cm\<close>, between its awaits.\<close>

definition bcm_begin :: "'v bcm \<Rightarrow> 'v bcm option" where
  "bcm_begin m = (if bc_pc m = BNew then Some (m\<lparr>bc_pc := BEntering\<rparr>) else None)"

definition bcm_entered :: "'v res \<Rightarrow> 'v bcm \<Rightarrow> 'v bcm option" where
  "bcm_entered r m =
     (if bc_pc m \<noteq> BEntering then None
      else case cf_set r (bc_enter m) of
        Inl e \<Rightarrow> Some (m\<lparr>bc_pc := BOver (Inl e)\<rparr>)
      | Inr f \<Rightarrow> Some (m\<lparr>bc_enter := f, bc_pc := (case r of Inl e \<Rightarrow> BOver (Inl e) | Inr _ \<Rightarrow> BWaiting)\<rparr>))"

text \<open>
  The wait for the exit event ends or is cancelled: \<open>finally\<close> calls \<open>__aexit__\<close> with what \<open>__exit__\<close>
  has left by then, and its \<open>return\<close> replaces the cancellation.
\<close>

definition bcm_wake :: "unit awaited \<Rightarrow> 'v bcm \<Rightarrow> 'v bcm option" where
  "bcm_wake r m =
     (if bc_pc m \<noteq> BWaiting \<or> (r = Resumed () \<and> \<not> bc_event m) then None
      else Some (m\<lparr>bc_pc := BExiting, bc_aexits := bc_aexits m @ [bc_exit_exc m], bc_woken := Some (r, bc_exited m)\<rparr>))"

definition bcm_left :: "bool res \<Rightarrow> 'v bcm \<Rightarrow> 'v bcm option" where
  "bcm_left r m = (if bc_pc m = BExiting then Some (m\<lparr>bc_pc := BOver r\<rparr>) else None)"

text \<open>\<open>__exit__\<close> in the thread, after \<open>__enter__\<close> returned, and the call of \<open>_exit_event.set\<close>.\<close>

definition bcm_exit :: "exn option \<Rightarrow> 'v bcm \<Rightarrow> 'v bcm option" where
  "bcm_exit exc m =
     (case cf_result (bc_enter m) of
        Some (Inr _) \<Rightarrow> if bc_exited m then None else Some (m\<lparr>bc_exit_exc := exc, bc_exited := True\<rparr>)
      | _ \<Rightarrow> None)"

definition bcm_set_event :: "'v bcm \<Rightarrow> 'v bcm option" where
  "bcm_set_event m = (if bc_exited m then Some (m\<lparr>bc_event := True\<rparr>) else None)"

datatype 'v bcm_action =
    BcBegin | BcEntered "'v res" | BcWake "unit awaited" | BcLeft "bool res" | BcExit "exn option" | BcEvent

fun bcm_act :: "'v bcm_action \<Rightarrow> 'v bcm \<Rightarrow> 'v bcm option" where
  "bcm_act BcBegin m = bcm_begin m"
| "bcm_act (BcEntered r) m = bcm_entered r m"
| "bcm_act (BcWake r) m = bcm_wake r m"
| "bcm_act (BcLeft r) m = bcm_left r m"
| "bcm_act (BcExit exc) m = bcm_exit exc m"
| "bcm_act BcEvent m = bcm_set_event m"

inductive bcm_reach :: "'v bcm \<Rightarrow> bool" where
  init: "bcm_reach bcm_new"
| step: "bcm_reach m \<Longrightarrow> bcm_act a m = Some m' \<Longrightarrow> bcm_reach m'"

fun bcm_run :: "'v bcm_action list \<Rightarrow> 'v bcm \<Rightarrow> 'v bcm option" where
  "bcm_run [] m = Some m"
| "bcm_run (a # as) m = (case bcm_act a m of None \<Rightarrow> None | Some m' \<Rightarrow> bcm_run as m')"

lemma bcm_run_reach: "bcm_reach m \<Longrightarrow> bcm_run as m = Some m' \<Longrightarrow> bcm_reach m'"
  by (induction as arbitrary: m) (auto split: option.splits intro: bcm_reach.step)

fun bcm_phase :: "bcm_pc \<Rightarrow> 'v cfstate \<Rightarrow> exn option list \<Rightarrow> bool" where
  "bcm_phase BNew f xs \<longleftrightarrow> f = CfPending \<and> xs = []"
| "bcm_phase BEntering f xs \<longleftrightarrow> f = CfPending \<and> xs = []"
| "bcm_phase BWaiting f xs \<longleftrightarrow> (\<exists>v. f = CfFinished (Inr v)) \<and> xs = []"
| "bcm_phase BExiting f xs \<longleftrightarrow> (\<exists>v. f = CfFinished (Inr v)) \<and> length xs = 1"
| "bcm_phase (BOver r) f xs \<longleftrightarrow>
     (\<exists>v. f = CfFinished (Inr v)) \<and> length xs = 1 \<or> (\<exists>e. f = CfFinished (Inl e) \<and> r = Inl e) \<and> xs = []"

fun woken_with :: "(unit awaited \<times> bool) option \<Rightarrow> exn option list \<Rightarrow> exn option \<Rightarrow> bool \<Rightarrow> bool" where
  "woken_with None xs exc exited \<longleftrightarrow> xs = []"
| "woken_with (Some (r, b)) xs exc exited \<longleftrightarrow> xs = [if b then exc else None] \<and> (r = Resumed () \<longrightarrow> b) \<and> (b \<longrightarrow> exited)"

lemma woken_with_exit: "woken_with w xs exc False \<Longrightarrow> woken_with w xs exc' True"
  by (cases "(w, xs, exc, False)" rule: woken_with.cases) auto

definition bcm_ok :: "'v bcm \<Rightarrow> bool" where
  "bcm_ok m \<longleftrightarrow> bcm_phase (bc_pc m) (bc_enter m) (bc_aexits m)
     \<and> (bc_event m \<longrightarrow> bc_exited m) \<and> (\<not> bc_exited m \<longrightarrow> bc_exit_exc m = None)
     \<and> woken_with (bc_woken m) (bc_aexits m) (bc_exit_exc m) (bc_exited m)"

lemma bcm_ok_entered: "bcm_ok m \<Longrightarrow> bcm_entered r m = Some m' \<Longrightarrow> bcm_ok m'"
  by (cases r) (auto simp: bcm_ok_def bcm_entered_def cf_set_def split: if_splits)

lemma bcm_ok_wake: "bcm_ok m \<Longrightarrow> bcm_wake r m = Some m' \<Longrightarrow> bcm_ok m'"
  by (auto simp: bcm_ok_def bcm_wake_def split: if_splits)

lemma bcm_ok_exit: "bcm_ok m \<Longrightarrow> bcm_exit exc m = Some m' \<Longrightarrow> bcm_ok m'"
  by (auto simp: bcm_ok_def bcm_exit_def split: if_splits option.splits sum.splits intro: woken_with_exit)

lemma bcm_ok_left: "bcm_ok m \<Longrightarrow> bcm_left r m = Some m' \<Longrightarrow> bcm_ok m'"
  by (auto simp: bcm_ok_def bcm_left_def split: if_splits)

lemma bcm_ok_act:
  assumes "bcm_ok m" "bcm_act a m = Some m'"
  shows "bcm_ok m'"
proof (cases a)
  case BcBegin
  then show ?thesis using assms by (auto simp: bcm_ok_def bcm_begin_def split: if_splits)
next
  case BcEvent
  then show ?thesis using assms by (auto simp: bcm_ok_def bcm_set_event_def split: if_splits)
qed (use assms in \<open>auto intro: bcm_ok_entered bcm_ok_wake bcm_ok_exit bcm_ok_left\<close>)

lemma bcm_reach_ok: "bcm_reach m \<Longrightarrow> bcm_ok m"
proof (induction rule: bcm_reach.induct)
  case init
  show ?case by (simp add: bcm_ok_def bcm_new_def)
qed (rule bcm_ok_act)

text \<open>
  C39: A wrapped context manager is left exactly once: when the task is over, either \<open>__aenter__\<close>
  failed, which is what \<open>__enter__\<close> raises, and \<open>__aexit__\<close> was not called; or \<open>__aexit__\<close> was
  called once. If the wait for the exit event ended with the event, then with exactly the exception
  \<open>__exit__\<close> was given; if the wait was cancelled, then with the exception \<open>__exit__\<close> was given if it
  had been called by then, and with none otherwise.
\<close>
theorem context_manager_left_once:
  assumes "bcm_reach m" "bc_pc m = BOver r"
  shows "(\<exists>e. cf_result (bc_enter m) = Some (Inl e) \<and> r = Inl e \<and> bc_aexits m = [])
    \<or> (\<exists>v woke called. cf_result (bc_enter m) = Some (Inr v) \<and> bc_woken m = Some (woke, called)
         \<and> (woke = Resumed () \<longrightarrow> called) \<and> (called \<longrightarrow> bc_exited m)
         \<and> bc_aexits m = [if called then bc_exit_exc m else None])"
proof -
  have ok: "bcm_ok m" by (rule bcm_reach_ok [OF assms(1)])
  then consider (entered) v where "bc_enter m = CfFinished (Inr v)" "length (bc_aexits m) = 1"
    | (failed) e where "bc_enter m = CfFinished (Inl e)" "r = Inl e" "bc_aexits m = []"
    using assms(2) by (auto simp: bcm_ok_def)
  then show ?thesis
  proof cases
    case entered
    obtain woke called where "bc_woken m = Some (woke, called)"
      using ok entered(2) by (cases "bc_woken m") (auto simp: bcm_ok_def)
    then show ?thesis using ok entered(1) by (auto simp: bcm_ok_def)
  qed simp
qed

lemma context_manager_left_once_witness:
  "\<exists>m. bcm_run [BcBegin, BcEntered (Inr 3), BcExit (Some EndOfStream), BcEvent, BcWake (Resumed ()), BcLeft (Inr False)]
      (bcm_new :: nat bcm) = Some m \<and> bc_aexits m = [Some EndOfStream]"
proof -
  obtain m where m: "bcm_run [BcBegin, BcEntered (Inr 3), BcExit (Some EndOfStream), BcEvent, BcWake (Resumed ()), BcLeft (Inr False)]
      (bcm_new :: nat bcm) = Some m" "bc_pc m = BOver (Inr False)"
    "bc_exit_exc m = Some EndOfStream" "bc_woken m = Some (Resumed (), True)" "bc_enter m = CfFinished (Inr 3)"
    by (simp add: bcm_new_def bcm_begin_def bcm_entered_def bcm_wake_def bcm_left_def bcm_exit_def bcm_set_event_def cf_set_def)
  have "bcm_reach m" using m(1) by (rule bcm_run_reach [OF bcm_reach.init])
  from context_manager_left_once [OF this m(2)] m(3-5) have "bc_aexits m = [Some EndOfStream]" by auto
  with m(1) show ?thesis by blast
qed

section \<open>Starting a portal in a thread\<close>

text \<open>
  \<open>run_blocking_portal\<close>: \<open>run\<close> sets the future of \<open>start_blocking_portal\<close> to the portal, or ends
  with an exception before or after that.
\<close>

definition portal_thread_end :: "exn option \<Rightarrow> 'v cfstate \<Rightarrow> 'v cfstate res" where
  "portal_thread_end out f =
     (case out of None \<Rightarrow> Inr f | Some e \<Rightarrow> if cf_done f then Inr f else cf_set (Inl e) f)"

text \<open>The end of the \<open>with\<close> block: \<open>stop\<close> is called through the portal unless it is not running.\<close>

definition portal_cm_exit :: "nat \<Rightarrow> exn option \<Rightarrow> 'v portal \<Rightarrow> 'v portal" where
  "portal_cm_exit th exc p =
     (case portal_check th p of Inl _ \<Rightarrow> p | Inr _ \<Rightarrow> portal_stop (exc \<noteq> None) p)"

section \<open>BlockingPortalProvider\<close>

text \<open>
  \<open>_portal_cm\<close> is set or not; \<open>_portal\<close> is an attribute that may be missing. \<open>pv_started\<close> lists the
  portals that run.
\<close>

record provider =
  pv_cm :: bool
  pv_portal :: "nat option"
  pv_leases :: nat
  pv_started :: "nat list"

definition provider_new :: provider where
  "provider_new = \<lparr>pv_cm = False, pv_portal = None, pv_leases = 0, pv_started = []\<rparr>"

text \<open>\<open>__enter__\<close>; \<open>start\<close> is what entering the new portal's context manager would give.\<close>

definition provider_enter :: "nat res \<Rightarrow> provider \<Rightarrow> provider \<times> nat res" where
  "provider_enter start v =
     (let lease = (\<lambda>v. (v\<lparr>pv_leases := pv_leases v + 1\<rparr>,
            case pv_portal v of None \<Rightarrow> Inl AttributeError | Some n \<Rightarrow> Inr n)) in
      if pv_cm v then lease v
      else case start of
        Inl e \<Rightarrow> (v\<lparr>pv_cm := True\<rparr>, Inl e)
      | Inr n \<Rightarrow> lease (v\<lparr>pv_cm := True, pv_portal := Some n, pv_started := pv_started v @ [n]\<rparr>))"

text \<open>\<open>__exit__\<close>; the portal is stopped after the lock is released.\<close>

definition provider_exit :: "provider \<Rightarrow> provider \<times> unit res" where
  "provider_exit v =
     (if \<not> pv_cm v \<or> pv_leases v = 0 then (v, Inl AssertionError)
      else if pv_leases v \<noteq> 1 then (v\<lparr>pv_leases := pv_leases v - 1\<rparr>, Inr ())
      else case pv_portal v of
        None \<Rightarrow> (v\<lparr>pv_leases := 0, pv_cm := False\<rparr>, Inl AttributeError)
      | Some n \<Rightarrow> (v\<lparr>pv_leases := 0, pv_cm := False, pv_portal := None, pv_started := removeAll n (pv_started v)\<rparr>, Inr ()))"

text \<open>A history: \<open>Some start\<close> is an \<open>__enter__\<close>, \<open>None\<close> an \<open>__exit__\<close>.\<close>

fun provider_run :: "nat res option list \<Rightarrow> provider \<Rightarrow> provider" where
  "provider_run [] v = v"
| "provider_run (None # hs) v = provider_run hs (fst (provider_exit v))"
| "provider_run (Some start # hs) v = provider_run hs (fst (provider_enter start v))"

definition provider_ok :: "provider \<Rightarrow> bool" where
  "provider_ok v \<longleftrightarrow>
     (if pv_leases v = 0 then \<not> pv_cm v \<and> pv_portal v = None \<and> pv_started v = []
      else pv_cm v \<and> (\<exists>n. pv_portal v = Some n \<and> pv_started v = [n]))"

lemma provider_ok_cases:
  assumes "provider_ok v"
  obtains "v = provider_new" | n k where "v = \<lparr>pv_cm = True, pv_portal = Some n, pv_leases = Suc k, pv_started = [n]\<rparr>"
  using assms by (cases v; cases "pv_leases v") (auto simp: provider_ok_def provider_new_def)

lemma provider_ok_exit: "provider_ok v \<Longrightarrow> provider_ok (fst (provider_exit v))"
  by (erule provider_ok_cases) (simp_all add: provider_ok_def provider_exit_def provider_new_def)

lemma provider_ok_enter: "provider_ok v \<Longrightarrow> provider_ok (fst (provider_enter (Inr n) v))"
  by (erule provider_ok_cases) (simp_all add: provider_ok_def provider_enter_def provider_new_def)

lemma provider_ok_run:
  assumes "provider_ok v" "\<forall>e. Some (Inl e) \<notin> set hs"
  shows "provider_ok (provider_run hs v)"
  using assms
proof (induction hs v rule: provider_run.induct)
  case (2 hs v)
  then show ?case using provider_ok_exit by simp
next
  case (3 start hs v)
  from 3(3) obtain n where "start = Inr n" by (cases start) auto
  then show ?case using 3 provider_ok_enter by simp
qed simp

text \<open>
  As long as no portal fails to start, exactly one portal runs while anybody holds a lease and none
  otherwise: entering gives the portal that runs already, or starts the only one.
\<close>
theorem provider_one_portal:
  assumes "\<forall>e. Some (Inl e) \<notin> set hs" "v = provider_run hs provider_new"
  shows "(pv_leases v = 0 \<longrightarrow> pv_started v = []) \<and> (pv_leases v \<noteq> 0 \<longrightarrow> (\<exists>n. pv_started v = [n]))
    \<and> (\<exists>m. provider_enter (Inr n) v = (v\<lparr>pv_leases := pv_leases v + 1, pv_cm := True, pv_portal := Some m, pv_started := [m]\<rparr>, Inr m)
         \<and> (pv_started v = [] \<longrightarrow> m = n) \<and> (pv_started v \<noteq> [] \<longrightarrow> pv_started v = [m]))"
proof -
  have "provider_ok provider_new" by (simp add: provider_ok_def provider_new_def)
  from provider_ok_run [OF this assms(1)] have ok: "provider_ok v" by (simp only: assms(2))
  show ?thesis
  proof (cases "pv_leases v = 0")
    case True
    then show ?thesis using ok by (simp add: provider_ok_def provider_enter_def Let_def)
  next
    case False
    then obtain m where m: "pv_cm v" "pv_portal v = Some m" "pv_started v = [m]" using ok by (auto simp: provider_ok_def)
    then have "v\<lparr>pv_cm := True, pv_portal := Some m, pv_started := [m]\<rparr> = v" by simp
    then have "provider_enter (Inr n) v = (v\<lparr>pv_leases := pv_leases v + 1, pv_cm := True, pv_portal := Some m, pv_started := [m]\<rparr>, Inr m)"
      using m by (simp add: provider_enter_def)
    then show ?thesis using m False by simp
  qed
qed

lemma provider_one_portal_witness:
  "pv_started (provider_run [Some (Inr 4), Some (Inr 5), None] provider_new) = [4] \<and>
   (\<exists>n. pv_started (provider_run [Some (Inr 4), Some (Inr 5), None] provider_new) = [n])"
  using provider_one_portal [of "[Some (Inr 4), Some (Inr 5), None]", OF _ refl]
  by (simp add: provider_new_def provider_enter_def provider_exit_def)

text \<open>
  A portal that fails to start spoils the provider: the context manager stays behind without a
  portal, so the next \<open>__enter__\<close> starts none but raises \<open>AttributeError\<close>, with a lease counted.
\<close>
lemma provider_failed_start:
  "provider_enter start (fst (provider_enter (Inl e) provider_new))
     = (\<lparr>pv_cm = True, pv_portal = None, pv_leases = 1, pv_started = []\<rparr>, Inl AttributeError)"
  by (simp add: provider_enter_def provider_new_def)

end
