(* ===== verification/Subprocesses.thy ===== *)
theory Subprocesses
  imports Buffered
begin

text \<open>
  Subprocesses: \<open>StreamReaderWrapper\<close>, \<open>StreamWriterWrapper\<close>, \<open>Process\<close> and the shutdown of the
  process pool of \<open>src/anyio/_backends/_asyncio.py\<close>, and \<open>run_process\<close> of
  \<open>src/anyio/_core/_subprocesses.py\<close>. Of asyncio's \<open>StreamReader\<close> the model keeps the buffer, the
  exception that was set, and the chunks that are still to come.
\<close>

section \<open>The pipes\<close>

record sreader =
  sr_buffer :: bytes
  sr_incoming :: "bytes list"
  sr_exc :: "exn option"

text \<open>What a read on an empty buffer waits for: the next data, or the end.\<close>

fun sreader_wait :: "bytes \<Rightarrow> bytes list \<Rightarrow> bytes \<times> bytes list" where
  "sreader_wait (b # bs) cs = (b # bs, cs)"
| "sreader_wait [] [] = ([], [])"
| "sreader_wait [] (c # cs) = sreader_wait c cs"

definition sreader_read :: "int \<Rightarrow> sreader \<Rightarrow> sreader \<times> bytes res" where
  "sreader_read n s =
     (case sr_exc s of
        Some e \<Rightarrow> (s, Inl e)
      | None \<Rightarrow>
          if n = 0 then (s, Inr [])
          else if n < 0 then (s\<lparr>sr_buffer := [], sr_incoming := []\<rparr>, Inr (sr_buffer s @ concat (sr_incoming s)))
          else case sreader_wait (sr_buffer s) (sr_incoming s) of
            (b, cs) \<Rightarrow> (s\<lparr>sr_buffer := drop (nat n) b, sr_incoming := cs\<rparr>, Inr (take (nat n) b)))"

definition reader_receive :: "int \<Rightarrow> sreader \<Rightarrow> sreader \<times> bytes res" where
  "reader_receive max_bytes s =
     (case sreader_read max_bytes s of
        (s', Inl e) \<Rightarrow> (s', Inl e)
      | (s', Inr data) \<Rightarrow> (s', if data \<noteq> [] then Inr data else Inl EndOfStream))"

definition reader_aclose :: "sreader \<Rightarrow> sreader" where
  "reader_aclose s = s\<lparr>sr_exc := Some ClosedResourceError\<rparr>"

lemma sreader_wait_spec:
  "sreader_wait b cs = (b', cs') \<Longrightarrow> b' @ concat cs' = b @ concat cs \<and> (b' = [] \<longrightarrow> cs' = [])"
  by (induction b cs rule: sreader_wait.induct) auto

definition reader_ok :: "sreader \<Rightarrow> bool" where "reader_ok s \<longleftrightarrow> sr_exc s = None"
definition reader_rest :: "sreader \<Rightarrow> bytes" where "reader_rest s = sr_buffer s @ concat (sr_incoming s)"
definition reader_source :: "nat \<Rightarrow> sreader \<Rightarrow> sreader \<times> bytes res" where
  "reader_source n s = reader_receive (int n) s"

text \<open>The standard output of a process is a source of bytes, and so is a buffered stream over it.\<close>

interpretation reader: byte_source reader_ok reader_rest reader_source
proof
  fix s :: sreader and n :: nat
  assume ok: "reader_ok s" and n: "0 < n"
  obtain b cs where w: "sreader_wait (sr_buffer s) (sr_incoming s) = (b, cs)" by fastforce
  note sp = sreader_wait_spec [OF w]
  have r: "sreader_read (int n) s = (s\<lparr>sr_buffer := drop n b, sr_incoming := cs\<rparr>, Inr (take n b))"
    using ok n w by (simp add: sreader_read_def reader_ok_def)
  have rest: "reader_rest s = b @ concat cs" using sp by (simp add: reader_rest_def)
  show "\<exists>s' c. reader_source n s = (s', Inr c) \<and> reader_ok s' \<and> c \<noteq> [] \<and> length c \<le> n
      \<and> reader_rest s = c @ reader_rest s'" if ne: "reader_rest s \<noteq> []"
  proof -
    have "b \<noteq> []" using ne rest sp by auto
    then have "reader_source n s = (s\<lparr>sr_buffer := drop n b, sr_incoming := cs\<rparr>, Inr (take n b))"
      using n by (simp add: reader_source_def reader_receive_def r)
    moreover have "take n b @ drop n b @ concat cs = b @ concat cs" by (metis append.assoc append_take_drop_id)
    ultimately show ?thesis using \<open>b \<noteq> []\<close> n ok rest by (simp add: reader_ok_def reader_rest_def)
  qed
  show "\<exists>s'. reader_source n s = (s', Inl EndOfStream) \<and> reader_ok s' \<and> reader_rest s' = []" if e: "reader_rest s = []"
  proof -
    have "b @ concat cs = []" using e rest by simp
    then have b: "b = []" by simp
    then have "cs = []" using sp by blast
    then show ?thesis using b ok by (simp add: reader_source_def reader_receive_def r reader_ok_def reader_rest_def)
  qed
qed

interpretation readerbuf: buffered_stream reader_ok reader_rest reader_source
  by unfold_locales

section \<open>Process.aclose\<close>

record proc =
  pr_stdin :: bool
  pr_stdout :: bool
  pr_stderr :: bool
  pr_closed :: "nat list"
  pr_shield :: bool
  pr_killed :: bool
  pr_returncode :: "int option"

datatype pa_pc = PaPipe nat | PaWait | PaReap exn

definition process_lookup_error :: exn where
  "process_lookup_error = OSError 3"

text \<open>Closing the pipes that are there, in order; the next await is the checkpoint of each.\<close>

definition paclose_wait :: "proc \<Rightarrow> proc \<times> (pa_pc, unit) outcome" where
  "paclose_wait p = (p\<lparr>pr_shield := False\<rparr>, Suspended PaWait)"

definition paclose_stderr :: "proc \<Rightarrow> proc \<times> (pa_pc, unit) outcome" where
  "paclose_stderr p =
     (if pr_stderr p then (p\<lparr>pr_closed := pr_closed p @ [2]\<rparr>, Suspended (PaPipe 2)) else paclose_wait p)"

definition paclose_stdout :: "proc \<Rightarrow> proc \<times> (pa_pc, unit) outcome" where
  "paclose_stdout p =
     (if pr_stdout p then (p\<lparr>pr_closed := pr_closed p @ [1]\<rparr>, Suspended (PaPipe 1)) else paclose_stderr p)"

definition paclose_start :: "proc \<Rightarrow> proc \<times> (pa_pc, unit) outcome" where
  "paclose_start p =
     (let p1 = p\<lparr>pr_shield := True\<rparr> in
      if pr_stdin p then (p1\<lparr>pr_closed := pr_closed p @ [0]\<rparr>, Suspended (PaPipe 0)) else paclose_stdout p1)"

text \<open>
  \<open>kill\<close> is what the transport's \<open>kill()\<close> gives: an error if the process is gone already.
\<close>

fun paclose_resume :: "unit res \<Rightarrow> pa_pc \<Rightarrow> unit awaited \<Rightarrow> proc \<Rightarrow> proc \<times> (pa_pc, unit) outcome" where
  "paclose_resume kill (PaPipe i) (Thrown e) p = (p, Raised e)"
| "paclose_resume kill (PaPipe i) (Resumed _) p =
     (if i = 0 then paclose_stdout p else if i = 1 then paclose_stderr p else paclose_wait p)"
| "paclose_resume kill PaWait (Resumed _) p = (p, Done ())"
| "paclose_resume kill PaWait (Thrown e) p =
     (let p1 = p\<lparr>pr_shield := True\<rparr> in
      case kill of Inl e' \<Rightarrow> (p1, Raised e') | Inr _ \<Rightarrow> (p1\<lparr>pr_killed := True\<rparr>, Suspended (PaReap e)))"
| "paclose_resume kill (PaReap e) (Resumed _) p = (p, Raised e)"
| "paclose_resume kill (PaReap e) (Thrown e') p = (p, Raised e')"

text \<open>
  The process may end at any time (\<open>PaExit\<close>); \<open>wait()\<close> returns only then.
\<close>

datatype pa_event = PaExit int | PaStep "unit awaited" "unit res"

fun paclose_run :: "pa_event list \<Rightarrow> proc \<times> (pa_pc, unit) outcome \<Rightarrow> (proc \<times> (pa_pc, unit) outcome) option" where
  "paclose_run [] x = Some x"
| "paclose_run (PaExit c # evs) (p, out) =
     (if pr_returncode p \<noteq> None then None else paclose_run evs (p\<lparr>pr_returncode := Some c\<rparr>, out))"
| "paclose_run (PaStep r kill # evs) (p, Suspended pc) =
     (if r = Resumed () \<and> (pc = PaWait \<or> (\<exists>e. pc = PaReap e)) \<and> pr_returncode p = None then None
      else paclose_run evs (paclose_resume kill pc r p))"
| "paclose_run (PaStep r kill # evs) (p, out) = None"

definition pipes :: "proc \<Rightarrow> nat list" where
  "pipes p = (if pr_stdin p then [0] else []) @ (if pr_stdout p then [1] else []) @ (if pr_stderr p then [2] else [])"

text \<open>How far the closing has come, and what an outcome tells.\<close>

fun paclose_ok :: "proc \<times> (pa_pc, unit) outcome \<Rightarrow> bool" where
  "paclose_ok (p, Suspended (PaPipe i)) \<longleftrightarrow> pr_shield p \<and> i \<in> {0, 1, 2} \<and> pr_closed p = filter (\<lambda>j. j \<le> i) (pipes p)"
| "paclose_ok (p, Suspended PaWait) \<longleftrightarrow> \<not> pr_shield p \<and> pr_closed p = pipes p"
| "paclose_ok (p, Suspended (PaReap e)) \<longleftrightarrow> pr_shield p \<and> pr_killed p \<and> pr_closed p = pipes p"
| "paclose_ok (p, Done _) \<longleftrightarrow> pr_returncode p \<noteq> None \<and> pr_closed p = pipes p"
| "paclose_ok (p, Raised e) \<longleftrightarrow> True"

lemma pipes_update [simp]:
  "pipes (p\<lparr>pr_closed := c\<rparr>) = pipes p" "pipes (p\<lparr>pr_shield := b\<rparr>) = pipes p" "pipes (p\<lparr>pr_killed := k\<rparr>) = pipes p"
  "pipes (p\<lparr>pr_returncode := rc\<rparr>) = pipes p"
  by (simp_all add: pipes_def)

lemma paclose_ok_exit: "paclose_ok (p, out) \<Longrightarrow> paclose_ok (p\<lparr>pr_returncode := Some c\<rparr>, out)"
  by (cases "(p, out)" rule: paclose_ok.cases) auto

lemma paclose_ok_resume:
  assumes "paclose_ok (p, Suspended pc)" "r = Resumed () \<longrightarrow> pc = PaWait \<or> (\<exists>e. pc = PaReap e) \<longrightarrow> pr_returncode p \<noteq> None"
  shows "paclose_ok (paclose_resume kill pc r p)"
proof (cases pc)
  case (PaPipe i)
  show ?thesis
  proof (cases r)
    case (Resumed u)
    then show ?thesis using assms PaPipe
      by (auto simp: paclose_stdout_def paclose_stderr_def paclose_wait_def pipes_def)
  qed (use PaPipe in simp)
next
  case PaWait
  then show ?thesis using assms by (cases r; cases kill) (auto simp: Let_def)
next
  case (PaReap e)
  then show ?thesis by (cases r) simp_all
qed

lemma paclose_ok_run: "paclose_ok x \<Longrightarrow> paclose_run evs x = Some y \<Longrightarrow> paclose_ok y"
proof (induction evs x rule: paclose_run.induct)
  case (2 c evs p out)
  then show ?case using paclose_ok_exit by (auto split: if_splits)
next
  case (3 r kill evs p pc)
  then show ?case using paclose_ok_resume [of p pc r kill] by (auto split: if_splits)
qed auto

lemma paclose_ok_start: "pr_closed p = [] \<Longrightarrow> paclose_ok (paclose_start p)"
  by (auto simp: Let_def paclose_start_def paclose_stdout_def paclose_stderr_def paclose_wait_def pipes_def)

text \<open>
  C40: \<open>aclose\<close> leaves no process behind: it returns only when every pipe is closed and the process has
  ended. It is interruptible only while it waits for the process; interrupted there it kills the
  process and waits, shielded, until it is gone before it raises (where \<open>kill()\<close> succeeds).
\<close>
theorem process_aclose_reaps:
  assumes "pr_closed p = []" "paclose_run evs (paclose_start p) = Some (q, out)"
  shows "(out = Done () \<longrightarrow> pr_returncode q \<noteq> None \<and> pr_closed q = pipes q)
    \<and> (\<forall>pc. out = Suspended pc \<longrightarrow> pr_shield q = (pc \<noteq> PaWait))
    \<and> (out = Suspended PaWait \<longrightarrow>
         paclose_run [PaStep (Thrown e) (Inr ()), PaExit c, PaStep (Resumed ()) k] (q\<lparr>pr_returncode := None\<rparr>, out)
           = Some (q\<lparr>pr_returncode := Some c, pr_shield := True, pr_killed := True\<rparr>, Raised e))"
proof -
  have ok: "paclose_ok (q, out)" using paclose_ok_run [OF paclose_ok_start [OF assms(1)] assms(2)] .
  have "pr_shield q = (pc \<noteq> PaWait)" if "out = Suspended pc" for pc using ok that by (cases pc) auto
  then show ?thesis using ok by auto
qed

abbreviation running_proc :: proc where
  "running_proc \<equiv> \<lparr>pr_stdin = True, pr_stdout = True, pr_stderr = False, pr_closed = [], pr_shield = False,
     pr_killed = False, pr_returncode = None\<rparr>"

lemma process_aclose_reaps_witness:
  "\<exists>q. paclose_run [PaStep (Resumed ()) (Inr ()), PaStep (Resumed ()) (Inr ()), PaExit 0, PaStep (Resumed ()) (Inr ())]
      (paclose_start running_proc) = Some (q, Done ()) \<and> pr_returncode q \<noteq> None \<and> pr_closed q = [0, 1]"
proof -
  obtain q where q: "paclose_run [PaStep (Resumed ()) (Inr ()), PaStep (Resumed ()) (Inr ()), PaExit 0, PaStep (Resumed ()) (Inr ())]
      (paclose_start running_proc) = Some (q, Done ())" "pr_closed q = [0, 1]"
    by (simp add: paclose_start_def paclose_stdout_def paclose_stderr_def paclose_wait_def)
  with process_aclose_reaps [OF _ q(1)] show ?thesis by auto
qed

section \<open>run_process\<close>

text \<open>\<open>drain_stream\<close>: \<open>async for\<close> receives until \<open>EndOfStream\<close>. \<open>None\<close> if the fuel runs out.\<close>

fun drain_stream :: "(nat \<Rightarrow> 's \<Rightarrow> 's \<times> 'b list res) \<Rightarrow> nat \<Rightarrow> 'b list \<Rightarrow> 's \<Rightarrow> 'b list res option" where
  "drain_stream recv 0 buffer s = None"
| "drain_stream recv (Suc k) buffer s =
     (case recv 65536 s of
        (s', Inr chunk) \<Rightarrow> drain_stream recv k (buffer @ chunk) s'
      | (s', Inl e) \<Rightarrow> Some (if e = EndOfStream then Inr buffer else Inl e))"

definition run_process_end :: "bool \<Rightarrow> int \<Rightarrow> bytes \<Rightarrow> bytes \<Rightarrow> (int \<times> bytes \<times> bytes) res" where
  "run_process_end check code output errors =
     (if check \<and> code \<noteq> 0 then Inl (CalledProcessError code) else Inr (code, output, errors))"

context byte_source
begin

lemma drain_stream_all: "ok s \<Longrightarrow> length (rest s) < k \<Longrightarrow> drain_stream recv k buffer s = Some (Inr (buffer @ rest s))"
proof (induction k arbitrary: s buffer)
  case (Suc k)
  show ?case
  proof (cases "rest s = []")
    case True
    from recv_end [OF Suc.prems(1) _ True, of 65536] True show ?thesis by auto
  next
    case False
    from recv_some [OF Suc.prems(1) _ False, of 65536] obtain s' c where
      r: "recv 65536 s = (s', Inr c)" "ok s'" "c \<noteq> []" "rest s = c @ rest s'" by auto
    then have "length (rest s') < k" using Suc.prems(2) by (cases c) auto
    from Suc.IH [OF r(2) this] r show ?thesis by simp
  qed
qed simp

end

text \<open>
  \<open>run_process\<close> collects everything: whatever chunks the process writes to its standard output and
  error, before it ends with \<open>code\<close>, the two tasks end and give the concatenation of the chunks,
  and \<open>run_process\<close> returns just these with the code, or raises \<open>CalledProcessError\<close> if it is to
  check the code and it is not 0.
\<close>
theorem run_process_collects:
  assumes "sr_exc out = None" "sr_exc err = None" "sr_buffer out = []" "sr_buffer err = []"
  shows "\<exists>o1 e1. drain_stream reader_source (Suc (length (concat (sr_incoming out)))) [] out = Some (Inr o1)
    \<and> drain_stream reader_source (Suc (length (concat (sr_incoming err)))) [] err = Some (Inr e1)
    \<and> run_process_end check code o1 e1 =
        (if check \<and> code \<noteq> 0 then Inl (CalledProcessError code)
         else Inr (code, concat (sr_incoming out), concat (sr_incoming err)))"
proof -
  have "drain_stream reader_source (Suc (length (concat (sr_incoming r)))) [] r = Some (Inr (concat (sr_incoming r)))"
    if "sr_exc r = None" "sr_buffer r = []" for r
    using that reader.drain_stream_all [of r "Suc (length (concat (sr_incoming r)))" "[]"]
    by (simp add: reader_ok_def reader_rest_def del: drain_stream.simps)
  from this [OF assms(1,3)] this [OF assms(2,4)] show ?thesis by (simp add: run_process_end_def del: drain_stream.simps)
qed

abbreviation a_pipe :: "bytes list \<Rightarrow> sreader" where
  "a_pipe cs \<equiv> \<lparr>sr_buffer = [], sr_incoming = cs, sr_exc = None\<rparr>"

lemma run_process_collects_witness:
  "\<exists>o1 e1. drain_stream reader_source (Suc (length (concat [[1, 2], [], [3 :: byte]]))) [] (a_pipe [[1, 2], [], [3]]) = Some (Inr o1)
    \<and> run_process_end True 0 o1 e1 = Inr (0, [1, 2, 3], [])"
proof -
  have "concat [[1, 2], [], [3 :: byte]] = [1, 2, 3]" by simp
  then show ?thesis
    using run_process_collects [of "a_pipe [[1, 2], [], [3]]" "a_pipe []" True 0]
    by (auto simp del: drain_stream.simps)
qed

section \<open>Shutting the process pool down\<close>

text \<open>
  The task that waits for the loop's end: the kills, in some order of the set, then \<open>aclose\<close> of
  each. \<open>alive\<close>: \<open>returncode is None\<close>.
\<close>

definition shutdown_kills :: "(nat \<Rightarrow> bool) \<Rightarrow> nat list \<Rightarrow> nat list" where
  "shutdown_kills alive workers = filter alive workers"

definition forcible_kills :: "(nat \<Rightarrow> bool) \<Rightarrow> nat list \<Rightarrow> nat list" where
  "forcible_kills alive workers = filter (\<lambda>w. \<not> alive w) workers"

text \<open>The callback of the root task skips the processes that still run.\<close>
lemma forcible_kills_none_alive: "alive w \<Longrightarrow> w \<notin> set (forcible_kills alive workers)"
  by (simp add: forcible_kills_def)

end
