(* ===== verification/ProcessPool.thy ===== *)
theory ProcessPool
  imports Subprocesses WorkerThreads
begin

text \<open>
  Worker processes: \<open>src/anyio/to_process.py\<close>. First the protocol on the pipes, on both sides, over
  any source of bytes; then the pool of processes. \<open>pickle\<close> is the argument \<open>dumps\<close>, \<open>loads\<close> of
  the definitions: \<open>dumps\<close> may fail (not every object can be pickled), and a theorem about both
  sides assumes that \<open>loads\<close> undoes \<open>dumps\<close>.
\<close>

section \<open>Text and numbers in bytes\<close>

definition ascii :: "string \<Rightarrow> bytes" where
  "ascii s = map of_char s"

definition chars :: "bytes \<Rightarrow> string" where
  "chars b = map (\<lambda>x. char_of (unat x)) b"

lemma chars_ascii [simp]: "chars (ascii s) = s"
proof -
  have "char_of (unat (of_char c :: byte)) = c" for c
  proof -
    have "of_char c < (256 :: nat)" by simp
    then have "unat (of_char c :: byte) = of_char c"
      using unat_of_nat [where 'a = 8, of "of_char c"] by (simp add: of_nat_of_char)
    then show ?thesis by simp
  qed
  then show ?thesis by (simp add: chars_def ascii_def comp_def)
qed

lemma ascii_append [simp]: "ascii (s @ t) = ascii s @ ascii t"
  by (simp add: ascii_def)

lemma length_ascii [simp]: "length (ascii s) = length s"
  by (simp add: ascii_def)

lemma inj_ascii: "ascii s = ascii t \<longleftrightarrow> s = t"
  by (metis chars_ascii)

text \<open>\<open>int(length)\<close> of a byte string: blanks around it, a sign, and single underscores inside are allowed.\<close>

definition is_blank :: "char \<Rightarrow> bool" where
  "is_blank c \<longleftrightarrow> of_char c \<in> {9, 10, 11, 12, 13, 32 :: nat}"

definition strip_blanks :: "string \<Rightarrow> string" where
  "strip_blanks s = rev (dropWhile is_blank (rev (dropWhile is_blank s)))"

fun underscores_ok :: "bool \<Rightarrow> string \<Rightarrow> bool" where
  "underscores_ok after_digit [] = after_digit"
| "underscores_ok after_digit (c # cs) =
     (if c = CHR ''_'' then after_digit \<and> underscores_ok False cs else underscores_ok True cs)"

definition parse_unsigned :: "string \<Rightarrow> nat option" where
  "parse_unsigned s = (if underscores_ok False s then parse_nat (filter (\<lambda>c. c \<noteq> CHR ''_'') s) else None)"

definition py_int :: "string \<Rightarrow> int res" where
  "py_int s =
     (let t = strip_blanks s;
          r = (case t of
                 [] \<Rightarrow> None
               | c # u \<Rightarrow>
                   if c = CHR ''-'' then map_option (\<lambda>n. - int n) (parse_unsigned u)
                   else if c = CHR ''+'' then map_option int (parse_unsigned u)
                   else map_option int (parse_unsigned t))
      in case r of None \<Rightarrow> Inl (ValueError ''invalid literal for int() with base 10'') | Some i \<Rightarrow> Inr i)"

lemma dec_nat_chars: "c \<in> set (dec_nat n) \<Longrightarrow> \<not> is_blank c \<and> c \<noteq> CHR ''_'' \<and> c \<noteq> CHR ''-'' \<and> c \<noteq> CHR ''+''"
  using dec_nat_digits [of c n] by (auto simp: is_digit_def is_blank_def)

lemma dropWhile_none: "(\<And>c. c \<in> set s \<Longrightarrow> \<not> P c) \<Longrightarrow> dropWhile P s = s"
  by (cases s) auto

lemma underscores_none: "(\<And>c. c \<in> set s \<Longrightarrow> c \<noteq> CHR ''_'') \<Longrightarrow> s \<noteq> [] \<or> b \<Longrightarrow> underscores_ok b s"
  by (induction s arbitrary: b) auto

lemma py_int_dec_nat: "py_int (dec_nat n) = Inr (int n)"
proof -
  note ch = dec_nat_chars [of _ n]
  have s: "strip_blanks (dec_nat n) = dec_nat n"
    using ch dropWhile_none [of "dec_nat n" is_blank] dropWhile_none [of "rev (dec_nat n)" is_blank]
    by (simp add: strip_blanks_def)
  have f: "filter (\<lambda>c. c \<noteq> CHR ''_'') (dec_nat n) = dec_nat n" using ch by (simp add: filter_id_conv)
  have u: "underscores_ok False (dec_nat n)" using ch by (intro underscores_none) auto
  obtain c cs where d: "dec_nat n = c # cs" by (cases "dec_nat n") simp_all
  have "c \<noteq> CHR ''-''" "c \<noteq> CHR ''+''" using ch [of c] by (simp_all add: d)
  moreover have "parse_unsigned (c # cs) = Some n" using f u by (simp add: parse_unsigned_def flip: d)
  ultimately show ?thesis unfolding py_int_def s by (simp add: d Let_def)
qed

lemma dec_nat_length: "n < 10 ^ Suc k \<Longrightarrow> length (dec_nat n) \<le> Suc k"
proof (induction k arbitrary: n)
  case 0
  then show ?case by (simp add: dec_nat.simps [of n])
next
  case (Suc k)
  show ?case
  proof (cases "n < 10")
    case False
    have "n div 10 < 10 ^ Suc k" using Suc.prems by (simp add: less_mult_imp_div_less mult.commute)
    from Suc.IH [OF this] False show ?thesis by (simp add: dec_nat.simps [of n])
  qed (simp add: dec_nat.simps [of n])
qed

section \<open>The protocol\<close>

text \<open>\<open>response.split(b" ")\<close>\<close>

fun split_spaces :: "string \<Rightarrow> string list" where
  "split_spaces [] = [[]]"
| "split_spaces (c # cs) =
     (if c = CHR '' '' then [] # split_spaces cs
      else case split_spaces cs of [] \<Rightarrow> [[c]] | w # ws \<Rightarrow> (c # w) # ws)"

datatype status = StReturn | StException

definition unexpected_response :: exn where
  "unexpected_response = RuntimeError ''Worker process returned unexpected response''"

text \<open>The status line: two words, a status that is known, a number.\<close>

definition parse_response :: "bytes \<Rightarrow> (status \<times> int) res" where
  "parse_response response =
     (case split_spaces (chars response) of
        [st, n] \<Rightarrow>
          if st = ''RETURN'' then map_sum id (Pair StReturn) (py_int n)
          else if st = ''EXCEPTION'' then map_sum id (Pair StException) (py_int n)
          else Inl unexpected_response
      | _ \<Rightarrow> Inl (ValueError ''wrong number of values to unpack''))"

text \<open>
  What \<open>send_raw_command\<close> reads after it has sent the command; \<open>None\<close> if the fuel, the number of
  requests to the pipe, runs out.
\<close>

definition newline :: bytes where "newline = [10]"

definition read_response ::
  "(nat \<Rightarrow> 's \<Rightarrow> 's \<times> bytes res) \<Rightarrow> nat \<Rightarrow> byte bstate \<Rightarrow> 's \<Rightarrow> (byte bstate \<times> 's \<times> (status \<times> bytes) res) option" where
  "read_response recv k st s =
     Option.bind (buf_run (ask recv) k (receive_until_start newline 50 st) s) (\<lambda>(st1, s1, r).
       case r of
         Inl e \<Rightarrow> Some (st1, s1, Inl e)
       | Inr response \<Rightarrow>
           (case parse_response response of
              Inl e \<Rightarrow> Some (st1, s1, Inl e)
            | Inr (status, n) \<Rightarrow>
                Option.bind (buf_run (ask recv) k (receive_exactly_step n st1) s1) (\<lambda>(st2, s2, r2).
                  Some (st2, s2, map_sum id (Pair status) r2))))"

text \<open>What the worker writes: \<open>b"%s %d\n" % (status, len(pickled))\<close> and the bytes.\<close>

fun status_word :: "status \<Rightarrow> string" where
  "status_word StReturn = ''RETURN''"
| "status_word StException = ''EXCEPTION''"

definition response_line :: "status \<Rightarrow> nat \<Rightarrow> bytes" where
  "response_line st n = ascii (status_word st @ '' '' @ dec_nat n)"

definition response_bytes :: "status \<Rightarrow> bytes \<Rightarrow> bytes" where
  "response_bytes st pickled = response_line st (length pickled) @ newline @ pickled"

lemma split_spaces_none: "CHR '' '' \<notin> set s \<Longrightarrow> split_spaces s = [s]"
  by (induction s) (auto split: list.splits)

lemma split_spaces_append: "CHR '' '' \<notin> set s \<Longrightarrow> split_spaces (s @ CHR '' '' # t) = s # split_spaces t"
  by (induction s) (auto split: list.splits)

lemma dec_nat_no_space: "CHR '' '' \<notin> set (dec_nat n)"
  using dec_nat_digits [of "CHR '' ''" n] by (auto simp: is_digit_def)

lemma parse_response_line: "parse_response (response_line st n) = Inr (st, int n)"
proof -
  have "split_spaces (status_word st @ '' '' @ dec_nat n) = [status_word st, dec_nat n]"
    using split_spaces_append [of "status_word st" "dec_nat n"] split_spaces_none [OF dec_nat_no_space]
    by (cases st) simp_all
  then show ?thesis by (cases st) (simp_all add: parse_response_def response_line_def py_int_dec_nat del: ascii_append)
qed

lemma newline_found: "10 \<notin> set line \<Longrightarrow> py_find (line @ newline @ xs) newline 0 = Some (length line)"
  by (auto simp: py_find_Some occurs_at_def newline_def take_Suc_conv_app_nth nth_append)
    (metis hd_drop_conv_nth length_append less_imp_le_nat list.sel(1) nth_mem take_Suc take_eq_Nil trans_less_add1)

lemma response_line_newline: "10 \<notin> set (response_line st n)"
proof
  assume "10 \<in> set (response_line st n)"
  then have "char_of (unat (10 :: byte)) \<in> set (chars (response_line st n))" unfolding chars_def by force
  moreover have "char_of (unat (10 :: byte)) = CHR 0x0A" by (simp add: char_of_eq_iff)
  ultimately have "CHR 0x0A \<in> set (status_word st @ '' '' @ dec_nat n)" by (simp add: response_line_def del: ascii_append)
  then have "CHR 0x0A \<in> set (dec_nat n)" by (cases st) auto
  then show False using dec_nat_digits [of "CHR 0x0A" n] by (simp add: is_digit_def)
qed

lemma response_line_short: "n < 10 ^ 39 \<Longrightarrow> length (response_line st n) < 50"
  using dec_nat_length [of n 38] by (cases st) (simp_all add: response_line_def)

lemma prefix_hit:
  assumes "xs @ ys = line @ newline @ zs" "length line < length xs"
  shows "\<not> no_hit newline xs"
proof -
  have "xs ! length line = 10"
  proof -
    have "(xs @ ys) ! length line = 10" unfolding assms(1) by (simp add: newline_def nth_append)
    then show ?thesis using assms(2) by (simp add: nth_append)
  qed
  then have "occurs_at newline xs (length line)"
    using assms(2) by (simp add: occurs_at_def newline_def take_Suc_conv_app_nth hd_drop_conv_nth take_Suc)
  then show ?thesis by (auto simp: no_hit_iff)
qed

text \<open>
  The two sides agree: whatever response a worker writes, and however the pipe cuts it into
  chunks, \<open>send_raw_command\<close> reads back its status and the very bytes of the pickled object, and
  leaves what follows unread.
\<close>
theorem response_roundtrip:
  assumes src: "byte_source ok rest recv" "ok s"
    and u: "bs_buffer st @ rest s = response_bytes status pickled @ later"
    and n: "length pickled < 10 ^ 39" and k: "length (bs_buffer st @ rest s) < k"
  shows "\<exists>st' s'. read_response recv k st s = Some (st', s', Inr (status, pickled)) \<and> ok s'
    \<and> bs_buffer st' @ rest s' = later"
proof -
  define line where "line = response_line status (length pickled)"
  have u': "bs_buffer st @ rest s = line @ newline @ (pickled @ later)"
    using u by (simp add: response_bytes_def line_def)
  have short: "length line < 50" using response_line_short [OF n] by (simp add: line_def)
  have found: "py_find (bs_buffer st @ rest s) newline 0 = Some (length line)"
    unfolding u' by (rule newline_found) (simp add: line_def response_line_newline)
  have "length (rest s) < k" using k by simp
  from byte_source.until_run [OF src this, of st newline 0 50] obtain st1 s1 r where
    run1: "buf_run (ask recv) k (receive_until_start newline 50 st) s = Some (st1, s1, r)" and ok1: "ok s1"
    and post: "byte_source.until_post newline 50 (bs_buffer st @ rest s) st1 r (bs_buffer st1 @ rest s1)"
    unfolding receive_until_start_def by blast
  have r: "r = Inr line \<and> bs_buffer st1 @ rest s1 = pickled @ later"
  proof (cases r)
    case (Inr v)
    then show ?thesis using post found u' by (auto simp: byte_source.until_post_def [OF src(1)])
  next
    case (Inl e)
    then have "bs_buffer st1 @ rest s1 = line @ newline @ (pickled @ later)"
        "50 \<le> length (bs_buffer st1) \<and> no_hit newline (bs_buffer st1) \<or> no_hit newline (bs_buffer st @ rest s)"
      using post u' by (auto simp: byte_source.until_post_def [OF src(1)])
    then have False using prefix_hit [of "bs_buffer st1" "rest s1" line "pickled @ later"] short found
      by (auto simp: no_hit_def)
    then show ?thesis ..
  qed
  have "length (bs_buffer st1 @ rest s1) \<le> length (bs_buffer st @ rest s)" using r u' by simp
  then have "length (rest s1) < k" using k by simp
  from byte_source.exactly_run [OF src(1) ok1 this, of "length pickled" st1] r obtain st2 s2 where
    "buf_run (ask recv) k (receive_exactly_step (int (length pickled)) st1) s1 = Some (st2, s2, Inr pickled)"
    "bs_buffer st2 @ rest s2 = later" "ok s2"
    by auto
  then show ?thesis using run1 r by (simp add: read_response_def line_def parse_response_line)
qed

lemma response_roundtrip_witness:
  "\<exists>st' s'. read_response reader_source 20 (bstate_new True) (a_pipe [[82, 69], ascii ''TURN 2'', newline @ [7], [8, 9]])
     = Some (st', s', Inr (StReturn, [7, 8])) \<and> bs_buffer st' @ reader_rest s' = [9]"
proof -
  have two: "char_of (50 :: nat) = CHR ''2''" by (simp add: char_of_eq_iff)
  have line: "response_line StReturn 2 = [82, 69, 84, 85, 82, 78, 32, 50]"
    using two by (simp add: response_line_def ascii_def dec_nat.simps)
  then have "reader_rest (a_pipe [[82, 69], ascii ''TURN 2'', newline @ [7], [8, 9]]) = response_bytes StReturn [7, 8] @ [9]"
    by (simp add: reader_rest_def response_bytes_def ascii_def newline_def numeral_2_eq_2)
  moreover from line have "length (response_bytes StReturn [7, 8]) < 19"
    by (simp add: response_bytes_def newline_def numeral_2_eq_2)
  ultimately show ?thesis
    using response_roundtrip [OF reader.byte_source_axioms, of "a_pipe [[82, 69], ascii ''TURN 2'', newline @ [7], [8, 9]]" "bstate_new True" StReturn "[7, 8]" "[9]" 20]
    by (auto simp add: reader_ok_def bstate_new_def)
qed

section \<open>The worker\<close>






text \<open>
  When the conversation fails the process is killed (\<open>kill\<close> as for \<open>prune_kill\<close> below) and the error,
  unless it is a cancellation, becomes a \<open>BrokenWorkerProcess\<close>.
\<close>

definition command_failed :: "unit res \<Rightarrow> exn \<Rightarrow> exn" where
  "command_failed kill e =
     (let e' = (if is_cancelled e then e else BrokenWorkerProcess) in
      case kill of Inl k \<Rightarrow> if k = process_lookup_error then e' else k | Inr _ \<Rightarrow> e')"






section \<open>The pool\<close>

text \<open>
  \<open>pp_idle\<close> is the deque of processes with the time they went idle; \<open>pp_alive\<close>: \<open>returncode is
  None\<close>. \<open>kill\<close> is what the transport's \<open>kill()\<close> gives for a process.
\<close>

record ppool =
  pp_workers :: "nat list"
  pp_idle :: "(nat \<times> real) list"
  pp_alive :: "nat \<Rightarrow> bool"
  pp_next :: nat

definition worker_max_idle_time :: real where "worker_max_idle_time = 300"

text \<open>The loop that pops idle processes, here from the front of the reversed deque.\<close>

fun pop_idle :: "(nat \<Rightarrow> bool) \<Rightarrow> (nat \<times> real) list \<Rightarrow> nat list \<Rightarrow> (nat \<times> real) list \<times> nat list \<times> nat option res" where
  "pop_idle alive [] ws = ([], ws, Inr None)"
| "pop_idle alive ((w, t) # xs) ws =
     (if alive w then (xs, ws, Inr (Some w))
      else if w \<notin> set ws then (xs, ws, Inl KeyError)
      else pop_idle alive xs (removeAll w ws))"

text \<open>The loop that kills the processes that have been idle for too long, with the list of the killed.\<close>

fun prune_kill ::
  "(nat \<Rightarrow> unit res) \<Rightarrow> real \<Rightarrow> (nat \<times> real) list \<Rightarrow> nat list \<Rightarrow> (nat \<times> real) list \<times> nat list \<times> nat list \<times> exn option"
where
  "prune_kill kill time [] ws = ([], ws, [], None)"
| "prune_kill kill time ((w, t) # xs) ws =
     (if time - t < worker_max_idle_time then ((w, t) # xs, ws, [], None)
      else case kill w of
        Inl e \<Rightarrow> (xs, ws, [], Some e)
      | Inr _ \<Rightarrow>
          if w \<notin> set ws then (xs, ws, [], Some KeyError)
          else case prune_kill kill time xs (removeAll w ws) of (ys, ws', ks, r) \<Rightarrow> (ys, ws', w # ks, r))"

text \<open>Getting a process: its number, and whether it has to be started.\<close>

definition checkout :: "(nat \<Rightarrow> unit res) \<Rightarrow> real \<Rightarrow> ppool \<Rightarrow> ppool \<times> (nat \<times> bool) res" where
  "checkout kill time p =
     (case pop_idle (pp_alive p) (rev (pp_idle p)) (pp_workers p) of
        (xs, ws, Inl e) \<Rightarrow> (p\<lparr>pp_idle := rev xs, pp_workers := ws\<rparr>, Inl e)
      | (xs, ws, Inr None) \<Rightarrow>
          (p\<lparr>pp_idle := rev xs, pp_workers := ws, pp_next := Suc (pp_next p)\<rparr>, Inr (pp_next p, True))
      | (xs, ws, Inr (Some w)) \<Rightarrow>
          (case prune_kill kill time (rev xs) ws of
             (ys, ws', ks, r) \<Rightarrow>
               (p\<lparr>pp_idle := ys, pp_workers := ws'\<rparr>, case r of Some e \<Rightarrow> Inl e | None \<Rightarrow> Inr (w, False))))"

text \<open>
  The initialization of a new process: what \<open>receive(6)\<close> gives, what the init command comes to, and
  what \<open>process.kill()\<close> in the handler gives; an error of it, such as \<open>ProcessLookupError\<close> if the process
  has ended, goes out instead. The result says whether the handler kills the process, and how it ends.
\<close>

definition ready_message :: bytes where "ready_message = ascii ''READY'' @ newline"

definition init_worker :: "bytes res \<Rightarrow> unit res \<Rightarrow> unit res \<Rightarrow> bool \<times> unit res" where
  "init_worker received initialized kill =
     (case (case received of
              Inl e \<Rightarrow> Inl e
            | Inr message \<Rightarrow> if message \<noteq> ready_message then Inl BrokenWorkerProcess else initialized) of
        Inr _ \<Rightarrow> (False, Inr ())
      | Inl e \<Rightarrow>
          if e = BrokenWorkerProcess \<or> is_cancelled e then (False, Inl e)
          else (True, case kill of Inl e' \<Rightarrow> Inl e' | Inr _ \<Rightarrow> Inl BrokenWorkerProcess))"

definition pool_add :: "nat \<Rightarrow> ppool \<Rightarrow> ppool" where
  "pool_add w p = p\<lparr>pp_workers := set_add w (pp_workers p)\<rparr>"

text \<open>
  After the call: \<open>send_raw_command\<close> has taken the process out if the conversation failed; a process
  that is still a worker becomes idle.
\<close>

definition checkin :: "nat \<Rightarrow> bool \<Rightarrow> real \<Rightarrow> ppool \<Rightarrow> ppool" where
  "checkin w failed time p =
     (let p1 = (if failed then p\<lparr>pp_workers := removeAll w (pp_workers p)\<rparr> else p) in
      if w \<in> set (pp_workers p1) then p1\<lparr>pp_idle := pp_idle p1 @ [(w, time)]\<rparr> else p1)"

section \<open>Calls in any order\<close>

datatype pp_action =
    PpCheckout "nat \<Rightarrow> unit res" | PpReady nat | PpInitFailed nat | PpFinish nat bool | PpDie nat | PpTick real

record ppsys =
  ppp :: ppool
  pp_now :: real
  pp_starting :: "nat list"
  pp_busy :: "nat list"

fun pp_act :: "pp_action \<Rightarrow> ppsys \<Rightarrow> ppsys option" where
  "pp_act (PpCheckout kill) s =
     (case checkout kill (pp_now s) (ppp s) of
        (p, Inl _) \<Rightarrow> Some (s\<lparr>ppp := p\<rparr>)
      | (p, Inr (w, fresh)) \<Rightarrow>
          if fresh then Some (s\<lparr>ppp := p\<lparr>pp_alive := (pp_alive p)(w := True)\<rparr>, pp_starting := pp_starting s @ [w]\<rparr>)
          else Some (s\<lparr>ppp := p, pp_busy := pp_busy s @ [w]\<rparr>))"
| "pp_act (PpReady w) s =
     (if w \<in> set (pp_starting s)
      then Some (s\<lparr>ppp := pool_add w (ppp s), pp_starting := remove1 w (pp_starting s), pp_busy := pp_busy s @ [w]\<rparr>)
      else None)"
| "pp_act (PpInitFailed w) s =
     (if w \<in> set (pp_starting s) then Some (s\<lparr>pp_starting := remove1 w (pp_starting s)\<rparr>) else None)"
| "pp_act (PpFinish w failed) s =
     (if w \<in> set (pp_busy s)
      then Some (s\<lparr>ppp := checkin w failed (pp_now s) (ppp s), pp_busy := remove1 w (pp_busy s)\<rparr>) else None)"
| "pp_act (PpDie w) s = Some (s\<lparr>ppp := (ppp s)\<lparr>pp_alive := (pp_alive (ppp s))(w := False)\<rparr>\<rparr>)"
| "pp_act (PpTick d) s = (if d < 0 then None else Some (s\<lparr>pp_now := pp_now s + d\<rparr>))"

definition ppsys_new :: "real \<Rightarrow> ppsys" where
  "ppsys_new time = \<lparr>ppp = \<lparr>pp_workers = [], pp_idle = [], pp_alive = (\<lambda>_. False), pp_next = 0\<rparr>, pp_now = time,
     pp_starting = [], pp_busy = []\<rparr>"

inductive pp_reach :: "ppsys \<Rightarrow> bool" where
  init: "pp_reach (ppsys_new time)"
| step: "pp_reach s \<Longrightarrow> pp_act a s = Some s' \<Longrightarrow> pp_reach s'"

fun pp_run :: "pp_action list \<Rightarrow> ppsys \<Rightarrow> ppsys option" where
  "pp_run [] s = Some s"
| "pp_run (a # as) s = (case pp_act a s of None \<Rightarrow> None | Some s' \<Rightarrow> pp_run as s')"

lemma pp_run_reach: "pp_reach s \<Longrightarrow> pp_run as s = Some s' \<Longrightarrow> pp_reach s'"
  by (induction as arbitrary: s) (auto split: option.splits intro: pp_reach.step)

definition pp_held :: "ppsys \<Rightarrow> nat list" where
  "pp_held s = map fst (pp_idle (ppp s)) @ pp_busy s"

definition pp_inv :: "ppsys \<Rightarrow> bool" where
  "pp_inv s \<longleftrightarrow> distinct (pp_held s @ pp_starting s) \<and> set (pp_held s) \<subseteq> set (pp_workers (ppp s))
     \<and> (\<forall>w \<in> set (pp_starting s) \<union> set (pp_workers (ppp s)). w < pp_next (ppp s))
     \<and> set (pp_starting s) \<inter> set (pp_workers (ppp s)) = {}
     \<and> sorted (map snd (pp_idle (ppp s))) \<and> (\<forall>x \<in> set (pp_idle (ppp s)). snd x \<le> pp_now s)"

lemma pp_invI:
  assumes "distinct (map fst (pp_idle (ppp s)) @ pp_busy s @ pp_starting s)"
    "set (map fst (pp_idle (ppp s))) \<union> set (pp_busy s) \<subseteq> set (pp_workers (ppp s))"
    "\<And>w. w \<in> set (pp_starting s) \<or> w \<in> set (pp_workers (ppp s)) \<Longrightarrow> w < pp_next (ppp s)"
    "\<And>w. w \<in> set (pp_starting s) \<Longrightarrow> w \<notin> set (pp_workers (ppp s))"
    "sorted (map snd (pp_idle (ppp s)))" "\<And>x. x \<in> set (pp_idle (ppp s)) \<Longrightarrow> snd x \<le> pp_now s"
  shows "pp_inv s"
  using assms by (auto simp: pp_inv_def pp_held_def)

lemma pp_invD:
  assumes "pp_inv s"
  shows "distinct (map fst (pp_idle (ppp s)) @ pp_busy s @ pp_starting s)"
    "set (map fst (pp_idle (ppp s))) \<union> set (pp_busy s) \<subseteq> set (pp_workers (ppp s))"
    "w \<in> set (pp_starting s) \<or> w \<in> set (pp_workers (ppp s)) \<Longrightarrow> w < pp_next (ppp s)"
    "w \<in> set (pp_starting s) \<Longrightarrow> w \<notin> set (pp_workers (ppp s))"
    "sorted (map snd (pp_idle (ppp s)))" "x \<in> set (pp_idle (ppp s)) \<Longrightarrow> snd x \<le> pp_now s"
  using assms by (auto simp: pp_inv_def pp_held_def)

text \<open>What the two loops leave.\<close>

lemma pop_idle_spec:
  assumes "distinct (map fst xs)" "set (map fst xs) \<subseteq> set ws" "pop_idle alive xs ws = (ys, ws', r)"
  shows "\<exists>dead. (\<forall>x \<in> set dead. \<not> alive (fst x)) \<and> set ws' = set ws - set (map fst dead) \<and>
    (r = Inr None \<and> xs = dead \<and> ys = [] \<or> (\<exists>w t. r = Inr (Some w) \<and> alive w \<and> xs = dead @ (w, t) # ys))"
  using assms
proof (induction alive xs ws arbitrary: ys ws' r rule: pop_idle.induct)
  case (2 alive w t xs ws)
  show ?case
  proof (cases "alive w")
    case True
    then show ?thesis using 2(4) by (intro exI [of _ "[]"]) auto
  next
    case False
    have "w \<in> set ws" "set (map fst xs) \<subseteq> set (removeAll w ws)" using 2(2,3) by auto
    then obtain dead where d: "\<forall>x \<in> set dead. \<not> alive (fst x)" "set ws' = set (removeAll w ws) - set (map fst dead)"
      "r = Inr None \<and> xs = dead \<and> ys = [] \<or> (\<exists>w t. r = Inr (Some w) \<and> alive w \<and> xs = dead @ (w, t) # ys)"
      using 2(1) [OF False _ _ _, of ys ws' r] 2(2,4) False by auto
    have "set ws' = set ws - set (map fst ((w, t) # dead))" using d(2) by auto
    then show ?thesis using d(1,3) False by (intro exI [of _ "(w, t) # dead"]) auto
  qed
qed simp

lemma prune_kill_spec:
  assumes "distinct (map fst xs)" "set (map fst xs) \<subseteq> set ws" "prune_kill kill time xs ws = (ys, ws', ks, r)"
  shows "(\<exists>pre. xs = pre @ ys \<and> set ws' \<subseteq> set ws \<and> set ws - set (map fst pre) \<subseteq> set ws')
    \<and> (r = None \<or> (\<exists>w e. kill w = Inl e \<and> r = Some e))"
  using assms
proof (induction kill time xs ws arbitrary: ys ws' ks r rule: prune_kill.induct)
  case (2 kill time w t xs ws)
  show ?case
  proof (cases "time - t < worker_max_idle_time")
    case True
    then show ?thesis using 2(4) by auto
  next
    case old: False
    show ?thesis
    proof (cases "kill w")
      case (Inl e)
      then have "ys = xs" "ws' = ws" "r = Some e" using 2(4) old by auto
      then show ?thesis using Inl by (intro conjI exI [of _ "[(w, t)]"]) auto
    next
      case (Inr u)
      have w: "w \<in> set ws" using 2(3) by simp
      obtain ks' where pk: "prune_kill kill time xs (removeAll w ws) = (ys, ws', ks', r)"
        using 2(4) old Inr w by (auto split: prod.splits)
      have "distinct (map fst xs)" "set (map fst xs) \<subseteq> set (removeAll w ws)" using 2(2,3) by auto
      from 2(1) [OF old Inr _ this pk] w obtain pre where
        pre: "xs = pre @ ys" "set ws' \<subseteq> set (removeAll w ws)" "set (removeAll w ws) - set (map fst pre) \<subseteq> set ws'"
        and r: "r = None \<or> (\<exists>w e. kill w = Inl e \<and> r = Some e)"
        by auto
      have "(w, t) # xs = ((w, t) # pre) @ ys" "set ws - set (map fst ((w, t) # pre)) \<subseteq> set ws'" "set ws' \<subseteq> set ws"
        using pre by auto
      then show ?thesis using r by blast
    qed
  qed
qed simp

lemma prune_kill_loop:
  assumes "\<forall>x \<in> set xs. kill (fst x) = Inr ()" "distinct (map fst xs)" "set (map fst xs) \<subseteq> set ws"
    "prune_loop snd worker_max_idle_time time xs = (ex, kept)"
  shows "\<exists>ws'. prune_kill kill time xs ws = (kept, ws', map fst ex, None) \<and> set ws' = set ws - set (map fst ex)"
  using assms
proof (induction xs arbitrary: ws ex)
  case (Cons x xs)
  obtain w t where x: "x = (w, t)" by fastforce
  show ?case
  proof (cases "time - t < worker_max_idle_time")
    case True
    then show ?thesis using Cons.prems(4) by (auto simp: x)
  next
    case False
    then obtain ex' where ex: "prune_loop snd worker_max_idle_time time xs = (ex', kept)" "ex = x # ex'"
      using Cons.prems(4) by (auto simp: x split: prod.splits)
    have "set (map fst xs) \<subseteq> set (removeAll w ws)" using Cons.prems(2,3) by (auto simp: x)
    from Cons.IH [OF _ _ this ex(1)] Cons.prems(1,2) obtain ws' where
      "prune_kill kill time xs (removeAll w ws) = (kept, ws', map fst ex', None)"
      "set ws' = set (removeAll w ws) - set (map fst ex')"
      by auto
    then show ?thesis using False Cons.prems(1,3) by (auto simp: x ex(2))
  qed
qed simp

text \<open>
  What a checkout leaves of the deque \<open>a @ b @ c\<close>: the middle. The process it gives was in \<open>c\<close>, or
  is a new one.
\<close>

definition checkout_post :: "ppool \<Rightarrow> ppool \<Rightarrow> (nat \<times> bool) res \<Rightarrow> (nat \<times> real) list \<Rightarrow> (nat \<times> real) list \<Rightarrow> bool" where
  "checkout_post p p' r a c \<longleftrightarrow> pp_idle p = a @ pp_idle p' @ c
     \<and> set (pp_workers p') \<subseteq> set (pp_workers p) \<and> set (pp_workers p) - set (map fst (a @ c)) \<subseteq> set (pp_workers p')
     \<and> (\<forall>w. r = Inr (w, False) \<longrightarrow> w \<in> set (map fst c) \<and> w \<in> set (pp_workers p'))
     \<and> (\<forall>w. r = Inr (w, True) \<longrightarrow> w = pp_next p)
     \<and> pp_next p' = (if \<exists>w. r = Inr (w, True) then Suc (pp_next p) else pp_next p)"

lemma checkout_spec:
  assumes inv: "pp_inv s" and co: "checkout kill time (ppp s) = (p, r)"
  shows "(\<exists>a c. checkout_post (ppp s) p r a c) \<and> (\<forall>e. r = Inl e \<longrightarrow> (\<exists>w. kill w = Inl e))"
proof -
  define q where "q = ppp s"
  have d: "distinct (map fst (pp_idle q))" "set (map fst (pp_idle q)) \<subseteq> set (pp_workers q)"
    using inv by (simp_all add: pp_inv_def pp_held_def q_def)
  then have dr: "distinct (map fst (rev (pp_idle q)))" "set (map fst (rev (pp_idle q))) \<subseteq> set (pp_workers q)"
    by (simp_all add: rev_map [symmetric])
  obtain xs ws r0 where pop: "pop_idle (pp_alive q) (rev (pp_idle q)) (pp_workers q) = (xs, ws, r0)" by (metis prod.exhaust)
  from pop_idle_spec [OF dr pop] obtain dead where ws: "set ws = set (pp_workers q) - set (map fst dead)"
    and cs: "r0 = Inr None \<and> rev (pp_idle q) = dead \<and> xs = []
      \<or> (\<exists>w t. r0 = Inr (Some w) \<and> pp_alive q w \<and> rev (pp_idle q) = dead @ (w, t) # xs)"
    by blast
  from cs show ?thesis
  proof (elim disjE exE conjE)
    assume n: "r0 = Inr None" "rev (pp_idle q) = dead" "xs = []"
    then have "p = q\<lparr>pp_idle := [], pp_workers := ws, pp_next := Suc (pp_next q)\<rparr>" "r = Inr (pp_next q, True)"
      using co pop by (simp_all add: checkout_def q_def [symmetric])
    moreover have "pp_idle q = rev dead" using n(2) by (metis rev_rev_ident)
    ultimately have "checkout_post q p r (rev dead) []" using ws by (auto simp: checkout_post_def)
    then show ?thesis using \<open>r = _\<close> by (auto simp: q_def)
  next
    fix w t
    assume n: "r0 = Inr (Some w)" "pp_alive q w" "rev (pp_idle q) = dead @ (w, t) # xs"
    from arg_cong [OF n(3), of rev] have idle: "pp_idle q = rev xs @ (w, t) # rev dead" by simp
    obtain ys ws' ks r1 where pk: "prune_kill kill time (rev xs) ws = (ys, ws', ks, r1)" by (metis prod.exhaust)
    have "distinct (map fst (rev xs))" "set (map fst (rev xs)) \<subseteq> set ws"
      using d ws unfolding idle by (auto simp: rev_map [symmetric])
    note sp = prune_kill_spec [OF this pk]
    then obtain pre where pre: "rev xs = pre @ ys" "set ws' \<subseteq> set ws" "set ws - set (map fst pre) \<subseteq> set ws'" by blast
    have p: "p = q\<lparr>pp_idle := ys, pp_workers := ws'\<rparr>" and r: "r = (case r1 of Some e \<Rightarrow> Inl e | None \<Rightarrow> Inr (w, False))"
      using co pop pk n(1) by (auto simp: checkout_def q_def [symmetric] split: option.splits)
    have "w \<in> set ws" using d ws unfolding idle by auto
    moreover have "w \<notin> set (map fst pre)" using d(1) unfolding idle pre(1) by auto
    ultimately have w: "w \<in> set ws'" using pre(3) by auto
    have "checkout_post q p r pre ((w, t) # rev dead)"
      unfolding checkout_post_def using pre ws w by (auto simp: p r idle split: option.splits)
    then show ?thesis using sp r by (auto simp: q_def split: option.splits)
  qed
qed

lemma distinct_middle:
  assumes "distinct (map fst (a @ b @ c) @ ys)"
  shows "distinct (map fst b @ ys)" "w \<in> set (map fst c) \<Longrightarrow> distinct (map fst b @ w # ys)"
  using assms by auto

lemma pp_inv_checkout:
  assumes inv: "pp_inv s" and act: "pp_act (PpCheckout kill) s = Some s'"
  shows "pp_inv s'"
proof -
  obtain p r where co: "checkout kill (pp_now s) (ppp s) = (p, r)" by fastforce
  from checkout_spec [OF inv co] obtain a c where post: "checkout_post (ppp s) p r a c" by blast
  then have idle: "pp_idle (ppp s) = a @ pp_idle p @ c" by (simp add: checkout_post_def)
  have d: "distinct (map fst (a @ pp_idle p @ c) @ pp_busy s @ pp_starting s)"
    and sub: "set (map fst (a @ pp_idle p @ c)) \<union> set (pp_busy s) \<subseteq> set (pp_workers (ppp s))"
    using inv by (simp_all add: pp_inv_def pp_held_def idle)
  have "set (map fst (pp_idle p)) \<union> set (pp_busy s) \<subseteq> set (pp_workers (ppp s)) - set (map fst (a @ c))"
    using d sub by auto
  also have "\<dots> \<subseteq> set (pp_workers p)" using post by (simp add: checkout_post_def)
  finally have held: "set (map fst (pp_idle p)) \<union> set (pp_busy s) \<subseteq> set (pp_workers p)" .
  have srt: "sorted (map snd (pp_idle p))" "\<forall>x \<in> set (pp_idle p). snd x \<le> pp_now s"
    using inv by (auto simp: pp_inv_def idle sorted_append)
  have le: "set (pp_workers p) \<subseteq> set (pp_workers (ppp s))" "pp_next (ppp s) \<le> pp_next p"
    using post by (auto simp: checkout_post_def)
  have lt: "w < pp_next p" if "w \<in> set (pp_starting s) \<or> w \<in> set (pp_workers p)" for w
    using that le pp_invD(3) [OF inv, of w] by (meson order_less_le_trans subsetD)
  have dj: "w \<notin> set (pp_workers p)" if "w \<in> set (pp_starting s)" for w
    using that le(1) pp_invD(4) [OF inv, of w] by blast
  note d1 = distinct_middle [OF d]
  consider (err) e where "r = Inl e" | (old) w where "r = Inr (w, False)" | (new) w where "r = Inr (w, True)"
    by (cases r) auto
  then show ?thesis
  proof cases
    case err
    then have s': "s' = s\<lparr>ppp := p\<rparr>" using act co by simp
    show ?thesis by (rule pp_invI) (use d1(1) held srt lt dj s' in simp_all)
  next
    case old
    then have s': "s' = s\<lparr>ppp := p, pp_busy := pp_busy s @ [w]\<rparr>" using act co by simp
    have w: "w \<in> set (map fst c)" "w \<in> set (pp_workers p)" using post old by (simp_all add: checkout_post_def)
    show ?thesis by (rule pp_invI) (use d1(2) [OF w(1)] w(2) held srt lt dj in \<open>auto simp: s'\<close>)
  next
    case new
    then have s': "s' = s\<lparr>ppp := p\<lparr>pp_alive := (pp_alive p)(w := True)\<rparr>, pp_starting := pp_starting s @ [w]\<rparr>"
      using act co by simp
    have w: "w = pp_next (ppp s)" "pp_next p = Suc w" using post new by (auto simp: checkout_post_def)
    have fresh: "w \<notin> set (pp_starting s)" "w \<notin> set (pp_workers (ppp s))" using pp_invD(3) [OF inv, of w] w(1) by auto
    then have "w \<notin> set (pp_workers p)" using le(1) by blast
    then show ?thesis
      by (intro pp_invI) (use d1(1) fresh held srt lt dj w(2) in \<open>auto simp: s' intro: less_SucI\<close>)
  qed
qed

lemma set_add_set [simp]: "set (set_add x xs) = insert x (set xs)"
  by (auto simp: set_add_def)

lemma pp_inv_ready:
  assumes inv: "pp_inv s" and act: "pp_act (PpReady w) s = Some s'"
  shows "pp_inv s'"
proof -
  have w: "w \<in> set (pp_starting s)"
    and s': "s' = s\<lparr>ppp := pool_add w (ppp s), pp_starting := remove1 w (pp_starting s), pp_busy := pp_busy s @ [w]\<rparr>"
    using act by (auto split: if_splits)
  have "distinct (pp_starting s)" using inv by (simp add: pp_inv_def)
  then have rm: "set (remove1 w (pp_starting s)) = set (pp_starting s) - {w}" by simp
  show ?thesis
    by (rule pp_invI) (use pp_invD [OF inv] w rm in \<open>auto simp: s' pool_add_def\<close>)
qed

lemma pp_inv_finish:
  assumes inv: "pp_inv s" and act: "pp_act (PpFinish w failed) s = Some s'"
  shows "pp_inv s'"
proof -
  have w: "w \<in> set (pp_busy s)"
    and s': "s' = s\<lparr>ppp := checkin w failed (pp_now s) (ppp s), pp_busy := remove1 w (pp_busy s)\<rparr>"
    using act by (auto split: if_splits)
  have d: "distinct (pp_busy s)" using inv by (simp add: pp_inv_def pp_held_def)
  then have rm: "set (remove1 w (pp_busy s)) = set (pp_busy s) - {w}" by simp
  have wk: "w \<in> set (pp_workers (ppp s))" using inv w by (auto simp: pp_inv_def pp_held_def)
  have nid: "w \<notin> set (map fst (pp_idle (ppp s)))" using inv w by (auto simp: pp_inv_def pp_held_def)
  show ?thesis
  proof (cases failed)
    case True
    then show ?thesis by (intro pp_invI) (use pp_invD [OF inv] rm nid d in \<open>auto simp: s' checkin_def Let_def\<close>)
  next
    case False
    then show ?thesis
      by (intro pp_invI) (use pp_invD [OF inv] rm nid d wk w in \<open>auto simp: s' checkin_def Let_def sorted_append\<close>)
  qed
qed

lemma pp_inv_act:
  assumes inv: "pp_inv s" and act: "pp_act a s = Some s'"
  shows "pp_inv s'"
proof (cases a)
  case (PpCheckout kill)
  then show ?thesis using pp_inv_checkout [OF inv] act by blast
next
  case (PpReady w)
  then show ?thesis using pp_inv_ready [OF inv] act by blast
next
  case (PpFinish w failed)
  then show ?thesis using pp_inv_finish [OF inv] act by blast
next
  case (PpInitFailed w)
  then have s': "s' = s\<lparr>pp_starting := remove1 w (pp_starting s)\<rparr>" using act by (auto split: if_splits)
  show ?thesis
    by (rule pp_invI)
      (use pp_invD [OF inv] set_remove1_subset [of w "pp_starting s"] in \<open>auto simp: s'\<close>)
next
  case (PpDie w)
  then have s': "s' = s\<lparr>ppp := (ppp s)\<lparr>pp_alive := (pp_alive (ppp s))(w := False)\<rparr>\<rparr>" using act by simp
  show ?thesis by (rule pp_invI) (use pp_invD [OF inv] in \<open>simp_all add: s'\<close>)
next
  case (PpTick dt)
  then have s': "s' = s\<lparr>pp_now := pp_now s + dt\<rparr>" "0 \<le> dt" using act by (auto split: if_splits)
  have "snd x \<le> pp_now s + dt" if "x \<in> set (pp_idle (ppp s))" for x using pp_invD(6) [OF inv that] s'(2) by simp
  then show ?thesis by (intro pp_invI) (use pp_invD [OF inv] in \<open>auto simp: s'(1)\<close>)
qed

lemma pp_reach_inv: "pp_reach s \<Longrightarrow> pp_inv s"
proof (induction rule: pp_reach.induct)
  case init
  show ?case by (simp add: pp_inv_def pp_held_def ppsys_new_def)
qed (rule pp_inv_act)

section \<open>Properties of the pool\<close>

interpretation processes: idle_pool pp_inv "\<lambda>s. pp_idle (ppp s)" "\<lambda>_. snd" worker_max_idle_time
  by unfold_locales (simp add: pp_inv_def)

text \<open>
  C21: However calls interleave, a worker process serves one call at a time: a process is idle, busy or
  being started, never two of these and never twice, and those that are idle or busy are in the set
  of workers. So getting a process never raises \<open>KeyError\<close>: the only failure
  is that of a \<open>kill()\<close>.
\<close>
theorem process_serves_one:
  assumes "pp_reach s" "checkout kill (pp_now s) (ppp s) = (p, r)"
  shows "distinct (map fst (pp_idle (ppp s)) @ pp_busy s @ pp_starting s)
    \<and> set (map fst (pp_idle (ppp s))) \<union> set (pp_busy s) \<subseteq> set (pp_workers (ppp s))
    \<and> (\<forall>w fresh. r = Inr (w, fresh) \<longrightarrow> w \<notin> set (pp_busy s) \<and> w \<notin> set (pp_starting s) \<and> w \<notin> set (map fst (pp_idle p)))
    \<and> (\<forall>e. r = Inl e \<longrightarrow> (\<exists>w. kill w = Inl e))"
proof -
  have inv: "pp_inv s" by (rule pp_reach_inv [OF assms(1)])
  have "w \<notin> set (pp_busy s) \<and> w \<notin> set (pp_starting s) \<and> w \<notin> set (map fst (pp_idle p))" if r: "r = Inr (w, fresh)" for w fresh
  proof -
    obtain s' where s': "pp_act (PpCheckout kill) s = Some s'" using assms(2) r by (cases fresh) auto
    have "pp_inv s'" by (rule pp_inv_checkout [OF inv s'])
    from pp_invD(1) [OF this] show ?thesis using s' assms(2) r by (cases fresh) force+
  qed
  then show ?thesis using pp_invD(1,2) [OF inv] checkout_spec [OF inv assms(2)] by blast
qed

text \<open>Two processes that went idle at time 0 and at time 310.\<close>

definition two_processes :: "pp_action list" where
  "two_processes = [PpCheckout (\<lambda>_. Inr ()), PpCheckout (\<lambda>_. Inr ()), PpReady 0, PpReady 1, PpFinish 0 False, PpTick 310,
     PpFinish 1 False]"

lemma two_processes_run:
  "\<exists>s. pp_run two_processes (ppsys_new 0) = Some s \<and> pp_idle (ppp s) = [(0, 0), (1, 310)] \<and> pp_now s = 310
     \<and> pp_alive (ppp s) 1 \<and> pp_workers (ppp s) = [0, 1] \<and> pp_busy s = []"
  by (simp add: two_processes_def ppsys_new_def checkout_def pool_add_def checkin_def set_add_def Let_def)

lemma process_serves_one_witness:
  "\<exists>s. pp_run two_processes (ppsys_new 0) = Some s \<and> distinct (map fst (pp_idle (ppp s)) @ pp_busy s @ pp_starting s)"
proof -
  obtain s where s: "pp_run two_processes (ppsys_new 0) = Some s" using two_processes_run by blast
  have "pp_reach s" using s by (rule pp_run_reach [OF pp_reach.init])
  then show ?thesis using process_serves_one [of s "\<lambda>_. Inr ()"] s by (metis prod.exhaust)
qed

text \<open>
  A call gets the process that was used last among those that still run; the dead ones behind it
  are dropped, and of those before it just the ones that have been idle for
  \<open>WORKER_MAX_IDLE_TIME\<close> or longer, although the loop stops at the first that has not.
\<close>
theorem process_checkout:
  assumes "pp_reach s" "pp_idle (ppp s) = pre @ (w, t) # dead" "pp_alive (ppp s) w" "\<forall>x \<in> set dead. \<not> pp_alive (ppp s) (fst x)"
    "\<forall>x \<in> set pre. kill (fst x) = Inr ()"
  shows "\<exists>p. checkout kill (pp_now s) (ppp s) = (p, Inr (w, False))
    \<and> pp_idle p = filter (\<lambda>x. pp_now s - snd x < worker_max_idle_time) pre
    \<and> set (pp_workers p) = set (pp_workers (ppp s)) - fst ` set dead - fst ` {x \<in> set pre. worker_max_idle_time \<le> pp_now s - snd x}"
proof -
  define q where "q = ppp s"
  have inv: "pp_inv s" by (rule pp_reach_inv [OF assms(1)])
  have d: "distinct (map fst (pre @ (w, t) # dead))" "set (map fst (pre @ (w, t) # dead)) \<subseteq> set (pp_workers q)"
    using pp_invD(1,2) [OF inv] by (auto simp: assms(2) q_def)
  have "\<exists>ws. pop_idle alive (xs @ (w, t) # ys) vs = (ys, ws, Inr (Some w)) \<and> set ws = set vs - fst ` set xs"
    if "\<forall>x \<in> set xs. \<not> alive (fst x)" "alive w" "distinct (map fst xs)" "fst ` set xs \<subseteq> set vs" for xs ys vs alive
    using that
  proof (induction xs arbitrary: vs)
    case (Cons x xs)
    obtain v u where x: "x = (v, u)" by fastforce
    have "fst ` set xs \<subseteq> set (removeAll v vs)" using Cons.prems(3,4) by (auto simp: x)
    with Cons.IH [of "removeAll v vs"] Cons.prems obtain ws where
      "pop_idle alive (xs @ (w, t) # ys) (removeAll v vs) = (ys, ws, Inr (Some w))" "set ws = set (removeAll v vs) - fst ` set xs"
      by auto
    then show ?case using Cons.prems by (auto simp: x)
  qed simp
  from this [of "rev dead" "pp_alive q" "pp_workers q" "rev pre"] assms(3,4) d obtain ws where
    pop: "pop_idle (pp_alive q) (rev (pp_idle q)) (pp_workers q) = (rev pre, ws, Inr (Some w))"
    and ws: "set ws = set (pp_workers q) - fst ` set dead"
    by (auto simp: q_def assms(2) rev_map [symmetric])
  have "pre = take (length pre) (pp_idle (ppp s))" by (simp add: assms(2))
  then have loop: "prune_loop snd worker_max_idle_time (pp_now s) pre =
      (filter (\<lambda>x. worker_max_idle_time \<le> pp_now s - snd x) pre, filter (\<lambda>x. pp_now s - snd x < worker_max_idle_time) pre)"
    using processes.prune_take [OF inv] by metis
  have "set (map fst pre) \<subseteq> set ws" using d ws by auto
  with prune_kill_loop [OF assms(5) _ this loop] d(1) obtain ws' where
    pk: "prune_kill kill (pp_now s) pre ws = (filter (\<lambda>x. pp_now s - snd x < worker_max_idle_time) pre, ws',
      map fst (filter (\<lambda>x. worker_max_idle_time \<le> pp_now s - snd x) pre), None)"
    and ws': "set ws' = set ws - set (map fst (filter (\<lambda>x. worker_max_idle_time \<le> pp_now s - snd x) pre))"
    by auto
  show ?thesis using pop pk ws ws' by (auto simp: checkout_def q_def)
qed

lemma process_checkout_witness:
  "\<exists>s p. pp_run two_processes (ppsys_new 0) = Some s \<and> checkout (\<lambda>_. Inr ()) 310 (ppp s) = (p, Inr (1, False))
    \<and> pp_idle p = []"
proof -
  obtain s where s: "pp_run two_processes (ppsys_new 0) = Some s" "pp_idle (ppp s) = [(0, 0)] @ (1, 310) # []"
      "pp_now s = 310" "pp_alive (ppp s) 1"
    using two_processes_run by auto
  have "pp_reach s" using s(1) by (rule pp_run_reach [OF pp_reach.init])
  from process_checkout [OF this s(2,4), of "\<lambda>_. Inr ()"] s(1,3) show ?thesis by (auto simp: worker_max_idle_time_def)
qed

text \<open>
  An expired process that has ended by itself is killed all the same: the error of \<open>kill()\<close> leaves
  \<open>run_sync\<close>, and the running process the call was about to use is neither idle nor busy any more
  although it still is a worker.
\<close>
lemma process_prune_dead:
  assumes "pp_idle p = [(d, 0), (w, t)]" "pp_alive p w" "kill d = Inl process_lookup_error" "300 \<le> time"
  shows "checkout kill time p = (p\<lparr>pp_idle := []\<rparr>, Inl process_lookup_error)"
  using assms by (simp add: checkout_def worker_max_idle_time_def)

text \<open>
  A new process whose first bytes are not the whole ready message is given up but not killed, also
  when the rest of the message is still on its way.
\<close>
lemma init_short_read:
  "init_worker (Inr (take 3 ready_message)) (Inr ()) kill = (False, Inl BrokenWorkerProcess)"
  by (simp add: init_worker_def ready_message_def newline_def ascii_def)

text \<open>
  A process that ends before it is ready, while its output is closed: killing it fails, and that error
  comes out instead of \<open>BrokenWorkerProcess\<close>.
\<close>
lemma init_process_gone:
  "init_worker (Inl EndOfStream) (Inr ()) (Inl process_lookup_error) = (True, Inl process_lookup_error)"
  by (simp add: init_worker_def is_cancelled_def)

end
