(* ===== verification/TlsStream.thy ===== *)
theory TlsStream
  imports Subprocesses
begin

text \<open>
  TLS over any byte stream: \<open>src/anyio/streams/tls.py\<close>. The TLS object (\<open>ssl.SSLObject\<close>) is a
  parameter: a method of it is a function of its state, of the bytes in the incoming memory BIO and
  of whether that BIO is at its end; it tells how many of these bytes it consumed, which bytes it
  wrote to the outgoing BIO, and how it ended.
\<close>

datatype 'r ssl_result =
    SslValue 'r | SslWantRead | SslWantWrite | SslSyscall
  | SslFailed bool "string option" \<comment> \<open>an \<open>SSLError\<close>: whether it is an \<open>SSLEOFError\<close>; its \<open>strerror\<close>\<close>
  | SslRaises exn

type_synonym ('o, 'r) ssl_method = "'o \<Rightarrow> bytes \<Rightarrow> bool \<Rightarrow> 'o \<times> nat \<times> bytes \<times> 'r ssl_result"

record 'o tls =
  tls_obj :: 'o
  tls_in :: bytes
  tls_in_eof :: bool
  tls_out :: bytes
  tls_out_eof :: bool
  tls_std :: bool

definition tls_new :: "'o \<Rightarrow> bool \<Rightarrow> 'o tls" where
  "tls_new obj std = \<lparr>tls_obj = obj, tls_in = [], tls_in_eof = False, tls_out = [], tls_out_eof = False, tls_std = std\<rparr>"

text \<open>\<open>server_side\<close> when it is not given.\<close>

definition default_server_side :: "bool option \<Rightarrow> string option \<Rightarrow> bool" where
  "default_server_side server_side hostname =
     (case server_side of Some b \<Rightarrow> b | None \<Rightarrow> hostname = None \<or> hostname = Some [])"

section \<open>_call_sslobject_method\<close>

text \<open>Where it waits; a send carries the bytes just taken out of the outgoing BIO.\<close>

datatype 'r tls_pc = TlFlushRead bytes | TlRead | TlWantWrite bytes | TlFlushValue bytes 'r

definition tls_eofs :: "'o tls \<Rightarrow> 'o tls" where
  "tls_eofs t = t\<lparr>tls_in_eof := True, tls_out_eof := True\<rparr>"

definition unexpected_eof :: "string option \<Rightarrow> bool" where
  "unexpected_eof strerror \<longleftrightarrow>
     (case strerror of None \<Rightarrow> False | Some s \<Rightarrow> s \<noteq> [] \<and> py_find s ''UNEXPECTED_EOF_WHILE_READING'' 0 \<noteq> None)"

definition ssl_error :: "bool \<Rightarrow> bool \<Rightarrow> string option \<Rightarrow> exn" where
  "ssl_error std eof strerror =
     (if eof \<or> unexpected_eof strerror then (if std then BrokenResourceError else EndOfStream)
      else SSLError (case strerror of None \<Rightarrow> [] | Some s \<Rightarrow> s))"

text \<open>One call of the method and what follows it up to the next \<open>await\<close>.\<close>

definition tls_call :: "('o, 'r) ssl_method \<Rightarrow> 'o tls \<Rightarrow> 'o tls \<times> ('r tls_pc, 'r) outcome" where
  "tls_call m t =
     (case m (tls_obj t) (tls_in t) (tls_in_eof t) of
        (obj, n, produced, r) \<Rightarrow>
          let t1 = t\<lparr>tls_obj := obj, tls_in := drop n (tls_in t), tls_out := tls_out t @ produced\<rparr> in
          case r of
            SslWantRead \<Rightarrow>
              if tls_out t1 \<noteq> [] then (t1\<lparr>tls_out := []\<rparr>, Suspended (TlFlushRead (tls_out t1)))
              else (t1, Suspended TlRead)
          | SslWantWrite \<Rightarrow> (t1\<lparr>tls_out := []\<rparr>, Suspended (TlWantWrite (tls_out t1)))
          | SslSyscall \<Rightarrow> (tls_eofs t1, Raised BrokenResourceError)
          | SslFailed eof strerror \<Rightarrow> (tls_eofs t1, Raised (ssl_error (tls_std t1) eof strerror))
          | SslRaises e \<Rightarrow> (t1, Raised e)
          | SslValue v \<Rightarrow>
              if tls_out t1 \<noteq> [] then (t1\<lparr>tls_out := []\<rparr>, Suspended (TlFlushValue (tls_out t1) v))
              else (t1, Done v))"

text \<open>The clauses around flushing and receiving.\<close>

definition tls_read_failed :: "('o, 'r) ssl_method \<Rightarrow> exn \<Rightarrow> 'o tls \<Rightarrow> 'o tls \<times> ('r tls_pc, 'r) outcome" where
  "tls_read_failed m e t =
     (if e = EndOfStream then tls_call m (t\<lparr>tls_in_eof := True\<rparr>)
      else if is_oserror e then (tls_eofs t, Raised BrokenResourceError)
      else (t, Raised e))"

definition bio_write_error :: exn where
  "bio_write_error = SSLError ''cannot write() after write_eof()''"

fun tls_resume :: "('o, 'r) ssl_method \<Rightarrow> 'r tls_pc \<Rightarrow> bytes awaited \<Rightarrow> 'o tls \<Rightarrow> 'o tls \<times> ('r tls_pc, 'r) outcome" where
  "tls_resume m (TlFlushRead b) (Resumed _) t = (t, Suspended TlRead)"
| "tls_resume m (TlFlushRead b) (Thrown e) t = tls_read_failed m e t"
| "tls_resume m TlRead (Resumed data) t =
     (if tls_in_eof t then (t, Raised bio_write_error) else tls_call m (t\<lparr>tls_in := tls_in t @ data\<rparr>))"
| "tls_resume m TlRead (Thrown e) t = tls_read_failed m e t"
| "tls_resume m (TlWantWrite b) (Resumed _) t = tls_call m t"
| "tls_resume m (TlWantWrite b) (Thrown e) t = (t, Raised e)"
| "tls_resume m (TlFlushValue b v) (Resumed _) t = (t, Done v)"
| "tls_resume m (TlFlushValue b v) (Thrown e) t = (t, Raised e)"

section \<open>The methods\<close>

text \<open>What \<open>receive\<close> makes of the data, and \<open>unwrap\<close> after the closing handshake.\<close>

definition tls_received :: "bytes \<Rightarrow> bytes res" where
  "tls_received data = (if data = [] then Inl EndOfStream else Inr data)"

definition tls_unwrapped :: "'o tls \<Rightarrow> 'o tls \<times> bytes" where
  "tls_unwrapped t = ((tls_eofs t)\<lparr>tls_in := []\<rparr>, tls_in t)"

text \<open>
  \<open>aclose\<close>: the closing handshake if the stream is to be standard compatible, then the transport;
  \<open>TcForce e\<close> is the transport's \<open>aclose\<close> inside a cancelled scope, after which \<open>e\<close> goes on.
\<close>

datatype 'r tls_close_pc = TcUnwrap "'r tls_pc" | TcForce exn | TcTransport

fun tls_close_after :: "'o tls \<times> ('r tls_pc, 'r) outcome \<Rightarrow> 'o tls \<times> ('r tls_close_pc, unit) outcome" where
  "tls_close_after (t, Suspended pc) = (t, Suspended (TcUnwrap pc))"
| "tls_close_after (t, Raised e) = (t, Suspended (TcForce e))"
| "tls_close_after (t, Done _) = (fst (tls_unwrapped t), Suspended TcTransport)"

definition tls_aclose_start :: "('o, 'r) ssl_method \<Rightarrow> 'o tls \<Rightarrow> 'o tls \<times> ('r tls_close_pc, unit) outcome" where
  "tls_aclose_start m t =
     (if tls_std t then tls_close_after (tls_call m t) else (t, Suspended TcTransport))"

text \<open>
  A cancellation of the host inside the cancelled scope of \<open>aclose_forcefully\<close> is swallowed there;
  \<open>swallow\<close> says whether the scope did so.
\<close>

fun tls_aclose_resume ::
  "('o, 'r) ssl_method \<Rightarrow> bool \<Rightarrow> 'r tls_close_pc \<Rightarrow> bytes awaited \<Rightarrow> 'o tls \<Rightarrow> 'o tls \<times> ('r tls_close_pc, unit) outcome"
where
  "tls_aclose_resume m swallow (TcUnwrap pc) r t = tls_close_after (tls_resume m pc r t)"
| "tls_aclose_resume m swallow (TcForce e) (Resumed _) t = (t, Raised e)"
| "tls_aclose_resume m swallow (TcForce e) (Thrown e') t =
     (t, Raised (if swallow \<and> is_cancelled e' then e else e'))"
| "tls_aclose_resume m swallow TcTransport (Resumed _) t = (t, Done ())"
| "tls_aclose_resume m swallow TcTransport (Thrown e) t = (t, Raised e)"

text \<open>\<open>send_eof\<close> always raises; the pattern \<open>TLSv(\d+)(?:\.(\d+))?\<close> decides with which message.\<close>

definition tls_version_numbers :: "string \<Rightarrow> (nat \<times> nat) option" where
  "tls_version_numbers v =
     (let d = takeWhile is_digit (drop 4 v); r = drop (4 + length d) v;
          e = (case r of CHR ''.'' # u \<Rightarrow> takeWhile is_digit u | _ \<Rightarrow> [])
      in if take 4 v = ''TLSv'' \<and> d \<noteq> []
         then Some (the (parse_nat d), case parse_nat e of None \<Rightarrow> 0 | Some n \<Rightarrow> n) else None)"

definition tls_send_eof :: "string \<Rightarrow> exn" where
  "tls_send_eof version =
     (case tls_version_numbers version of
        Some (major, minor) \<Rightarrow>
          if major < 1 \<or> major = 1 \<and> minor < 3
          then NotImplementedError (''send_eof() requires at least TLSv1.3; current session uses '' @ version)
          else NotImplementedError ''send_eof() has not yet been implemented for TLS streams''
      | None \<Rightarrow> NotImplementedError ''send_eof() has not yet been implemented for TLS streams'')"

section \<open>The listener\<close>

text \<open>
  \<open>handler_wrapper\<close>: the handshake under \<open>fail_after\<close> (which may make its exception a
  \<open>TimeoutError\<close>), then the handler; a failed handshake closes the stream by force, and
  \<open>handle_handshake_error\<close> lets only base exceptions and cancellations go on.
\<close>

datatype tls_handler_pc = ThHandshake | ThForce exn | ThHandler

definition handshake_error_goes_on :: "exn \<Rightarrow> bool" where
  "handshake_error_goes_on e \<longleftrightarrow> \<not> is_Exception e \<or> is_cancelled e"

fun tls_handler_resume :: "tls_handler_pc \<Rightarrow> unit awaited \<Rightarrow> (tls_handler_pc, unit) outcome" where
  "tls_handler_resume ThHandshake (Resumed _) = Suspended ThHandler"
| "tls_handler_resume ThHandshake (Thrown e) = Suspended (ThForce e)"
| "tls_handler_resume (ThForce e) (Resumed _) =
     (if handshake_error_goes_on e then Raised e else Done ())"
| "tls_handler_resume (ThForce e) (Thrown e') = Raised e'"
| "tls_handler_resume ThHandler (Resumed _) = Done ()"
| "tls_handler_resume ThHandler (Thrown e) = Raised e"

section \<open>A call over a transport\<close>

text \<open>
  The call alone, over a transport whose \<open>receive\<close> is \<open>recv\<close> and whose \<open>send\<close> takes everything;
  \<open>k\<close> bounds the number of awaited operations of the transport.
\<close>

fun tls_drive ::
  "nat \<Rightarrow> ('o, 'r) ssl_method \<Rightarrow> (nat \<Rightarrow> 's \<Rightarrow> 's \<times> bytes res) \<Rightarrow> 's \<Rightarrow> bytes \<Rightarrow> 'o tls \<times> ('r tls_pc, 'r) outcome
     \<Rightarrow> ('o tls \<times> 's \<times> bytes \<times> 'r res) option"
where
  "tls_drive k m recv s out (t, Done v) = Some (t, s, out, Inr v)"
| "tls_drive k m recv s out (t, Raised e) = Some (t, s, out, Inl e)"
| "tls_drive 0 m recv s out (t, Suspended pc) = None"
| "tls_drive (Suc k) m recv s out (t, Suspended TlRead) =
     (case recv 65536 s of
        (s', Inr data) \<Rightarrow> tls_drive k m recv s' out (tls_resume m TlRead (Resumed data) t)
      | (s', Inl e) \<Rightarrow> tls_drive k m recv s' out (tls_resume m TlRead (Thrown e) t))"
| "tls_drive (Suc k) m recv s out (t, Suspended (TlFlushRead b)) =
     tls_drive k m recv s (out @ b) (tls_resume m (TlFlushRead b) (Resumed []) t)"
| "tls_drive (Suc k) m recv s out (t, Suspended (TlWantWrite b)) =
     tls_drive k m recv s (out @ b) (tls_resume m (TlWantWrite b) (Resumed []) t)"
| "tls_drive (Suc k) m recv s out (t, Suspended (TlFlushValue b v)) =
     tls_drive k m recv s (out @ b) (tls_resume m (TlFlushValue b v) (Resumed []) t)"

text \<open>\<open>TLSStream.receive(n)\<close>.\<close>

definition tls_receive_run ::
  "nat \<Rightarrow> (nat \<Rightarrow> ('o, bytes) ssl_method) \<Rightarrow> (nat \<Rightarrow> 's \<Rightarrow> 's \<times> bytes res) \<Rightarrow> nat \<Rightarrow> 'o tls \<Rightarrow> 's
     \<Rightarrow> ('o tls \<times> 's \<times> bytes \<times> bytes res) option"
where
  "tls_receive_run k ssl_read recv n t s =
     map_option (\<lambda>(t', s', out, r). (t', s', out, case r of Inl e \<Rightarrow> Inl e | Inr d \<Rightarrow> tls_received d))
       (tls_drive k (ssl_read n) recv s [] (tls_call (ssl_read n) t))"

text \<open>
  What \<open>receive\<close> relies on: \<open>plain o b\<close> is the plaintext that the incoming bytes \<open>b\<close> carry for an
  object in state \<open>o\<close> and \<open>alert o b\<close> says whether they hold the peer's closing alert. A read
  gives a non-empty piece of the plaintext, or nothing after the alert; it wants more only while
  the BIO is open, and reports an unexpected end only at its end.
\<close>

definition ssl_read_ok ::
  "('o \<Rightarrow> bytes \<Rightarrow> bytes) \<Rightarrow> ('o \<Rightarrow> bytes \<Rightarrow> bool) \<Rightarrow> nat \<Rightarrow> 'o \<Rightarrow> bytes \<Rightarrow> bool \<Rightarrow> 'o \<Rightarrow> nat \<Rightarrow> bytes ssl_result \<Rightarrow> bool"
where
  "ssl_read_ok plain alert n obj b eof obj' k r \<longleftrightarrow>
     k \<le> length b \<and>
     (case r of
        SslValue d \<Rightarrow> length d \<le> n \<and>
          (\<forall>b'. (eof \<longrightarrow> b' = []) \<longrightarrow>
             plain obj (b @ b') = d @ plain obj' (drop k b @ b') \<and>
             alert obj (b @ b') = alert obj' (drop k b @ b') \<and>
             (d = [] \<longrightarrow> plain obj (b @ b') = [] \<and> alert obj (b @ b')))
      | SslWantRead \<Rightarrow> \<not> eof \<and>
          (\<forall>b'. plain obj (b @ b') = plain obj' (drop k b @ b') \<and>
             alert obj (b @ b') = alert obj' (drop k b @ b'))
      | SslFailed e msg \<Rightarrow> eof \<and> (e \<or> unexpected_eof msg) \<and> plain obj b = [] \<and> \<not> alert obj b
      | _ \<Rightarrow> False)"

definition ssl_reads ::
  "('o \<Rightarrow> bytes \<Rightarrow> bytes) \<Rightarrow> ('o \<Rightarrow> bytes \<Rightarrow> bool) \<Rightarrow> (nat \<Rightarrow> ('o, bytes) ssl_method) \<Rightarrow> bool"
where
  "ssl_reads plain alert ssl_read \<longleftrightarrow>
     (\<forall>n > 0. \<forall>obj b eof obj' k w r. ssl_read n obj b eof = (obj', k, w, r) \<longrightarrow>
        ssl_read_ok plain alert n obj b eof obj' k r)"

lemma ssl_readsD:
  "ssl_reads plain alert ssl_read \<Longrightarrow> 0 < n \<Longrightarrow> ssl_read n obj b eof = (obj', k, w, r) \<Longrightarrow>
     ssl_read_ok plain alert n obj b eof obj' k r"
  unfolding ssl_reads_def by blast

text \<open>The bytes still to come: those in the incoming BIO and those of the transport.\<close>

definition tls_plain ::
  "('o \<Rightarrow> bytes \<Rightarrow> 'p) \<Rightarrow> ('s \<Rightarrow> bytes) \<Rightarrow> 'o tls \<Rightarrow> 's \<Rightarrow> 'p"
where
  "tls_plain plain rest t s = plain (tls_obj t) (tls_in t @ rest s)"

definition tls_source_ok :: "('s \<Rightarrow> bool) \<Rightarrow> ('s \<Rightarrow> bytes) \<Rightarrow> 'o tls \<Rightarrow> 's \<Rightarrow> bool" where
  "tls_source_ok ok rest t s \<longleftrightarrow> ok s \<and> (tls_in_eof t \<longrightarrow> rest s = [])"

text \<open>What one call of \<open>read\<close> over the transport achieves.\<close>

definition read_post ::
  "('o \<Rightarrow> bytes \<Rightarrow> bytes) \<Rightarrow> ('o \<Rightarrow> bytes \<Rightarrow> bool) \<Rightarrow> ('s \<Rightarrow> bool) \<Rightarrow> ('s \<Rightarrow> bytes) \<Rightarrow> nat \<Rightarrow> bytes \<Rightarrow> bool \<Rightarrow> bool
     \<Rightarrow> ('o tls \<times> 's \<times> bytes \<times> bytes res) option \<Rightarrow> bool"
where
  "read_post plain alert ok rest n P A std x \<longleftrightarrow>
     (\<exists>t s out r. x = Some (t, s, out, r) \<and> tls_source_ok ok rest t s \<and> tls_std t = std \<and>
        (case r of
           Inr d \<Rightarrow> length d \<le> n \<and> P = d @ tls_plain plain rest t s \<and> A = tls_plain alert rest t s \<and>
             (d = [] \<longrightarrow> P = [] \<and> A)
         | Inl e \<Rightarrow> P = [] \<and> \<not> A \<and> e = (if std then BrokenResourceError else EndOfStream)))"

lemma ssl_reads_cases:
  assumes "ssl_read_ok plain alert n obj b eof obj' j r"
  shows "(\<exists>d. r = SslValue d) \<or> r = SslWantRead \<or> (\<exists>e msg. r = SslFailed e msg)"
  using assms by (cases r) (simp_all add: ssl_read_ok_def)

lemma ssl_reads_value:
  assumes "ssl_read_ok plain alert n obj b eof obj' j (SslValue d)" "eof \<longrightarrow> b' = []"
  shows "length d \<le> n" "plain obj (b @ b') = d @ plain obj' (drop j b @ b')"
    "alert obj (b @ b') = alert obj' (drop j b @ b')"
    "d = [] \<longrightarrow> plain obj (b @ b') = [] \<and> alert obj (b @ b')"
  using assms unfolding ssl_read_ok_def ssl_result.case by blast+

lemma ssl_reads_want:
  assumes "ssl_read_ok plain alert n obj b eof obj' j SslWantRead"
  shows "\<not> eof" "plain obj (b @ b') = plain obj' (drop j b @ b')"
    "alert obj (b @ b') = alert obj' (drop j b @ b')"
  using assms by (auto simp: ssl_read_ok_def)

lemma ssl_reads_failed:
  assumes "ssl_read_ok plain alert n obj b eof obj' j (SslFailed e msg)"
  shows "eof" "e \<or> unexpected_eof msg" "plain obj b = []" "\<not> alert obj b"
  using assms by (auto simp: ssl_read_ok_def)

lemma tls_call_value:
  assumes reads: "ssl_reads plain alert ssl_read" "0 < n" and ok: "tls_source_ok ok rest t s"
    and r: "ssl_read n (tls_obj t) (tls_in t) (tls_in_eof t) = (obj, j, w, SslValue d)"
  shows "read_post plain alert ok rest n (tls_plain plain rest t s) (tls_plain alert rest t s) (tls_std t)
    (tls_drive (Suc k) (ssl_read n) recv s out (tls_call (ssl_read n) t))"
proof -
  from ok have "tls_in_eof t \<longrightarrow> rest s = []" by (simp add: tls_source_ok_def)
  note v = ssl_reads_value [OF ssl_readsD [OF reads r] this]
  show ?thesis
    using ok v by (simp add: read_post_def tls_plain_def tls_source_ok_def tls_call_def r Let_def)
qed

lemma tls_call_failed:
  assumes reads: "ssl_reads plain alert ssl_read" "0 < n" and ok: "tls_source_ok ok rest t s"
    and r: "ssl_read n (tls_obj t) (tls_in t) (tls_in_eof t) = (obj, j, w, SslFailed e msg)"
  shows "read_post plain alert ok rest n (tls_plain plain rest t s) (tls_plain alert rest t s) (tls_std t)
    (tls_drive k (ssl_read n) recv s out (tls_call (ssl_read n) t))"
proof -
  note f = ssl_reads_failed [OF ssl_readsD [OF reads r]]
  have "tls_drive k (ssl_read n) recv s out (tls_call (ssl_read n) t) =
      Some (tls_eofs (t\<lparr>tls_obj := obj, tls_in := drop j (tls_in t), tls_out := tls_out t @ w\<rparr>), s, out,
        Inl (if tls_std t then BrokenResourceError else EndOfStream))"
    using f(2) by (simp add: tls_call_def r Let_def ssl_error_def)
  then show ?thesis
    using ok f by (simp add: read_post_def tls_plain_def tls_source_ok_def tls_eofs_def)
qed

text \<open>
  A call that wants more bytes goes on with those the transport gives, or with the end of the BIO
  when the transport has none left; either way less is to come.
\<close>

definition tls_left :: "('s \<Rightarrow> bytes) \<Rightarrow> 'o tls \<Rightarrow> 's \<Rightarrow> nat" where
  "tls_left rest t s = length (rest s) + (if tls_in_eof t then 0 else 1)"

lemma tls_read_again:
  assumes src: "byte_source ok rest recv" and ok: "tls_source_ok ok rest t s" and open': "\<not> tls_in_eof t"
  shows "\<exists>t' s'. tls_drive (Suc k) m recv s out (t, Suspended TlRead) = tls_drive k m recv s' out (tls_call m t') \<and>
    tls_source_ok ok rest t' s' \<and> tls_std t' = tls_std t \<and> tls_obj t' = tls_obj t \<and>
    tls_in t' @ rest s' = tls_in t @ rest s \<and> tls_left rest t' s' < tls_left rest t s"
proof (cases "rest s = []")
  case True
  then obtain s' where "recv 65536 s = (s', Inl EndOfStream)" "ok s'" "rest s' = []"
    using byte_source.recv_end [OF src, of s 65536] ok by (auto simp: tls_source_ok_def)
  then show ?thesis
    using True open' by (intro exI [of _ "t\<lparr>tls_in_eof := True\<rparr>"] exI [of _ s'])
      (simp add: tls_read_failed_def tls_source_ok_def tls_left_def)
next
  case False
  then obtain s' c where "recv 65536 s = (s', Inr c)" "ok s'" "c \<noteq> []" "rest s = c @ rest s'"
    using byte_source.recv_some [OF src, of s 65536] ok by (auto simp: tls_source_ok_def)
  then show ?thesis
    using open' by (intro exI [of _ "t\<lparr>tls_in := tls_in t @ c\<rparr>"] exI [of _ s'])
      (simp add: tls_source_ok_def tls_left_def)
qed

lemma tls_drive_reads:
  assumes src: "byte_source ok rest recv" and reads: "ssl_reads plain alert ssl_read" "0 < n"
    and "tls_source_ok ok rest t s" "2 * tls_left rest t s < k"
  shows "read_post plain alert ok rest n (tls_plain plain rest t s) (tls_plain alert rest t s) (tls_std t)
    (tls_drive k (ssl_read n) recv s out (tls_call (ssl_read n) t))"
  using assms(4,5)
proof (induction "tls_left rest t s" arbitrary: t s k out rule: less_induct)
  case less
  obtain obj j w r where r: "ssl_read n (tls_obj t) (tls_in t) (tls_in_eof t) = (obj, j, w, r)"
    by (metis prod_cases4)
  from less.prems(2) obtain k' where k': "k = Suc k'" by (cases k) auto
  from ssl_reads_cases [OF ssl_readsD [OF reads r]] consider d where "r = SslValue d" | "r = SslWantRead"
    | e msg where "r = SslFailed e msg" by blast
  then show ?case
  proof cases
    case 1
    show ?thesis unfolding k' using tls_call_value [OF reads less.prems(1)] r 1 by simp
  next
    case 3
    show ?thesis using tls_call_failed [OF reads less.prems(1)] r 3 by simp
  next
    case 2
    note want = ssl_reads_want [OF ssl_readsD [OF reads r [unfolded 2]]]
    define t1 where "t1 = t\<lparr>tls_obj := obj, tls_in := drop j (tls_in t), tls_out := []\<rparr>"
    have left: "tls_left rest t1 s = tls_left rest t s" and ok1: "tls_source_ok ok rest t1 s"
      and eof1: "\<not> tls_in_eof t1" and std1: "tls_std t1 = tls_std t"
      using less.prems(1) want(1) by (simp_all add: t1_def tls_left_def tls_source_ok_def)
    have P: "tls_plain plain rest t1 s = tls_plain plain rest t s"
      "tls_plain alert rest t1 s = tls_plain alert rest t s"
      using want(2,3) [of "rest s"] by (simp_all add: tls_plain_def t1_def)
    have "2 \<le> 2 * tls_left rest t s" using eof1 left by (simp add: tls_left_def)
    then obtain k2 where k2: "k = Suc (Suc k2)" "2 * tls_left rest t s \<le> Suc k2"
      using less.prems(2) by (cases k'; simp add: k')
    obtain out' k3 where go: "tls_drive k (ssl_read n) recv s out (tls_call (ssl_read n) t) =
        tls_drive (Suc k3) (ssl_read n) recv s out' (t1, Suspended TlRead)" "k2 \<le> k3"
    proof (cases "tls_out t @ w = []")
      case True
      then show thesis using that [of "Suc k2" out]
        by (simp add: tls_call_def r 2 Let_def t1_def k2(1))
    next
      case False
      then show thesis using that [of k2 "out @ (tls_out t @ w)"]
        by (simp add: tls_call_def r 2 Let_def t1_def k2(1))
    qed
    from tls_read_again [OF src ok1 eof1, of k3 "ssl_read n" out'] obtain t' s' where
      t': "tls_drive (Suc k3) (ssl_read n) recv s out' (t1, Suspended TlRead) =
          tls_drive k3 (ssl_read n) recv s' out' (tls_call (ssl_read n) t')"
        "tls_source_ok ok rest t' s'" "tls_std t' = tls_std t" "tls_obj t' = tls_obj t1"
        "tls_in t' @ rest s' = tls_in t1 @ rest s" "tls_left rest t' s' < tls_left rest t s"
      using left std1 by auto
    have "2 * tls_left rest t' s' < k3" using t'(6) k2(2) go(2) by simp
    from less.hyps [OF t'(6) t'(2) this] show ?thesis
      using P t' go(1) by (simp add: tls_plain_def)
  qed
qed

text \<open>
  C11: over any transport that is a byte source and any TLS object that meets \<open>ssl_reads\<close>,
  \<open>TLSStream.receive(n)\<close> ends, after at most two operations of the transport per byte still to
  come, and three more; it returns the next piece of the plaintext, at most \<open>n\<close> bytes, and leaves the rest for
  later calls. When the plaintext is exhausted it raises \<open>EndOfStream\<close> after a closing alert; if
  the transport ended without one it raises \<open>BrokenResourceError\<close> on a standard compatible stream
  (a truncated connection is never taken for a closed one), and \<open>EndOfStream\<close> on another.
\<close>

theorem tls_receive_decrypts:
  assumes "byte_source ok rest recv" "ssl_reads plain alert ssl_read" "0 < n"
    and "ok s" "tls_in_eof t \<longrightarrow> rest s = []" "2 * length (rest s) + 3 \<le> k"
  shows "\<exists>t' s' out r. tls_receive_run k ssl_read recv n t s = Some (t', s', out, r) \<and>
    ok s' \<and> (tls_in_eof t' \<longrightarrow> rest s' = []) \<and>
    (case r of
       Inr d \<Rightarrow> d \<noteq> [] \<and> length d \<le> n \<and>
         plain (tls_obj t) (tls_in t @ rest s) = d @ plain (tls_obj t') (tls_in t' @ rest s') \<and>
         alert (tls_obj t) (tls_in t @ rest s) = alert (tls_obj t') (tls_in t' @ rest s')
     | Inl e \<Rightarrow> plain (tls_obj t) (tls_in t @ rest s) = [] \<and>
         e = (if alert (tls_obj t) (tls_in t @ rest s) \<or> \<not> tls_std t then EndOfStream else BrokenResourceError))"
proof -
  have "2 * tls_left rest t s < k" using assms(6) by (simp add: tls_left_def)
  moreover have "tls_source_ok ok rest t s" using assms(4,5) by (simp add: tls_source_ok_def)
  ultimately have "read_post plain alert ok rest n (tls_plain plain rest t s) (tls_plain alert rest t s) (tls_std t)
      (tls_drive k (ssl_read n) recv s [] (tls_call (ssl_read n) t))"
    by (intro tls_drive_reads [OF assms(1-3)])
  then obtain t' s' out r where
    "tls_drive k (ssl_read n) recv s [] (tls_call (ssl_read n) t) = Some (t', s', out, r)"
    "tls_source_ok ok rest t' s'" and
    "case r of
       Inr d \<Rightarrow> length d \<le> n \<and> tls_plain plain rest t s = d @ tls_plain plain rest t' s' \<and>
         tls_plain alert rest t s = tls_plain alert rest t' s' \<and>
         (d = [] \<longrightarrow> tls_plain plain rest t s = [] \<and> tls_plain alert rest t s)
     | Inl e \<Rightarrow> tls_plain plain rest t s = [] \<and> \<not> tls_plain alert rest t s \<and>
         e = (if tls_std t then BrokenResourceError else EndOfStream)"
    by (auto simp: read_post_def)
  then show ?thesis
    by (cases r) (auto simp: tls_receive_run_def tls_received_def tls_plain_def tls_source_ok_def)
qed

text \<open>A record protocol without encryption, whose closing alert is a zero byte.\<close>

definition clear_read :: "nat \<Rightarrow> (unit, bytes) ssl_method" where
  "clear_read n obj b eof =
     (let d = takeWhile (\<lambda>x. x \<noteq> 0) b in
      if d \<noteq> [] then ((), length (take n d), [], SslValue (take n d))
      else if b \<noteq> [] then ((), 0, [], SslValue [])
      else if eof then ((), 0, [], SslFailed True None)
      else ((), 0, [], SslWantRead))"

lemma clear_reads: "ssl_reads (\<lambda>_. takeWhile (\<lambda>x. x \<noteq> 0)) (\<lambda>_ b. 0 \<in> set b) clear_read"
  unfolding ssl_reads_def
proof (intro allI impI)
  fix n :: nat and obj obj' :: unit and b w :: bytes and eof k r
  assume n: "0 < n" and r: "clear_read n obj b eof = (obj', k, w, r)"
  let ?d = "takeWhile (\<lambda>x. x \<noteq> 0) b"
  show "ssl_read_ok (\<lambda>_. takeWhile (\<lambda>x. x \<noteq> 0)) (\<lambda>_ b. 0 \<in> set b) n obj b eof obj' k r"
  proof (cases "?d = []")
    case True
    then show ?thesis using r
      by (cases b) (auto simp: clear_read_def ssl_read_ok_def split: if_splits)
  next
    case False
    have b: "b = take n ?d @ drop (length (take n ?d)) b"
      by (metis append_take_drop_id takeWhile_eq_take take_take append_eq_conv_conj)
    have nz: "0 \<notin> set (take n ?d)"
      using in_set_takeD [of 0 n ?d] set_takeWhileD [of 0 "\<lambda>x. x \<noteq> 0" b] by blast
    have tw: "takeWhile (\<lambda>x. x \<noteq> 0) (b @ b') = take n ?d @ takeWhile (\<lambda>x. x \<noteq> 0) (drop (length (take n ?d)) b @ b')" for b'
      by (subst b, subst append_assoc, rule takeWhile_append2) (use nz in auto)
    have al: "(0 \<in> set (b @ b')) = (0 \<in> set (drop (length (take n ?d)) b @ b'))" for b'
      using nz by (subst b) (simp del: length_take)
    have "k = length (take n ?d)" "r = SslValue (take n ?d)"
      using r False by (auto simp: clear_read_def Let_def)
    then show ?thesis
      using False n tw al length_takeWhile_le [of "\<lambda>x. x \<noteq> 0" b]
      unfolding ssl_read_ok_def ssl_result.case by (simp del: length_take) simp
  qed
qed

lemma tls_receive_decrypts_witness:
  "\<exists>t' s' out r. tls_receive_run 20 clear_read reader_source 4 (tls_new () True) (a_pipe [[1, 2], [0]]) = Some (t', s', out, r)"
  using tls_receive_decrypts [OF reader.byte_source_axioms clear_reads, of 4 "a_pipe [[1, 2], [0]]" "tls_new () True" 20]
  by (auto simp: tls_new_def reader_ok_def reader_rest_def)

section \<open>Calls that run at the same time\<close>

text \<open>
  A reader and a writer use one stream at the same time. The system keeps, beside the stream and the
  calls that wait, all bytes the TLS object wrote and consumed, those handed to the transport's
  \<open>send\<close> and those its \<open>receive\<close> returned, and whether some call has raised.
\<close>

record ('o, 'r) tls_sys =
  ys_tls :: "'o tls"
  ys_calls :: "nat \<Rightarrow> (('o, 'r) ssl_method \<times> 'r tls_pc) option"
  ys_made :: bytes
  ys_sent :: bytes
  ys_got :: bytes
  ys_used :: bytes
  ys_raised :: bool

definition ssl_wrote :: "('o, 'r) ssl_method \<Rightarrow> 'o tls \<Rightarrow> bytes" where
  "ssl_wrote m t = fst (snd (snd (m (tls_obj t) (tls_in t) (tls_in_eof t))))"

definition ssl_used :: "('o, 'r) ssl_method \<Rightarrow> 'o tls \<Rightarrow> bytes" where
  "ssl_used m t = take (fst (snd (m (tls_obj t) (tls_in t) (tls_in_eof t)))) (tls_in t)"

text \<open>The state on which a step calls the method, if it does.\<close>

fun calls_ssl :: "'r tls_pc \<Rightarrow> bytes awaited \<Rightarrow> 'o tls \<Rightarrow> 'o tls option" where
  "calls_ssl (TlFlushRead _) (Resumed _) t = None"
| "calls_ssl (TlFlushRead _) (Thrown e) t = (if e = EndOfStream then Some (t\<lparr>tls_in_eof := True\<rparr>) else None)"
| "calls_ssl TlRead (Thrown e) t = (if e = EndOfStream then Some (t\<lparr>tls_in_eof := True\<rparr>) else None)"
| "calls_ssl TlRead (Resumed data) t = (if tls_in_eof t then None else Some (t\<lparr>tls_in := tls_in t @ data\<rparr>))"
| "calls_ssl (TlWantWrite _) (Resumed _) t = Some t"
| "calls_ssl (TlWantWrite _) (Thrown e) t = None"
| "calls_ssl (TlFlushValue _ _) r t = None"

fun handed_over :: "('r tls_pc, 'r) outcome \<Rightarrow> bytes" where
  "handed_over (Suspended (TlFlushRead b)) = b"
| "handed_over (Suspended (TlWantWrite b)) = b"
| "handed_over (Suspended (TlFlushValue b v)) = b"
| "handed_over _ = []"

fun received :: "'r tls_pc \<Rightarrow> bytes awaited \<Rightarrow> bytes" where
  "received TlRead (Resumed data) = data"
| "received _ _ = []"

text \<open>What the end of a segment changes besides the stream.\<close>

fun tls_next :: "('o, 'r) ssl_method \<Rightarrow> ('r tls_pc, 'r) outcome \<Rightarrow> (('o, 'r) ssl_method \<times> 'r tls_pc) option" where
  "tls_next m (Suspended pc) = Some (m, pc)"
| "tls_next m _ = None"

fun raises :: "('w, 'r) outcome \<Rightarrow> bool" where
  "raises (Raised e) = True"
| "raises _ = False"

inductive tls_step :: "('o, 'r) tls_sys \<Rightarrow> ('o, 'r) tls_sys \<Rightarrow> bool" where
  ts_call: "ys_calls y i = None \<Longrightarrow> tls_call m (ys_tls y) = (t, x) \<Longrightarrow>
    tls_step y (y\<lparr>ys_tls := t, ys_calls := (ys_calls y)(i := tls_next m x),
      ys_made := ys_made y @ ssl_wrote m (ys_tls y), ys_sent := ys_sent y @ handed_over x,
      ys_used := ys_used y @ ssl_used m (ys_tls y), ys_raised := (ys_raised y \<or> raises x)\<rparr>)"
| ts_resume: "ys_calls y i = Some (m, pc) \<Longrightarrow> tls_resume m pc r (ys_tls y) = (t, x) \<Longrightarrow>
    tls_step y (y\<lparr>ys_tls := t, ys_calls := (ys_calls y)(i := tls_next m x),
      ys_made := ys_made y @ (case calls_ssl pc r (ys_tls y) of None \<Rightarrow> [] | Some t1 \<Rightarrow> ssl_wrote m t1),
      ys_sent := ys_sent y @ handed_over x,
      ys_got := ys_got y @ received pc r,
      ys_used := ys_used y @ (case calls_ssl pc r (ys_tls y) of None \<Rightarrow> [] | Some t1 \<Rightarrow> ssl_used m t1),
      ys_raised := (ys_raised y \<or> raises x)\<rparr>)"
| ts_unwrap: "tls_unwrapped (ys_tls y) = (t, left) \<Longrightarrow>
    tls_step y (y\<lparr>ys_tls := t, ys_used := ys_used y @ left\<rparr>)"

definition tls_start :: "'o \<Rightarrow> bool \<Rightarrow> ('o, 'r) tls_sys" where
  "tls_start obj std = \<lparr>ys_tls = tls_new obj std, ys_calls = (\<lambda>_. None), ys_made = [], ys_sent = [],
     ys_got = [], ys_used = [], ys_raised = False\<rparr>"

definition tls_ledger :: "('o, 'r) tls_sys \<Rightarrow> bool" where
  "tls_ledger y \<longleftrightarrow>
     ys_sent y @ tls_out (ys_tls y) = ys_made y \<and>
     (\<not> ys_raised y \<longrightarrow> tls_out (ys_tls y) = []) \<and>
     (\<exists>lost. ys_used y @ tls_in (ys_tls y) @ lost = ys_got y \<and>
        (lost \<noteq> [] \<longrightarrow> tls_in_eof (ys_tls y) \<and> ys_raised y))"

lemma tls_call_effect:
  assumes "tls_call m t = (t', x)"
  shows "handed_over x @ tls_out t' = tls_out t @ ssl_wrote m t"
    and "raises x \<or> tls_out t' = []"
    and "ssl_used m t @ tls_in t' = tls_in t"
    and "tls_in_eof t' = tls_in_eof t \<or> tls_in_eof t' \<and> raises x"
proof -
  obtain obj n w r where m: "m (tls_obj t) (tls_in t) (tls_in_eof t) = (obj, n, w, r)"
    by (metis prod_cases4)
  have w: "ssl_wrote m t = w" "ssl_used m t = take n (tls_in t)"
    by (simp_all add: ssl_wrote_def ssl_used_def m)
  from assms show "handed_over x @ tls_out t' = tls_out t @ ssl_wrote m t"
    unfolding w tls_call_def m prod.case Let_def
    by (cases r) (auto simp: tls_eofs_def split: if_splits)
  from assms show "raises x \<or> tls_out t' = []"
    unfolding w tls_call_def m prod.case Let_def
    by (cases r) (auto simp: tls_eofs_def split: if_splits)
  from assms show "ssl_used m t @ tls_in t' = tls_in t"
    unfolding w tls_call_def m prod.case Let_def
    by (cases r) (auto simp: tls_eofs_def split: if_splits)
  from assms show "tls_in_eof t' = tls_in_eof t \<or> tls_in_eof t' \<and> raises x"
    unfolding w tls_call_def m prod.case Let_def
    by (cases r) (auto simp: tls_eofs_def split: if_splits)
qed

text \<open>A resumed call either only moves on or first changes the incoming BIO and then calls the method.\<close>

lemma tls_resume_quiet:
  assumes "tls_resume m pc r t = (t', x)" "calls_ssl pc r t = None"
  shows "tls_out t' = tls_out t \<and> tls_in t' = tls_in t \<and> handed_over x = [] \<and>
    (tls_in_eof t \<longrightarrow> tls_in_eof t') \<and> (tls_in_eof t' \<longrightarrow> tls_in_eof t \<or> raises x) \<and>
    (received pc r \<noteq> [] \<longrightarrow> tls_in_eof t \<and> raises x)"
  using assms
  by (cases pc; cases r) (auto simp: tls_read_failed_def tls_eofs_def split: if_splits)

lemma tls_resume_called:
  assumes "calls_ssl pc r t = Some t1"
  shows "tls_resume m pc r t = tls_call m t1 \<and> tls_out t1 = tls_out t \<and>
    tls_in t1 = tls_in t @ received pc r \<and> (tls_in_eof t \<longrightarrow> tls_in_eof t1) \<and>
    (received pc r \<noteq> [] \<longrightarrow> \<not> tls_in_eof t)"
  using assms
  by (cases pc; cases r) (auto simp: tls_read_failed_def split: if_splits)

lemma tls_ledger_step: "tls_step y y' \<Longrightarrow> tls_ledger y \<Longrightarrow> tls_ledger y'"
proof (induction rule: tls_step.induct)
  case (ts_call y i m t x)
  from ts_call.prems obtain lost where L: "ys_sent y @ tls_out (ys_tls y) = ys_made y"
    "\<not> ys_raised y \<longrightarrow> tls_out (ys_tls y) = []" "ys_used y @ tls_in (ys_tls y) @ lost = ys_got y"
    "lost \<noteq> [] \<longrightarrow> tls_in_eof (ys_tls y) \<and> ys_raised y"
    unfolding tls_ledger_def by blast
  note E = tls_call_effect [OF ts_call.hyps(2)]
  have "ys_sent y @ handed_over x @ tls_out t = ys_made y @ ssl_wrote m (ys_tls y)"
    using E(1) L(1) by (metis append_assoc)
  moreover have "ys_used y @ ssl_used m (ys_tls y) @ tls_in t @ lost = ys_got y"
    using E(3) L(3) by (metis append_assoc)
  ultimately show ?case
    using E(2,4) L(2,4) unfolding tls_ledger_def by (auto intro!: exI [of _ lost])
next
  case (ts_resume y i m pc r t x)
  from ts_resume.prems obtain lost where L: "ys_sent y @ tls_out (ys_tls y) = ys_made y"
    "\<not> ys_raised y \<longrightarrow> tls_out (ys_tls y) = []" "ys_used y @ tls_in (ys_tls y) @ lost = ys_got y"
    "lost \<noteq> [] \<longrightarrow> tls_in_eof (ys_tls y) \<and> ys_raised y"
    unfolding tls_ledger_def by blast
  show ?case
  proof (cases "calls_ssl pc r (ys_tls y)")
    case None
    note E = tls_resume_quiet [OF ts_resume.hyps(2) None]
    then have "ys_used y @ tls_in t @ lost @ received pc r = ys_got y @ received pc r"
      using L(3) by (metis append_assoc)
    then show ?thesis
      using E L(1,2,4) None unfolding tls_ledger_def
      by (auto intro!: exI [of _ "lost @ received pc r"])
  next
    case (Some t1)
    note R = tls_resume_called [OF Some, of m]
    then have call: "tls_call m t1 = (t, x)" using ts_resume.hyps(2) by simp
    note E = tls_call_effect [OF call]
    have "ys_sent y @ handed_over x @ tls_out t = ys_made y @ ssl_wrote m t1"
      using E(1) L(1) R by (metis append_assoc)
    moreover have "ys_used y @ ssl_used m t1 @ tls_in t @ lost = ys_got y @ received pc r"
    proof (cases "received pc r = []")
      case True
      then show ?thesis using E(3) L(3) R by (metis append_assoc append_Nil2)
    next
      case False
      then have "lost = []" using R L(4) by blast
      then show ?thesis using E(3) L(3) R by (metis append_assoc append_Nil2)
    qed
    ultimately show ?thesis
      using E(2,4) L(2,4) R Some unfolding tls_ledger_def by (auto intro!: exI [of _ lost])
  qed
next
  case (ts_unwrap y t left)
  then obtain lost where "ys_used y @ tls_in (ys_tls y) @ lost = ys_got y"
    "lost \<noteq> [] \<longrightarrow> tls_in_eof (ys_tls y) \<and> ys_raised y"
    unfolding tls_ledger_def by blast
  with ts_unwrap show ?case
    unfolding tls_ledger_def by (auto simp: tls_unwrapped_def tls_eofs_def intro!: exI [of _ lost])
qed

lemma tls_ledger_reachable: "tls_step\<^sup>*\<^sup>* (tls_start obj std) y \<Longrightarrow> tls_ledger y"
proof (induction rule: rtranclp_induct)
  case base
  show ?case by (simp add: tls_ledger_def tls_start_def tls_new_def)
next
  case (step y z)
  then show ?case by (blast intro: tls_ledger_step)
qed

text \<open>
  C12: whatever calls run at the same time on a TLS stream, with any TLS object, transport failures
  and cancellations included: what the TLS object wrote is handed to the transport in order and
  without omission, and as long as no call has raised, none of it is held back; what the transport
  gave reaches the TLS object in order and once. Bytes are lost only when a call raises (one that
  still waited for the transport when the incoming BIO had been ended).
\<close>

theorem tls_bytes_in_order:
  assumes "tls_step\<^sup>*\<^sup>* (tls_start obj std) y"
  shows "ys_sent y @ tls_out (ys_tls y) = ys_made y \<and> (\<not> ys_raised y \<longrightarrow> ys_sent y = ys_made y) \<and>
    (\<exists>lost. ys_used y @ tls_in (ys_tls y) @ lost = ys_got y \<and> (\<not> ys_raised y \<longrightarrow> lost = []))"
  using tls_ledger_reachable [OF assms] unfolding tls_ledger_def by fastforce

lemma tls_bytes_in_order_witness:
  "\<exists>y :: (unit, bytes) tls_sys. tls_step\<^sup>*\<^sup>* (tls_start () True) y \<and> ys_calls y 0 \<noteq> None \<and>
     ys_sent y @ tls_out (ys_tls y) = ys_made y"
proof -
  obtain t x where x: "tls_call (clear_read 4) (tls_new () True) = (t, x)" by fastforce
  then have "tls_next (clear_read 4) x \<noteq> None"
    by (auto simp: tls_call_def clear_read_def tls_new_def)
  moreover define y :: "(unit, bytes) tls_sys" where
    "y = (tls_start () True)\<lparr>ys_tls := t, ys_calls := (ys_calls (tls_start () True))(0 := tls_next (clear_read 4) x),
      ys_made := ys_made (tls_start () True) @ ssl_wrote (clear_read 4) (ys_tls (tls_start () True)),
      ys_sent := ys_sent (tls_start () True) @ handed_over x,
      ys_used := ys_used (tls_start () True) @ ssl_used (clear_read 4) (ys_tls (tls_start () True)),
      ys_raised := (ys_raised (tls_start () True) \<or> raises x)\<rparr>"
  moreover have "tls_step (tls_start () True) y"
    using ts_call [of "tls_start () True" 0 "clear_read 4" t x] x unfolding y_def by (simp add: tls_start_def)
  then have r: "tls_step\<^sup>*\<^sup>* (tls_start () True) y" by (rule r_into_rtranclp)
  moreover note tls_bytes_in_order [OF r]
  ultimately show ?thesis by (intro exI [of _ y]) simp
qed

section \<open>Closing\<close>

text \<open>
  \<open>aclose\<close> from its start on, other calls changing the stream between its segments; the number
  counts the calls of the transport's \<open>aclose\<close>.
\<close>

fun transport_closes :: "('r tls_close_pc, unit) outcome \<Rightarrow> nat" where
  "transport_closes (Suspended (TcForce _)) = 1"
| "transport_closes (Suspended TcTransport) = 1"
| "transport_closes _ = 0"

inductive tls_closing ::
  "('o, 'r) ssl_method \<Rightarrow> ('r tls_close_pc, unit) outcome \<Rightarrow> nat \<Rightarrow> bool" for m where
  tc_start: "tls_aclose_start m t = (t', x) \<Longrightarrow> tls_closing m x (transport_closes x)"
| tc_step: "tls_closing m (Suspended pc) k \<Longrightarrow> tls_aclose_resume m sw pc r t = (t', x) \<Longrightarrow>
    tls_closing m x (k + transport_closes x)"

lemma tls_close_after_suspends:
  "tls_close_after y = (t, x) \<Longrightarrow> \<exists>pc. x = Suspended pc"
  by (cases y rule: tls_close_after.cases) auto

text \<open>
  \<open>TLSStream.aclose\<close> calls the transport's \<open>aclose\<close> exactly once on every path: not yet while the
  closing handshake goes on, and once when it has ended, however the handshake, the transport and
  cancellations behave.
\<close>

theorem tls_aclose_closes_once:
  assumes "tls_closing m x k"
  shows "k = (case x of Suspended (TcUnwrap pc) \<Rightarrow> 0 | _ \<Rightarrow> 1)"
  using assms
proof (induction rule: tls_closing.induct)
  case (tc_start t t' x)
  then show ?case
    using tls_close_after_suspends [of "tls_call m t" t' x]
    by (auto simp: tls_aclose_start_def split: if_splits tls_close_pc.splits)
next
  case (tc_step pc k sw r t t' x)
  show ?case
  proof (cases pc)
    case (TcUnwrap pc')
    then show ?thesis using tc_step tls_close_after_suspends [of "tls_resume m pc' r t" t' x]
      by (auto split: tls_close_pc.splits)
  next
    case (TcForce e)
    then show ?thesis using tc_step by (cases r) (auto split: if_splits)
  next
    case TcTransport
    then show ?thesis using tc_step by (cases r) auto
  qed
qed

lemma tls_aclose_closes_once_witness:
  "tls_closing (clear_read 4) (Suspended TcTransport) 1 \<and> (1 :: nat) = (case Suspended TcTransport of Suspended (TcUnwrap pc) \<Rightarrow> 0 | _ \<Rightarrow> 1)"
proof -
  have "tls_aclose_start (clear_read 4) (tls_new () False) = (tls_new () False, Suspended TcTransport)"
    by (simp add: tls_aclose_start_def tls_new_def)
  from tc_start [OF this] have "tls_closing (clear_read 4) (Suspended TcTransport) 1" by simp
  with tls_aclose_closes_once [OF this] show ?thesis by simp
qed

text \<open>
  The listener: a handler runs only after its handshake; a failed handshake ends with the stream
  closed by force and is contained in the listener unless it was a cancellation or no \<open>Exception\<close>.
\<close>

lemma tls_listener_contains:
  "tls_handler_resume ThHandshake r = Suspended ThHandler \<longleftrightarrow> (\<exists>u. r = Resumed u)"
  "tls_handler_resume ThHandshake (Thrown e) = Suspended (ThForce e)"
  "tls_handler_resume (ThForce TimeoutError) (Resumed ()) = Done ()"
  "tls_handler_resume (ThForce (CancelledError a c)) (Resumed ()) = Raised (CancelledError a c)"
  by (cases r) (simp_all add: handshake_error_goes_on_def is_cancelled_def)

text \<open>\<open>send_eof\<close> raises on every protocol version, with the version's number in the message before 1.3.\<close>

lemma send_eof_raises: "\<exists>msg. tls_send_eof v = NotImplementedError msg"
  by (simp add: tls_send_eof_def split: option.splits)

lemma send_eof_examples:
  "tls_version_numbers ''TLSv1.2'' = Some (1, 2)" "tls_version_numbers ''TLSv1'' = Some (1, 0)"
  "tls_version_numbers ''TLSv1.3'' = Some (1, 3)" "tls_version_numbers ''SSLv3'' = None"
  by (simp_all add: tls_version_numbers_def is_digit_def parse_nat_def)

end
