(* ===== verification/RunVars.thy ===== *)
theory RunVars
  imports Exceptions
begin

text \<open>
  Run variables (\<open>src/anyio/lowlevel.py\<close>). \<open>_run_vars\<close> maps the token of an event loop to the
  dictionary of its variables, which are kept under their names; \<open>NO_VALUE_SET\<close> is \<open>None\<close>. Two
  variables are the same object when their identifiers are equal.
\<close>

record 'v runvar =
  var_id :: nat
  var_name :: string
  var_default :: "'v option"

record 'v runvar_token =
  rt_var :: nat
  rt_value :: "'v option"
  rt_redeemed :: bool

type_synonym ('l, 'v) run_vars = "'l \<rightharpoonup> (string \<rightharpoonup> 'v)"

text \<open>\<open>_current_vars\<close> makes the dictionary of a loop at its first use.\<close>

definition current_vars :: "'l \<Rightarrow> ('l, 'v) run_vars \<Rightarrow> ('l, 'v) run_vars \<times> (string \<rightharpoonup> 'v)" where
  "current_vars loop vs =
     (case vs loop of
        Some d \<Rightarrow> (vs, d)
      | None \<Rightarrow> (vs(loop \<mapsto> (\<lambda>_. None)), \<lambda>_. None))"

definition no_value_message :: "string \<Rightarrow> string" where
  "no_value_message name = ''Run variable \"'' @ name @ ''\" has no value and no default set''"

definition runvar_get ::
  "'l \<Rightarrow> 'v runvar \<Rightarrow> 'v option \<Rightarrow> ('l, 'v) run_vars \<Rightarrow> ('l, 'v) run_vars \<times> 'v res"
where
  "runvar_get loop v dflt vs =
     (let (vs1, d) = current_vars loop vs in
      (vs1,
       case d (var_name v) of
         Some x \<Rightarrow> Inr x
       | None \<Rightarrow>
           (case dflt of
              Some x \<Rightarrow> Inr x
            | None \<Rightarrow>
                (case var_default v of
                   Some x \<Rightarrow> Inr x
                 | None \<Rightarrow> Inl (LookupError (no_value_message (var_name v)))))))"

definition runvar_set ::
  "'l \<Rightarrow> 'v runvar \<Rightarrow> 'v \<Rightarrow> ('l, 'v) run_vars \<Rightarrow> ('l, 'v) run_vars \<times> 'v runvar_token"
where
  "runvar_set loop v x vs =
     (let (vs1, d) = current_vars loop vs in
      (vs1(loop \<mapsto> d(var_name v \<mapsto> x)),
       \<lparr>rt_var = var_id v, rt_value = d (var_name v), rt_redeemed = False\<rparr>))"

text \<open>\<open>reset\<close> changes the token it is given.\<close>

definition runvar_reset ::
  "'l \<Rightarrow> 'v runvar \<Rightarrow> 'v runvar_token \<Rightarrow> ('l, 'v) run_vars
     \<Rightarrow> ('l, 'v) run_vars \<times> 'v runvar_token \<times> unit res"
where
  "runvar_reset loop v tok vs =
     (if rt_var tok \<noteq> var_id v then (vs, tok, Inl (ValueError ''This token does not belong to this RunVar''))
      else if rt_redeemed tok then (vs, tok, Inl (ValueError ''This token has already been used''))
      else
        let (vs1, d) = current_vars loop vs in
        (vs1(loop \<mapsto> d(var_name v := rt_value tok)), tok\<lparr>rt_redeemed := True\<rparr>, Inr ()))"

text \<open>What a loop's variables are, whether or not its dictionary has been made.\<close>

definition value_of :: "('l, 'v) run_vars \<Rightarrow> 'l \<Rightarrow> string \<Rightarrow> 'v option" where
  "value_of vs loop name = Option.bind (vs loop) (\<lambda>d. d name)"

lemma value_of_current: "snd (current_vars loop vs) = value_of vs loop"
  by (auto simp: current_vars_def value_of_def split: option.splits)

lemma value_of_made: "value_of (fst (current_vars loop vs)) = value_of vs"
  by (auto simp: current_vars_def value_of_def fun_eq_iff split: option.splits)

lemma runvar_get_value:
  "snd (runvar_get loop v dflt vs) =
     (case value_of vs loop (var_name v) of
        Some x \<Rightarrow> Inr x
      | None \<Rightarrow> (case dflt of Some x \<Rightarrow> Inr x
          | None \<Rightarrow> (case var_default v of Some x \<Rightarrow> Inr x
              | None \<Rightarrow> Inl (LookupError (no_value_message (var_name v))))))"
  "value_of (fst (runvar_get loop v dflt vs)) = value_of vs"
  by (simp_all add: runvar_get_def case_prod_beta Let_def value_of_current value_of_made)

lemma runvar_set_value:
  "value_of (fst (runvar_set loop v x vs)) = (value_of vs)(loop := (value_of vs loop)(var_name v \<mapsto> x))"
  "snd (runvar_set loop v x vs) =
     \<lparr>rt_var = var_id v, rt_value = value_of vs loop (var_name v), rt_redeemed = False\<rparr>"
  using value_of_current [of loop vs] value_of_made [of loop vs]
  by (auto simp: runvar_set_def value_of_def fun_eq_iff split: prod.splits)

lemma runvar_reset_value:
  "rt_var tok = var_id v \<Longrightarrow> \<not> rt_redeemed tok \<Longrightarrow>
     value_of (fst (runvar_reset loop v tok vs)) =
       (value_of vs)(loop := (value_of vs loop)(var_name v := rt_value tok))"
  using value_of_current [of loop vs] value_of_made [of loop vs]
  by (auto simp: runvar_reset_def value_of_def fun_eq_iff split: prod.splits)

text \<open>
  Properly nested uses: each block sets a variable, runs its inner blocks, and resets the variable
  with its own token.
\<close>

datatype 'v block = Block "'v runvar" 'v "'v block list"

fun run_block :: "'l \<Rightarrow> 'v block \<Rightarrow> ('l, 'v) run_vars \<Rightarrow> ('l, 'v) run_vars \<times> unit res" where
  "run_block loop (Block v x bs) vs =
     (let (vs1, tok) = runvar_set loop v x vs;
          vs2 = fold (\<lambda>b w. fst (run_block loop b w)) bs vs1;
          (vs3, _, r) = runvar_reset loop v tok vs2
      in (vs3, r))"

text \<open>
  \<open>reset\<close> undoes \<open>set\<close>: after any properly nested blocks of sets and resets, of any variables,
  every reset has been accepted and every variable of every event loop has the value it had before,
  or none if it had none.
\<close>

theorem runvar_nesting_restores:
  "snd (run_block loop b vs) = Inr () \<and> value_of (fst (run_block loop b vs)) = value_of vs"
proof (induction b arbitrary: vs)
  case (Block v x bs)
  obtain vs1 tok where s: "runvar_set loop v x vs = (vs1, tok)" by fastforce
  define vs2 where "vs2 = fold (\<lambda>b w. fst (run_block loop b w)) bs vs1"
  have "value_of (fold (\<lambda>b w. fst (run_block loop b w)) bs w) = value_of w" for w
    using Block.IH by (induction bs arbitrary: w) simp_all
  then have v2: "value_of vs2 = value_of vs1" by (simp add: vs2_def)
  obtain vs3 tok' r where r: "runvar_reset loop v tok vs2 = (vs3, tok', r)" by (metis prod_cases3)
  have tok: "rt_var tok = var_id v" "\<not> rt_redeemed tok" "rt_value tok = value_of vs loop (var_name v)"
    using runvar_set_value(2) [of loop v x vs] s by simp_all
  have "value_of vs3 = value_of vs"
    using runvar_reset_value [OF tok(1,2), of loop vs2] runvar_set_value(1) [of loop v x vs] r s v2 tok(3)
    by (simp add: fun_eq_iff)
  moreover have "r = Inr ()" using r tok(1,2) by (auto simp: runvar_reset_def split: prod.splits)
  ultimately show ?case using s r by (simp add: vs2_def)
qed

text \<open>A token works once and for its own variable only.\<close>

lemma runvar_token_once:
  assumes "runvar_reset loop v tok vs = (vs', tok', Inr ())"
  shows "runvar_reset loop v tok' vs'' = (vs'', tok', Inl (ValueError ''This token has already been used''))"
  using assms by (auto simp: runvar_reset_def split: if_splits prod.splits)

lemma runvar_token_own:
  "rt_var tok \<noteq> var_id v \<Longrightarrow>
     runvar_reset loop v tok vs = (vs, tok, Inl (ValueError ''This token does not belong to this RunVar''))"
  by (simp add: runvar_reset_def)

text \<open>Different variables of one name share their value, unlike context variables.\<close>

lemma runvar_same_name_shares:
  assumes "var_name v = var_name w"
  shows "snd (runvar_get loop w None (fst (runvar_set loop v x vs))) = Inr x"
  using assms by (simp add: runvar_get_value(1) runvar_set_value(1))

text \<open>Variables of other event loops do not change.\<close>

lemma runvar_set_local:
  "l \<noteq> loop \<Longrightarrow> snd (runvar_get l w d (fst (runvar_set loop v x vs))) = snd (runvar_get l w d vs)"
  by (simp add: runvar_get_value(1) runvar_set_value(1))

end
