(* ===== verification/TypedAttrs.thy ===== *)
theory TypedAttrs
  imports SocketHelpers
begin

text \<open>
  Typed extra attributes (\<open>src/anyio/_core/_typedattr.py\<close>), and the attributes and convenience
  methods that the base classes of \<open>src/anyio/abc/_sockets.py\<close>, \<open>_streams.py\<close> and \<open>_resources.py\<close>
  give to the classes of the backends. A getter is a function of the state it reads, so it is
  called when the attribute is asked for.
\<close>

section \<open>Attribute sets\<close>

text \<open>
  A class: its own names with and without annotation (\<open>None\<close> for the annotations when the class has
  no annotated name at all), and its base class, up to \<open>TypedAttributeSet\<close>, which has no public name.
\<close>

datatype attr_class = TypedAttributeSet | AttrClass "string list" "string list" attr_class

fun class_dir :: "attr_class \<Rightarrow> string list" where
  "class_dir TypedAttributeSet = []"
| "class_dir (AttrClass names anns base) = names @ class_dir base"

text \<open>\<open>getattr(cls, '__annotations__', {})\<close>: a class without annotations of its own finds its base's.\<close>

fun class_annotations :: "attr_class \<Rightarrow> string list" where
  "class_annotations TypedAttributeSet = []"
| "class_annotations (AttrClass names anns base) = (if anns = [] then class_annotations base else anns)"

definition missing_annotation :: "string \<Rightarrow> exn" where
  "missing_annotation name =
     TypeError (''Attribute '' @ [CHR 0x27] @ name @ [CHR 0x27] @ '' is missing its type annotation'')"

definition public :: "string \<Rightarrow> bool" where
  "public name \<longleftrightarrow> take 1 name \<noteq> ''_''"

definition init_subclass :: "attr_class \<Rightarrow> unit res" where
  "init_subclass c =
     (case filter (\<lambda>n. public n \<and> n \<notin> set (class_annotations c)) (class_dir c) of
        [] \<Rightarrow> Inr () | n # _ \<Rightarrow> Inl (missing_annotation n))"

lemma init_subclass_ok:
  "init_subclass c = Inr () \<longleftrightarrow> (\<forall>n \<in> set (class_dir c). public n \<longrightarrow> n \<in> set (class_annotations c))"
  by (auto simp: init_subclass_def filter_empty_conv split: list.splits
      dest: filter_eq_ConsD)

text \<open>
  A class derived directly from \<open>TypedAttributeSet\<close> is accepted exactly when every public name of it
  is annotated. A class derived from such a class that annotates a name of its own is refused as
  soon as the base has a public name it does not repeat, although that name is annotated there.
\<close>

lemma direct_subclass_checked:
  "init_subclass (AttrClass names anns TypedAttributeSet) = Inr () \<longleftrightarrow> (\<forall>n \<in> set names. public n \<longrightarrow> n \<in> set anns)"
  by (auto simp: init_subclass_ok)

lemma derived_class_refused:
  assumes "n \<in> set (class_dir base)" "public n" "anns \<noteq> []" "n \<notin> set anns"
  shows "init_subclass (AttrClass names anns base) \<noteq> Inr ()"
  using assms by (auto simp: init_subclass_ok)

section \<open>Providers\<close>

type_synonym ('k, 's, 'v) attributes = "('k \<times> ('s \<Rightarrow> 'v)) list"

definition extra ::
  "('k, 's, 'v res) attributes \<Rightarrow> 'k \<Rightarrow> 'v option \<Rightarrow> 's \<Rightarrow> 'v res"
where
  "extra attrs k dflt s =
     (case map_of attrs k of
        Some getter \<Rightarrow> getter s
      | None \<Rightarrow> (case dflt of None \<Rightarrow> Inl TypedAttributeLookupError | Some d \<Rightarrow> Inr d))"

text \<open>\<open>{**a, **b}\<close>: the later dictionary wins.\<close>

definition merge_attributes :: "('k, 's, 'v) attributes \<Rightarrow> ('k, 's, 'v) attributes \<Rightarrow> ('k, 's, 'v) attributes" where
  "merge_attributes a b = b @ a"

lemma extra_merge:
  "extra (merge_attributes a b) k d s = (if k \<in> fst ` set b then extra b k d s else extra a k d s)"
proof -
  have "k \<in> fst ` set b \<longleftrightarrow> map_of b k \<noteq> None" by (metis map_of_eq_None_iff)
  then show ?thesis by (auto simp: extra_def merge_attributes_def map_add_def)
qed

section \<open>Sockets\<close>

text \<open>
  \<open>_SocketProvider.extra_attributes\<close>. What the socket reports: its number, family and addresses (an
  error is an \<open>OSError\<close> of the system call); where the family has no ports a path, or the bytes of an
  address in the abstract namespace.
\<close>

datatype socket_attribute = SaFamily | SaLocalAddress | SaLocalPort | SaRawSocket | SaRemoteAddress | SaRemotePort

datatype raw_addr = RawIp sockaddr | RawPath string | RawBytes bytes

datatype attr_value = AvInt int | AvSocket nat | AvIp addr | AvPath string | AvBytes bytes

record netsock =
  ns_id :: nat
  ns_family :: int
  ns_name :: "raw_addr res"
  ns_peer :: "raw_addr res"

fun convert_addr :: "raw_addr \<Rightarrow> attr_value" where
  "convert_addr (RawIp sa) = AvIp (convert_ipv6_sockaddr sa)"
| "convert_addr (RawPath p) = AvPath p"
| "convert_addr (RawBytes b) = AvBytes b"

text \<open>\<open>address[1]\<close>.\<close>

fun path_second :: "string \<Rightarrow> attr_value res" where
  "path_second (_ # c # _) = Inr (AvPath [c])"
| "path_second _ = Inl IndexError"

fun bytes_second :: "bytes \<Rightarrow> attr_value res" where
  "bytes_second (_ # c # _) = Inr (AvInt (uint c))"
| "bytes_second _ = Inl IndexError"

fun addr_second :: "raw_addr \<Rightarrow> attr_value res" where
  "addr_second (RawIp (Addr2 h p)) = Inr (AvInt p)"
| "addr_second (RawIp (Addr4 h p f i)) = Inr (AvInt p)"
| "addr_second (RawPath p) = path_second p"
| "addr_second (RawBytes b) = bytes_second b"

fun value_second :: "attr_value \<Rightarrow> attr_value res" where
  "value_second (AvIp (h, p)) = Inr (AvInt p)"
| "value_second (AvPath p) = path_second p"
| "value_second (AvBytes b) = bytes_second b"
| "value_second _ = Inl IndexError"

definition is_ip_family :: "int \<Rightarrow> bool" where
  "is_ip_family f \<longleftrightarrow> f = af_inet \<or> f = af_inet6"

definition socket_peername :: "netsock \<Rightarrow> attr_value option res" where
  "socket_peername s =
     (case ns_peer s of
        Inr a \<Rightarrow> Inr (Some (convert_addr a))
      | Inl e \<Rightarrow> if is_oserror e then Inr None else Inl e)"

definition socket_attributes ::
  "netsock \<Rightarrow> (socket_attribute, netsock, attr_value res) attributes res"
where
  "socket_attributes s0 =
     bind_res (socket_peername s0) (\<lambda>peername.
       let ip = is_ip_family (ns_family s0);
           base = [(SaFamily, \<lambda>s. Inr (AvInt (ns_family s))),
                   (SaLocalAddress, \<lambda>s. map_res convert_addr (ns_name s)),
                   (SaRawSocket, \<lambda>s. Inr (AvSocket (ns_id s)))];
           remote = (case peername of Some p \<Rightarrow> [(SaRemoteAddress, \<lambda>_. Inr p)] | None \<Rightarrow> []);
           local_port = (if ip then [(SaLocalPort, \<lambda>s. bind_res (ns_name s) addr_second)] else [])
       in case (if ip then peername else None) of
            None \<Rightarrow> Inr (local_port @ remote @ base)
          | Some p \<Rightarrow> map_res (\<lambda>port. (SaRemotePort, \<lambda>_. Inr port) # local_port @ remote @ base) (value_second p))"

text \<open>\<open>stream.extra(attribute)\<close> of a socket.\<close>

definition socket_extra :: "netsock \<Rightarrow> socket_attribute \<Rightarrow> attr_value option \<Rightarrow> attr_value res" where
  "socket_extra s k dflt = bind_res (socket_attributes s) (\<lambda>attrs. extra attrs k dflt s)"

definition no_attribute :: "attr_value option \<Rightarrow> attr_value res" where
  "no_attribute dflt = (case dflt of None \<Rightarrow> Inl TypedAttributeLookupError | Some d \<Rightarrow> Inr d)"

text \<open>The port of an IP address.\<close>

fun sockaddr_port :: "sockaddr \<Rightarrow> int" where
  "sockaddr_port (Addr2 h p) = p"
| "sockaddr_port (Addr4 h p f i) = p"

lemma addr_second_ip [simp]: "addr_second (RawIp sa) = Inr (AvInt (sockaddr_port sa))"
  by (cases sa) simp_all

lemma value_second_ip [simp]: "value_second (AvIp (convert_ipv6_sockaddr sa)) = Inr (AvInt (sockaddr_port sa))"
  by (cases sa) (simp_all add: convert_ipv6_sockaddr_def)

text \<open>
  the attributes of an IP socket: the local address in the two-part form and its port; the remote
  address and port if the socket is connected; an attribute that is not there gives the default or
  raises \<open>TypedAttributeLookupError\<close>.
\<close>

theorem ip_socket_extra:
  assumes "is_ip_family (ns_family s)" "ns_name s = Inr (RawIp here)"
    and "ns_peer s = Inr (RawIp there) \<or> ns_peer s = Inl (OSError n)"
  shows "socket_extra s k d =
    (case k of
       SaFamily \<Rightarrow> Inr (AvInt (ns_family s))
     | SaRawSocket \<Rightarrow> Inr (AvSocket (ns_id s))
     | SaLocalAddress \<Rightarrow> Inr (AvIp (convert_ipv6_sockaddr here))
     | SaLocalPort \<Rightarrow> Inr (AvInt (sockaddr_port here))
     | SaRemoteAddress \<Rightarrow>
         if ns_peer s = Inl (OSError n) then no_attribute d else Inr (AvIp (convert_ipv6_sockaddr there))
     | SaRemotePort \<Rightarrow>
         if ns_peer s = Inl (OSError n) then no_attribute d else Inr (AvInt (sockaddr_port there)))"
  using assms
  by (cases k)
    (auto simp: socket_extra_def socket_attributes_def socket_peername_def bind_res_def map_res_def
      extra_def no_attribute_def Let_def is_oserror_def)

lemma ip_socket_extra_witness:
  "socket_extra \<lparr>ns_id = 5, ns_family = 10, ns_name = Inr (RawIp (Addr4 ''fe80::1'' 80 0 0)), ns_peer = Inl (OSError 107)\<rparr>
     SaLocalAddress None = Inr (AvIp (''fe80::1'', 80))"
  using ip_socket_extra [of "\<lparr>ns_id = 5, ns_family = 10, ns_name = Inr (RawIp (Addr4 ''fe80::1'' 80 0 0)), ns_peer = Inl (OSError 107)\<rparr>"
      "Addr4 ''fe80::1'' 80 0 0" _ 107 SaLocalAddress None]
  by (simp add: is_ip_family_def af_inet6_def convert_ipv6_sockaddr_def before_percent_def dec_int_def dec_nat.simps)

text \<open>A UNIX socket has no ports; its address is a path.\<close>

lemma unix_socket_extra:
  assumes "\<not> is_ip_family (ns_family s)" "ns_name s = Inr (RawPath p)" "ns_peer s = Inl (OSError n)"
  shows "socket_extra s SaLocalAddress d = Inr (AvPath p)" "socket_extra s SaLocalPort d = no_attribute d"
    "socket_extra s SaRemoteAddress d = no_attribute d" "socket_extra s SaRemotePort d = no_attribute d"
  using assms
  by (simp_all add: socket_extra_def socket_attributes_def socket_peername_def bind_res_def map_res_def
      extra_def no_attribute_def Let_def is_oserror_def)

section \<open>Iterating over streams\<close>

text \<open>\<open>__anext__\<close> of receive streams: the end of the stream ends the iteration.\<close>

definition stream_anext :: "'a awaited \<Rightarrow> 'a res" where
  "stream_anext r =
     (case r of Resumed x \<Rightarrow> Inr x
      | Thrown e \<Rightarrow> Inl (if e = EndOfStream then StopAsyncIteration else e))"

text \<open>\<open>sendto\<close> of UDP and UNIX datagram sockets is \<open>send\<close> of a pair.\<close>

definition sendto_item :: "'d \<Rightarrow> string \<Rightarrow> int \<Rightarrow> 'd \<times> addr" where
  "sendto_item data host port = (data, (host, port))"

definition sendto_path_item :: "'d \<Rightarrow> string \<Rightarrow> 'd \<times> string" where
  "sendto_path_item data path = (data, path)"

section \<open>Serving connections\<close>

text \<open>
  \<open>SocketListener.serve\<close>: whether the task group is its own; \<open>SvLeave e\<close> is the end of that group's
  block with the exception \<open>e\<close>. \<open>start_soon\<close> takes the stream or raises.
\<close>

datatype serve_pc = SvAccept bool | SvLeave exn

record 'c serving =
  sv_accepted :: "'c list"
  sv_started :: "'c list"

definition serve_start :: "bool \<Rightarrow> (serve_pc, unit) outcome" where
  "serve_start given = Suspended (SvAccept (\<not> given))"

definition serve_failed :: "bool \<Rightarrow> exn \<Rightarrow> (serve_pc, unit) outcome" where
  "serve_failed own e = (if own then Suspended (SvLeave e) else Raised e)"

text \<open>\<open>swallowed\<close> says whether the \<open>__aexit__\<close> of the own group returned \<open>True\<close>.\<close>

fun serve_resume ::
  "serve_pc \<Rightarrow> 'c awaited \<Rightarrow> unit res \<Rightarrow> bool \<Rightarrow> 'c serving \<Rightarrow> 'c serving \<times> (serve_pc, unit) outcome"
where
  "serve_resume (SvAccept own) (Resumed c) started swallowed s =
     (let s1 = s\<lparr>sv_accepted := sv_accepted s @ [c]\<rparr> in
      case started of
        Inr _ \<Rightarrow> (s1\<lparr>sv_started := sv_started s1 @ [c]\<rparr>, Suspended (SvAccept own))
      | Inl e \<Rightarrow> (s1, serve_failed own e))"
| "serve_resume (SvAccept own) (Thrown e) started swallowed s = (s, serve_failed own e)"
| "serve_resume (SvLeave e) (Resumed _) started swallowed s = (s, if swallowed then Done () else Raised e)"
| "serve_resume (SvLeave e) (Thrown e') started swallowed s = (s, Raised e')"

inductive serve_reach :: "'c serving \<Rightarrow> (serve_pc, unit) outcome \<Rightarrow> bool" where
  sr_start: "serve_reach \<lparr>sv_accepted = [], sv_started = []\<rparr> (serve_start given)"
| sr_step: "serve_reach s (Suspended pc) \<Longrightarrow> serve_resume pc r started swallowed s = (s', x) \<Longrightarrow> serve_reach s' x"

text \<open>
  While it serves, every accepted connection has been given to a handler, in order; a listener stops
  only by an exception, and then at most the last connection has no handler (when \<open>start_soon\<close>
  raised).
\<close>

lemma serve_handles_all:
  assumes "serve_reach s x"
  shows "(case x of Suspended (SvAccept _) \<Rightarrow> sv_started s = sv_accepted s
    | _ \<Rightarrow> sv_started s = sv_accepted s \<or> sv_started s = butlast (sv_accepted s))"
  using assms
proof (induction rule: serve_reach.induct)
  case (sr_start given)
  then show ?case by (simp add: serve_start_def)
next
  case (sr_step s pc r started swallowed s' x)
  then show ?case
    by (cases pc; cases r)
      (auto simp: serve_failed_def Let_def split: sum.splits if_splits)
qed

section \<open>Types of the attributes\<close>

text \<open>
  The declared types: \<open>family: AddressFamily\<close>, \<open>local_port: int\<close>, \<open>local_address: SockAddrType\<close>, a pair or
  a string, and so on.
\<close>

fun attr_value_ok :: "socket_attribute \<Rightarrow> attr_value \<Rightarrow> bool" where
  "attr_value_ok SaFamily v = (case v of AvInt _ \<Rightarrow> True | _ \<Rightarrow> False)"
| "attr_value_ok SaLocalPort v = (case v of AvInt _ \<Rightarrow> True | _ \<Rightarrow> False)"
| "attr_value_ok SaRemotePort v = (case v of AvInt _ \<Rightarrow> True | _ \<Rightarrow> False)"
| "attr_value_ok SaRawSocket v = (case v of AvSocket _ \<Rightarrow> True | _ \<Rightarrow> False)"
| "attr_value_ok SaLocalAddress v = (case v of AvIp _ \<Rightarrow> True | AvPath _ \<Rightarrow> True | _ \<Rightarrow> False)"
| "attr_value_ok SaRemoteAddress v = (case v of AvIp _ \<Rightarrow> True | AvPath _ \<Rightarrow> True | _ \<Rightarrow> False)"

text \<open>A socket of an IP family has IP addresses.\<close>

definition netsock_ok :: "netsock \<Rightarrow> bool" where
  "netsock_ok s \<longleftrightarrow> (is_ip_family (ns_family s) \<longrightarrow>
     (\<forall>a. ns_name s = Inr a \<or> ns_peer s = Inr a \<longrightarrow> (\<exists>sa. a = RawIp sa)))"

lemma attribute_sources:
  assumes "socket_attributes s = Inr attrs" "map_of attrs k = Some getter" "getter s = Inr v"
  shows "case k of
      SaFamily \<Rightarrow> v = AvInt (ns_family s)
    | SaRawSocket \<Rightarrow> v = AvSocket (ns_id s)
    | SaLocalAddress \<Rightarrow> \<exists>a. ns_name s = Inr a \<and> v = convert_addr a
    | SaRemoteAddress \<Rightarrow> \<exists>a. ns_peer s = Inr a \<and> v = convert_addr a
    | SaLocalPort \<Rightarrow> is_ip_family (ns_family s) \<and> (\<exists>a. ns_name s = Inr a \<and> addr_second a = Inr v)
    | SaRemotePort \<Rightarrow> is_ip_family (ns_family s) \<and> (\<exists>a. ns_peer s = Inr a \<and> value_second (convert_addr a) = Inr v)"
proof (cases "ns_peer s")
  case (Inl e)
  then have "is_oserror e" using assms(1)
    by (simp add: socket_attributes_def socket_peername_def bind_res_def split: if_splits)
  then show ?thesis
    using assms Inl
    by (cases k; cases "ns_name s"; cases "is_ip_family (ns_family s)")
      (simp_all add: socket_attributes_def socket_peername_def bind_res_def map_res_def
        split: if_splits, (auto)?)
next
  case (Inr a)
  show ?thesis
    using assms Inr
    by (cases "value_second (convert_addr a)"; cases k; cases "ns_name s"; cases "is_ip_family (ns_family s)")
      (simp_all add: socket_attributes_def socket_peername_def bind_res_def map_res_def
        split: if_splits, (auto)?)
qed

text \<open>Which attributes a socket has, and the address of one in the abstract namespace.\<close>

definition has_attribute :: "netsock \<Rightarrow> socket_attribute \<Rightarrow> bool" where
  "has_attribute s k \<longleftrightarrow>
     (case k of
        SaLocalPort \<Rightarrow> is_ip_family (ns_family s)
      | SaRemoteAddress \<Rightarrow> \<exists>a. ns_peer s = Inr a
      | SaRemotePort \<Rightarrow> is_ip_family (ns_family s) \<and> (\<exists>a. ns_peer s = Inr a)
      | _ \<Rightarrow> True)"

definition abstract_address :: "netsock \<Rightarrow> socket_attribute \<Rightarrow> attr_value \<Rightarrow> bool" where
  "abstract_address s k v \<longleftrightarrow>
     (\<exists>b. v = AvBytes b \<and> (k = SaLocalAddress \<and> ns_name s = Inr (RawBytes b) \<or>
                         k = SaRemoteAddress \<and> ns_peer s = Inr (RawBytes b)))"

lemma attributes_present:
  "socket_attributes s = Inr attrs \<Longrightarrow> map_of attrs k \<noteq> None \<longleftrightarrow> has_attribute s k"
  by (cases "ns_peer s"; cases k)
    (auto simp: socket_attributes_def socket_peername_def bind_res_def map_res_def has_attribute_def Let_def
      split: if_splits sum.splits)

lemma getters_typed:
  assumes "netsock_ok s" "socket_attributes s = Inr attrs" "map_of attrs k = Some getter" "getter s = Inr v"
  shows "attr_value_ok k v \<or> abstract_address s k v"
proof -
  note src = attribute_sources [OF assms(2-4)]
  have addr: "(case convert_addr x of AvIp _ \<Rightarrow> True | AvPath _ \<Rightarrow> True | _ \<Rightarrow> False) \<or> (\<exists>b. x = RawBytes b)" for x
    by (cases x) simp_all
  show ?thesis
  proof (cases k)
    case SaLocalPort
    with src assms(1) obtain sa where "addr_second (RawIp sa) = Inr v" by (auto simp: netsock_ok_def)
    then show ?thesis using SaLocalPort by auto
  next
    case SaRemotePort
    with src assms(1) obtain sa where "value_second (convert_addr (RawIp sa)) = Inr v" by (auto simp: netsock_ok_def)
    then show ?thesis using SaRemotePort by auto
  next
    case SaLocalAddress
    with src obtain a where "ns_name s = Inr a" "v = convert_addr a" by auto
    then show ?thesis using SaLocalAddress addr [of a] by (auto simp: abstract_address_def)
  next
    case SaRemoteAddress
    with src obtain a where "ns_peer s = Inr a" "v = convert_addr a" by auto
    then show ?thesis using SaRemoteAddress addr [of a] by (auto simp: abstract_address_def)
  qed (use src in auto)
qed

text \<open>
  C34: whatever attribute of a socket is asked for, connected or not, IP or UNIX: if the socket has the
  attribute, then a value that is returned has the type its declaration in \<open>SocketAttribute\<close> names,
  but for one case, the address of a UNIX socket in the abstract namespace, which is \<open>bytes\<close>, where
  \<open>SockAddrType\<close> has only pairs and strings. If it has not, the caller gets its default. Otherwise
  there is an exception.
\<close>

theorem socket_extra_typed:
  assumes "netsock_ok s" "socket_extra s k dflt = Inr v"
  shows "if has_attribute s k then attr_value_ok k v \<or> abstract_address s k v else dflt = Some v"
proof -
  from assms(2) obtain attrs where attrs: "socket_attributes s = Inr attrs" "extra attrs k dflt s = Inr v"
    by (auto simp: socket_extra_def bind_res_def split: sum.splits)
  note has = attributes_present [OF attrs(1), of k]
  show ?thesis
  proof (cases "map_of attrs k")
    case None
    then show ?thesis using has attrs(2) by (simp add: extra_def split: option.splits)
  next
    case (Some getter)
    then have "getter s = Inr v" using attrs(2) by (simp add: extra_def)
    from getters_typed [OF assms(1) attrs(1) Some this] show ?thesis using has Some by simp
  qed
qed

lemma socket_extra_typed_witness:
  "\<exists>v. socket_extra \<lparr>ns_id = 5, ns_family = 2, ns_name = Inr (RawIp (Addr2 ''::1'' 80)), ns_peer = Inl (OSError 107)\<rparr>
     SaLocalPort None = Inr v \<and> attr_value_ok SaLocalPort v"
proof -
  let ?s = "\<lparr>ns_id = 5, ns_family = 2, ns_name = Inr (RawIp (Addr2 ''::1'' 80)), ns_peer = Inl (OSError 107)\<rparr>"
  have "socket_extra ?s SaLocalPort None = Inr (AvInt 80)"
    using ip_socket_extra [of ?s "Addr2 ''::1'' 80" _ 107 SaLocalPort None]
    by (simp add: is_ip_family_def af_inet_def)
  moreover have "netsock_ok ?s" by (simp add: netsock_ok_def)
  moreover have "has_attribute ?s SaLocalPort" "\<not> abstract_address ?s SaLocalPort (AvInt 80)"
    by (simp_all add: has_attribute_def abstract_address_def is_ip_family_def af_inet_def)
  ultimately show ?thesis using socket_extra_typed [of ?s SaLocalPort None "AvInt 80"] by auto
qed

text \<open>The case of the abstract namespace does happen.\<close>

lemma abstract_socket_extra:
  "socket_extra \<lparr>ns_id = 5, ns_family = 1, ns_name = Inr (RawPath []), ns_peer = Inr (RawBytes [0, 97])\<rparr> SaRemoteAddress None =
     Inr (AvBytes [0, 97]) \<and> \<not> attr_value_ok SaRemoteAddress (AvBytes [0, 97])"
  by (simp add: socket_extra_def socket_attributes_def socket_peername_def bind_res_def extra_def is_ip_family_def
      af_inet_def af_inet6_def)

end
