(* ===== verification/Signals.thy ===== *)
theory Signals
  imports Interfaces
begin

text \<open>
  Signal receivers (\<open>_SignalReceiver\<close> of \<open>src/anyio/_backends/_asyncio.py\<close>, behind
  \<open>open_signal_receiver\<close> of \<open>_core/_signals.py\<close>): the queue of signals, the future of the waiting
  iteration, and the handlers installed in the event loop. Futures are kept in the order in which
  they were made; \<open>_future\<close> is the number of one.
\<close>

record 'sig sigrec =
  sg_signals :: "'sig list"
  sg_queue :: "'sig list"
  sg_future :: nat
  sg_futs :: "unit future list"
  sg_handled :: "'sig list"

definition sig_new :: "'sig list \<Rightarrow> 'sig sigrec" where
  "sig_new sigs = \<lparr>sg_signals = sigs, sg_queue = [], sg_future = 0, sg_futs = [Pending], sg_handled = []\<rparr>"

definition sig_deliver :: "'sig \<Rightarrow> 'sig sigrec \<Rightarrow> 'sig sigrec" where
  "sig_deliver sig s =
     (let s1 = s\<lparr>sg_queue := sg_queue s @ [sig]\<rparr> in
      if fut_done (sg_futs s ! sg_future s) then s1
      else s1\<lparr>sg_futs := (sg_futs s)[sg_future s := FResult ()]\<rparr>)"

section \<open>Handlers\<close>

text \<open>
  \<open>__enter__\<close> goes through the set of signals (\<open>order\<close>); \<open>add\<close> is \<open>add_signal_handler\<close>, which raises
  for a signal that cannot be handled. The event loop's handlers are the signals it handles.
\<close>

fun sig_enter :: "('sig \<Rightarrow> unit res) \<Rightarrow> 'sig list \<Rightarrow> 'sig sigrec \<Rightarrow> 'sig set \<Rightarrow> 'sig sigrec \<times> 'sig set \<times> unit res" where
  "sig_enter add [] s hs = (s, hs, Inr ())"
| "sig_enter add (sig # order) s hs =
     (case add sig of
        Inl e \<Rightarrow> (s, hs, Inl e)
      | Inr _ \<Rightarrow> sig_enter add order (s\<lparr>sg_handled := sg_handled s @ [sig]\<rparr>) (insert sig hs))"

definition sig_exit :: "'sig sigrec \<Rightarrow> 'sig set \<Rightarrow> 'sig set" where
  "sig_exit s hs = fold (\<lambda>sig h. h - {sig}) (sg_handled s) hs"

lemma fold_remove: "fold (\<lambda>x h. h - {x}) xs hs = hs - set xs"
  by (induction xs arbitrary: hs) auto

lemma sig_enter_handled:
  "sig_enter add order s hs = (s', hs', Inr ()) \<Longrightarrow>
     sg_handled s' = sg_handled s @ order \<and> hs' = hs \<union> set order"
  by (induction add order s hs rule: sig_enter.induct) (auto split: sum.splits)

text \<open>A block around a receiver leaves no handler behind, when it could be entered.\<close>

lemma sig_block_restores:
  assumes "sig_enter add order (sig_new sigs) hs = (s, hs', Inr ())" "set order \<inter> hs = {}"
  shows "sig_exit s hs' = hs"
  using sig_enter_handled [OF assms(1)] assms(2) by (auto simp: sig_exit_def fold_remove sig_new_def)

text \<open>When entering fails, \<open>__exit__\<close> does not run, and the handlers installed so far stay.\<close>

lemma sig_enter_leaks:
  "add 2 = Inr () \<Longrightarrow> add 9 = Inl e \<Longrightarrow>
     snd (sig_enter add [2 :: nat, 9] (sig_new [2, 9]) {}) = ({2}, Inl e)"
  by simp

section \<open>Iteration\<close>

datatype sig_pc = SgCheckpoint | SgWait nat

definition sig_next_start :: "(sig_pc, 'sig) outcome" where
  "sig_next_start = Suspended SgCheckpoint"

definition sig_pop :: "'sig sigrec \<Rightarrow> 'sig sigrec \<times> (sig_pc, 'sig) outcome" where
  "sig_pop s =
     (case sg_queue s of
        [] \<Rightarrow> (s, Raised IndexError)
      | sig # q \<Rightarrow> (s\<lparr>sg_queue := q\<rparr>, Done sig))"

fun sig_next_resume :: "sig_pc \<Rightarrow> unit awaited \<Rightarrow> 'sig sigrec \<Rightarrow> 'sig sigrec \<times> (sig_pc, 'sig) outcome" where
  "sig_next_resume pc (Thrown e) s = (s, Raised e)"
| "sig_next_resume SgCheckpoint (Resumed _) s =
     (if sg_queue s = []
      then (s\<lparr>sg_future := length (sg_futs s), sg_futs := sg_futs s @ [Pending]\<rparr>, Suspended (SgWait (length (sg_futs s))))
      else sig_pop s)"
| "sig_next_resume (SgWait f) (Resumed _) s = sig_pop s"

text \<open>The queue of a receiver is a channel.\<close>

definition sig_put :: "'sig \<Rightarrow> 'sig sigrec \<Rightarrow> 'sig sigrec \<times> unit res" where
  "sig_put sig s = (sig_deliver sig s, Inr ())"

definition sig_get :: "'sig sigrec \<Rightarrow> 'sig sigrec \<times> 'sig res" where
  "sig_get s = (case sig_pop s of (s', Done sig) \<Rightarrow> (s', Inr sig) | (s', Raised e) \<Rightarrow> (s', Inl e)
     | (s', Suspended _) \<Rightarrow> (s', Inl WouldBlock))"

lemma sig_deliver_queue [simp]: "sg_queue (sig_deliver sig s) = sg_queue s @ [sig]"
  by (simp add: sig_deliver_def Let_def)

interpretation sigchan: fifo_channel "\<lambda>_. True" sg_queue sig_put sig_get
proof
  show "sig_put x s = (s', Inr ()) \<Longrightarrow> True \<and> sg_queue s' = sg_queue s @ [x]" for x and s s' :: "'sig sigrec"
    by (auto simp: sig_put_def)
  show "sg_queue s = x # xs \<Longrightarrow> \<exists>s'. sig_get s = (s', Inr x) \<and> True \<and> sg_queue s' = xs" for x xs and s :: "'sig sigrec"
    by (simp add: sig_get_def sig_pop_def)
  show "sg_queue s = [] \<Longrightarrow> \<exists>e. sig_get s = (s, Inl e)" for s :: "'sig sigrec"
    by (simp add: sig_get_def sig_pop_def)
qed

section \<open>Iterating tasks\<close>

text \<open>
  Tasks iterate over one receiver while signals arrive. The system keeps the signals delivered and
  those each iteration returned, in order. A task waiting for a future goes on once it is done; the
  checkpoint of a task can end at any time, and a task can be cancelled where it waits (which
  cancels the future it waits for).
\<close>

record 'sig sigsys =
  sy_rec :: "'sig sigrec"
  sy_tasks :: "(task \<times> sig_pc) list"
  sy_delivered :: "'sig list"
  sy_returned :: "'sig list"
  sy_errors :: "exn list"

datatype 'sig sig_action = SaSignal 'sig | SaNext task | SaRun task | SaCancel task | SaThrow task exn

definition sig_settle :: "task \<Rightarrow> 'sig sigsys \<Rightarrow> 'sig sigrec \<times> (sig_pc, 'sig) outcome \<Rightarrow> 'sig sigsys" where
  "sig_settle t y r =
     (case r of
        (s, Suspended pc) \<Rightarrow> y\<lparr>sy_rec := s, sy_tasks := (t, pc) # filter (\<lambda>p. fst p \<noteq> t) (sy_tasks y)\<rparr>
      | (s, Done sig) \<Rightarrow>
          y\<lparr>sy_rec := s, sy_tasks := filter (\<lambda>p. fst p \<noteq> t) (sy_tasks y), sy_returned := sy_returned y @ [sig]\<rparr>
      | (s, Raised e) \<Rightarrow>
          y\<lparr>sy_rec := s, sy_tasks := filter (\<lambda>p. fst p \<noteq> t) (sy_tasks y), sy_errors := sy_errors y @ [e]\<rparr>)"

fun sig_ready :: "'sig sigrec \<Rightarrow> sig_pc \<Rightarrow> unit awaited option" where
  "sig_ready s SgCheckpoint = Some (Resumed ())"
| "sig_ready s (SgWait f) = fut_await (sg_futs s ! f)"

fun sig_act :: "'sig sig_action \<Rightarrow> 'sig sigsys \<Rightarrow> 'sig sigsys option" where
  "sig_act (SaSignal sig) y =
     Some (y\<lparr>sy_rec := sig_deliver sig (sy_rec y), sy_delivered := sy_delivered y @ [sig]\<rparr>)"
| "sig_act (SaNext t) y =
     (if t \<in> fst ` set (sy_tasks y) then None else Some (sig_settle t y (sy_rec y, sig_next_start)))"
| "sig_act (SaRun t) y =
     (case map_of (sy_tasks y) t of
        None \<Rightarrow> None
      | Some pc \<Rightarrow>
          (case sig_ready (sy_rec y) pc of
             None \<Rightarrow> None
           | Some r \<Rightarrow> Some (sig_settle t y (sig_next_resume pc r (sy_rec y)))))"
| "sig_act (SaCancel t) y =
     (case map_of (sy_tasks y) t of
        Some (SgWait f) \<Rightarrow>
          Some (y\<lparr>sy_rec := (sy_rec y)\<lparr>sg_futs := (sg_futs (sy_rec y))[f := fut_cancel (sg_futs (sy_rec y) ! f)]\<rparr>\<rparr>)
      | _ \<Rightarrow> None)"
| "sig_act (SaThrow t e) y =
     (case map_of (sy_tasks y) t of
        None \<Rightarrow> None
      | Some pc \<Rightarrow> Some (sig_settle t y (sig_next_resume pc (Thrown e) (sy_rec y))))"

definition sigsys_new :: "'sig list \<Rightarrow> 'sig sigsys" where
  "sigsys_new sigs = \<lparr>sy_rec = sig_new sigs, sy_tasks = [], sy_delivered = [], sy_returned = [], sy_errors = []\<rparr>"

fun sig_run :: "'sig sig_action list \<Rightarrow> 'sig sigsys \<Rightarrow> 'sig sigsys option" where
  "sig_run [] y = Some y"
| "sig_run (a # as) y = Option.bind (sig_act a y) (sig_run as)"

inductive sig_reach :: "'sig sigsys \<Rightarrow> bool" where
  sg_init: "sig_reach (sigsys_new sigs)"
| sg_act: "sig_reach y \<Longrightarrow> sig_act a y = Some y' \<Longrightarrow> sig_reach y'"

lemma sig_run_reach: "sig_run as y = Some y' \<Longrightarrow> sig_reach y \<Longrightarrow> sig_reach y'"
  by (induction as y rule: sig_run.induct) (auto intro: sg_act split: Option.bind_splits)

text \<open>
  every signal delivered is returned by an iteration exactly once, in the order of delivery, or
  still in the queue, whatever tasks iterate and are cancelled.
\<close>

theorem signals_conserved:
  assumes "sig_reach y"
  shows "sy_returned y @ sg_queue (sy_rec y) = sy_delivered y"
  using assms
proof (induction rule: sig_reach.induct)
  case (sg_init sigs)
  then show ?case by (simp add: sigsys_new_def sig_new_def)
next
  case (sg_act y a y')
  have next': "sy_returned (sig_settle t y (sig_next_resume pc r (sy_rec y))) @
      sg_queue (sy_rec (sig_settle t y (sig_next_resume pc r (sy_rec y)))) = sy_delivered (sig_settle t y (sig_next_resume pc r (sy_rec y)))"
    for t pc r
    using sg_act.IH
    by (cases "(pc, r, sy_rec y)" rule: sig_next_resume.cases)
      (auto simp: sig_settle_def sig_pop_def split: list.splits)
  show ?case
    using sg_act.hyps(2) sg_act.IH next'
    by (cases a) (auto simp: sig_settle_def sig_next_start_def split: if_splits option.splits sig_pc.splits)
qed

lemma signals_conserved_witness:
  "\<exists>y. sig_run [SaNext 0, SaRun 0, SaSignal (2 :: nat), SaSignal 15, SaRun 0] (sigsys_new [2, 15]) = Some y \<and>
     sy_returned y @ sg_queue (sy_rec y) = [2, 15] \<and> sy_returned y = [2]"
proof -
  obtain y where y: "sig_run [SaNext 0, SaRun 0, SaSignal (2 :: nat), SaSignal 15, SaRun 0] (sigsys_new [2, 15]) = Some y"
      "sy_delivered y = [2, 15]" "sy_returned y = [2]"
    by (simp add: sigsys_new_def sig_new_def sig_settle_def sig_next_start_def sig_deliver_def sig_pop_def Let_def)
  from signals_conserved [OF sig_run_reach [OF y(1) sg_init]] y show ?thesis by simp
qed

text \<open>
  C0: one task iterating: no signal is missed. Whenever the queue is not empty the waiting task can go
  on, it never finds the queue empty when it does, and no iteration raises by itself.
\<close>

definition one_iterates :: "'sig sigsys \<Rightarrow> bool" where
  "one_iterates y \<longleftrightarrow> length (sy_tasks y) \<le> 1"

inductive sig_reach1 :: "'sig sigsys \<Rightarrow> bool" where
  s1_init: "sig_reach1 (sigsys_new sigs)"
| s1_act: "sig_reach1 y \<Longrightarrow> sig_act a y = Some y' \<Longrightarrow> one_iterates y' \<Longrightarrow> sig_reach1 y'"

definition sig_inv :: "'sig sigsys \<Rightarrow> bool" where
  "sig_inv y \<longleftrightarrow> one_iterates y \<and> sg_future (sy_rec y) < length (sg_futs (sy_rec y)) \<and>
     (\<forall>t f. (t, SgWait f) \<in> set (sy_tasks y) \<longrightarrow> f = sg_future (sy_rec y) \<and>
        (sg_queue (sy_rec y) \<noteq> [] \<longrightarrow> fut_done (sg_futs (sy_rec y) ! f)) \<and>
        (sg_futs (sy_rec y) ! f = FResult () \<longrightarrow> sg_queue (sy_rec y) \<noteq> []) \<and>
        (\<forall>e. sg_futs (sy_rec y) ! f \<noteq> FFailed e))"

lemma sig_inv_settle:
  assumes "sig_inv y" "map_of (sy_tasks y) t = Some pc" "one_iterates (sig_settle t y (sig_next_resume pc r (sy_rec y)))"
  shows "sig_inv (sig_settle t y (sig_next_resume pc r (sy_rec y)))"
proof -
  have only: "filter (\<lambda>p. fst p \<noteq> t) (sy_tasks y) = []"
    using assms(1,2) by (cases "sy_tasks y") (auto simp: sig_inv_def one_iterates_def split: if_splits)
  show ?thesis
    using assms(1,3) only
    by (cases "(pc, r, sy_rec y)" rule: sig_next_resume.cases)
      (auto simp: sig_inv_def one_iterates_def sig_settle_def sig_pop_def split: list.splits)
qed

lemma sig_inv_act: "sig_inv y \<Longrightarrow> sig_act a y = Some y' \<Longrightarrow> one_iterates y' \<Longrightarrow> sig_inv y'"
proof (induction a y rule: sig_act.induct)
  case (1 sig y)
  let ?s = "sy_rec y"
  from 1 have y': "y' = y\<lparr>sy_rec := sig_deliver sig ?s, sy_delivered := sy_delivered y @ [sig]\<rparr>" by simp
  have d: "sg_future (sig_deliver sig ?s) = sg_future ?s"
    "sg_futs (sig_deliver sig ?s) = (if fut_done (sg_futs ?s ! sg_future ?s) then sg_futs ?s
       else (sg_futs ?s)[sg_future ?s := FResult ()])"
    by (simp_all add: sig_deliver_def Let_def)
  show ?case using 1(1) unfolding y' by (auto simp: sig_inv_def one_iterates_def d)
next
  case (2 t y)
  then show ?case
    by (auto simp: sig_inv_def one_iterates_def sig_settle_def sig_next_start_def split: if_splits)
next
  case (3 t y)
  then show ?case by (auto split: option.splits intro: sig_inv_settle)
next
  case (4 t y)
  then obtain f where f: "map_of (sy_tasks y) t = Some (SgWait f)"
    and y': "y' = y\<lparr>sy_rec := (sy_rec y)\<lparr>sg_futs := (sg_futs (sy_rec y))[f := fut_cancel (sg_futs (sy_rec y) ! f)]\<rparr>\<rparr>"
    by (auto split: option.splits sig_pc.splits)
  have "f = sg_future (sy_rec y)" using 4(1) map_of_SomeD [OF f] by (auto simp: sig_inv_def)
  then show ?case using 4(1) unfolding y'
    by (auto simp: sig_inv_def one_iterates_def fut_cancel_def fut_done_def)
next
  case (5 t e y)
  then obtain pc where "map_of (sy_tasks y) t = Some pc"
    "y' = sig_settle t y (sig_next_resume pc (Thrown e) (sy_rec y))"
    by (auto split: option.splits)
  with 5(1,3) show ?case using sig_inv_settle by metis
qed

lemma sig_inv_reach: "sig_reach1 y \<Longrightarrow> sig_inv y"
proof (induction rule: sig_reach1.induct)
  case (s1_init sigs)
  show ?case by (simp add: sig_inv_def one_iterates_def sigsys_new_def sig_new_def)
next
  case (s1_act y a y')
  then show ?case by (blast intro: sig_inv_act)
qed

text \<open>
  C37: with one task iterating at a time no signal is missed: while a signal is in the queue the
  waiting task can go on, and an iteration that goes on (not cancelled) returns a signal or waits; it
  never finds the queue empty.
\<close>

theorem one_consumer_misses_nothing:
  assumes "sig_reach1 y" "map_of (sy_tasks y) t = Some pc"
  shows "(sg_queue (sy_rec y) \<noteq> [] \<longrightarrow> sig_ready (sy_rec y) pc \<noteq> None) \<and>
    (sig_ready (sy_rec y) pc = Some (Resumed ()) \<longrightarrow>
       (\<forall>e. snd (sig_next_resume pc (Resumed ()) (sy_rec y)) \<noteq> Raised e))"
proof (cases pc)
  case SgCheckpoint
  then show ?thesis by (auto simp: sig_pop_def split: list.splits)
next
  case (SgWait f)
  have inv: "sg_queue (sy_rec y) \<noteq> [] \<longrightarrow> fut_done (sg_futs (sy_rec y) ! f)"
    "sg_futs (sy_rec y) ! f = FResult () \<longrightarrow> sg_queue (sy_rec y) \<noteq> []"
    using sig_inv_reach [OF assms(1)] map_of_SomeD [OF assms(2)] SgWait by (auto simp: sig_inv_def)
  show ?thesis
    using inv SgWait by (cases "sg_futs (sy_rec y) ! f") (auto simp: sig_pop_def split: list.splits)
qed

lemma one_consumer_misses_nothing_witness:
  "\<exists>y :: nat sigsys. sig_reach1 y \<and> sg_queue (sy_rec y) \<noteq> [] \<and> map_of (sy_tasks y) 0 = Some (SgWait 1) \<and>
     sig_ready (sy_rec y) (SgWait 1) \<noteq> None"
proof -
  define y0 where "y0 = sigsys_new [2 :: nat]"
  define y1 where "y1 = the (sig_act (SaNext 0) y0)"
  define y2 where "y2 = the (sig_act (SaRun 0) y1)"
  define y3 where "y3 = the (sig_act (SaSignal 2) y2)"
  note defs = y0_def y1_def y2_def y3_def sigsys_new_def sig_new_def sig_settle_def sig_next_start_def
    sig_deliver_def one_iterates_def Let_def
  have "sig_reach1 y0" unfolding y0_def by (rule s1_init)
  then have "sig_reach1 y1" by (rule s1_act [where a = "SaNext 0"]) (simp_all add: defs)
  then have "sig_reach1 y2" by (rule s1_act [where a = "SaRun 0"]) (simp_all add: defs)
  then have r: "sig_reach1 y3" by (rule s1_act [where a = "SaSignal 2"]) (simp_all add: defs)
  have "map_of (sy_tasks y3) 0 = Some (SgWait 1)" "sg_queue (sy_rec y3) \<noteq> []" by (simp_all add: defs)
  with one_consumer_misses_nothing [OF r this(1)] r show ?thesis by blast
qed

text \<open>
  Two tasks iterating over one receiver: the second replaces the future the first waits for, so the
  first sleeps on beside a signal; or the first is woken for a signal the second takes, and raises
  \<open>IndexError\<close>.
\<close>

lemma second_consumer_strands:
  "\<exists>y. sig_run [SaNext 0, SaRun 0, SaNext 1, SaRun 1, SaSignal (2 :: nat), SaSignal 2, SaRun 1] (sigsys_new [2]) = Some y \<and>
     sg_queue (sy_rec y) = [2] \<and> map_of (sy_tasks y) 0 = Some (SgWait 1) \<and> sig_act (SaRun 0) y = None"
  by (simp add: sigsys_new_def sig_new_def sig_settle_def sig_next_start_def sig_deliver_def sig_pop_def Let_def
      nth_append)

lemma second_consumer_steals:
  "\<exists>y. sig_run [SaNext 0, SaRun 0, SaNext 1, SaSignal (2 :: nat), SaRun 1, SaRun 0] (sigsys_new [2]) = Some y \<and>
     sy_returned y = [2] \<and> sy_errors y = [IndexError]"
  by (simp add: sigsys_new_def sig_new_def sig_settle_def sig_next_start_def sig_deliver_def sig_pop_def Let_def
      nth_append)

end
