(* ===== verification/TrioSockets.thy ===== *)
theory TrioSockets
  imports RawSockets SocketHelpers
begin

text \<open>
  The trio backend (\<open>src/anyio/_backends/_trio.py\<close>): exceptions of trio as values, and its sockets:
  streams with descriptor passing, listeners, datagram sockets and the functions that open them. Trio
  is a parameter: what an operation of it returns or raises is an argument of the definition that
  follows the operation. \<open>tk_open\<close> is \<open>fileno() >= 0\<close> of the trio socket.
\<close>

section \<open>Exceptions and coroutines of trio\<close>

datatype texn =
    TrioCancelled | TrioClosed | TrioBroken | TrioBusy | TrioWouldBlock
  | PyExn exn
  | TrioGroup string "texn list"

type_synonym 'a tres = "texn + 'a"

datatype 'v tawaited = TResumed 'v | TThrown texn

datatype ('w, 'a) toutcome = TDone 'a | TRaised texn | TSuspended 'w

fun of_tres :: "'a tres \<Rightarrow> ('w, 'a) toutcome" where
  "of_tres (Inl e) = TRaised e"
| "of_tres (Inr v) = TDone v"

definition is_toserror :: "texn \<Rightarrow> bool" where
  "is_toserror e \<longleftrightarrow> (case e of PyExn x \<Rightarrow> is_oserror x | _ \<Rightarrow> False)"

lemma is_toserror_simps [simp]:
  "\<not> is_toserror TrioCancelled" "\<not> is_toserror TrioClosed" "\<not> is_toserror TrioBroken"
  "\<not> is_toserror TrioBusy" "\<not> is_toserror TrioWouldBlock" "is_toserror (PyExn x) = is_oserror x"
  "\<not> is_toserror (TrioGroup m es)"
  by (simp_all add: is_toserror_def)

section \<open>_TrioSocketMixin\<close>

record tsock =
  tk_open :: bool
  tk_closed :: bool
  tk_in :: guard
  tk_out :: guard

definition trio_stream_new :: tsock where
  "trio_stream_new = \<lparr>tk_open = True, tk_closed = False, tk_in = guard_new ''reading from'', tk_out = guard_new ''writing to''\<rparr>"

definition trio_listener_new :: tsock where
  "trio_listener_new =
     \<lparr>tk_open = True, tk_closed = False, tk_in = guard_new ''accepting connections from'', tk_out = guard_new []\<rparr>"

definition trio_check_closed :: "tsock \<Rightarrow> unit tres" where
  "trio_check_closed s =
     (if tk_closed s then Inl (PyExn ClosedResourceError)
      else if \<not> tk_open s then Inl (PyExn BrokenResourceError) else Inr ())"

definition trio_aclose :: "tsock \<Rightarrow> tsock" where
  "trio_aclose s = (if tk_open s then s\<lparr>tk_closed := True, tk_open := False\<rparr> else s)"

definition convert_socket_error :: "tsock \<Rightarrow> texn \<Rightarrow> texn" where
  "convert_socket_error s e =
     (if e = TrioClosed then PyExn ClosedResourceError
      else if \<not> tk_open s \<and> tk_closed s then PyExn ClosedResourceError
      else if is_toserror e then PyExn BrokenResourceError
      else e)"

text \<open>
  \<open>with self._receive_guard: try: x = await <operation> except BaseException as exc:
  self._convert_socket_error(exc)\<close>, followed by \<open>f x\<close>; likewise for the other guard.
\<close>

definition enter_in :: "'w \<Rightarrow> tsock \<Rightarrow> tsock \<times> ('w, 'a) toutcome" where
  "enter_in pc s =
     (case guard_enter (tk_in s) of
        (g, Inl e) \<Rightarrow> (s\<lparr>tk_in := g\<rparr>, TRaised (PyExn e))
      | (g, Inr _) \<Rightarrow> (s\<lparr>tk_in := g\<rparr>, TSuspended pc))"

definition leave_in :: "tsock \<Rightarrow> tsock" where
  "leave_in s = s\<lparr>tk_in := guard_exit (tk_in s)\<rparr>"

definition enter_out :: "'w \<Rightarrow> tsock \<Rightarrow> tsock \<times> ('w, 'a) toutcome" where
  "enter_out pc s =
     (case guard_enter (tk_out s) of
        (g, Inl e) \<Rightarrow> (s\<lparr>tk_out := g\<rparr>, TRaised (PyExn e))
      | (g, Inr _) \<Rightarrow> (s\<lparr>tk_out := g\<rparr>, TSuspended pc))"

definition leave_out :: "tsock \<Rightarrow> tsock" where
  "leave_out s = s\<lparr>tk_out := guard_exit (tk_out s)\<rparr>"

definition end_in :: "('v \<Rightarrow> 'a tres) \<Rightarrow> 'v tawaited \<Rightarrow> tsock \<Rightarrow> tsock \<times> ('w, 'a) toutcome" where
  "end_in f r s =
     (leave_in s, case r of TResumed x \<Rightarrow> of_tres (f x) | TThrown e \<Rightarrow> TRaised (convert_socket_error s e))"

definition end_out :: "('v \<Rightarrow> 'a tres) \<Rightarrow> 'v tawaited \<Rightarrow> tsock \<Rightarrow> tsock \<times> ('w, 'a) toutcome" where
  "end_out f r s =
     (leave_out s, case r of TResumed x \<Rightarrow> of_tres (f x) | TThrown e \<Rightarrow> TRaised (convert_socket_error s e))"

section \<open>SocketStream\<close>

definition trio_receive_start :: "tsock \<Rightarrow> tsock \<times> (unit, bytes) toutcome" where
  "trio_receive_start = enter_in ()"

definition trio_receive_resume :: "bytes tawaited \<Rightarrow> tsock \<Rightarrow> tsock \<times> (unit, bytes) toutcome" where
  "trio_receive_resume = end_in (\<lambda>data. if data \<noteq> [] then Inr data else Inl (PyExn EndOfStream))"

text \<open>\<open>send\<close>: the argument of the suspended state is the part of the item still to send.\<close>

definition trio_send_start :: "bytes \<Rightarrow> tsock \<Rightarrow> tsock \<times> (bytes, unit) toutcome" where
  "trio_send_start item s =
     (case enter_out item s of
        (s1, TSuspended view) \<Rightarrow> if view = [] then (leave_out s1, TDone ()) else (s1, TSuspended view)
      | (s1, x) \<Rightarrow> (s1, x))"

definition trio_send_resume :: "bytes \<Rightarrow> nat tawaited \<Rightarrow> tsock \<Rightarrow> tsock \<times> (bytes, unit) toutcome" where
  "trio_send_resume view r s =
     (case r of
        TThrown e \<Rightarrow> (leave_out s, TRaised (convert_socket_error s e))
      | TResumed n \<Rightarrow>
          if drop n view = [] then (leave_out s, TDone ()) else (s, TSuspended (drop n view)))"

text \<open>\<open>send_eof\<close>: what \<open>shutdown(SHUT_WR)\<close> gives goes to the caller as it is.\<close>

definition trio_send_eof :: "unit tres \<Rightarrow> unit tres" where
  "trio_send_eof shutdown = shutdown"

section \<open>UNIXSocketStream\<close>

datatype tfds_pc = TfCheckpoint | TfSystem

definition of_pyres :: "'a res \<Rightarrow> 'a tres" where
  "of_pyres r = (case r of Inl e \<Rightarrow> Inl (PyExn e) | Inr x \<Rightarrow> Inr x)"

definition trio_receive_fds_start :: "int \<Rightarrow> int \<Rightarrow> (tfds_pc, bytes \<times> int list) toutcome" where
  "trio_receive_fds_start msglen maxfds =
     (case receive_fds_check msglen maxfds of Inl e \<Rightarrow> TRaised (PyExn e) | Inr _ \<Rightarrow> TSuspended TfCheckpoint)"

fun trio_receive_fds_resume ::
  "(bytes \<Rightarrow> string) \<Rightarrow> tfds_pc \<Rightarrow> (bytes \<times> (int \<times> int \<times> bytes) list) tawaited \<Rightarrow> tsock
     \<Rightarrow> tsock \<times> (tfds_pc, bytes \<times> int list) toutcome"
where
  "trio_receive_fds_resume msg_repr TfCheckpoint (TThrown e) s = (s, TRaised e)"
| "trio_receive_fds_resume msg_repr TfCheckpoint (TResumed _) s = enter_in TfSystem s"
| "trio_receive_fds_resume msg_repr TfSystem r s =
     end_in (\<lambda>(message, anc).
         if message = [] \<and> anc = [] then Inl (PyExn EndOfStream)
         else of_pyres (map_res (\<lambda>fds. (message, fds)) (collect_fds (msg_repr message) anc []))) r s"

fun trio_send_fds_resume :: "tfds_pc \<Rightarrow> nat tawaited \<Rightarrow> tsock \<Rightarrow> tsock \<times> (tfds_pc, unit) toutcome" where
  "trio_send_fds_resume TfCheckpoint (TThrown e) s = (s, TRaised e)"
| "trio_send_fds_resume TfCheckpoint (TResumed _) s = enter_out TfSystem s"
| "trio_send_fds_resume TfSystem r s = end_out (\<lambda>_. Inr ()) r s"

section \<open>Listeners\<close>

definition trio_accept_start :: "tsock \<Rightarrow> tsock \<times> (unit, 'c) toutcome" where
  "trio_accept_start = enter_in ()"

text \<open>\<open>nodelay\<close> is what \<open>setsockopt(TCP_NODELAY)\<close> gives on the accepted socket.\<close>

definition trio_tcp_accept_resume ::
  "unit tres \<Rightarrow> 'c tawaited \<Rightarrow> tsock \<Rightarrow> tsock \<times> (unit, 'c) toutcome"
where
  "trio_tcp_accept_resume nodelay =
     end_in (\<lambda>c. case nodelay of Inl e \<Rightarrow> Inl e | Inr _ \<Rightarrow> Inr c)"

definition trio_unix_accept_resume :: "'c tawaited \<Rightarrow> tsock \<Rightarrow> tsock \<times> (unit, 'c) toutcome" where
  "trio_unix_accept_resume = end_in Inr"

section \<open>Datagrams\<close>

definition trio_udp_receive_resume :: "(bytes \<times> sockaddr) tawaited \<Rightarrow> tsock \<Rightarrow> tsock \<times> (unit, bytes \<times> addr) toutcome" where
  "trio_udp_receive_resume = end_in (\<lambda>(data, sa). Inr (data, convert_ipv6_sockaddr sa))"

definition trio_datagram_receive_resume :: "'d tawaited \<Rightarrow> tsock \<Rightarrow> tsock \<times> (unit, 'd) toutcome" where
  "trio_datagram_receive_resume = end_in Inr"

definition trio_datagram_send_start :: "tsock \<Rightarrow> tsock \<times> (unit, unit) toutcome" where
  "trio_datagram_send_start = enter_out ()"

definition trio_datagram_send_resume :: "nat tawaited \<Rightarrow> tsock \<Rightarrow> tsock \<times> (unit, unit) toutcome" where
  "trio_datagram_send_resume = end_out (\<lambda>_. Inr ())"

section \<open>Opening sockets\<close>

text \<open>
  The socket that is being set up is open or not; the results are those of the system calls before
  the first \<open>await\<close>.
\<close>

datatype topen_pc = ToBind | ToConnect

definition trio_family :: "string \<Rightarrow> int" where
  "trio_family host = (if CHR '':'' \<in> set host then af_inet6 else af_inet)"

definition trio_connect_tcp_start :: "unit tres \<Rightarrow> bool \<Rightarrow> bool \<times> (topen_pc, unit) toutcome" where
  "trio_connect_tcp_start nodelay has_local =
     (True,
      case nodelay of
        Inl e \<Rightarrow> TRaised e
      | Inr _ \<Rightarrow> TSuspended (if has_local then ToBind else ToConnect))"

fun trio_connect_tcp_resume :: "topen_pc \<Rightarrow> unit tawaited \<Rightarrow> bool \<Rightarrow> bool \<times> (topen_pc, unit) toutcome" where
  "trio_connect_tcp_resume ToBind (TResumed _) op = (op, TSuspended ToConnect)"
| "trio_connect_tcp_resume ToBind (TThrown e) op = (op, TRaised e)"
| "trio_connect_tcp_resume ToConnect (TResumed _) op = (op, TDone ())"
| "trio_connect_tcp_resume ToConnect (TThrown e) op = (False, TRaised e)"

definition trio_connect_unix_resume :: "unit tawaited \<Rightarrow> bool \<Rightarrow> bool \<times> (topen_pc, unit) toutcome" where
  "trio_connect_unix_resume = trio_connect_tcp_resume ToConnect"

text \<open>\<open>create_udp_socket\<close>; the result says whether the socket is a connected one.\<close>

definition trio_udp_connect :: "bool \<Rightarrow> (topen_pc, bool) toutcome" where
  "trio_udp_connect has_remote = (if has_remote then TSuspended ToConnect else TDone False)"

definition trio_create_udp_start :: "bool \<Rightarrow> unit tres \<Rightarrow> bool \<Rightarrow> bool \<Rightarrow> bool \<times> (topen_pc, bool) toutcome" where
  "trio_create_udp_start reuse_port reuse has_local has_remote =
     (True,
      case (if reuse_port then reuse else Inr ()) of
        Inl e \<Rightarrow> TRaised e
      | Inr _ \<Rightarrow> if has_local then TSuspended ToBind else trio_udp_connect has_remote)"

fun trio_create_udp_resume :: "bool \<Rightarrow> topen_pc \<Rightarrow> unit tawaited \<Rightarrow> bool \<Rightarrow> bool \<times> (topen_pc, bool) toutcome" where
  "trio_create_udp_resume has_remote ToBind (TResumed _) op = (op, trio_udp_connect has_remote)"
| "trio_create_udp_resume has_remote ToConnect (TResumed _) op = (op, TDone True)"
| "trio_create_udp_resume has_remote pc (TThrown e) op = (op, TRaised e)"

definition trio_create_unix_datagram_start :: "bool \<Rightarrow> (topen_pc, bool) toutcome" where
  "trio_create_unix_datagram_start has_remote = trio_udp_connect has_remote"

text \<open>\<open>wait_socket_readable\<close> and \<open>wait_socket_writable\<close>; the action is \<open>reading from\<close> or \<open>writing to\<close>.\<close>

definition trio_wait_socket :: "string \<Rightarrow> unit tawaited \<Rightarrow> unit tres" where
  "trio_wait_socket action r =
     (case r of
        TResumed _ \<Rightarrow> Inr ()
      | TThrown e \<Rightarrow> Inl (if e = TrioClosed then PyExn ClosedResourceError
                      else if e = TrioBusy then PyExn (BusyResourceError action) else e))"

section \<open>Errors\<close>

text \<open>
  How an operation that fails ends: after \<open>aclose\<close> (or when trio says so) with
  \<open>ClosedResourceError\<close>, else an \<open>OSError\<close> becomes \<open>BrokenResourceError\<close> and anything else, a
  cancellation for one, is passed on; the guard is free again.
\<close>

definition failure_shown :: "tsock \<Rightarrow> texn \<Rightarrow> texn" where
  "failure_shown s e =
     (if e = TrioClosed \<or> tk_closed s \<and> \<not> tk_open s then PyExn ClosedResourceError
      else if is_toserror e then PyExn BrokenResourceError else e)"

lemma trio_errors_converted:
  "trio_receive_resume (TThrown e) s = (leave_in s, TRaised (failure_shown s e))"
  "trio_send_resume view (TThrown e) s = (leave_out s, TRaised (failure_shown s e))"
  "trio_receive_fds_resume rp TfSystem (TThrown e) s = (leave_in s, TRaised (failure_shown s e))"
  "trio_send_fds_resume TfSystem (TThrown e) s = (leave_out s, TRaised (failure_shown s e))"
  "trio_tcp_accept_resume nodelay (TThrown e) s = (leave_in s, TRaised (failure_shown s e))"
  "trio_unix_accept_resume (TThrown e) s = (leave_in s, TRaised (failure_shown s e))"
  "trio_udp_receive_resume (TThrown e) s = (leave_in s, TRaised (failure_shown s e))"
  "trio_datagram_receive_resume (TThrown e) s = (leave_in s, TRaised (failure_shown s e))"
  "trio_datagram_send_resume (TThrown e) s = (leave_out s, TRaised (failure_shown s e))"
  by (simp_all add: trio_receive_resume_def trio_send_resume_def trio_tcp_accept_resume_def end_in_def end_out_def
      trio_unix_accept_resume_def trio_udp_receive_resume_def trio_datagram_receive_resume_def
      trio_datagram_send_resume_def convert_socket_error_def failure_shown_def conj_commute)

text \<open>On a socket that has been closed even a cancellation is turned into \<open>ClosedResourceError\<close>.\<close>

lemma cancellation_lost_on_closed_socket:
  "snd (trio_receive_resume (TThrown TrioCancelled) (trio_aclose s)) = TRaised (PyExn ClosedResourceError)"
  if "tk_open s"
  using that by (simp add: trio_errors_converted failure_shown_def trio_aclose_def)

text \<open>
  Opening: a failed \<open>connect\<close> closes the new socket; a failed \<open>bind\<close>, or any failure of
  \<open>create_udp_socket\<close>, leaves it open.
\<close>

lemma connect_failure_closes:
  "trio_connect_tcp_resume ToConnect (TThrown e) True = (False, TRaised e)"
  "trio_connect_unix_resume (TThrown e) True = (False, TRaised e)"
  by (simp_all add: trio_connect_unix_resume_def)

lemma open_failure_leaks:
  "trio_connect_tcp_resume ToBind (TThrown e) True = (True, TRaised e)"
  "trio_create_udp_resume has_remote pc (TThrown e) True = (True, TRaised e)"
  by (simp, cases pc) simp_all

section \<open>Senders that share a stream\<close>

text \<open>
  Any number of tasks send on one stream. The system keeps the bytes the socket has accepted, the
  sends that have ended (item, accepted bytes, whether the send returned) and those going on (task,
  item, part still to send). The socket takes at most what it is offered.
\<close>

record tsend_sys =
  tx_sock :: tsock
  tx_wire :: bytes
  tx_log :: "(bytes \<times> nat \<times> bool) list"
  tx_now :: "(task \<times> bytes \<times> bytes) list"

datatype tsend_action = TxSend task bytes | TxStep task "nat tawaited" | TxClose

definition tsend_settle ::
  "task \<Rightarrow> bytes \<Rightarrow> bytes \<Rightarrow> tsock \<times> (bytes, unit) toutcome \<Rightarrow> tsend_sys \<Rightarrow> tsend_sys"
where
  "tsend_settle t msg view r x =
     (let others = filter (\<lambda>p. fst p \<noteq> t) (tx_now x) in
      case r of
        (s, TSuspended view') \<Rightarrow> x\<lparr>tx_sock := s, tx_now := (t, msg, view') # others\<rparr>
      | (s, TDone _) \<Rightarrow> x\<lparr>tx_sock := s, tx_now := others, tx_log := tx_log x @ [(msg, length msg, True)]\<rparr>
      | (s, TRaised e) \<Rightarrow>
          x\<lparr>tx_sock := s, tx_now := others, tx_log := tx_log x @ [(msg, length msg - length view, False)]\<rparr>)"

fun tsend_act :: "tsend_action \<Rightarrow> tsend_sys \<Rightarrow> tsend_sys option" where
  "tsend_act (TxSend t msg) x =
     (if t \<in> fst ` set (tx_now x) then None
      else Some (tsend_settle t msg msg (trio_send_start msg (tx_sock x)) x))"
| "tsend_act (TxStep t r) x =
     (case map_of (tx_now x) t of
        None \<Rightarrow> None
      | Some (msg, view) \<Rightarrow>
          let n = (case r of TResumed n \<Rightarrow> n | TThrown e \<Rightarrow> 0) in
          if length view < n then None
          else Some (tsend_settle t msg view (trio_send_resume view r (tx_sock x)) (x\<lparr>tx_wire := tx_wire x @ take n view\<rparr>)))"
| "tsend_act TxClose x = Some (x\<lparr>tx_sock := trio_aclose (tx_sock x)\<rparr>)"

definition tsend_new :: tsend_sys where
  "tsend_new = \<lparr>tx_sock = trio_stream_new, tx_wire = [], tx_log = [], tx_now = []\<rparr>"

inductive tsend_reach :: "tsend_sys \<Rightarrow> bool" where
  tx_init: "tsend_reach tsend_new"
| tx_act: "tsend_reach x \<Longrightarrow> tsend_act a x = Some x' \<Longrightarrow> tsend_reach x'"

fun tsend_run :: "tsend_action list \<Rightarrow> tsend_sys \<Rightarrow> tsend_sys option" where
  "tsend_run [] x = Some x"
| "tsend_run (a # as) x = Option.bind (tsend_act a x) (tsend_run as)"

lemma tsend_run_reach: "tsend_run as x = Some x' \<Longrightarrow> tsend_reach x \<Longrightarrow> tsend_reach x'"
  by (induction as x rule: tsend_run.induct) (auto intro: tx_act split: Option.bind_splits)

definition log_bytes :: "(bytes \<times> nat \<times> bool) list \<Rightarrow> bytes" where
  "log_bytes l = concat (map (\<lambda>(m, k, ok). take k m) l)"

definition tsend_inv :: "tsend_sys \<Rightarrow> bool" where
  "tsend_inv x \<longleftrightarrow>
     (\<forall>(m, k, ok) \<in> set (tx_log x). ok \<longrightarrow> k = length m) \<and>
     (if guarded_flag (tk_out (tx_sock x))
      then \<exists>t p v. tx_now x = [(t, p @ v, v)] \<and> v \<noteq> [] \<and> tx_wire x = log_bytes (tx_log x) @ p
      else tx_now x = [] \<and> tx_wire x = log_bytes (tx_log x))"

lemma log_bytes_simps [simp]:
  "log_bytes [] = []" "log_bytes (l @ [(m, k, ok)]) = log_bytes l @ take k m"
  by (simp_all add: log_bytes_def)

lemma trio_send_start_cases:
  "trio_send_start msg s =
     (if guarded_flag (tk_out s) then (s, TRaised (PyExn (BusyResourceError (g_action (tk_out s)))))
      else if msg = [] then (s\<lparr>tk_out := (tk_out s)\<lparr>guarded_flag := False\<rparr>\<rparr>, TDone ())
      else (s\<lparr>tk_out := (tk_out s)\<lparr>guarded_flag := True\<rparr>\<rparr>, TSuspended msg))"
  by (simp add: trio_send_start_def enter_out_def guard_enter_def leave_out_def guard_exit_def)

lemma tsend_inv_act:
  assumes "tsend_inv x" "tsend_act a x = Some x'"
  shows "tsend_inv x'"
proof (cases a)
  case (TxSend t msg)
  then show ?thesis
    using assms by (auto simp: tsend_inv_def trio_send_start_cases tsend_settle_def Let_def split: if_splits)
next
  case (TxStep t r)
  with assms(2) obtain msg view where now: "map_of (tx_now x) t = Some (msg, view)"
    by (auto split: option.splits)
  with assms(1) obtain p where p: "tx_now x = [(t, p @ view, view)]" "msg = p @ view" "view \<noteq> []"
      "tx_wire x = log_bytes (tx_log x) @ p" "guarded_flag (tk_out (tx_sock x))"
    by (auto simp: tsend_inv_def split: if_splits)
  show ?thesis
  proof (cases r)
    case (TResumed n)
    then show ?thesis using assms p TxStep
      by (auto simp: tsend_inv_def trio_send_resume_def tsend_settle_def leave_out_def guard_exit_def Let_def
          split: if_splits intro!: exI [of _ "p @ take n view"])
  next
    case (TThrown e)
    then show ?thesis using assms p TxStep
      by (auto simp: tsend_inv_def trio_send_resume_def tsend_settle_def leave_out_def guard_exit_def Let_def)
  qed
next
  case TxClose
  have "tk_out (trio_aclose (tx_sock x)) = tk_out (tx_sock x)" by (simp add: trio_aclose_def)
  then show ?thesis using assms TxClose by (auto simp: tsend_inv_def)
qed

text \<open>
  C33: however many tasks send on one trio stream, and whatever partial sends, failures, cancellations
  and a close come in between: the bytes on the wire are those of the sends one after the other,
  never mixed; a send that returned put all of its item on the wire, once; one that failed,
  a prefix.
\<close>

theorem trio_sends_not_mixed:
  assumes "tsend_reach x"
  shows "(\<exists>t p v. tx_now x = [(t, p @ v, v)] \<and> tx_wire x = log_bytes (tx_log x) @ p \<or>
        tx_now x = [] \<and> tx_wire x = log_bytes (tx_log x)) \<and>
    (\<forall>(m, k, ok) \<in> set (tx_log x). ok \<longrightarrow> take k m = m)"
proof -
  have "tsend_inv x" using assms
  proof (induction rule: tsend_reach.induct)
    case tx_init
    show ?case by (simp add: tsend_inv_def tsend_new_def trio_stream_new_def guard_new_def)
  next
    case (tx_act x a x')
    then show ?case by (blast intro: tsend_inv_act)
  qed
  then show ?thesis by (fastforce simp: tsend_inv_def split: if_splits)
qed

lemma trio_sends_not_mixed_witness:
  "\<exists>x. tsend_run [TxSend 0 [1, 2, 3], TxStep 0 (TResumed 2), TxSend 1 [9], TxStep 0 (TResumed 1), TxSend 1 [7]] tsend_new = Some x \<and>
     tx_wire x = [1, 2, 3] \<and> (\<forall>(m, k, ok) \<in> set (tx_log x). ok \<longrightarrow> take k m = m)"
proof -
  obtain x where x: "tsend_run [TxSend 0 [1, 2, 3], TxStep 0 (TResumed 2), TxSend 1 [9], TxStep 0 (TResumed 1), TxSend 1 [7]] tsend_new = Some x"
    "tx_wire x = [1, 2, 3]"
    by (simp add: tsend_new_def trio_stream_new_def guard_new_def trio_send_start_cases trio_send_resume_def
        tsend_settle_def leave_out_def guard_exit_def Let_def eval_nat_numeral)
  from trio_sends_not_mixed [OF tsend_run_reach [OF x(1) tx_init]] x show ?thesis by blast
qed

section \<open>A source of bytes\<close>

text \<open>
  The socket's \<open>recv\<close> over the chunks that arrive: it waits for a chunk that is not empty and gives
  at most the bytes asked for; without more chunks the peer has shut its side down.
\<close>

fun system_recv :: "nat \<Rightarrow> bytes list \<Rightarrow> bytes list \<times> bytes" where
  "system_recv n [] = ([], [])"
| "system_recv n (c # cs) = (if c = [] then system_recv n cs else (drop n c # cs, take n c))"

definition trio_source :: "nat \<Rightarrow> tsock \<times> bytes list \<Rightarrow> (tsock \<times> bytes list) \<times> bytes res" where
  "trio_source n x =
     (case trio_receive_start (fst x) of
        (s1, TSuspended _) \<Rightarrow>
          (case system_recv n (snd x) of
             (cs, data) \<Rightarrow>
               (case trio_receive_resume (TResumed data) s1 of
                  (s2, TDone d) \<Rightarrow> ((s2, cs), Inr d)
                | (s2, TRaised (PyExn e)) \<Rightarrow> ((s2, cs), Inl e)
                | (s2, _) \<Rightarrow> ((s2, cs), Inl AssertionError)))
      | (s1, TRaised (PyExn e)) \<Rightarrow> ((s1, snd x), Inl e)
      | (s1, _) \<Rightarrow> ((s1, snd x), Inl AssertionError))"

definition trio_ok :: "tsock \<times> bytes list \<Rightarrow> bool" where
  "trio_ok x \<longleftrightarrow> \<not> guarded_flag (tk_in (fst x))"

definition trio_rest :: "tsock \<times> bytes list \<Rightarrow> bytes" where
  "trio_rest x = concat (snd x)"

lemma system_recv_spec:
  "0 < n \<Longrightarrow> system_recv n cs = (cs', d) \<Longrightarrow> concat cs = d @ concat cs' \<and> length d \<le> n \<and> (d = [] \<longleftrightarrow> concat cs = [])"
  by (induction n cs rule: system_recv.induct) (auto split: if_splits)

lemma trio_source_eq:
  assumes "trio_ok (s, cs)" "system_recv n cs = (cs', d)"
  shows "\<exists>s'. trio_source n (s, cs) = ((s', cs'), if d \<noteq> [] then Inr d else Inl EndOfStream) \<and> trio_ok (s', cs')"
proof (intro exI conjI)
  let ?s' = "leave_in (s\<lparr>tk_in := (tk_in s)\<lparr>guarded_flag := True\<rparr>\<rparr>)"
  show "trio_source n (s, cs) = ((?s', cs'), if d \<noteq> [] then Inr d else Inl EndOfStream)"
    using assms by (simp add: trio_source_def trio_receive_start_def enter_in_def guard_enter_def trio_ok_def
        trio_receive_resume_def end_in_def)
  show "trio_ok (?s', cs')" by (simp add: trio_ok_def leave_in_def guard_exit_def)
qed

interpretation triosock: byte_source trio_ok trio_rest trio_source
proof
  fix x :: "tsock \<times> bytes list" and n :: nat
  assume ok: "trio_ok x" and n: "0 < n"
  obtain s cs where x: "x = (s, cs)" by fastforce
  obtain cs' d where r: "system_recv n cs = (cs', d)" by fastforce
  from system_recv_spec [OF n r] have rest: "trio_rest x = d @ concat cs'" "length d \<le> n" "d = [] \<longleftrightarrow> trio_rest x = []"
    unfolding x trio_rest_def snd_conv by blast+
  obtain s' where src: "trio_source n x = ((s', cs'), if d \<noteq> [] then Inr d else Inl EndOfStream)" "trio_ok (s', cs')"
    using trio_source_eq [OF ok [unfolded x] r] x by blast
  have rest': "trio_rest x = d @ trio_rest (s', cs')" using rest(1) by (simp only: trio_rest_def snd_conv)
  show "\<exists>x' c. trio_source n x = (x', Inr c) \<and> trio_ok x' \<and> c \<noteq> [] \<and> length c \<le> n \<and> trio_rest x = c @ trio_rest x'"
    if "trio_rest x \<noteq> []"
  proof -
    from that rest(3) have d: "d \<noteq> []" by blast
    then have "trio_source n x = ((s', cs'), Inr d)" using src(1) by (simp only: if_True not_False_eq_True)
    with src(2) rest(2) rest' d show ?thesis by blast
  qed
  show "\<exists>x'. trio_source n x = (x', Inl EndOfStream) \<and> trio_ok x' \<and> trio_rest x' = []" if "trio_rest x = []"
  proof -
    from that rest(3) have d: "d = []" by blast
    then have "trio_source n x = ((s', cs'), Inl EndOfStream)" "trio_rest (s', cs') = []"
      using src(1) rest' that by simp_all
    with src(2) show ?thesis by blast
  qed
qed

end
