(* ===== verification/TrioTasks.thy ===== *)
theory TrioTasks
  imports TrioSockets Subprocesses
begin

text \<open>
  Task groups, tasks, processes and the process pool of the trio backend
  (\<open>src/anyio/_backends/_trio.py\<close>). What trio's nurseries, processes and streams return or raise is
  an argument.
\<close>

section \<open>TaskGroup\<close>

text \<open>\<open>exc.split(trio.Cancelled)[1]\<close>: the group without its \<open>Cancelled\<close> leaves, if anything is left.\<close>

fun without_cancelled :: "texn \<Rightarrow> texn option" where
  "without_cancelled TrioCancelled = None"
| "without_cancelled (TrioGroup m es) =
     (case concat (map (\<lambda>e. case without_cancelled e of None \<Rightarrow> [] | Some x \<Rightarrow> [x]) es) of
        [] \<Rightarrow> None | rs \<Rightarrow> Some (TrioGroup m rs))"
| "without_cancelled e = Some e"

record ttgroup =
  tt_active :: bool
  tt_started :: "task list"

definition ttgroup_new :: ttgroup where
  "ttgroup_new = \<lparr>tt_active = False, tt_started = []\<rparr>"

definition ttgroup_aenter :: "unit tawaited \<Rightarrow> ttgroup \<Rightarrow> ttgroup \<times> unit tres" where
  "ttgroup_aenter r g =
     (g\<lparr>tt_active := True\<rparr>, case r of TResumed _ \<Rightarrow> Inr () | TThrown e \<Rightarrow> Inl e)"

text \<open>\<open>r\<close> is what the nursery's \<open>__aexit__\<close> gives.\<close>

definition ttgroup_aexit :: "bool tawaited \<Rightarrow> ttgroup \<Rightarrow> ttgroup \<times> bool tres" where
  "ttgroup_aexit r g =
     (g\<lparr>tt_active := False\<rparr>,
      case r of
        TResumed b \<Rightarrow> Inr b
      | TThrown e \<Rightarrow>
          Inl (case e of TrioGroup m es \<Rightarrow> if without_cancelled e = None then TrioCancelled else e | _ \<Rightarrow> e))"

definition ttgroup_inactive :: exn where
  "ttgroup_inactive = RuntimeError ''This task group is not active; no new tasks can be started.''"

text \<open>\<open>spawn\<close> is what the nursery's \<open>start_soon\<close> gives: the new task.\<close>

definition ttgroup_start_soon :: "task tres \<Rightarrow> ttgroup \<Rightarrow> ttgroup \<times> unit tres" where
  "ttgroup_start_soon spawn g =
     (if \<not> tt_active g then (g, Inl (PyExn ttgroup_inactive))
      else case spawn of
        Inl e \<Rightarrow> (g, Inl e)
      | Inr t \<Rightarrow> (g\<lparr>tt_started := tt_started g @ [t]\<rparr>, Inr ()))"

definition ttgroup_start :: "ttgroup \<Rightarrow> (unit, 'a) toutcome" where
  "ttgroup_start g = (if \<not> tt_active g then TRaised (PyExn ttgroup_inactive) else TSuspended ())"

definition ttgroup_start_resume :: "'a tawaited \<Rightarrow> (unit, 'a) toutcome" where
  "ttgroup_start_resume r = (case r of TResumed x \<Rightarrow> TDone x | TThrown e \<Rightarrow> TRaised e)"

text \<open>The exceptions in a group that are not groups.\<close>

fun texn_leaves :: "texn \<Rightarrow> texn list" where
  "texn_leaves (TrioGroup m es) = concat (map texn_leaves es)"
| "texn_leaves e = [e]"

lemma without_cancelled_leaves:
  "without_cancelled e = None \<longleftrightarrow> (\<forall>x \<in> set (texn_leaves e). x = TrioCancelled)"
proof (induction e rule: texn_leaves.induct)
  case (1 m es)
  define rs where "rs = concat (map (\<lambda>e. case without_cancelled e of None \<Rightarrow> [] | Some x \<Rightarrow> [x]) es)"
  have "rs = [] \<longleftrightarrow> (\<forall>e \<in> set es. without_cancelled e = None)"
    by (auto simp: rs_def split: option.splits)
  moreover have "without_cancelled (TrioGroup m es) = None \<longleftrightarrow> rs = []"
    unfolding without_cancelled.simps rs_def [symmetric] by (cases rs) simp_all
  ultimately have "without_cancelled (TrioGroup m es) = None \<longleftrightarrow> (\<forall>e \<in> set es. without_cancelled e = None)" by simp
  with 1 show ?case by auto
qed auto

text \<open>
  leaving a task group on trio: it is inactive afterwards, on every path, and refuses new tasks;
  a group of exceptions whose leaves are all \<open>Cancelled\<close> becomes one \<open>Cancelled\<close>; one with any other
  leaf is raised as it is, so no failure is lost.
\<close>

theorem trio_group_exit:
  assumes "ttgroup_aexit (TThrown (TrioGroup m es)) g = (g', r)"
  shows "\<not> tt_active g' \<and> snd (ttgroup_start_soon spawn g') = Inl (PyExn ttgroup_inactive) \<and>
    r = Inl (if \<forall>x \<in> set (texn_leaves (TrioGroup m es)). x = TrioCancelled then TrioCancelled else TrioGroup m es)"
  using assms unfolding ttgroup_aexit_def tawaited.case texn.case without_cancelled_leaves
  by (auto simp: ttgroup_start_soon_def)

lemma trio_group_exit_witness:
  "snd (ttgroup_aexit (TThrown (TrioGroup ''g'' [TrioCancelled, TrioGroup ''h'' [TrioCancelled]])) ttgroup_new) = Inl TrioCancelled"
proof -
  obtain g' r where e: "ttgroup_aexit (TThrown (TrioGroup ''g'' [TrioCancelled, TrioGroup ''h'' [TrioCancelled]])) ttgroup_new = (g', r)"
    by fastforce
  from trio_group_exit [OF e] e show ?thesis by simp
qed

section \<open>Tasks\<close>

text \<open>A task has a number and child nurseries, which hold tasks.\<close>

datatype ttask = TTask nat "ttask list list"

fun ttask_id :: "ttask \<Rightarrow> nat" where "ttask_id (TTask i ns) = i"

fun child_nurseries :: "ttask \<Rightarrow> ttask list list" where "child_nurseries (TTask i ns) = ns"

fun task_weight :: "ttask \<Rightarrow> nat" where
  "task_weight (TTask i ns) = Suc (sum_list (map (\<lambda>n. Suc (sum_list (map task_weight n))) ns))"

definition nurseries_weight :: "ttask list list \<Rightarrow> nat" where
  "nurseries_weight ns = sum_list (map (\<lambda>n. Suc (sum_list (map task_weight n))) ns)"

lemma task_weight_eq: "task_weight t = Suc (nurseries_weight (child_nurseries t))"
  by (cases t) (simp add: nurseries_weight_def)

lemma nurseries_weight_next:
  "nurseries_weight (concat (map child_nurseries ts)) + length ts = sum_list (map task_weight ts)"
  by (induction ts) (simp_all add: task_weight_eq nurseries_weight_def)

lemma nurseries_weight_concat:
  "nurseries_weight ns = length ns + sum_list (map task_weight (concat ns))"
  by (induction ns) (simp_all add: nurseries_weight_def)

text \<open>The loop of \<open>get_running_tasks\<close>: one round for each level.\<close>

function running_levels :: "ttask list list \<Rightarrow> nat list" where
  "running_levels ns =
     (if ns = [] then []
      else map ttask_id (concat ns) @ running_levels (concat (map child_nurseries (concat ns))))"
  by pat_completeness auto

termination
proof (relation "measure nurseries_weight")
  fix ns :: "ttask list list"
  assume "ns \<noteq> []"
  then show "(concat (map child_nurseries (concat ns)), ns) \<in> measure nurseries_weight"
    using nurseries_weight_next [of "concat ns"] nurseries_weight_concat [of ns] by (cases ns) auto
qed simp

declare running_levels.simps [simp del]

definition trio_running_tasks :: "ttask \<Rightarrow> nat list" where
  "trio_running_tasks rt = ttask_id rt # running_levels (child_nurseries rt)"

text \<open>All tasks of a tree.\<close>

fun tree_ids :: "ttask \<Rightarrow> nat list" where
  "tree_ids (TTask i ns) = i # concat (map (\<lambda>n. concat (map tree_ids n)) ns)"

lemma tree_ids_eq: "tree_ids t = ttask_id t # concat (map tree_ids (concat (child_nurseries t)))"
proof -
  have "concat (map (\<lambda>n. concat (map tree_ids n)) ns) = concat (map tree_ids (concat ns))" for ns
    by (induction ns) simp_all
  then show ?thesis by (cases t) simp
qed

lemma mset_trees:
  "mset (concat (map tree_ids ts)) =
     mset (map ttask_id ts) + mset (concat (map tree_ids (concat (concat (map child_nurseries ts)))))"
proof (induction ts)
  case (Cons t ts)
  then show ?case by (simp add: tree_ids_eq [of t])
qed simp

lemma running_levels_all: "mset (running_levels ns) = mset (concat (map tree_ids (concat ns)))"
proof (induction ns rule: running_levels.induct)
  case (1 ns)
  show ?case
  proof (cases "ns = []")
    case True
    then show ?thesis by (simp add: running_levels.simps)
  next
    case False
    then show ?thesis
      using 1 mset_trees [of "concat ns"] by (subst running_levels.simps) simp
  qed
qed

text \<open>
  \<open>get_running_tasks\<close> ends on every tree of tasks and lists every task of the tree exactly as often
  as it occurs, the root first.
\<close>

theorem running_tasks_complete:
  "hd (trio_running_tasks rt) = ttask_id rt \<and> mset (trio_running_tasks rt) = mset (tree_ids rt)"
  by (simp add: trio_running_tasks_def running_levels_all tree_ids_eq [of rt])

text \<open>\<open>TrioTaskInfo\<close>: the parent, if the task's nursery has one; a task that is gone has no pending cancellation.\<close>

definition trio_parent_id :: "nat option option \<Rightarrow> nat option" where
  "trio_parent_id parent_nursery = (case parent_nursery of None \<Rightarrow> None | Some parent_task \<Rightarrow> parent_task)"

definition trio_pending_cancellation :: "bool option \<Rightarrow> bool" where
  "trio_pending_cancellation status = (case status of None \<Rightarrow> False | Some b \<Rightarrow> b)"

section \<open>Processes\<close>

text \<open>The wrappers of the pipes.\<close>

definition pipe_error :: "texn \<Rightarrow> texn" where
  "pipe_error e =
     (if e = TrioClosed then PyExn ClosedResourceError
      else if e = TrioBroken then PyExn BrokenResourceError else e)"

definition trio_wrapper_receive :: "bytes tawaited \<Rightarrow> bytes tres" where
  "trio_wrapper_receive r =
     (case r of
        TThrown e \<Rightarrow> Inl (pipe_error e)
      | TResumed data \<Rightarrow> if data \<noteq> [] then Inr data else Inl (PyExn EndOfStream))"

definition trio_wrapper_send :: "unit tawaited \<Rightarrow> unit tres" where
  "trio_wrapper_send r = (case r of TThrown e \<Rightarrow> Inl (pipe_error e) | TResumed _ \<Rightarrow> Inr ())"

text \<open>
  The command of \<open>open_process\<close>: strings, bytes and paths (whose \<open>__fspath__\<close> gives one of the two);
  the result is whether a shell runs it and its words. A pipe is wrapped if the process has it.
\<close>

datatype cmd_item = CiStr string | CiBytes bytes | CiPath "string + bytes"

datatype trio_command = CmdOne cmd_item | CmdList "cmd_item list"

fun convert_item :: "(bytes \<Rightarrow> string) \<Rightarrow> cmd_item \<Rightarrow> string" where
  "convert_item fsdecode (CiStr s) = s"
| "convert_item fsdecode (CiBytes b) = fsdecode b"
| "convert_item fsdecode (CiPath (Inl s)) = s"
| "convert_item fsdecode (CiPath (Inr b)) = fsdecode b"

fun trio_process_command :: "(bytes \<Rightarrow> string) \<Rightarrow> trio_command \<Rightarrow> bool \<times> string list" where
  "trio_process_command fsdecode (CmdOne c) = (True, [convert_item fsdecode c])"
| "trio_process_command fsdecode (CmdList cs) = (False, map (convert_item fsdecode) cs)"

definition trio_process_new :: "bool \<Rightarrow> bool \<Rightarrow> bool \<Rightarrow> proc" where
  "trio_process_new i out err =
     \<lparr>pr_stdin = i, pr_stdout = out, pr_stderr = err, pr_closed = [], pr_shield = False, pr_killed = False, pr_returncode = None\<rparr>"

text \<open>
  \<open>Process.aclose\<close>: the pipes in a shielded scope, then \<open>wait\<close>; if that fails the process is killed
  and waited for in a shielded scope.
\<close>

datatype tpa_pc = TpPipe nat | TpWait | TpReap texn

definition tpaclose_wait :: "proc \<Rightarrow> proc \<times> (tpa_pc, unit) toutcome" where
  "tpaclose_wait p = (p\<lparr>pr_shield := False\<rparr>, TSuspended TpWait)"

definition tpaclose_stderr :: "proc \<Rightarrow> proc \<times> (tpa_pc, unit) toutcome" where
  "tpaclose_stderr p =
     (if pr_stderr p then (p\<lparr>pr_closed := pr_closed p @ [2]\<rparr>, TSuspended (TpPipe 2)) else tpaclose_wait p)"

definition tpaclose_stdout :: "proc \<Rightarrow> proc \<times> (tpa_pc, unit) toutcome" where
  "tpaclose_stdout p =
     (if pr_stdout p then (p\<lparr>pr_closed := pr_closed p @ [1]\<rparr>, TSuspended (TpPipe 1)) else tpaclose_stderr p)"

definition tpaclose_start :: "proc \<Rightarrow> proc \<times> (tpa_pc, unit) toutcome" where
  "tpaclose_start p =
     (let p1 = p\<lparr>pr_shield := True\<rparr> in
      if pr_stdin p then (p1\<lparr>pr_closed := pr_closed p @ [0]\<rparr>, TSuspended (TpPipe 0)) else tpaclose_stdout p1)"

text \<open>\<open>kill\<close> is what \<open>process.kill()\<close> gives.\<close>

fun tpaclose_resume :: "unit tres \<Rightarrow> tpa_pc \<Rightarrow> unit tawaited \<Rightarrow> proc \<Rightarrow> proc \<times> (tpa_pc, unit) toutcome" where
  "tpaclose_resume kill (TpPipe i) (TThrown e) p = (p\<lparr>pr_shield := False\<rparr>, TRaised e)"
| "tpaclose_resume kill (TpPipe i) (TResumed _) p =
     (if i = 0 then tpaclose_stdout p else if i = 1 then tpaclose_stderr p else tpaclose_wait p)"
| "tpaclose_resume kill TpWait (TResumed _) p = (p, TDone ())"
| "tpaclose_resume kill TpWait (TThrown e) p =
     (case kill of
        Inl e' \<Rightarrow> (p, TRaised e')
      | Inr _ \<Rightarrow> (p\<lparr>pr_killed := True, pr_shield := True\<rparr>, TSuspended (TpReap e)))"
| "tpaclose_resume kill (TpReap e) (TResumed _) p = (p\<lparr>pr_shield := False\<rparr>, TRaised e)"
| "tpaclose_resume kill (TpReap e) (TThrown e') p = (p\<lparr>pr_shield := False\<rparr>, TRaised e')"

text \<open>The process may end at any time; \<open>wait\<close> returns only then.\<close>

inductive tpaclose_reach :: "proc \<times> (tpa_pc, unit) toutcome \<Rightarrow> texn option \<Rightarrow> bool" where
  tp_start: "pr_closed p = [] \<Longrightarrow> tpaclose_reach (tpaclose_start p) None"
| tp_exit: "tpaclose_reach (p, x) c \<Longrightarrow> pr_returncode p = None \<Longrightarrow>
    tpaclose_reach (p\<lparr>pr_returncode := Some code\<rparr>, x) c"
| tp_pipe: "tpaclose_reach (p, TSuspended (TpPipe i)) c \<Longrightarrow> tpaclose_reach (tpaclose_resume kill (TpPipe i) (TResumed ()) p) c"
| tp_wait: "tpaclose_reach (p, TSuspended TpWait) c \<Longrightarrow> pr_returncode p \<noteq> None \<Longrightarrow>
    tpaclose_reach (tpaclose_resume kill TpWait (TResumed ()) p) c"
| tp_fail: "tpaclose_reach (p, TSuspended TpWait) c \<Longrightarrow>
    tpaclose_reach (tpaclose_resume (Inr ()) TpWait (TThrown e) p) (Some e)"
| tp_reap: "tpaclose_reach (p, TSuspended (TpReap e)) c \<Longrightarrow> pr_returncode p \<noteq> None \<Longrightarrow>
    tpaclose_reach (tpaclose_resume kill (TpReap e) (TResumed ()) p) c"

fun tpaclose_ok :: "proc \<times> (tpa_pc, unit) toutcome \<Rightarrow> texn option \<Rightarrow> bool" where
  "tpaclose_ok (p, TSuspended (TpPipe i)) c \<longleftrightarrow>
     pr_shield p \<and> c = None \<and> i \<in> {0, 1, 2} \<and> pr_closed p = filter (\<lambda>j. j \<le> i) (pipes p)"
| "tpaclose_ok (p, TSuspended TpWait) c \<longleftrightarrow> \<not> pr_shield p \<and> c = None \<and> pr_closed p = pipes p"
| "tpaclose_ok (p, TSuspended (TpReap e)) c \<longleftrightarrow> pr_shield p \<and> pr_killed p \<and> c = Some e \<and> pr_closed p = pipes p"
| "tpaclose_ok (p, TDone _) c \<longleftrightarrow> pr_returncode p \<noteq> None \<and> c = None \<and> pr_closed p = pipes p"
| "tpaclose_ok (p, TRaised e) c \<longleftrightarrow> pr_returncode p \<noteq> None \<and> pr_killed p \<and> c = Some e \<and> pr_closed p = pipes p"

lemma tpaclose_ok_reach: "tpaclose_reach y c \<Longrightarrow> tpaclose_ok y c"
proof (induction rule: tpaclose_reach.induct)
  case (tp_start p)
  then show ?case
    by (auto simp: tpaclose_start_def tpaclose_stdout_def tpaclose_stderr_def tpaclose_wait_def pipes_def Let_def)
next
  case (tp_exit p x c code)
  then show ?case by (cases x; cases "case x of TSuspended pc \<Rightarrow> pc | _ \<Rightarrow> TpWait") (auto simp: pipes_def)
next
  case (tp_pipe p i c kill)
  then show ?case
    by (auto simp: tpaclose_stdout_def tpaclose_stderr_def tpaclose_wait_def pipes_def split: if_splits)
next
  case (tp_fail p c e)
  then show ?case by (simp add: pipes_def)
next
  case (tp_reap p e c kill)
  then show ?case by (simp add: pipes_def)
qed simp

text \<open>
  \<open>Process.aclose\<close> on trio, when the pipes close and \<open>kill\<close> works: it ends only after the process
  has ended, with all its pipes closed; if waiting failed or was cancelled the process has been
  killed, reaped under a shield, and that exception goes on.
\<close>

theorem trio_process_reaped:
  assumes "tpaclose_reach (p, x) c" "\<And>pc. x \<noteq> TSuspended pc"
  shows "pr_returncode p \<noteq> None \<and> pr_closed p = pipes p \<and>
    (case c of None \<Rightarrow> x = TDone () | Some e \<Rightarrow> x = TRaised e \<and> pr_killed p)"
  using tpaclose_ok_reach [OF assms(1)] assms(2) by (cases x) auto

lemma trio_process_reaped_witness:
  "\<exists>p. tpaclose_reach (p, TRaised TrioCancelled) (Some TrioCancelled) \<and> pr_returncode p = Some 9 \<and> pr_killed p"
proof -
  define p where "p = trio_process_new False False False"
  have "tpaclose_reach (p, TSuspended TpWait) None"
    using tp_start [of p] by (simp add: p_def trio_process_new_def tpaclose_start_def tpaclose_stdout_def
        tpaclose_stderr_def tpaclose_wait_def)
  from tp_fail [OF this, of TrioCancelled]
  have "tpaclose_reach (p\<lparr>pr_killed := True, pr_shield := True\<rparr>, TSuspended (TpReap TrioCancelled)) (Some TrioCancelled)" by simp
  from tp_exit [OF this, of 9]
  have "tpaclose_reach (p\<lparr>pr_killed := True, pr_shield := True, pr_returncode := Some 9\<rparr>, TSuspended (TpReap TrioCancelled)) (Some TrioCancelled)"
    by (simp add: p_def trio_process_new_def)
  from tp_reap [OF this]
  have r: "tpaclose_reach (p\<lparr>pr_killed := True, pr_shield := False, pr_returncode := Some 9\<rparr>, TRaised TrioCancelled) (Some TrioCancelled)"
    by (simp add: p_def trio_process_new_def)
  from trio_process_reaped [OF r] r show ?thesis by (intro exI [of _ "p\<lparr>pr_killed := True, pr_shield := False, pr_returncode := Some 9\<rparr>"]) simp
qed

text \<open>
  \<open>_shutdown_process_pool\<close>, a system task that trio cancels at the end: kill the workers that still
  run, then close them all under a shield.
\<close>

datatype tpool_pc = TqSleep | TqClose "nat list"

fun tpool_close :: "nat list \<Rightarrow> (tpool_pc, unit) toutcome" where
  "tpool_close [] = TDone ()"
| "tpool_close (w # ws) = TSuspended (TqClose (w # ws))"

fun tpool_resume ::
  "(nat \<Rightarrow> bool) \<Rightarrow> nat list \<Rightarrow> tpool_pc \<Rightarrow> unit tawaited \<Rightarrow> nat list \<times> (tpool_pc, unit) toutcome"
where
  "tpool_resume runs workers TqSleep (TResumed _) = ([], TDone ())"
| "tpool_resume runs workers TqSleep (TThrown e) =
     (if e = TrioCancelled then (filter runs workers, tpool_close workers) else ([], TRaised e))"
| "tpool_resume runs workers (TqClose ws) (TResumed _) = ([], tpool_close (tl ws))"
| "tpool_resume runs workers (TqClose ws) (TThrown e) = ([], TRaised e)"

fun tpool_closing :: "nat list \<Rightarrow> (tpool_pc, unit) toutcome \<Rightarrow> nat list" where
  "tpool_closing (_ # fuel) (TSuspended (TqClose (w # ws))) = w # tpool_closing fuel (snd (tpool_resume (\<lambda>_. False) [] (TqClose (w # ws)) (TResumed ())))"
| "tpool_closing _ _ = []"

text \<open>At shutdown exactly the running workers are killed, and every worker is closed, in order.\<close>

lemma tpool_shutdown:
  "tpool_resume runs workers TqSleep (TThrown TrioCancelled) = (filter runs workers, tpool_close workers)"
  "tpool_closing workers (tpool_close workers) = workers"
proof -
  show "tpool_closing workers (tpool_close workers) = workers"
  proof (induction workers)
    case (Cons w ws)
    then show ?case by (cases ws) simp_all
  qed simp
qed simp

end
