(* ===== verification/TrioSync.thy ===== *)
theory TrioSync
  imports TrioSockets Semaphores Limiters TrioTasks
begin

text \<open>
  The synchronization primitives of the trio backend (\<open>src/anyio/_backends/_trio.py\<close>), which wrap
  those of trio: what the wrapped object gives is an argument; the wrappers choose between trio's
  \<open>acquire\<close> and a fast path over its parking lot, and convert exceptions.
\<close>

section \<open>Lock\<close>

definition convert_lock_message :: "texn \<Rightarrow> texn" where
  "convert_lock_message e =
     (if e = PyExn (RuntimeError ''attempt to re-acquire an already held Lock'')
      then PyExn (RuntimeError ''Attempted to acquire an already held Lock'') else e)"

text \<open>
  \<open>TlSlow\<close> is trio's \<open>acquire\<close>; \<open>TlCheck\<close> is \<open>checkpoint_if_cancelled\<close>, after which \<open>nowait\<close> is what
  trio's \<open>acquire_nowait\<close> gives; \<open>TlPark\<close> is the wait in the parking lot.
\<close>

datatype tlock_pc = TlSlow | TlCheck | TlPark

definition trio_lock_acquire_start :: "bool \<Rightarrow> (tlock_pc, unit) toutcome" where
  "trio_lock_acquire_start fast = TSuspended (if fast then TlCheck else TlSlow)"

fun trio_lock_acquire_resume :: "tlock_pc \<Rightarrow> unit tawaited \<Rightarrow> unit tres \<Rightarrow> (tlock_pc, unit) toutcome" where
  "trio_lock_acquire_resume TlSlow (TResumed _) nowait = TDone ()"
| "trio_lock_acquire_resume TlSlow (TThrown e) nowait = TRaised (convert_lock_message e)"
| "trio_lock_acquire_resume TlCheck (TResumed _) nowait =
     (case nowait of
        Inr _ \<Rightarrow> TDone ()
      | Inl e \<Rightarrow> if e = TrioWouldBlock then TSuspended TlPark else TRaised (convert_lock_message e))"
| "trio_lock_acquire_resume TlCheck (TThrown e) nowait = TRaised e"
| "trio_lock_acquire_resume TlPark (TResumed _) nowait = TDone ()"
| "trio_lock_acquire_resume TlPark (TThrown e) nowait = TRaised e"

definition convert_would_block :: "texn \<Rightarrow> texn" where
  "convert_would_block e = (if e = TrioWouldBlock then PyExn WouldBlock else e)"

definition trio_lock_acquire_nowait :: "unit tres \<Rightarrow> unit tres" where
  "trio_lock_acquire_nowait nowait =
     (case nowait of Inr _ \<Rightarrow> Inr () | Inl e \<Rightarrow> Inl (convert_lock_message (convert_would_block e)))"

section \<open>Semaphore\<close>

fun trio_sem_acquire_resume :: "tlock_pc \<Rightarrow> unit tawaited \<Rightarrow> unit tres \<Rightarrow> (tlock_pc, unit) toutcome" where
  "trio_sem_acquire_resume TlCheck (TResumed _) nowait =
     (case nowait of
        Inr _ \<Rightarrow> TDone ()
      | Inl e \<Rightarrow> if e = TrioWouldBlock then TSuspended TlPark else TRaised e)"
| "trio_sem_acquire_resume pc (TResumed _) nowait = TDone ()"
| "trio_sem_acquire_resume pc (TThrown e) nowait = TRaised e"

definition trio_sem_acquire_nowait :: "unit tres \<Rightarrow> unit tres" where
  "trio_sem_acquire_nowait nowait =
     (case nowait of Inr _ \<Rightarrow> Inr () | Inl e \<Rightarrow> Inl (convert_would_block e))"

section \<open>CapacityLimiter\<close>

definition trio_limiter_acquire_nowait :: "unit tres \<Rightarrow> unit tres" where
  "trio_limiter_acquire_nowait nowait = nowait"

definition trio_limiter_acquire_on_behalf_of_nowait :: "unit tres \<Rightarrow> unit tres" where
  "trio_limiter_acquire_on_behalf_of_nowait nowait = nowait"

text \<open>\<open>current_default_thread_limiter\<close>: one wrapper for each run of trio, made at the first use.\<close>

definition trio_thread_limiter :: "'c \<Rightarrow> 'c option \<Rightarrow> 'c option \<times> 'c" where
  "trio_thread_limiter fresh wrapper = (case wrapper of Some c \<Rightarrow> (wrapper, c) | None \<Rightarrow> (Some fresh, fresh))"

lemma thread_limiter_same:
  "trio_thread_limiter c w = (w', x) \<Longrightarrow> trio_thread_limiter d w' = (w', x)"
  by (auto simp: trio_thread_limiter_def split: option.splits)

section \<open>Signals\<close>

text \<open>\<open>__anext__\<close> makes a \<open>Signals\<close> of the number the iterator of trio gives; \<open>known\<close> says which exist.\<close>

definition trio_signal_next :: "(int \<Rightarrow> bool) \<Rightarrow> int tawaited \<Rightarrow> int tres" where
  "trio_signal_next known r =
     (case r of
        TThrown e \<Rightarrow> Inl e
      | TResumed n \<Rightarrow>
          if known n then Inr n
          else Inl (PyExn (ValueError (dec_int n @ '' is not a valid Signals''))))"

section \<open>What reaches the caller\<close>

text \<open>
  a lock or semaphore of the trio backend that cannot be taken at once raises anyio's
  \<open>WouldBlock\<close> and never trio's; its fast path takes a free one without waiting and waits, in the
  parking lot, exactly when it is not free; a cancellation is passed on.
\<close>

theorem trio_acquire_converts:
  "trio_lock_acquire_nowait (Inl TrioWouldBlock) = Inl (PyExn WouldBlock) \<and>
   trio_sem_acquire_nowait (Inl TrioWouldBlock) = Inl (PyExn WouldBlock) \<and>
   trio_lock_acquire_nowait nowait \<noteq> Inl TrioWouldBlock \<and>
   trio_sem_acquire_nowait nowait \<noteq> Inl TrioWouldBlock \<and>
   (trio_lock_acquire_resume TlCheck (TResumed ()) nowait = TSuspended TlPark) = (nowait = Inl TrioWouldBlock) \<and>
   (trio_lock_acquire_resume TlCheck (TResumed ()) nowait = TDone ()) = (nowait = Inr ()) \<and>
   trio_lock_acquire_resume pc (TThrown TrioCancelled) nowait = TRaised TrioCancelled \<and>
   trio_sem_acquire_resume pc (TThrown TrioCancelled) nowait = TRaised TrioCancelled"
  by (cases nowait; cases pc)
    (auto simp: trio_lock_acquire_nowait_def trio_sem_acquire_nowait_def convert_lock_message_def convert_would_block_def)

text \<open>A capacity limiter lets trio's own \<open>WouldBlock\<close> through.\<close>

lemma trio_limiter_leaks_would_block:
  "trio_limiter_acquire_nowait (Inl TrioWouldBlock) = Inl TrioWouldBlock"
  "trio_limiter_acquire_on_behalf_of_nowait (Inl TrioWouldBlock) = Inl TrioWouldBlock"
  by (simp_all add: trio_limiter_acquire_nowait_def trio_limiter_acquire_on_behalf_of_nowait_def)

section \<open>Construction and statistics\<close>

text \<open>
  \<open>Semaphore\<close>: the base class checks the arguments; \<open>mk\<close> is trio's constructor. \<open>CapacityLimiter\<close>
  wraps the limiter it is given, or makes one.
\<close>

definition trio_sem_init ::
  "(pynum \<Rightarrow> pynum option \<Rightarrow> 't tres) \<Rightarrow> pynum \<Rightarrow> pynum option \<Rightarrow> bool \<Rightarrow> (bool \<times> 't) tres"
where
  "trio_sem_init mk initial_value max_value fast =
     (case sem_init initial_value max_value fast of
        Inl e \<Rightarrow> Inl (PyExn e)
      | Inr s \<Rightarrow> (case mk initial_value max_value of Inl e \<Rightarrow> Inl e | Inr t \<Rightarrow> Inr (sem_fast s, t)))"

definition trio_limiter_init :: "(pynum \<Rightarrow> 't tres) \<Rightarrow> pynum option \<Rightarrow> 't option \<Rightarrow> 't tres" where
  "trio_limiter_init mk total_tokens original =
     (case original of
        Some t \<Rightarrow> Inr t
      | None \<Rightarrow> (case total_tokens of None \<Rightarrow> Inl (PyExn AssertionError) | Some n \<Rightarrow> mk n))"

text \<open>The statistics of trio's objects, and what is made of them; a task is identified by its number.\<close>

record trio_lock_stats =
  tls_locked :: bool
  tls_owner :: "task option"
  tls_tasks_waiting :: nat

record trio_limiter_stats =
  tcs_borrowed :: nat
  tcs_total :: pynum
  tcs_borrowers :: "nat list"
  tcs_tasks_waiting :: nat

definition trio_lock_statistics :: "trio_lock_stats \<Rightarrow> lock_statistics" where
  "trio_lock_statistics st =
     \<lparr>ls_locked = tls_locked st, ls_owner = tls_owner st, ls_tasks_waiting = tls_tasks_waiting st\<rparr>"

definition trio_limiter_statistics :: "trio_limiter_stats \<Rightarrow> limiter_statistics" where
  "trio_limiter_statistics st =
     \<lparr>stat_borrowed = tcs_borrowed st, stat_total = tcs_total st, stat_borrowers = tcs_borrowers st,
      stat_waiting = tcs_tasks_waiting st\<rparr>"

text \<open>A semaphore of either backend refuses the same arguments before the backend's own constructor is asked.\<close>

lemma trio_sem_init_checks:
  "sem_init i m fast = Inl e \<Longrightarrow> trio_sem_init mk i m fast = Inl (PyExn e)"
  by (simp add: trio_sem_init_def)

lemma trio_sem_init_made:
  "trio_sem_init mk i m fast = Inr (f, t) \<longleftrightarrow> (\<exists>s. sem_init i m fast = Inr s) \<and> f = fast \<and> mk i m = Inr t"
  by (auto simp: trio_sem_init_def sem_init_def split: sum.splits option.splits if_splits)

end
