(* ===== verification/EventLoop.thy ===== *)
theory EventLoop
  imports AsyncBase RunVars
begin

text \<open>
  Entering an event loop: \<open>run\<close> and the choice of the backend (\<open>src/anyio/_core/_eventloop.py\<close>), the
  front end of worker threads (\<open>to_thread.py\<close>), and of \<open>_backends/_asyncio.py\<close> the \<open>Runner\<close> that is
  used where Python has none, \<open>find_root_task\<close>, and the inspection of tasks (\<open>_core/_testing.py\<close>).
\<close>

section \<open>Backends\<close>

text \<open>
  What \<open>sniffio\<close> sees of the thread: the running library, if any, and the context variable. The
  modules of the backends are an argument: importing one gives its class or raises.
\<close>

record 'b loopenv =
  le_running :: "string option"
  le_cvar :: "string option"
  le_loaded :: "(string \<times> 'b) list"

definition get_async_backend :: "(string \<Rightarrow> 'b res) \<Rightarrow> string option \<Rightarrow> 'b loopenv \<Rightarrow> 'b loopenv \<times> 'b res" where
  "get_async_backend import_module name env =
     (case (case name of Some n \<Rightarrow> Inr n
              | None \<Rightarrow> (case le_running env of None \<Rightarrow> Inl (RuntimeError ''unknown async library, or not in async context'')
                  | Some n \<Rightarrow> Inr n)) of
        Inl e \<Rightarrow> (env, Inl e)
      | Inr n \<Rightarrow>
          (case map_of (le_loaded env) n of
             Some b \<Rightarrow> (env, Inr b)
           | None \<Rightarrow>
               (case import_module n of
                  Inl e \<Rightarrow> (env, Inl e)
                | Inr b \<Rightarrow> (env\<lparr>le_loaded := (n, b) # le_loaded env\<rparr>, Inr b))))"

definition already_running :: "string \<Rightarrow> exn" where
  "already_running lib = RuntimeError (''Already running '' @ lib @ '' in this thread'')"

definition no_such_backend :: "string \<Rightarrow> exn" where
  "no_such_backend name = LookupError (''No such backend: '' @ name)"

text \<open>
  \<open>run\<close>: \<open>backend_run b env\<close> is the backend's \<open>run\<close> with the environment it starts in; it may load
  backends.
\<close>

definition anyio_run ::
  "(string \<Rightarrow> 'b res) \<Rightarrow> ('b \<Rightarrow> 'b loopenv \<Rightarrow> 'b loopenv \<times> 'a res) \<Rightarrow> string \<Rightarrow> 'b loopenv \<Rightarrow> 'b loopenv \<times> 'a res"
where
  "anyio_run import_module backend_run name env =
     (case le_running env of
        Some lib \<Rightarrow> (env, Inl (already_running lib))
      | None \<Rightarrow>
          (case get_async_backend import_module (Some name) env of
             (env1, Inl e) \<Rightarrow> (env1, Inl (if e = ImportError then no_such_backend name else e))
           | (env1, Inr b) \<Rightarrow>
               if le_cvar env1 = None then
                 (case backend_run b (env1\<lparr>le_cvar := Some name\<rparr>) of (env2, r) \<Rightarrow> (env2\<lparr>le_cvar := None\<rparr>, r))
               else backend_run b env1))"

text \<open>
  \<open>anyio.run\<close> refuses to start inside a running loop, reports an unknown backend as \<open>LookupError\<close>,
  otherwise gives what the backend's \<open>run\<close> gives; and the context variable that names the library is
  afterwards as it was before, whatever happens inside.
\<close>

theorem anyio_run_spec:
  assumes "\<And>b e. le_cvar (fst (backend_run b e)) = le_cvar e"
  shows "le_cvar (fst (anyio_run import_module backend_run name env)) = le_cvar env \<and>
    (le_running env = Some lib \<longrightarrow> snd (anyio_run import_module backend_run name env) = Inl (already_running lib)) \<and>
    (le_running env = None \<and> map_of (le_loaded env) name = None \<and> import_module name = Inl ImportError \<longrightarrow>
       snd (anyio_run import_module backend_run name env) = Inl (no_such_backend name)) \<and>
    (le_running env = None \<and> map_of (le_loaded env) name = Some b \<longrightarrow>
       snd (anyio_run import_module backend_run name env) =
         snd (backend_run b (env\<lparr>le_cvar := Some (case le_cvar env of None \<Rightarrow> name | Some n \<Rightarrow> n)\<rparr>)))"
proof -
  have same: "env\<lparr>le_cvar := Some n\<rparr> = env" if "le_cvar env = Some n" for n
    using that by (cases env) simp
  have "le_cvar (fst (anyio_run import_module backend_run name env)) = le_cvar env"
    using assms by (auto simp: anyio_run_def get_async_backend_def split: option.splits sum.splits prod.splits)
  moreover have "snd (anyio_run import_module backend_run name env) =
      snd (backend_run b (env\<lparr>le_cvar := Some (case le_cvar env of None \<Rightarrow> name | Some n \<Rightarrow> n)\<rparr>))"
    if b: "le_running env = None" "map_of (le_loaded env) name = Some b"
  proof (cases "le_cvar env")
    case None
    then show ?thesis using b by (simp add: anyio_run_def get_async_backend_def split: prod.split)
  next
    case (Some n)
    have eq: "env\<lparr>le_cvar := Some (case le_cvar env of None \<Rightarrow> name | Some n \<Rightarrow> n)\<rparr> = env"
      by (simp only: Some option.case same [OF Some])
    show ?thesis unfolding eq using b Some by (simp add: anyio_run_def get_async_backend_def)
  qed
  moreover have "snd (anyio_run import_module backend_run name env) = Inl (already_running lib)"
    if "le_running env = Some lib"
    using that by (simp add: anyio_run_def)
  moreover have "snd (anyio_run import_module backend_run name env) = Inl (no_such_backend name)"
    if "le_running env = None" "map_of (le_loaded env) name = None" "import_module name = Inl ImportError"
    using that by (simp add: anyio_run_def get_async_backend_def)
  ultimately show ?thesis by blast
qed

lemma anyio_run_spec_witness:
  "snd (anyio_run (\<lambda>n. if n = ''asyncio'' then Inr 1 else Inl ImportError) (\<lambda>b e. (e, Inr (b + 41 :: nat))) ''curio''
     \<lparr>le_running = None, le_cvar = None, le_loaded = []\<rparr>) = Inl (no_such_backend ''curio'')"
  using anyio_run_spec [of "\<lambda>b e. (e, Inr (b + 41 :: nat))" "\<lambda>n. if n = ''asyncio'' then Inr 1 else Inl ImportError" "''curio''"
      "\<lparr>le_running = None, le_cvar = None, le_loaded = []\<rparr>"]
  by simp

section \<open>Sleeping and worker threads\<close>

text \<open>\<open>sleep_until\<close>: the delay it asks for.\<close>

definition sleep_until_delay :: "real \<Rightarrow> real \<Rightarrow> real" where
  "sleep_until_delay now deadline = max (deadline - now) 0"

lemma sleep_until_reaches: "now \<le> t \<Longrightarrow> now + sleep_until_delay now deadline \<le> t \<longleftrightarrow> deadline \<le> t"
  by (auto simp: sleep_until_delay_def)

text \<open>\<open>to_thread.run_sync\<close>: the deprecated argument overrides the new one.\<close>

definition to_thread_abandon :: "bool \<Rightarrow> bool option \<Rightarrow> bool" where
  "to_thread_abandon abandon_on_cancel cancellable =
     (case cancellable of Some c \<Rightarrow> c | None \<Rightarrow> abandon_on_cancel)"

section \<open>Runner\<close>

text \<open>
  The class \<open>Runner\<close>, for versions of Python without one. Event loops are numbers; \<open>rn_policy\<close> is the
  thread's current loop, \<open>rn_loops\<close> the loops it made and did not yet close, \<open>rn_sigint\<close> the handler of the
  interrupt signal, both outside the runner.
\<close>

datatype rstate = RCreated | RInitialized | RClosed

datatype sigint = DefaultInt | RunnerInt | OtherInt

record runner =
  rn_state :: rstate
  rn_factory :: bool
  rn_loop :: "nat option"
  rn_set_loop :: bool
  rn_interrupts :: nat
  rn_policy :: "nat option"
  rn_loops :: "nat list"
  rn_sigint :: sigint

text \<open>A new runner, in a thread with that handler and that current loop.\<close>

definition runner_new :: "bool \<Rightarrow> sigint \<Rightarrow> nat option \<Rightarrow> runner" where
  "runner_new factory h current = \<lparr>rn_state = RCreated, rn_factory = factory, rn_loop = None, rn_set_loop = False,
     rn_interrupts = 0, rn_policy = current, rn_loops = [], rn_sigint = h\<rparr>"

text \<open>\<open>mk\<close> is what the factory, or \<open>new_event_loop\<close>, gives.\<close>

definition lazy_init :: "nat res \<Rightarrow> runner \<Rightarrow> runner \<times> unit res" where
  "lazy_init mk r =
     (case rn_state r of
        RClosed \<Rightarrow> (r, Inl (RuntimeError ''Runner is closed''))
      | RInitialized \<Rightarrow> (r, Inr ())
      | RCreated \<Rightarrow>
          (case mk of
             Inl e \<Rightarrow> (r, Inl e)
           | Inr l \<Rightarrow>
               let r1 = r\<lparr>rn_loop := Some l, rn_loops := l # rn_loops r\<rparr>;
                   r2 = (if rn_factory r \<or> rn_set_loop r then r1 else r1\<lparr>rn_policy := Some l, rn_set_loop := True\<rparr>)
               in (r2\<lparr>rn_state := RInitialized\<rparr>, Inr ())))"

text \<open>
  \<open>run\<close> up to \<open>run_until_complete\<close>: the result says whether the runner's handler was installed.
  \<open>main_thread\<close> and \<open>settable\<close> say whether this is the main thread and whether it supports signals.
\<close>

definition runner_run_begin :: "bool \<Rightarrow> bool \<Rightarrow> bool \<Rightarrow> nat res \<Rightarrow> runner \<Rightarrow> runner \<times> bool res" where
  "runner_run_begin nested main_thread settable mk r =
     (if nested then (r, Inl (RuntimeError ''Runner.run() cannot be called from a running event loop''))
      else case lazy_init mk r of
        (r1, Inl e) \<Rightarrow> (r1, Inl e)
      | (r1, Inr _) \<Rightarrow>
          if main_thread \<and> rn_sigint r1 = DefaultInt \<and> settable
          then (r1\<lparr>rn_sigint := RunnerInt, rn_interrupts := 0\<rparr>, Inr True)
          else (r1\<lparr>rn_interrupts := 0\<rparr>, Inr False))"

text \<open>An interrupt while the runner's handler is installed; the result says whether it only cancels the main task.\<close>

definition on_sigint :: "bool \<Rightarrow> runner \<Rightarrow> runner \<times> bool res" where
  "on_sigint main_done r =
     (let r1 = r\<lparr>rn_interrupts := Suc (rn_interrupts r)\<rparr> in
      if rn_interrupts r1 = 1 \<and> \<not> main_done then (r1, Inr True) else (r1, Inl KeyboardInterrupt))"

text \<open>
  The end of \<open>run\<close>: \<open>x\<close> is what \<open>run_until_complete\<close> gives, \<open>uncancel\<close> what the task's \<open>uncancel\<close>
  gives, if it has that method.
\<close>

definition runner_run_end :: "bool \<Rightarrow> nat option \<Rightarrow> 'a res \<Rightarrow> runner \<Rightarrow> runner \<times> 'a res" where
  "runner_run_end installed uncancel x r =
     ((if installed \<and> rn_sigint r = RunnerInt then r\<lparr>rn_sigint := DefaultInt\<rparr> else r),
      case x of
        Inr v \<Rightarrow> Inr v
      | Inl e \<Rightarrow> Inl (if is_cancelled e \<and> 0 < rn_interrupts r \<and> uncancel = Some 0 then KeyboardInterrupt else e))"

text \<open>
  What the coroutine and the tasks of the loop do to the thread while they run, and interrupts with
  whether the main task is done then. An interrupt comes to the runner only while its handler is
  installed.
\<close>

datatype run_event = Interrupt bool | SetSigint sigint | SetLoop "nat option"

fun apply_event :: "run_event \<Rightarrow> runner \<Rightarrow> runner" where
  "apply_event (Interrupt main_done) r =
     (if rn_sigint r = RunnerInt then fst (on_sigint main_done r) else r)"
| "apply_event (SetSigint k) r = r\<lparr>rn_sigint := k\<rparr>"
| "apply_event (SetLoop l) r = r\<lparr>rn_policy := l\<rparr>"

abbreviation run_events :: "run_event list \<Rightarrow> runner \<Rightarrow> runner" where
  "run_events \<equiv> fold apply_event"

text \<open>
  \<open>close\<close>: \<open>shutdown\<close> is what cancelling the tasks and shutting down generators and executor give, \<open>late\<close>
  what the tasks do meanwhile.
\<close>

definition runner_close :: "run_event list \<Rightarrow> unit res \<Rightarrow> runner \<Rightarrow> runner \<times> unit res" where
  "runner_close late shutdown r =
     (if rn_state r \<noteq> RInitialized then (r, Inr ())
      else
        let r0 = run_events late r;
            r1 = (if rn_set_loop r0 then r0\<lparr>rn_policy := None\<rparr> else r0);
            r2 = r1\<lparr>rn_loops := (case rn_loop r of None \<Rightarrow> rn_loops r | Some l \<Rightarrow> removeAll l (rn_loops r))\<rparr>
        in (r2\<lparr>rn_loop := None, rn_state := RClosed\<rparr>, shutdown))"

text \<open>
  \<open>with Runner(...) as runner: return runner.run(...)\<close>: \<open>evs\<close> happen while the coroutine runs, \<open>late\<close> while
  \<open>close\<close> cancels the tasks that are left and shuts down the generators and the executor.
\<close>

definition with_runner ::
  "bool \<Rightarrow> bool \<Rightarrow> bool \<Rightarrow> nat res \<Rightarrow> run_event list \<Rightarrow> nat option \<Rightarrow> 'a res \<Rightarrow> run_event list \<Rightarrow> unit res \<Rightarrow>
   runner \<Rightarrow> runner \<times> 'a res"
where
  "with_runner nested main_thread settable mk evs uncancel x late shutdown r =
     (case lazy_init mk r of
        (r1, Inl e) \<Rightarrow> (r1, Inl e)
      | (r1, Inr _) \<Rightarrow>
          let (r3, y) = (case runner_run_begin nested main_thread settable mk r1 of
                           (r2, Inl e) \<Rightarrow> (r2, Inl e)
                         | (r2, Inr installed) \<Rightarrow> runner_run_end installed uncancel x (run_events evs r2));
              (r4, z) = runner_close late shutdown r3
          in (r4, case z of Inl e \<Rightarrow> Inl e | Inr _ \<Rightarrow> y))"

text \<open>The handler and the current loop that events leave, from those there are before.\<close>

fun handler_left :: "sigint \<Rightarrow> run_event list \<Rightarrow> sigint" where
  "handler_left h [] = h"
| "handler_left h (SetSigint k # evs) = handler_left k evs"
| "handler_left h (_ # evs) = handler_left h evs"

fun loop_left :: "nat option \<Rightarrow> run_event list \<Rightarrow> nat option" where
  "loop_left l [] = l"
| "loop_left l (SetLoop k # evs) = loop_left k evs"
| "loop_left l (_ # evs) = loop_left l evs"

lemma on_sigint_fields [simp]:
  "rn_state (fst (on_sigint d r)) = rn_state r" "rn_loop (fst (on_sigint d r)) = rn_loop r"
  "rn_set_loop (fst (on_sigint d r)) = rn_set_loop r" "rn_policy (fst (on_sigint d r)) = rn_policy r"
  "rn_loops (fst (on_sigint d r)) = rn_loops r" "rn_sigint (fst (on_sigint d r)) = rn_sigint r"
  by (auto simp: on_sigint_def Let_def)

lemma left_append:
  "loop_left l (evs @ evs') = loop_left (loop_left l evs) evs'"
  by (induction l evs rule: loop_left.induct) simp_all

lemma run_events_fields [simp]:
  "rn_state (run_events evs r) = rn_state r \<and> rn_loop (run_events evs r) = rn_loop r \<and>
   rn_set_loop (run_events evs r) = rn_set_loop r \<and> rn_loops (run_events evs r) = rn_loops r \<and>
   rn_policy (run_events evs r) = loop_left (rn_policy r) evs \<and>
   rn_sigint (run_events evs r) = handler_left (rn_sigint r) evs"
proof (induction evs arbitrary: r)
  case (Cons e evs)
  then show ?case by (cases e) simp_all
qed simp

lemma handler_kept: "(\<And>k. SetSigint k \<notin> set evs) \<Longrightarrow> handler_left h evs = h"
  by (induction h evs rule: handler_left.induct) auto

text \<open>
  C31: A runner used as a context manager for one coroutine leaves nothing behind, whatever interrupt
  handlers and current loops the coroutine and the other tasks set and however many interrupts arrive:
  the runner's loop is closed, and the runner cannot be used again. If the runner set the thread's
  current loop (no loop factory), there is none afterwards; otherwise it is the one from before or the
  last that a task set. The handler for interrupts is the one from before unless a task has set
  another; then the runner leaves that one alone, and puts the default one back exactly if its own,
  which it installs only over the default one in the main thread, is in place when the coroutine ends.
  If the loop cannot be made, nothing has changed.
\<close>

theorem runner_leaves_nothing:
  "let r = fst (with_runner nested main_thread settable mk evs uncancel x late shutdown (runner_new factory h current));
       ran = (if nested then [] else evs);
       taken = (\<not> nested \<and> main_thread \<and> settable \<and> h = DefaultInt);
       before = handler_left (if taken then RunnerInt else h) ran
   in rn_loops r = [] \<and> rn_loop r = None \<and>
      (case mk of
         Inl e \<Rightarrow> r = runner_new factory h current
       | Inr l \<Rightarrow>
           rn_state r = RClosed \<and> lazy_init m r = (r, Inl (RuntimeError ''Runner is closed'')) \<and>
           rn_policy r = (if factory then loop_left current (ran @ late) else None) \<and>
           rn_sigint r = handler_left (if taken \<and> before = RunnerInt then DefaultInt else before) late \<and>
           ((\<forall>k. SetSigint k \<notin> set (ran @ late)) \<longrightarrow> rn_sigint r = h))"
  by (cases mk)
    (auto simp: with_runner_def runner_new_def lazy_init_def runner_run_begin_def runner_run_end_def runner_close_def
      Let_def left_append handler_kept split: prod.splits if_splits)

lemma runner_leaves_nothing_witness:
  "let r = fst (with_runner False True True (Inr 3) [Interrupt False] None (Inl (CancelledError None None) :: unit res)
             [] (Inr ()) (runner_new False DefaultInt None))
   in rn_loops r = [] \<and> rn_sigint r = DefaultInt"
  using runner_leaves_nothing [of False True True "Inr 3" "[Interrupt False]" None
      "Inl (CancelledError None None) :: unit res" "[]" "Inr ()" False DefaultInt None]
  by (simp add: Let_def)

text \<open>A handler that the coroutine sets stays, although the runner had installed its own.\<close>

lemma own_handler_stays:
  "rn_sigint (fst (with_runner False True True (Inr 3) [SetSigint OtherInt] None (Inr ()) [] (Inr ())
     (runner_new False DefaultInt None))) = OtherInt"
  by (simp add: with_runner_def runner_new_def lazy_init_def runner_run_begin_def runner_run_end_def runner_close_def
      Let_def)

text \<open>
  One interrupt cancels the main task; the run ends in \<open>KeyboardInterrupt\<close> if tasks have \<open>uncancel\<close>,
  but where this class is used (Python before 3.11) they have not, and the cancellation comes out.
\<close>

lemma interrupt_comes_out:
  "snd (runner_run_end True (Some 0) (Inl (CancelledError m c) :: unit res) (fst (on_sigint False (runner_new False RunnerInt None)))) = Inl KeyboardInterrupt"
  "snd (runner_run_end True None (Inl (CancelledError m c) :: unit res) (fst (on_sigint False (runner_new False RunnerInt None)))) = Inl (CancelledError m c)"
  by (simp_all add: runner_run_end_def on_sigint_def runner_new_def is_cancelled_def Let_def)

section \<open>Tasks\<close>

text \<open>
  \<open>find_root_task\<close>: tasks have numbers; of the loop's tasks it sees which are done and which have the
  callback of \<open>run_until_complete\<close>; \<open>scope_root\<close> is the host of the topmost scope above the current
  task, if it has a scope. The result is kept in a run variable.
\<close>

definition root_task_var :: "nat runvar" where
  "root_task_var = \<lparr>var_id = 0, var_name = ''_root_task'', var_default = None\<rparr>"

definition topmost_task ::
  "'l \<Rightarrow> nat list \<Rightarrow> (nat \<Rightarrow> bool) \<Rightarrow> (nat \<Rightarrow> bool) \<Rightarrow> nat option \<Rightarrow> nat \<Rightarrow> ('l, nat) run_vars \<Rightarrow> ('l, nat) run_vars \<times> nat"
where
  "topmost_task loop all_tasks finished run_callback scope_root current_task vs =
     (case find (\<lambda>t. run_callback t \<and> \<not> finished t) all_tasks of
        Some t \<Rightarrow> (fst (runvar_set loop root_task_var t vs), t)
      | None \<Rightarrow> (vs, case scope_root of Some h \<Rightarrow> h | None \<Rightarrow> current_task))"

definition find_root_task ::
  "'l \<Rightarrow> nat list \<Rightarrow> (nat \<Rightarrow> bool) \<Rightarrow> (nat \<Rightarrow> bool) \<Rightarrow> nat option \<Rightarrow> nat \<Rightarrow> ('l, nat) run_vars \<Rightarrow> ('l, nat) run_vars \<times> nat"
where
  "find_root_task loop all_tasks finished run_callback scope_root current_task vs =
     (case runvar_get loop root_task_var None vs of
        (vs1, Inr t) \<Rightarrow>
          if \<not> finished t then (vs1, t)
          else topmost_task loop all_tasks finished run_callback scope_root current_task vs1
      | (vs1, Inl e) \<Rightarrow> topmost_task loop all_tasks finished run_callback scope_root current_task vs1)"

text \<open>
  Once found by its callback, the root task stays the answer in that loop until it is done, whatever
  task asks.
\<close>

lemma root_task_stable:
  assumes "find_root_task loop ts fin cb sr cur vs = (vs', t)" "find (\<lambda>t. cb t \<and> \<not> fin t) ts \<noteq> None"
    and "\<not> fin' t"
  shows "snd (find_root_task loop ts' fin' cb' sr' cur' vs') = t"
proof -
  have "value_of vs' loop ''_root_task'' = Some t"
    using assms(1,2) runvar_get_value [of loop root_task_var None vs]
    by (auto simp: find_root_task_def topmost_task_def root_task_var_def runvar_set_value(1)
        split: prod.splits sum.splits if_splits option.splits)
  then show ?thesis
    using assms(3) runvar_get_value [of loop root_task_var None vs']
    by (auto simp: find_root_task_def root_task_var_def split: prod.splits sum.splits)
qed

text \<open>
  \<open>get_running_tasks\<close>, and \<open>wait_all_tasks_blocked\<close>: at each round the tasks of the loop with what
  they wait for (\<open>None\<close>: nothing; \<open>Some d\<close>: a future that is done or not); the rounds are a list, and
  the result is how often it slept before it returned.
\<close>

definition running_tasks :: "(task \<times> bool) list \<Rightarrow> task list" where
  "running_tasks ts = map fst (filter (\<lambda>(t, finished). \<not> finished) ts)"

definition all_blocked :: "task \<Rightarrow> (task \<times> bool option) list \<Rightarrow> bool" where
  "all_blocked this ts \<longleftrightarrow> list_all (\<lambda>(t, w). t = this \<or> w = Some False) ts"

fun wait_all_tasks_blocked :: "task \<Rightarrow> (task \<times> bool option) list list \<Rightarrow> nat option" where
  "wait_all_tasks_blocked this [] = None"
| "wait_all_tasks_blocked this (ts # rounds) =
     (if all_blocked this ts then Some 0 else map_option Suc (wait_all_tasks_blocked this rounds))"

lemma wait_all_tasks_blocked_first:
  "wait_all_tasks_blocked this rounds = Some n \<longleftrightarrow>
     n < length rounds \<and> all_blocked this (rounds ! n) \<and> (\<forall>m < n. \<not> all_blocked this (rounds ! m))"
proof (induction this rounds arbitrary: n rule: wait_all_tasks_blocked.induct)
  case (2 this ts rounds)
  show ?case
    using 2 by (cases n) (auto simp: less_Suc_eq_0_disj)
qed simp

end
