(* ===== verification/TestRunners.thy ===== *)
theory TestRunners
  imports EventLoop
begin

text \<open>
  The test support: the shared runner of the pytest plugin (\<open>src/anyio/pytest_plugin.py\<close>) and the
  classes \<open>TestRunner\<close> of both backends (\<open>_backends/_asyncio.py\<close>, \<open>_backends/_trio.py\<close>), which run
  tests and fixtures in one task. What a coroutine comes to, and which exceptions event loop callbacks
  report while it runs, are arguments.
\<close>

section \<open>The runner of the plugin\<close>

datatype 'o backend_param = BpName string | BpPair string 'o | BpOther

definition extract_backend_and_options :: "'o \<Rightarrow> 'o backend_param \<Rightarrow> (string \<times> 'o) res" where
  "extract_backend_and_options no_options b =
     (case b of
        BpName n \<Rightarrow> Inr (n, no_options)
      | BpPair n opts \<Rightarrow> Inr (n, opts)
      | BpOther \<Rightarrow> Inl (TypeError ''anyio_backend must be either a string or tuple of (string, dict)''))"

text \<open>
  The globals, the context variable of \<open>sniffio\<close>, and the runners that are entered: \<open>pg_runner\<close> is the
  current runner (the backend it was made for), \<open>pg_resets\<close> whether the stack resets the variable.
\<close>

record plugin =
  pg_runner :: "string option"
  pg_leases :: nat
  pg_resets :: bool
  pg_cvar :: "string option"

text \<open>\<open>found\<close> and \<open>entered\<close>: what \<open>get_async_backend\<close> and making and entering the runner give.\<close>

definition get_runner :: "string \<Rightarrow> unit res \<Rightarrow> unit res \<Rightarrow> plugin \<Rightarrow> plugin \<times> unit res" where
  "get_runner backend_name found entered p =
     (case pg_runner p of
        Some _ \<Rightarrow> (p\<lparr>pg_leases := Suc (pg_leases p)\<rparr>, Inr ())
      | None \<Rightarrow>
          (case found of
             Inl e \<Rightarrow> (p, Inl e)
           | Inr _ \<Rightarrow>
               let p1 = (if pg_cvar p = None then p\<lparr>pg_resets := True, pg_cvar := Some backend_name\<rparr>
                         else p\<lparr>pg_resets := False\<rparr>) in
               case entered of
                 Inl e \<Rightarrow> (p1, Inl e)
               | Inr _ \<Rightarrow> (p1\<lparr>pg_runner := Some backend_name, pg_leases := Suc (pg_leases p1)\<rparr>, Inr ())))"

text \<open>Leaving: \<open>exited\<close> is what the runner's \<open>__exit__\<close> gives; the stack resets the variable after it.\<close>

definition leave_runner :: "unit res \<Rightarrow> plugin \<Rightarrow> plugin \<times> unit res" where
  "leave_runner exited p =
     (let p1 = p\<lparr>pg_leases := pg_leases p - 1\<rparr> in
      if pg_leases p1 \<noteq> 0 then (p1, Inr ())
      else
        let p2 = (if pg_resets p1 then p1\<lparr>pg_cvar := None\<rparr> else p1) in
        case exited of Inl e \<Rightarrow> (p2, Inl e) | Inr _ \<Rightarrow> (p2\<lparr>pg_runner := None\<rparr>, Inr ()))"

text \<open>Fixtures and tests that take and leave the runner, when making and leaving runners works.\<close>

inductive plugin_reach :: "string option \<Rightarrow> plugin \<Rightarrow> nat \<Rightarrow> bool" for c where
  pg_init: "plugin_reach c \<lparr>pg_runner = None, pg_leases = 0, pg_resets = False, pg_cvar = c\<rparr> 0"
| pg_enter: "plugin_reach c p n \<Longrightarrow> get_runner name (Inr ()) (Inr ()) p = (p', Inr ()) \<Longrightarrow> plugin_reach c p' (Suc n)"
| pg_leave: "plugin_reach c p (Suc n) \<Longrightarrow> leave_runner (Inr ()) p = (p', Inr ()) \<Longrightarrow> plugin_reach c p' n"

text \<open>
  the runner exists exactly while somebody uses it, it stays the same until the last user leaves,
  and then the context variable has its old value again.
\<close>

theorem plugin_runner_leased:
  assumes "plugin_reach c p n"
  shows "pg_leases p = n \<and> (pg_runner p = None \<longleftrightarrow> n = 0) \<and> (n = 0 \<longrightarrow> pg_cvar p = c) \<and>
    (c \<noteq> None \<longrightarrow> pg_cvar p = c)"
proof -
  have "pg_leases p = n \<and> (pg_runner p = None \<longleftrightarrow> n = 0) \<and> (n = 0 \<longrightarrow> pg_cvar p = c) \<and>
      (n \<noteq> 0 \<longrightarrow> pg_resets p = (c = None)) \<and> (c \<noteq> None \<longrightarrow> pg_cvar p = c)"
    using assms
  proof (induction rule: plugin_reach.induct)
    case (pg_enter p n name p')
    then show ?case
      by (cases "pg_runner p"; cases "pg_cvar p") (auto simp: get_runner_def Let_def)
  next
    case (pg_leave p n p')
    then show ?case by (auto simp: leave_runner_def Let_def split: if_splits)
  qed simp
  then show ?thesis by blast
qed

lemma plugin_runner_leased_witness:
  "\<exists>p. plugin_reach None p 1 \<and> pg_runner p = Some ''asyncio'' \<and> pg_leases p = 1"
proof -
  define p1 where "p1 = \<lparr>pg_runner = Some ''asyncio'', pg_leases = 1, pg_resets = True, pg_cvar = Some ''asyncio''\<rparr>"
  have r: "plugin_reach None p1 (Suc 0)"
    by (rule pg_enter [OF pg_init, of "''asyncio''"]) (simp add: get_runner_def p1_def)
  from plugin_runner_leased [OF r] r show ?thesis by (auto simp: p1_def)
qed

text \<open>
  A second user gets the current runner even if it asks for another backend. If entering the runner
  fails, the context variable keeps the name of the backend; if leaving it fails, the closed runner
  stays the current one.
\<close>

lemma get_runner_ignores_backend:
  "pg_runner p = Some ''asyncio'' \<Longrightarrow>
     pg_runner (fst (get_runner ''trio'' found entered p)) = Some ''asyncio'' \<and> snd (get_runner ''trio'' found entered p) = Inr ()"
  by (simp add: get_runner_def)

lemma get_runner_failure_keeps_cvar:
  "get_runner ''trio'' (Inr ()) (Inl e) \<lparr>pg_runner = None, pg_leases = 0, pg_resets = False, pg_cvar = None\<rparr> =
     (\<lparr>pg_runner = None, pg_leases = 0, pg_resets = True, pg_cvar = Some ''trio''\<rparr>, Inl e)"
  by (simp add: get_runner_def)

lemma leave_runner_failure_keeps_runner:
  "pg_leases p = 1 \<Longrightarrow> pg_runner p = Some b \<Longrightarrow>
     pg_runner (fst (leave_runner (Inl e) p)) = Some b \<and> pg_leases (fst (leave_runner (Inl e) p)) = 0"
  by (auto simp: leave_runner_def Let_def)

text \<open>
  \<open>pytest_pyfunc_call\<close>: the exceptions that are to end the test run are taken out of an
  \<open>ExceptionGroup\<close>; \<open>is_exit\<close> recognizes pytest's \<open>Exit\<close>.
\<close>

definition ends_session :: "(exn \<Rightarrow> bool) \<Rightarrow> exn \<Rightarrow> bool" where
  "ends_session is_exit e \<longleftrightarrow> is_exit e \<or> e = KeyboardInterrupt \<or> e = SystemExit"

definition pyfunc_call_error :: "(exn \<Rightarrow> bool) \<Rightarrow> exn \<Rightarrow> exn" where
  "pyfunc_call_error is_exit e =
     (case e of
        ExcGroup m es \<Rightarrow>
          if is_Exception e then
            (case find (ends_session is_exit) (iterate_exceptions e) of Some x \<Rightarrow> x | None \<Rightarrow> e)
          else e
      | _ \<Rightarrow> e)"

lemma leaves_Exception:
  "is_Exception e \<Longrightarrow> x \<in> set (iterate_exceptions e) \<Longrightarrow> is_Exception x"
proof (induction e rule: iterate_exceptions.induct)
  case (1 e)
  then show ?case
    by (cases e) (auto simp: list_all_iff iterate_exceptions.simps)
qed

text \<open>
  Only \<open>Exit\<close> is ever taken out: a group that holds \<open>KeyboardInterrupt\<close> or \<open>SystemExit\<close> is not an
  \<open>ExceptionGroup\<close>.
\<close>

lemma group_interrupt_not_found:
  assumes "x \<noteq> e" "pyfunc_call_error is_exit e = x"
  shows "is_exit x"
proof -
  from assms obtain m es where e: "e = ExcGroup m es" "is_Exception e"
    and f: "find (ends_session is_exit) (iterate_exceptions e) = Some x"
    by (auto simp: pyfunc_call_error_def split: exn.splits if_splits option.splits)
  then have "x \<in> set (iterate_exceptions e)" "ends_session is_exit x"
    unfolding find_Some_iff by (metis nth_mem)+
  with leaves_Exception [OF e(2)] have "is_Exception x" "ends_session is_exit x" by blast+
  then show ?thesis by (auto simp: ends_session_def)
qed

section \<open>TestRunner of asyncio\<close>

text \<open>
  \<open>ar_running\<close>: the task that runs tests and fixtures has been made; \<open>ar_ended\<close>: it has ended, and both
  ends of its stream are closed; \<open>ar_exceptions\<close>: exceptions of event loop callbacks.
\<close>

record arunner =
  ar_running :: bool
  ar_ended :: bool
  ar_exceptions :: "exn list"

definition arunner_new :: arunner where
  "arunner_new = \<lparr>ar_running = False, ar_ended = False, ar_exceptions = []\<rparr>"

text \<open>\<open>_exception_handler\<close>: the rest goes to the loop's default handler.\<close>

definition exception_handler :: "exn option \<Rightarrow> arunner \<Rightarrow> arunner" where
  "exception_handler e r =
     (case e of
        Some x \<Rightarrow> if is_Exception x then r\<lparr>ar_exceptions := ar_exceptions r @ [x]\<rparr> else r
      | None \<Rightarrow> r)"

definition multiple_message :: string where
  "multiple_message = ''Multiple exceptions occurred in asynchronous callbacks''"

definition raise_async_exceptions :: "arunner \<Rightarrow> arunner \<times> unit res" where
  "raise_async_exceptions r =
     (case ar_exceptions r of
        [] \<Rightarrow> (r, Inr ())
      | [e] \<Rightarrow> (r\<lparr>ar_exceptions := []\<rparr>, Inl e)
      | es \<Rightarrow> (r\<lparr>ar_exceptions := []\<rparr>, Inl (ExcGroup multiple_message es)))"

text \<open>
  One turn of \<open>_run_tests_and_fixtures\<close>: what the coroutine gives is put into the future, unless that
  was cancelled; the second result says whether the task goes on or ends with an exception.
  \<open>is_outcome\<close> recognizes pytest's \<open>OutcomeException\<close>.
\<close>

definition run_item :: "(exn \<Rightarrow> bool) \<Rightarrow> 'a res \<Rightarrow> 'a future \<Rightarrow> 'a future \<times> unit res" where
  "run_item is_outcome x fut =
     (case x of
        Inr v \<Rightarrow> (if fut_cancelled fut then fut else FResult v, Inr ())
      | Inl e \<Rightarrow>
          if is_cancelled e then (if fut_cancelled fut then fut else fut_cancel fut, Inl e)
          else (if fut_cancelled fut then fut else FFailed e,
                if is_Exception e \<or> is_outcome e then Inr () else Inl e))"

text \<open>
  \<open>run_until_complete(self._call_in_runner_task(...))\<close>: the coroutine gives \<open>x\<close>, callbacks report
  \<open>cbs\<close> meanwhile.
\<close>

definition call_in_runner_task ::
  "(exn \<Rightarrow> bool) \<Rightarrow> exn list \<Rightarrow> 'a res \<Rightarrow> arunner \<Rightarrow> arunner \<times> 'a res"
where
  "call_in_runner_task is_outcome cbs x r =
     (let r1 = r\<lparr>ar_running := True\<rparr> in
      if ar_ended r1 then (r1, Inl ClosedResourceError)
      else
        let r2 = fold (\<lambda>e. exception_handler (Some e)) cbs r1;
            (fut, y) = run_item is_outcome x Pending;
            r3 = (case y of Inr _ \<Rightarrow> r2 | Inl e \<Rightarrow> r2\<lparr>ar_ended := True\<rparr>)
        in (r3, case y of
                  Inl e \<Rightarrow> Inl e
                | Inr _ \<Rightarrow> (case fut of FResult v \<Rightarrow> Inr v | FFailed e \<Rightarrow> Inl e | _ \<Rightarrow> Inl InvalidStateError)))"

definition arun_fixture :: "(exn \<Rightarrow> bool) \<Rightarrow> exn list \<Rightarrow> 'a res \<Rightarrow> arunner \<Rightarrow> arunner \<times> 'a res" where
  "arun_fixture is_outcome cbs x r =
     (case call_in_runner_task is_outcome cbs x r of
        (r1, Inl e) \<Rightarrow> (r1, Inl e)
      | (r1, Inr v) \<Rightarrow> (case raise_async_exceptions r1 of (r2, Inl e) \<Rightarrow> (r2, Inl e) | (r2, Inr _) \<Rightarrow> (r2, Inr v)))"

definition arun_test :: "(exn \<Rightarrow> bool) \<Rightarrow> exn list \<Rightarrow> unit res \<Rightarrow> arunner \<Rightarrow> arunner \<times> unit res" where
  "arun_test is_outcome cbs x r =
     (case call_in_runner_task is_outcome cbs x r of
        (r1, Inr _) \<Rightarrow> raise_async_exceptions r1
      | (r1, Inl e) \<Rightarrow>
          if is_Exception e then raise_async_exceptions (r1\<lparr>ar_exceptions := ar_exceptions r1 @ [e]\<rparr>)
          else (r1, Inl e))"

text \<open>
  The end of \<open>run_asyncgen_fixture\<close>: the generator should stop (\<open>StopAsyncIteration\<close>); \<open>closed\<close> is what
  its \<open>aclose\<close> gives.
\<close>

definition not_stopped :: exn where
  "not_stopped = RuntimeError ''Async generator fixture did not stop''"

definition arun_asyncgen_end ::
  "(exn \<Rightarrow> bool) \<Rightarrow> exn list \<Rightarrow> 'a res \<Rightarrow> unit res \<Rightarrow> arunner \<Rightarrow> arunner \<times> unit res"
where
  "arun_asyncgen_end is_outcome cbs x gen_closed r =
     (case call_in_runner_task is_outcome cbs x r of
        (r1, Inl e) \<Rightarrow> if e = StopAsyncIteration then raise_async_exceptions r1 else (r1, Inl e)
      | (r1, Inr _) \<Rightarrow> (r1, case gen_closed of Inl e \<Rightarrow> Inl e | Inr _ \<Rightarrow> Inl not_stopped))"

lemma exception_handler_fold [simp]:
  "ar_ended (fold (\<lambda>e. exception_handler (Some e)) cbs r) = ar_ended r"
  "ar_running (fold (\<lambda>e. exception_handler (Some e)) cbs r) = ar_running r"
  "ar_exceptions (fold (\<lambda>e. exception_handler (Some e)) cbs r) = ar_exceptions r @ filter is_Exception cbs"
  by (induction cbs arbitrary: r) (auto simp: exception_handler_def)

definition reported :: "exn list \<Rightarrow> unit res" where
  "reported es = (case es of [] \<Rightarrow> Inr () | [e] \<Rightarrow> Inl e | _ \<Rightarrow> Inl (ExcGroup multiple_message es))"

lemma raise_async_exceptions_reported:
  "raise_async_exceptions r = (r\<lparr>ar_exceptions := []\<rparr>, reported (ar_exceptions r))"
proof -
  have "r\<lparr>ar_exceptions := []\<rparr> = r" if "ar_exceptions r = []" using that by (cases r) simp
  then show ?thesis by (simp add: raise_async_exceptions_def reported_def split: list.split)
qed

text \<open>
  C25: a test on asyncio, while the runner's task lives, with the exceptions of event loop callbacks that
  are collected by its end (its own and those left over from before). If it returns or raises an
  \<open>Exception\<close>, it reports these together with its own exception, alone or as a group; nothing is left
  over for the next test and the runner goes on. If it raises something else, that goes out as it is and
  what was collected stays for the next test: after an outcome of pytest, as of \<open>pytest.fail()\<close>, the
  runner goes on, and after any other exception, a cancellation included, its task has ended.
\<close>

theorem arun_test_reports:
  assumes "\<not> ar_ended r" "collected = ar_exceptions r @ filter is_Exception cbs"
  shows "case arun_test is_outcome cbs x r of (r', y) \<Rightarrow>
    (case x of
       Inr _ \<Rightarrow> y = reported collected \<and> ar_exceptions r' = [] \<and> \<not> ar_ended r'
     | Inl e \<Rightarrow>
         if is_Exception e then y = reported (collected @ [e]) \<and> ar_exceptions r' = [] \<and> \<not> ar_ended r'
         else y = Inl e \<and> ar_exceptions r' = collected \<and> (ar_ended r' \<longleftrightarrow> is_cancelled e \<or> \<not> is_outcome e))"
proof (cases x)
  case (Inl e)
  have "\<not> is_cancelled e" if "is_Exception e" using that by (cases e) (auto simp: is_cancelled_def)
  then show ?thesis using Inl assms
    by (auto simp: arun_test_def call_in_runner_task_def run_item_def Let_def raise_async_exceptions_reported)
next
  case (Inr v)
  then show ?thesis using assms
    by (simp add: arun_test_def call_in_runner_task_def run_item_def Let_def raise_async_exceptions_reported)
qed

lemma arun_test_reports_witness:
  "snd (arun_test (\<lambda>_. False) [UserException 1] (Inl (UserException 2)) arunner_new) =
     Inl (ExcGroup multiple_message [UserException 1, UserException 2])"
  using arun_test_reports [of arunner_new "[UserException 1]" "[UserException 1]" "\<lambda>_. False" "Inl (UserException 2)"]
  by (auto simp: arunner_new_def reported_def split: prod.splits)

text \<open>
  So what a callback raised during a test that ended in \<open>pytest.fail()\<close> is reported by the next test,
  which did nothing wrong; \<open>is_outcome\<close> must hold of something that is no \<open>Exception\<close>.
\<close>

lemma fail_leaves_exceptions:
  assumes "\<not> is_Exception e" "\<not> is_cancelled e" "is_outcome e"
    and "arun_test is_outcome [UserException 1] (Inl e) arunner_new = (r, y)"
  shows "y = Inl e" "snd (arun_test is_outcome [] (Inr ()) r) = Inl (UserException 1)"
  using assms
  by (auto simp: arun_test_def call_in_runner_task_def run_item_def Let_def raise_async_exceptions_reported arunner_new_def
      reported_def exception_handler_def)

text \<open>
  A test that lets a cancellation out ends the runner's task, and every later test and fixture of that
  runner fails with \<open>ClosedResourceError\<close>.
\<close>

lemma arun_after_cancellation:
  assumes "arun_test is_outcome cbs (Inl (CancelledError a c)) arunner_new = (r, y)"
  shows "y = Inl (CancelledError a c)" "snd (arun_fixture is_outcome [] x r) = Inl ClosedResourceError"
  using assms
  by (auto simp: arun_test_def arun_fixture_def call_in_runner_task_def run_item_def Let_def arunner_new_def is_cancelled_def)

section \<open>TestRunner of trio\<close>

text \<open>
  The call into the guest run: the outcome of the coroutine, whatever it is, is given back to the
  caller, and the task goes on to the next.
\<close>

datatype 'a toutc = TValue 'a | TError exn

definition trio_run_item :: "'a res \<Rightarrow> 'a toutc" where
  "trio_run_item x = (case x of Inl e \<Rightarrow> TError e | Inr v \<Rightarrow> TValue v)"

definition unwrap :: "'a toutc \<Rightarrow> 'a res" where
  "unwrap x = (case x of TError e \<Rightarrow> Inl e | TValue v \<Rightarrow> Inr v)"

definition trio_call_in_runner_task :: "'a res \<Rightarrow> 'a res" where
  "trio_call_in_runner_task x = unwrap (trio_run_item x)"

definition trio_asyncgen_end :: "'a res \<Rightarrow> unit res \<Rightarrow> unit res" where
  "trio_asyncgen_end x gen_closed =
     (case trio_call_in_runner_task x of
        Inl e \<Rightarrow> if e = StopAsyncIteration then Inr () else Inl e
      | Inr _ \<Rightarrow> (case trio_call_in_runner_task gen_closed of Inl e \<Rightarrow> Inl e | Inr _ \<Rightarrow> Inl not_stopped))"

lemma trio_call_transparent: "trio_call_in_runner_task x = x"
  by (simp add: trio_call_in_runner_task_def unwrap_def trio_run_item_def split: sum.split)

text \<open>A generator fixture that yields twice is an error on both backends.\<close>

lemma asyncgen_must_stop:
  "trio_asyncgen_end (Inr v) (Inr ()) = Inl not_stopped"
  "\<not> ar_ended r \<Longrightarrow> snd (arun_asyncgen_end is_outcome cbs (Inr v) (Inr ()) r) = Inl not_stopped"
  by (simp_all add: trio_asyncgen_end_def trio_call_transparent arun_asyncgen_end_def call_in_runner_task_def
      run_item_def Let_def)

end
