(* ===== verification/AsyncFiles.thy ===== *)
theory AsyncFiles
  imports FileStream
begin

text \<open>
  Asynchronous files (\<open>src/anyio/_core/_fileio.py\<close>): \<open>AsyncFile\<close> over the binary files of
  \<open>FileStream\<close>, whose methods each hand one call of the file to a worker thread, the iteration over
  lines, the iterator over directory entries, and \<open>Path.unlink\<close>. The other methods of \<open>Path\<close> are
  those of \<open>pathlib\<close>, called directly or in a thread.
\<close>

section \<open>Methods of files\<close>

definition first_line :: "bytes \<Rightarrow> bytes" where
  "first_line b = (let l = takeWhile (\<lambda>x. x \<noteq> 10) b in if length l < length b then l @ [10] else l)"

definition file_readline :: "bytes file_op" where
  "file_readline = guarded (\<lambda>f.
     let l = first_line (drop (f_pos f) (f_data f)) in (f\<lparr>f_pos := f_pos f + length l\<rparr>, Inr l))"

lemma length_first_line: "b \<noteq> [] \<Longrightarrow> 0 < length (first_line b)"
  by (cases b) (auto simp: first_line_def Let_def)

function split_lines :: "bytes \<Rightarrow> bytes list" where
  "split_lines b = (if b = [] then [] else first_line b # split_lines (drop (length (first_line b)) b))"
  by pat_completeness auto

termination
  by (relation "measure length") (use length_first_line in auto)

declare split_lines.simps [simp del]

definition file_readlines :: "bytes list file_op" where
  "file_readlines = guarded (\<lambda>f.
     (f\<lparr>f_pos := max (f_pos f) (length (f_data f))\<rparr>, Inr (split_lines (drop (f_pos f) (f_data f)))))"

text \<open>\<open>readinto\<close> a buffer of \<open>n\<close> bytes: the bytes put at its start; their number is the result.\<close>

definition file_readinto :: "nat \<Rightarrow> bytes file_op" where
  "file_readinto n = file_read (int n)"

fun file_writelines :: "bytes list \<Rightarrow> unit file_op" where
  "file_writelines [] f = guarded (\<lambda>f. (f, Inr ())) f"
| "file_writelines (l # ls) f =
     (case file_write l f of (f', Inl e) \<Rightarrow> (f', Inl e) | (f', Inr _) \<Rightarrow> file_writelines ls f')"

definition file_truncate :: "int option \<Rightarrow> int file_op" where
  "file_truncate sz = guarded (\<lambda>f.
     let n = (case sz of None \<Rightarrow> int (f_pos f) | Some n \<Rightarrow> n) in
     if n < 0 then (f, Inl (OSError 22))
     else (f\<lparr>f_data := take (nat n) (f_data f) @ replicate (nat n - length (f_data f)) 0\<rparr>, Inr n))"

definition file_flush :: "unit file_op" where
  "file_flush = guarded (\<lambda>f. (f, Inr ()))"

section \<open>AsyncFile\<close>

definition afile_aclose :: "exn option \<Rightarrow> unit file_op" where
  "afile_aclose c = run_sync_call c file_close"

definition afile_read :: "exn option \<Rightarrow> int \<Rightarrow> bytes file_op" where
  "afile_read c n = run_sync_call c (file_read n)"

definition afile_readline :: "exn option \<Rightarrow> bytes file_op" where
  "afile_readline c = run_sync_call c file_readline"

definition afile_readlines :: "exn option \<Rightarrow> bytes list file_op" where
  "afile_readlines c = run_sync_call c file_readlines"

definition afile_readinto :: "exn option \<Rightarrow> nat \<Rightarrow> bytes file_op" where
  "afile_readinto c n = run_sync_call c (file_readinto n)"

definition afile_write :: "exn option \<Rightarrow> bytes \<Rightarrow> int file_op" where
  "afile_write c b = run_sync_call c (file_write b)"

definition afile_writelines :: "exn option \<Rightarrow> bytes list \<Rightarrow> unit file_op" where
  "afile_writelines c ls = run_sync_call c (file_writelines ls)"

definition afile_truncate :: "exn option \<Rightarrow> int option \<Rightarrow> int file_op" where
  "afile_truncate c sz = run_sync_call c (file_truncate sz)"

definition afile_seek :: "exn option \<Rightarrow> int \<Rightarrow> int \<Rightarrow> int file_op" where
  "afile_seek c offset whence = run_sync_call c (file_seek offset whence)"

definition afile_tell :: "exn option \<Rightarrow> int file_op" where
  "afile_tell c = run_sync_call c file_tell"

definition afile_flush :: "exn option \<Rightarrow> unit file_op" where
  "afile_flush c = run_sync_call c file_flush"

text \<open>
  \<open>async for line in file\<close>: the lines it gives until the file ends or a call fails; \<open>cs\<close> tells for
  each call whether it is cancelled, and bounds their number.
\<close>

fun afile_iter :: "exn option list \<Rightarrow> binary_io \<Rightarrow> bytes list \<Rightarrow> (binary_io \<times> bytes list \<times> unit res) option" where
  "afile_iter [] f ls = None"
| "afile_iter (c # cs) f ls =
     (case afile_readline c f of
        (f', Inl e) \<Rightarrow> Some (f', ls, Inl e)
      | (f', Inr line) \<Rightarrow> if line \<noteq> [] then afile_iter cs f' (ls @ [line]) else Some (f', ls, Inr ()))"

lemma first_line_prefix: "first_line b @ drop (length (first_line b)) b = b"
proof -
  let ?l = "takeWhile (\<lambda>x. x \<noteq> 10) b"
  have "take (length ?l) b = ?l" by (simp add: takeWhile_eq_take [symmetric])
  moreover have "take (Suc (length ?l)) b = ?l @ [10]" if "length ?l < length b"
    using that nth_length_takeWhile [OF that] by (simp add: take_Suc_conv_app_nth takeWhile_eq_take [symmetric])
  ultimately have "take (length (first_line b)) b = first_line b"
    by (auto simp: first_line_def Let_def)
  then show ?thesis by (metis append_take_drop_id)
qed

lemma split_lines_concat: "concat (split_lines b) = b"
proof (induction b rule: split_lines.induct)
  case (1 b)
  then show ?case by (subst split_lines.simps) (simp add: first_line_prefix)
qed

definition file_usable :: "binary_io \<Rightarrow> bool" where
  "file_usable f \<longleftrightarrow> \<not> f_closed f \<and> f_errno f = None"

text \<open>
  iterating over an asynchronous file ends after at most one call more than there are bytes left,
  and gives exactly the lines that are left, in order: joined they are the rest of the file. A call
  that is cancelled ends the iteration there and loses nothing: the lines given so far and the rest of
  the file are still the whole.
\<close>

theorem afile_iter_lines:
  assumes "file_usable f" "length (drop (f_pos f) (f_data f)) < length cs"
  shows "\<exists>f' ls r. afile_iter cs f [] = Some (f', ls, r) \<and>
    concat ls @ drop (f_pos f') (f_data f') = drop (f_pos f) (f_data f) \<and>
    (if \<forall>c \<in> set cs. c = None then r = Inr () \<and> ls = split_lines (drop (f_pos f) (f_data f))
     else ls = take (length ls) (split_lines (drop (f_pos f) (f_data f))))"
proof -
  have "\<exists>f' ls r. afile_iter cs f acc = Some (f', acc @ ls, r) \<and>
      concat ls @ drop (f_pos f') (f_data f') = drop (f_pos f) (f_data f) \<and>
      ls = take (length ls) (split_lines (drop (f_pos f) (f_data f))) \<and>
      ((\<forall>c \<in> set cs. c = None) \<longrightarrow> r = Inr () \<and> ls = split_lines (drop (f_pos f) (f_data f)))" for acc
    using assms
  proof (induction cs arbitrary: f acc)
    case (Cons c cs)
    let ?b = "drop (f_pos f) (f_data f)"
    show ?case
    proof (cases c)
      case (Some e)
      then show ?thesis
        by (intro exI [of _ f] exI [of _ "[]"]) (simp add: afile_readline_def run_sync_call_def)
    next
      case None
      have read: "afile_readline c f = (f\<lparr>f_pos := f_pos f + length (first_line ?b)\<rparr>, Inr (first_line ?b))"
        using Cons.prems(1) None
        by (simp add: afile_readline_def run_sync_call_def file_readline_def guarded_def file_usable_def Let_def)
      show ?thesis
      proof (cases "?b = []")
        case True
        then have "first_line ?b = []" by (simp add: first_line_def)
        then show ?thesis using read True
          by (intro exI [of _ f] exI [of _ "[]"] exI [of _ "Inr ()"]) (simp add: split_lines.simps)
      next
        case False
        let ?f = "f\<lparr>f_pos := f_pos f + length (first_line ?b)\<rparr>"
        have next_b: "drop (f_pos ?f) (f_data ?f) = drop (length (first_line ?b)) ?b"
          by (simp add: add.commute)
        have ne: "first_line ?b \<noteq> []" using length_first_line [OF False] by simp
        have "0 < length ?b" using False by (rule length_greater_0_conv [THEN iffD2])
        then have short: "length (drop (f_pos ?f) (f_data ?f)) < length cs"
          unfolding next_b using Cons.prems(2) length_first_line [OF False]
          by (simp only: length_drop [of "length (first_line ?b)"] list.size)
        have "file_usable ?f" using Cons.prems(1) by (simp add: file_usable_def)
        from Cons.IH [OF this short, of "acc @ [first_line ?b]"] obtain f' ls r where
          it: "afile_iter cs ?f (acc @ [first_line ?b]) = Some (f', (acc @ [first_line ?b]) @ ls, r)"
          and rest: "concat ls @ drop (f_pos f') (f_data f') = drop (length (first_line ?b)) ?b"
          and ls: "ls = take (length ls) (split_lines (drop (length (first_line ?b)) ?b))"
          and all: "(\<forall>c \<in> set cs. c = None) \<longrightarrow> r = Inr () \<and> ls = split_lines (drop (length (first_line ?b)) ?b)"
          unfolding next_b by blast
        have lines: "split_lines ?b = first_line ?b # split_lines (drop (length (first_line ?b)) ?b)"
          using False by (subst split_lines.simps) simp
        show ?thesis
        proof (intro exI conjI)
          show "afile_iter (c # cs) f acc = Some (f', acc @ (first_line ?b # ls), r)"
            using it read ne by simp
          show "concat (first_line ?b # ls) @ drop (f_pos f') (f_data f') = ?b"
            using rest first_line_prefix [of ?b] by simp
          show "first_line ?b # ls = take (length (first_line ?b # ls)) (split_lines ?b)"
            unfolding lines using ls by simp
          show "(\<forall>c \<in> set (c # cs). c = None) \<longrightarrow> r = Inr () \<and> first_line ?b # ls = split_lines ?b"
            unfolding lines using all by simp
        qed
      qed
    qed
  qed simp
  from this [of "[]"] show ?thesis by auto
qed

definition two_lines :: binary_io where
  "two_lines = \<lparr>f_data = [65, 10, 66], f_pos = 0, f_closed = False, f_append = False, f_name = None, f_fileno = None, f_errno = None\<rparr>"

lemma afile_iter_lines_witness:
  "\<exists>f'. afile_iter (replicate 4 None) two_lines [] = Some (f', [[65, 10], [66]], Inr ())"
proof -
  have "split_lines [65, 10, 66] = [[65, 10], [66]]"
    by (simp add: split_lines.simps first_line_def)
  then show ?thesis
    using afile_iter_lines [of two_lines "replicate 4 None"] by (auto simp: two_lines_def file_usable_def)
qed

section \<open>Directory entries\<close>

text \<open>
  \<open>_PathIterator\<close> over a generator: the entries left, and whether a thread of an abandoned call is
  still in the generator. A call runs, is cancelled before its thread starts, or is abandoned.
\<close>

record path_iter =
  pi_left :: "string list"
  pi_busy :: bool

datatype call_fate = CallRan | CallCancelled exn | CallAbandoned exn

definition path_anext :: "call_fate \<Rightarrow> path_iter \<Rightarrow> path_iter \<times> string res" where
  "path_anext fate it =
     (case fate of
        CallCancelled e \<Rightarrow> (it, Inl e)
      | CallAbandoned e \<Rightarrow> (it\<lparr>pi_busy := True\<rparr>, Inl e)
      | CallRan \<Rightarrow>
          if pi_busy it then (it, Inl (ValueError ''generator already executing''))
          else case pi_left it of
            [] \<Rightarrow> (it, Inl StopAsyncIteration)
          | p # ps \<Rightarrow> (it\<lparr>pi_left := ps\<rparr>, Inr p))"

text \<open>The abandoned thread leaves the generator, with an entry that nobody gets.\<close>

definition path_thread_ends :: "path_iter \<Rightarrow> path_iter" where
  "path_thread_ends it = (if pi_busy it then it\<lparr>pi_left := tl (pi_left it), pi_busy := False\<rparr> else it)"

fun path_entries :: "call_fate list \<Rightarrow> path_iter \<Rightarrow> string list \<times> path_iter" where
  "path_entries [] it = ([], it)"
| "path_entries (c # cs) it =
     (case path_anext c it of
        (it', Inr p) \<Rightarrow> (case path_entries cs it' of (ps, it'') \<Rightarrow> (p # ps, it''))
      | (it', Inl _) \<Rightarrow> path_entries cs it')"

text \<open>
  As long as no call is abandoned every entry is given once, in order, cancelled calls or not; an
  abandoned call loses an entry, and until its thread has ended another call fails.
\<close>

lemma path_entries_all:
  "\<forall>c \<in> set cs. \<forall>e. c \<noteq> CallAbandoned e \<Longrightarrow> \<not> pi_busy it \<Longrightarrow>
     fst (path_entries cs it) @ pi_left (snd (path_entries cs it)) = pi_left it \<and> \<not> pi_busy (snd (path_entries cs it))"
proof (induction cs arbitrary: it)
  case (Cons c cs)
  show ?case
  proof (cases c)
    case CallRan
    show ?thesis
    proof (cases "pi_left it")
      case Nil
      then show ?thesis using Cons CallRan by (simp add: path_anext_def)
    next
      case left: (Cons p ps)
      have "fst (path_entries cs (it\<lparr>pi_left := ps\<rparr>)) @ pi_left (snd (path_entries cs (it\<lparr>pi_left := ps\<rparr>))) = ps \<and>
          \<not> pi_busy (snd (path_entries cs (it\<lparr>pi_left := ps\<rparr>)))"
        using Cons.IH [of "it\<lparr>pi_left := ps\<rparr>"] Cons.prems by simp
      then show ?thesis using left CallRan Cons.prems(2)
        by (simp add: path_anext_def case_prod_beta)
    qed
  qed (use Cons in \<open>auto simp: path_anext_def\<close>)
qed simp

lemma abandoned_call_loses_entry:
  assumes "pi_left it = p # ps" "\<not> pi_busy it"
  shows "snd (path_anext CallRan (fst (path_anext (CallAbandoned e) it))) = Inl (ValueError ''generator already executing'')"
    and "pi_left (path_thread_ends (fst (path_anext (CallAbandoned e) it))) = ps"
  using assms by (simp_all add: path_anext_def path_thread_ends_def)

section \<open>Path.unlink\<close>

definition path_unlink :: "bool \<Rightarrow> unit res \<Rightarrow> unit res" where
  "path_unlink missing_ok r =
     (case r of
        Inl e \<Rightarrow> if e = OSError 2 \<and> missing_ok then Inr () else Inl e
      | Inr _ \<Rightarrow> Inr ())"

definition path_is_relative_to :: "'a res \<Rightarrow> bool res" where
  "path_is_relative_to r =
     (case r of Inr _ \<Rightarrow> Inr True | Inl (ValueError _) \<Rightarrow> Inr False | Inl e \<Rightarrow> Inl e)"

end
