(* ===== verification/RunProcess.thy ===== *)
theory RunProcess
  imports Subprocesses
begin

text \<open>
  Running a process to its end (\<open>run_process\<close> of \<open>src/anyio/_core/_subprocesses.py\<close>): the host task
  that sends the input and waits, the two tasks that drain the output pipes, the process, and the
  leaving of the task group and of the process; and what \<open>open_process\<close> passes on.
\<close>

section \<open>open_process\<close>

datatype proc_arg = PaInt int | PaName string | PaGroups "int list"

text \<open>The arguments that are passed on only if they are given: \<open>kwargs\<close> by name.\<close>

definition open_process_kwargs ::
  "proc_arg option \<Rightarrow> proc_arg option \<Rightarrow> proc_arg option \<Rightarrow> int \<Rightarrow> (string \<times> proc_arg option) list"
where
  "open_process_kwargs user grp extra_groups umask =
     (if user \<noteq> None then [(''user'', user)] else []) @
     (if grp \<noteq> None then [(''group'', grp)] else []) @
     (if extra_groups \<noteq> None then [(''extra_groups'', grp)] else []) @
     (if 0 \<le> umask then [(''umask'', Some (PaInt umask))] else [])"

text \<open>\<open>user\<close>, \<open>group\<close> and \<open>umask\<close> arrive as given; \<open>extra_groups\<close> arrives as the value of \<open>group\<close>.\<close>

lemma open_process_passes:
  "user \<noteq> None \<Longrightarrow> map_of (open_process_kwargs user grp eg u) ''user'' = Some user"
  "grp \<noteq> None \<Longrightarrow> map_of (open_process_kwargs user grp eg u) ''group'' = Some grp"
  "0 \<le> u \<Longrightarrow> map_of (open_process_kwargs user grp eg u) ''umask'' = Some (Some (PaInt u))"
  by (simp_all add: open_process_kwargs_def)

lemma extra_groups_replaced:
  "eg \<noteq> None \<Longrightarrow> map_of (open_process_kwargs user grp eg u) ''extra_groups'' = Some grp"
  by (simp add: open_process_kwargs_def)

text \<open>The asyncio backend: a shell for one string, the program itself for a list.\<close>

datatype acommand = AcText string | AcPath string | AcWords "string list"

definition asyncio_command :: "acommand \<Rightarrow> bool \<times> string list" where
  "asyncio_command c =
     (case c of AcText s \<Rightarrow> (True, [s]) | AcPath s \<Rightarrow> (True, [s]) | AcWords ws \<Rightarrow> (False, ws))"

section \<open>run_process\<close>

text \<open>
  The host: \<open>RpSend\<close> and \<open>RpCloseIn\<close> are \<open>stdin.send\<close> and \<open>stdin.aclose\<close>, \<open>RpWait\<close> is \<open>process.wait\<close>,
  \<open>RpGroup\<close> the end of the task group, \<open>RpReap\<close> the \<open>aclose\<close> of the process, with the exception on
  its way, and \<open>RpEnd\<close> the result.
\<close>

datatype rp_pc =
    RpSend | RpCloseIn | RpWait | RpGroup "exn option" | RpReap "exn option"
  | RpEnd "(int \<times> bytes option \<times> bytes option) res"

datatype drain = NoDrain | Draining bytes | Drained bytes | DrainStopped

text \<open>
  A pipe of the process: all bytes written to it so far, those not read yet, and whether its writing
  end is still open.
\<close>

record rpipe =
  rq_written :: bytes
  rq_pending :: bytes
  rq_open :: bool

record rproc =
  rp_pc :: rp_pc
  rp_check :: bool
  rp_input :: bytes
  rp_sent :: bool
  rp_in_closed :: bool
  rp_code :: "int option"
  rp_pipe :: "bool \<Rightarrow> rpipe" \<comment> \<open>\<open>False\<close>: standard output, \<open>True\<close>: standard error\<close>
  rp_drain :: "bool \<Rightarrow> drain"

definition rp_after_start :: "bytes \<Rightarrow> rp_pc" where
  "rp_after_start input = (if input \<noteq> [] then RpSend else RpWait)"

definition rproc_start :: "bool \<Rightarrow> bytes \<Rightarrow> (bool \<Rightarrow> bool) \<Rightarrow> rproc" where
  "rproc_start check input piped =
     \<lparr>rp_pc = rp_after_start input, rp_check = check, rp_input = input, rp_sent = False, rp_in_closed = False,
      rp_code = None, rp_pipe = (\<lambda>_. \<lparr>rq_written = [], rq_pending = [], rq_open = True\<rparr>),
      rp_drain = (\<lambda>i. if piped i then Draining [] else NoDrain)\<rparr>"

definition drain_content :: "drain \<Rightarrow> bytes option" where
  "drain_content d = (case d of Drained b \<Rightarrow> Some b | _ \<Rightarrow> None)"

definition rproc_result :: "bool \<Rightarrow> int \<Rightarrow> bytes option \<Rightarrow> bytes option \<Rightarrow> (int \<times> bytes option \<times> bytes option) res" where
  "rproc_result check code out err =
     (if check \<and> code \<noteq> 0 then Inl (CalledProcessError code) else Inr (code, out, err))"

definition drain_active :: "drain \<Rightarrow> bool" where
  "drain_active d \<longleftrightarrow> (\<exists>b. d = Draining b)"

text \<open>
  One step. The process, or one it has started, writes to a pipe or closes one; the process ends; a
  draining task reads a chunk or finds the end; the host goes on. \<open>rs_fail\<close>: anything awaited in the task group
  raises; the group cancels its tasks and the exception leaves it. Closing the process may fail too.
\<close>

inductive rproc_step :: "rproc \<Rightarrow> rproc \<Rightarrow> bool" where
  rs_write: "rq_open (rp_pipe p i) \<Longrightarrow>
    rproc_step p (p\<lparr>rp_pipe := (rp_pipe p)(i := (rp_pipe p i)
      \<lparr>rq_written := rq_written (rp_pipe p i) @ c, rq_pending := rq_pending (rp_pipe p i) @ c\<rparr>)\<rparr>)"
| rs_close: "rproc_step p (p\<lparr>rp_pipe := (rp_pipe p)(i := (rp_pipe p i)\<lparr>rq_open := False\<rparr>)\<rparr>)"
| rs_exit: "rp_code p = None \<Longrightarrow> rproc_step p (p\<lparr>rp_code := Some code\<rparr>)"
| rs_read: "rp_drain p i = Draining b \<Longrightarrow> rq_pending (rp_pipe p i) = c @ r \<Longrightarrow> c \<noteq> [] \<Longrightarrow>
    rproc_step p (p\<lparr>rp_drain := (rp_drain p)(i := Draining (b @ c)),
      rp_pipe := (rp_pipe p)(i := (rp_pipe p i)\<lparr>rq_pending := r\<rparr>)\<rparr>)"
| rs_eof: "rp_drain p i = Draining b \<Longrightarrow> rq_pending (rp_pipe p i) = [] \<Longrightarrow> \<not> rq_open (rp_pipe p i) \<Longrightarrow>
    rproc_step p (p\<lparr>rp_drain := (rp_drain p)(i := Drained b)\<rparr>)"
| rs_sent: "rp_pc p = RpSend \<Longrightarrow> rproc_step p (p\<lparr>rp_sent := True, rp_pc := RpCloseIn\<rparr>)"
| rs_in_closed: "rp_pc p = RpCloseIn \<Longrightarrow> rproc_step p (p\<lparr>rp_in_closed := True, rp_pc := RpWait\<rparr>)"
| rs_waited: "rp_pc p = RpWait \<Longrightarrow> rp_code p \<noteq> None \<Longrightarrow> rproc_step p (p\<lparr>rp_pc := RpGroup None\<rparr>)"
| rs_fail: "rp_pc p \<in> {RpSend, RpCloseIn, RpWait, RpGroup None} \<Longrightarrow>
    rproc_step p (p\<lparr>rp_pc := RpGroup (Some e),
      rp_drain := (\<lambda>i. if drain_active (rp_drain p i) then DrainStopped else rp_drain p i)\<rparr>)"
| rs_group: "rp_pc p = RpGroup x \<Longrightarrow> \<forall>i. \<not> drain_active (rp_drain p i) \<Longrightarrow> rproc_step p (p\<lparr>rp_pc := RpReap x\<rparr>)"
| rs_reaped: "rp_pc p = RpReap x \<Longrightarrow> rp_code p = Some code \<Longrightarrow>
    rproc_step p (p\<lparr>rp_pc := RpEnd (case x of Some e \<Rightarrow> Inl e
      | None \<Rightarrow> rproc_result (rp_check p) code (drain_content (rp_drain p False)) (drain_content (rp_drain p True)))\<rparr>)"
| rs_reap_failed: "rp_pc p = RpReap x \<Longrightarrow> rproc_step p (p\<lparr>rp_pc := RpEnd (Inl e)\<rparr>)"

inductive rproc_reach :: "bool \<Rightarrow> bytes \<Rightarrow> (bool \<Rightarrow> bool) \<Rightarrow> rproc \<Rightarrow> bool" for check input piped where
  rr_start: "rproc_reach check input piped (rproc_start check input piped)"
| rr_step: "rproc_reach check input piped p \<Longrightarrow> rproc_step p p' \<Longrightarrow> rproc_reach check input piped p'"

text \<open>An exception is on its way.\<close>

definition rp_failing :: "rp_pc \<Rightarrow> bool" where
  "rp_failing pc \<longleftrightarrow> (\<exists>e. pc = RpGroup (Some e) \<or> pc = RpReap (Some e) \<or> pc = RpEnd (Inl e))"

definition drain_ok :: "bool \<Rightarrow> bool \<Rightarrow> rpipe \<Rightarrow> drain \<Rightarrow> bool" where
  "drain_ok failing piped q d \<longleftrightarrow>
     (case d of
        NoDrain \<Rightarrow> \<not> piped
      | Draining b \<Rightarrow> piped \<and> b @ rq_pending q = rq_written q
      | Drained b \<Rightarrow> piped \<and> b = rq_written q \<and> \<not> rq_open q
      | DrainStopped \<Rightarrow> failing)"

lemma drain_ok_simps [simp]:
  "drain_ok failing piped q NoDrain = (\<not> piped)"
  "drain_ok failing piped q (Draining b) = (piped \<and> b @ rq_pending q = rq_written q)"
  "drain_ok failing piped q (Drained b) = (piped \<and> b = rq_written q \<and> \<not> rq_open q)"
  "drain_ok failing piped q DrainStopped = failing"
  by (simp_all add: drain_ok_def)

lemma drain_ok_failing: "drain_ok False piped q d \<Longrightarrow> drain_ok failing piped q d"
  by (cases d) simp_all

fun rp_end_ok :: "bool \<Rightarrow> int option \<Rightarrow> (bool \<Rightarrow> drain) \<Rightarrow> rp_pc \<Rightarrow> bool" where
  "rp_end_ok check code drains (RpReap x) = (\<forall>i. \<not> drain_active (drains i))"
| "rp_end_ok check code drains (RpEnd r) \<longleftrightarrow> (\<forall>i. \<not> drain_active (drains i)) \<and>
     (\<forall>v. r = Inr v \<longrightarrow> (\<exists>c. code = Some c \<and>
        r = rproc_result check c (drain_content (drains False)) (drain_content (drains True))))"
| "rp_end_ok check code drains _ = True"

definition rproc_inv :: "bool \<Rightarrow> bytes \<Rightarrow> (bool \<Rightarrow> bool) \<Rightarrow> rproc \<Rightarrow> bool" where
  "rproc_inv check input piped p \<longleftrightarrow>
     rp_check p = check \<and> rp_input p = input \<and>
     (\<forall>i. drain_ok (rp_failing (rp_pc p)) (piped i) (rp_pipe p i) (rp_drain p i)) \<and>
     (input \<noteq> [] \<and> \<not> rp_failing (rp_pc p) \<and> rp_pc p \<noteq> RpSend \<longrightarrow> rp_sent p) \<and>
     (input \<noteq> [] \<and> \<not> rp_failing (rp_pc p) \<and> rp_pc p \<noteq> RpSend \<and> rp_pc p \<noteq> RpCloseIn \<longrightarrow> rp_in_closed p) \<and>
     rp_end_ok check (rp_code p) (rp_drain p) (rp_pc p)"

lemma rproc_inv_start: "rproc_inv check input piped (rproc_start check input piped)"
  by (simp add: rproc_inv_def rproc_start_def rp_after_start_def rp_failing_def)

lemma rp_failing_simps [simp]:
  "\<not> rp_failing RpSend" "\<not> rp_failing RpCloseIn" "\<not> rp_failing RpWait"
  "rp_failing (RpGroup x) = (x \<noteq> None)" "rp_failing (RpReap x) = (x \<noteq> None)"
  "rp_failing (RpEnd r) = (\<exists>e. r = Inl e)"
  by (auto simp: rp_failing_def)

lemma drain_active_simps [simp]:
  "\<not> drain_active NoDrain" "drain_active (Draining b)" "\<not> drain_active (Drained b)" "\<not> drain_active DrainStopped"
  by (simp_all add: drain_active_def)

lemma rp_end_ok_active:
  "drain_active (drains i) \<Longrightarrow> rp_end_ok check code drains pc \<Longrightarrow> rp_end_ok check code' drains' pc"
  by (cases pc) auto

text \<open>A step of a draining task changes only its buffer and its pipe.\<close>

lemma rproc_inv_drain:
  assumes "rproc_inv check input piped p" "rp_drain p i = Draining b"
    and "b @ rq_pending (rp_pipe p i) = rq_written (rp_pipe p i) \<Longrightarrow> piped i \<Longrightarrow> drain_ok (rp_failing (rp_pc p)) (piped i) q d"
  shows "rproc_inv check input piped (p\<lparr>rp_drain := (rp_drain p)(i := d), rp_pipe := (rp_pipe p)(i := q)\<rparr>)"
proof -
  have ok: "drain_ok (rp_failing (rp_pc p)) (piped j) (rp_pipe p j) (rp_drain p j)" for j
    using assms(1) by (simp add: rproc_inv_def)
  have "drain_ok (rp_failing (rp_pc p)) (piped j) (((rp_pipe p)(i := q)) j) (((rp_drain p)(i := d)) j)" for j
    using ok [of j] ok [of i] assms(2,3) by (cases "j = i") simp_all
  moreover have "rp_end_ok check (rp_code p) ((rp_drain p)(i := d)) (rp_pc p)"
    using rp_end_ok_active [of "rp_drain p" i check "rp_code p" "rp_pc p"] assms(1,2) by (simp add: rproc_inv_def)
  ultimately show ?thesis using assms(1) unfolding rproc_inv_def by simp
qed

lemma rproc_inv_step: "rproc_step p p' \<Longrightarrow> rproc_inv check input piped p \<Longrightarrow> rproc_inv check input piped p'"
proof (induction rule: rproc_step.induct)
  case (rs_write p i c)
  have "drain_ok f (piped i) (rp_pipe p i\<lparr>rq_written := rq_written (rp_pipe p i) @ c, rq_pending := rq_pending (rp_pipe p i) @ c\<rparr>) (rp_drain p i)"
    if "drain_ok f (piped i) (rp_pipe p i) (rp_drain p i)" for f
    using that rs_write.hyps by (cases "rp_drain p i") auto
  then show ?case using rs_write.prems by (auto simp: rproc_inv_def)
next
  case (rs_close p i)
  have "drain_ok f (piped i) (rp_pipe p i\<lparr>rq_open := False\<rparr>) (rp_drain p i)"
    if "drain_ok f (piped i) (rp_pipe p i) (rp_drain p i)" for f
    using that by (cases "rp_drain p i") auto
  then show ?case using rs_close.prems by (auto simp: rproc_inv_def)
next
  case (rs_exit p code)
  then show ?case by (cases "rp_pc p") (auto simp: rproc_inv_def)
next
  case (rs_read p i b c r)
  from rproc_inv_drain [OF rs_read.prems rs_read.hyps(1), of "(rp_pipe p i)\<lparr>rq_pending := r\<rparr>" "Draining (b @ c)"]
  show ?case using rs_read.hyps(2) by simp
next
  case (rs_eof p i b)
  from rproc_inv_drain [OF rs_eof.prems rs_eof.hyps(1), of "rp_pipe p i" "Drained b"]
  show ?case using rs_eof.hyps(2,3) by simp
next
  case (rs_fail p e)
  have "drain_ok True (piped i) (rp_pipe p i) (if drain_active (rp_drain p i) then DrainStopped else rp_drain p i)" for i
  proof -
    have "drain_ok (rp_failing (rp_pc p)) (piped i) (rp_pipe p i) (rp_drain p i)"
      using rs_fail.prems by (simp add: rproc_inv_def)
    then show ?thesis by (cases "rp_drain p i") simp_all
  qed
  then show ?case using rs_fail.prems by (simp add: rproc_inv_def)
next
  case (rs_reaped p x code)
  then show ?case
    by (cases x) (auto simp: rproc_inv_def rproc_result_def intro: drain_ok_failing [simplified])
next
  case (rs_reap_failed p x e)
  then show ?case by (cases x) (auto simp: rproc_inv_def intro: drain_ok_failing [simplified])
qed (auto simp: rproc_inv_def)

text \<open>
  C28: when \<open>run_process\<close> returns, the process has ended with the code that is returned (0 if the code
  is checked), the input has been sent and the input pipe closed, and each output that was asked for
  is everything written to that pipe until it was closed, whatever the interleaving of the process,
  the host and the two readers.
\<close>

theorem run_process_complete:
  assumes "rproc_reach check input piped p" "rp_pc p = RpEnd (Inr (code, out, err))"
  shows "rp_code p = Some code \<and> (check \<longrightarrow> code = 0) \<and>
    (input \<noteq> [] \<longrightarrow> rp_sent p \<and> rp_in_closed p) \<and>
    out = (if piped False then Some (rq_written (rp_pipe p False)) else None) \<and>
    err = (if piped True then Some (rq_written (rp_pipe p True)) else None)"
proof -
  have inv: "rproc_inv check input piped p" using assms(1)
    by (induction rule: rproc_reach.induct) (auto intro: rproc_inv_start rproc_inv_step)
  then have ends: "rp_end_ok check (rp_code p) (rp_drain p) (RpEnd (Inr (code, out, err)))"
    using assms(2) by (simp add: rproc_inv_def)
  have idle: "\<not> drain_active (rp_drain p i)" for i using ends by simp
  have ok: "drain_ok False (piped i) (rp_pipe p i) (rp_drain p i)" for i
    using inv assms(2) by (simp add: rproc_inv_def)
  have "drain_content (rp_drain p i) = (if piped i then Some (rq_written (rp_pipe p i)) else None)" for i
    using idle [of i] ok [of i] by (cases "rp_drain p i") (auto simp: drain_content_def)
  then show ?thesis using ends inv assms(2)
    by (auto simp: rproc_inv_def rproc_result_def split: if_splits)
qed

lemma run_process_complete_witness:
  "\<exists>p. rproc_reach True [] (\<lambda>i. \<not> i) p \<and> rp_pc p = RpEnd (Inr (0, Some [], None)) \<and> rq_written (rp_pipe p False) = []"
proof -
  define p0 where "p0 = rproc_start True [] (\<lambda>i. \<not> i)"
  define p1 where "p1 = p0\<lparr>rp_pipe := (rp_pipe p0)(False := (rp_pipe p0 False)\<lparr>rq_open := False\<rparr>)\<rparr>"
  define p2 where "p2 = p1\<lparr>rp_drain := (rp_drain p1)(False := Drained [])\<rparr>"
  define p3 where "p3 = p2\<lparr>rp_code := Some 0\<rparr>"
  define p4 where "p4 = p3\<lparr>rp_pc := RpGroup None\<rparr>"
  define p5 where "p5 = p4\<lparr>rp_pc := RpReap None\<rparr>"
  define p6 where "p6 = p5\<lparr>rp_pc := RpEnd (case None of Some e \<Rightarrow> Inl e
      | None \<Rightarrow> rproc_result (rp_check p5) 0 (drain_content (rp_drain p5 False)) (drain_content (rp_drain p5 True)))\<rparr>"
  note defs = p0_def p1_def p2_def p3_def p4_def p5_def rproc_start_def rp_after_start_def
  note r0 = rr_start [of True "[]" "\<lambda>i. \<not> i", folded p0_def]
  note r1 = rr_step [OF r0 rs_close, of False, folded p1_def]
  have "rproc_step p1 p2" unfolding p2_def by (rule rs_eof) (simp_all add: defs)
  note r2 = rr_step [OF r1 this]
  have "rproc_step p2 p3" unfolding p3_def by (rule rs_exit) (simp add: defs)
  note r3 = rr_step [OF r2 this]
  have "rproc_step p3 p4" unfolding p4_def by (rule rs_waited) (simp_all add: defs)
  note r4 = rr_step [OF r3 this]
  have "rproc_step p4 p5" unfolding p5_def by (rule rs_group) (simp_all add: defs)
  note r5 = rr_step [OF r4 this]
  have "rproc_step p5 p6" unfolding p6_def by (rule rs_reaped) (simp_all add: defs)
  note r6 = rr_step [OF r5 this]
  have e: "rp_pc p6 = RpEnd (Inr (0, Some [], None))"
    by (simp add: p6_def defs rproc_result_def drain_content_def)
  from run_process_complete [OF r6 e] r6 e show ?thesis by auto
qed

end
