(* ===== verification/Resources.thy ===== *)
theory Resources
  imports CancelScopes
begin

text \<open>
  Closing resources by force (\<open>aclose_forcefully\<close> of \<open>src/anyio/_core/_resources.py\<close>) and running the
  main coroutine (\<open>run\<close> of the asyncio backend), in the world of \<open>CancelScopes\<close>.
\<close>

section \<open>aclose_forcefully\<close>

text \<open>
  \<open>with CancelScope() as scope: scope.cancel(); await resource.aclose()\<close>: up to the call of \<open>aclose\<close>,
  and from its end, with the exception it raised, if any.
\<close>

definition forcefully_begin :: "task \<Rightarrow> world \<Rightarrow> world \<times> nat res" where
  "forcefully_begin t w =
     (case create_scope PosInf False w of
        (w1, s) \<Rightarrow>
          (case scope_enter s t w1 of
             (w2, Inl e) \<Rightarrow> (w2, Inl e)
           | (w2, Inr _) \<Rightarrow> (scope_cancel s w2, Inr s)))"

definition forcefully_end :: "nat \<Rightarrow> exn option \<Rightarrow> world \<Rightarrow> world \<times> unit res" where
  "forcefully_end s exc w =
     (case scope_exit s exc w of
        (w', Inl e) \<Rightarrow> (w', Inl e)
      | (w', Inr swallowed) \<Rightarrow>
          (w', case exc of None \<Rightarrow> Inr () | Some e \<Rightarrow> if swallowed then Inr () else Inl e))"

text \<open>\<open>aclose\<close> runs in a scope that is cancelled already, so it cannot wait for anything.\<close>

lemma forcefully_cancelled:
  assumes "forcefully_begin t w = (w', Inr s)"
  shows "sc_called (scopes w' s)"
proof -
  obtain w2 where w': "w' = scope_cancel s w2"
    using assms by (auto simp: forcefully_begin_def split: prod.splits sum.splits)
  show ?thesis unfolding w' by (rule scope_cancel_called)
qed

text \<open>
  closing by force: an exception of the resource's \<open>aclose\<close> is contained exactly when all its
  leaves are cancellations of AnyIO and no enclosing scope has been cancelled; an error of \<open>aclose\<close>
  and a cancellation that the caller is to see go on.
\<close>

theorem forceful_close_contains:
  assumes "cs_reach sys" "sc_called (scopes (cw sys) s)" "scope_exit s exc (cw sys) = (w', Inr b)"
  shows "snd (forcefully_end s exc (cw sys)) =
    (case exc of
       None \<Rightarrow> Inr ()
     | Some e \<Rightarrow>
         if iterate_exceptions e \<noteq> [] \<and> \<not> parent_visible (scopes (cw sys)) s \<and>
            (\<forall>x \<in> set (iterate_exceptions e). is_cancelled x \<and> anyio_chain x)
         then Inr () else Inl e)"
  using scope_exit_swallows [OF assms(1,3)] assms(2,3)
  by (auto simp: forcefully_end_def split: option.split)

lemma forceful_close_contains_witness:
  "\<exists>w. snd (forcefully_end 0 None w) = Inr () \<and> sc_called (scopes w 0) \<and>
     snd (forcefully_end 0 (Some (CancelledError (Some (cancel_message 0)) None)) w) = Inr ()"
proof -
  let ?e = "CancelledError (Some (cancel_message 0)) None"
  from exit_run_result obtain s where s: "cs_run exit_run \<lparr>cw = world_new True 0, entered = []\<rparr> = Some s"
    and x: "snd (scope_exit 0 (Some ?e) (cw s)) = Inr True" by blast
  from cs_run_reach [OF cs_reach.init s] have r: "cs_reach s" .
  have c: "sc_called (scopes (cw s) 0)" "snd (forcefully_end 0 None (cw s)) = Inr ()"
    using s by (auto simp: cs_run_simps scope_exit_def exit_body_def exit_unlink_def exit_finish_def exit_undo_def
      forcefully_end_def restart_in_parent_def split: option.splits prod.splits)
  from x obtain w' where x': "scope_exit 0 (Some ?e) (cw s) = (w', Inr True)" by (metis prod.collapse)
  have "\<not> parent_visible (scopes (cw s)) 0 \<and> anyio_chain ?e"
    using scope_exit_swallows [OF r x'] by auto
  then show ?thesis
    using forceful_close_contains [OF r c(1) x'] c by (auto simp: is_cancelled_def)
qed

section \<open>The main task\<close>

text \<open>\<open>wrapper\<close> of the backend's \<open>run\<close>: the state of the main task while the coroutine runs.\<close>

definition main_task_begin :: "task \<Rightarrow> world \<Rightarrow> world" where
  "main_task_begin t w = w\<lparr>task_states := (task_states w)(t \<mapsto> \<lparr>ts_parent_id = None, ts_scope = None\<rparr>)\<rparr>"

definition main_task_end :: "task \<Rightarrow> world \<Rightarrow> world \<times> unit res" where
  "main_task_end t w =
     (if task_states w t = None then (w, Inl KeyError) else (w\<lparr>task_states := (task_states w)(t := None)\<rparr>, Inr ()))"

lemma main_task_restores:
  "task_states w t = None \<Longrightarrow> task_states (fst (main_task_end t (main_task_begin t w))) = task_states w"
  by (auto simp: main_task_begin_def main_task_end_def)

end
