(* ===== verification/PurePaths.thy ===== *)
theory PurePaths
  imports AsyncFiles "HOL-Library.List_Lexorder" "HOL-Library.Char_ord" "HOL-Library.Sublist"
begin

text \<open>
  The part of \<open>Path\<close> (\<open>src/anyio/_core/_fileio.py\<close>) that does not touch the file system, over a model
  of \<open>pathlib.PurePosixPath\<close>: a root and the names below it. Comparison is that of Python 3.12.
\<close>

section \<open>pathlib\<close>

record purepath =
  pp_root :: string
  pp_tail :: "string list"

abbreviation slash :: char where "slash \<equiv> CHR ''/''"
abbreviation dot :: char where "dot \<equiv> CHR ''.''"

text \<open>\<open>s.split(c)\<close> and \<open>sep.join(parts)\<close>.\<close>

fun split_on :: "char \<Rightarrow> string \<Rightarrow> string list" where
  "split_on c [] = [[]]"
| "split_on c (x # xs) =
     (if x = c then [] # split_on c xs
      else case split_on c xs of [] \<Rightarrow> [[x]] | s # ss \<Rightarrow> (x # s) # ss)"

fun join_with :: "string \<Rightarrow> string list \<Rightarrow> string" where
  "join_with sep [] = []"
| "join_with sep [s] = s"
| "join_with sep (s # t # ss) = s @ sep @ join_with sep (t # ss)"

definition path_root :: "string \<Rightarrow> string" where
  "path_root s =
     (if take 2 s = ''//'' \<and> take 3 s \<noteq> ''///'' then ''//''
      else if take 1 s = ''/'' then ''/'' else [])"

definition proper_name :: "string \<Rightarrow> bool" where
  "proper_name s \<longleftrightarrow> s \<noteq> [] \<and> s \<noteq> ''.''"

definition parse_path :: "string \<Rightarrow> purepath" where
  "parse_path s = \<lparr>pp_root = path_root s, pp_tail = filter proper_name (split_on slash s)\<rparr>"

definition path_render :: "purepath \<Rightarrow> string" where
  "path_render p =
     (if pp_root p = [] \<and> pp_tail p = [] then ''.'' else pp_root p @ join_with ''/'' (pp_tail p))"

text \<open>\<open>os.path.join\<close>\<close>

definition join2 :: "string \<Rightarrow> string \<Rightarrow> string" where
  "join2 a b =
     (if take 1 b = ''/'' then b
      else if a = [] \<or> last a = slash then a @ b
      else a @ ''/'' @ b)"

definition os_join :: "string list \<Rightarrow> string" where
  "os_join ss = (case ss of [] \<Rightarrow> [] | s # ss \<Rightarrow> foldl join2 s ss)"

text \<open>What \<open>pathlib\<close> keeps of every path.\<close>

definition path_wf :: "purepath \<Rightarrow> bool" where
  "path_wf p \<longleftrightarrow> pp_root p \<in> {[], ''/'', ''//''} \<and>
     (\<forall>s \<in> set (pp_tail p). proper_name s \<and> slash \<notin> set s)"

section \<open>Path\<close>

datatype apath = APath (wrapped: purepath)

text \<open>\<open>str | PathLike[str]\<close>, and \<open>os.fspath\<close>\<close>

datatype pathlike = PlStr string | PlPure purepath | PlPath apath

definition path_fspath :: "apath \<Rightarrow> string" where
  "path_fspath p = path_render (wrapped p)"

fun os_fspath :: "pathlike \<Rightarrow> string" where
  "os_fspath (PlStr s) = s"
| "os_fspath (PlPure p) = path_render p"
| "os_fspath (PlPath p) = path_fspath p"

definition pathlib_path :: "pathlike list \<Rightarrow> purepath" where
  "pathlib_path args = parse_path (os_join (map os_fspath args))"

definition path_init :: "pathlike list \<Rightarrow> apath" where
  "path_init args = APath (pathlib_path args)"

definition path_str :: "apath \<Rightarrow> string" where
  "path_str p = path_render (wrapped p)"

definition path_as_posix :: "apath \<Rightarrow> string" where
  "path_as_posix p = path_render (wrapped p)"

section \<open>Comparison\<close>

datatype pobject = ObPath apath | ObPure purepath | ObOther

text \<open>\<open>target = other._path if isinstance(other, Path) else other\<close>; \<open>None\<close> is \<open>NotImplemented\<close>.\<close>

fun compare_target :: "pobject \<Rightarrow> purepath option" where
  "compare_target (ObPath p) = Some (wrapped p)"
| "compare_target (ObPure p) = Some p"
| "compare_target ObOther = None"

definition compare_key :: "purepath \<Rightarrow> string list" where
  "compare_key p = split_on slash (path_render p)"

definition path_hash :: "(string \<Rightarrow> int) \<Rightarrow> apath \<Rightarrow> int" where
  "path_hash str_hash p = str_hash (path_render (wrapped p))"

definition path_eq :: "apath \<Rightarrow> pobject \<Rightarrow> bool option" where
  "path_eq p ob = map_option (\<lambda>q. path_render (wrapped p) = path_render q) (compare_target ob)"

definition path_lt :: "apath \<Rightarrow> pobject \<Rightarrow> bool option" where
  "path_lt p ob = map_option (\<lambda>q. compare_key (wrapped p) < compare_key q) (compare_target ob)"

definition path_le :: "apath \<Rightarrow> pobject \<Rightarrow> bool option" where
  "path_le p ob = map_option (\<lambda>q. compare_key (wrapped p) \<le> compare_key q) (compare_target ob)"

definition path_gt :: "apath \<Rightarrow> pobject \<Rightarrow> bool option" where
  "path_gt p ob = map_option (\<lambda>q. compare_key q < compare_key (wrapped p)) (compare_target ob)"

definition path_ge :: "apath \<Rightarrow> pobject \<Rightarrow> bool option" where
  "path_ge p ob = map_option (\<lambda>q. compare_key q \<le> compare_key (wrapped p)) (compare_target ob)"

section \<open>Parts\<close>

definition path_parts :: "apath \<Rightarrow> string list" where
  "path_parts p = (if pp_root (wrapped p) \<noteq> [] then [pp_root (wrapped p)] else []) @ pp_tail (wrapped p)"

definition path_drive :: "apath \<Rightarrow> string" where
  "path_drive p = []"

definition path_get_root :: "apath \<Rightarrow> string" where
  "path_get_root p = pp_root (wrapped p)"

definition path_anchor :: "apath \<Rightarrow> string" where
  "path_anchor p = path_drive p @ path_get_root p"

definition pure_parent :: "purepath \<Rightarrow> purepath" where
  "pure_parent p = p\<lparr>pp_tail := butlast (pp_tail p)\<rparr>"

definition pure_parents :: "purepath \<Rightarrow> purepath list" where
  "pure_parents p = map (\<lambda>n. p\<lparr>pp_tail := take n (pp_tail p)\<rparr>) (rev [0..<length (pp_tail p)])"

definition path_parent :: "apath \<Rightarrow> apath" where
  "path_parent p = path_init [PlPure (pure_parent (wrapped p))]"

definition path_parents :: "apath \<Rightarrow> apath list" where
  "path_parents p = map (\<lambda>q. path_init [PlPure q]) (pure_parents (wrapped p))"

definition pure_name :: "purepath \<Rightarrow> string" where
  "pure_name p = (if pp_tail p = [] then [] else last (pp_tail p))"

text \<open>\<open>name.rfind('.')\<close>, when it lies inside of the name.\<close>

definition suffix_length :: "string \<Rightarrow> nat" where
  "suffix_length s =
     (let n = length (takeWhile (\<lambda>c. c \<noteq> dot) (rev s)) in
      if 0 < n \<and> n + 1 < length s then n + 1 else 0)"

definition name_suffix :: "string \<Rightarrow> string" where
  "name_suffix s = drop (length s - suffix_length s) s"

definition name_stem :: "string \<Rightarrow> string" where
  "name_stem s = take (length s - suffix_length s) s"

definition path_name :: "apath \<Rightarrow> string" where
  "path_name p = pure_name (wrapped p)"

definition path_suffix :: "apath \<Rightarrow> string" where
  "path_suffix p = name_suffix (pure_name (wrapped p))"

definition path_suffixes :: "apath \<Rightarrow> string list" where
  "path_suffixes p =
     (let s = pure_name (wrapped p) in
      if s \<noteq> [] \<and> last s = dot then []
      else map (\<lambda>x. dot # x) (tl (split_on dot (dropWhile (\<lambda>c. c = dot) s))))"

definition path_stem :: "apath \<Rightarrow> string" where
  "path_stem p = name_stem (pure_name (wrapped p))"

definition path_is_absolute :: "apath \<Rightarrow> bool" where
  "path_is_absolute p \<longleftrightarrow> pp_root (wrapped p) \<noteq> []"

definition path_is_reserved :: "apath \<Rightarrow> bool" where
  "path_is_reserved p \<longleftrightarrow> False"

section \<open>Operations\<close>

definition path_truediv :: "apath \<Rightarrow> pathlike \<Rightarrow> apath" where
  "path_truediv p other = path_init [PlPure (pathlib_path [PlPure (wrapped p), other])]"

definition path_rtruediv :: "apath \<Rightarrow> pathlike \<Rightarrow> apath" where
  "path_rtruediv p other = path_truediv (path_init [other]) (PlPath p)"

definition path_joinpath :: "apath \<Rightarrow> pathlike list \<Rightarrow> apath" where
  "path_joinpath p args = path_init [PlPure (pathlib_path (PlPure (wrapped p) # args))]"

definition path_with_segments :: "pathlike list \<Rightarrow> apath" where
  "path_with_segments args = path_init args"

text \<open>\<open>PurePath.with_name\<close> and \<open>PurePath.with_suffix\<close>\<close>

definition pure_with_name :: "purepath \<Rightarrow> string \<Rightarrow> purepath res" where
  "pure_with_name p s =
     (if pure_name p = [] then Inl (ValueError ''has an empty name'')
      else if \<not> proper_name s \<or> slash \<in> set s then Inl (ValueError ''Invalid name'')
      else Inr (p\<lparr>pp_tail := butlast (pp_tail p) @ [s]\<rparr>))"

definition pure_with_suffix :: "purepath \<Rightarrow> string \<Rightarrow> purepath res" where
  "pure_with_suffix p s =
     (if s = [] then pure_with_name p (name_stem (pure_name p))
      else if slash \<in> set s \<or> hd s \<noteq> dot \<or> s = ''.'' then Inl (ValueError ''Invalid suffix'')
      else pure_with_name p (name_stem (pure_name p) @ s))"

definition path_of :: "purepath res \<Rightarrow> apath res" where
  "path_of = map_res (\<lambda>q. path_init [PlPure q])"

definition path_with_name :: "apath \<Rightarrow> string \<Rightarrow> apath res" where
  "path_with_name p s = path_of (pure_with_name (wrapped p) s)"

definition path_with_stem :: "apath \<Rightarrow> string \<Rightarrow> apath res" where
  "path_with_stem p stem = path_of (pure_with_name (wrapped p) (stem @ name_suffix (pure_name (wrapped p))))"

definition path_with_suffix :: "apath \<Rightarrow> string \<Rightarrow> apath res" where
  "path_with_suffix p s = path_of (pure_with_suffix (wrapped p) s)"

text \<open>
  \<open>PurePath.relative_to\<close>: the first of \<open>other\<close> and its parents that is the path or one of its parents;
  without \<open>walk_up\<close> only \<open>other\<close> itself.
\<close>

fun relative_search :: "bool \<Rightarrow> purepath \<Rightarrow> nat \<Rightarrow> purepath list \<Rightarrow> purepath res" where
  "relative_search walk_up p n [] = Inl (ValueError ''have different anchors'')"
| "relative_search walk_up p n (q # qs) =
     (if q = p \<or> q \<in> set (pure_parents p)
      then Inr \<lparr>pp_root = [], pp_tail = replicate n ''..'' @ drop (length (pp_tail q)) (pp_tail p)\<rparr>
      else if \<not> walk_up then Inl (ValueError ''is not in the subpath of'')
      else if pure_name q = ''..'' then Inl (ValueError ''segment cannot be walked'')
      else relative_search walk_up p (n + 1) qs)"

definition pure_relative_to :: "bool \<Rightarrow> purepath \<Rightarrow> purepath \<Rightarrow> purepath res" where
  "pure_relative_to walk_up p q = relative_search walk_up p 0 (q # pure_parents q)"

definition path_relative_to :: "bool \<Rightarrow> apath \<Rightarrow> pathlike list \<Rightarrow> apath res" where
  "path_relative_to walk_up p other = path_of (pure_relative_to walk_up (wrapped p) (pathlib_path other))"

definition path_is_relative :: "apath \<Rightarrow> pathlike \<Rightarrow> bool res" where
  "path_is_relative p other = path_is_relative_to (path_relative_to False p [other])"


section \<open>Splitting and joining\<close>

lemma split_on_nonempty [simp]: "split_on c xs \<noteq> []"
  by (induction xs) (auto split: list.split)

lemma split_on_append: "split_on c (xs @ c # ys) = split_on c xs @ split_on c ys"
proof (induction xs)
  case (Cons x xs)
  then show ?case by (cases "split_on c xs") auto
qed simp

lemma split_on_single [simp]: "c \<notin> set s \<Longrightarrow> split_on c s = [s]"
  by (induction s) auto

lemma split_on_free: "s \<in> set (split_on c xs) \<Longrightarrow> c \<notin> set s"
  by (induction xs arbitrary: s) (auto split: if_splits list.splits)

lemma join_with_append:
  "ss \<noteq> [] \<Longrightarrow> ts \<noteq> [] \<Longrightarrow> join_with sep (ss @ ts) = join_with sep ss @ sep @ join_with sep ts"
proof (induction ss)
  case (Cons s ss)
  then show ?case by (cases ss; cases ts) auto
qed simp

lemma split_on_join:
  "ss \<noteq> [] \<Longrightarrow> \<forall>s \<in> set ss. c \<notin> set s \<Longrightarrow> split_on c (join_with [c] ss) = ss"
proof (induction ss rule: induct_list012)
  case (3 s t ss)
  then show ?case by (simp add: split_on_append)
qed auto

lemma join_split: "join_with [c] (split_on c xs) = xs"
proof (induction xs)
  case (Cons x xs)
  obtain s ss where split: "split_on c xs = s # ss" by (cases "split_on c xs") auto
  then show ?case using Cons by (cases ss) auto
qed simp

lemma split_on_inject: "split_on c xs = split_on c ys \<Longrightarrow> xs = ys"
  by (metis join_split)

section \<open>Parsing and rendering\<close>

lemma path_root_append:
  "r \<in> {[], ''/'', ''//''} \<Longrightarrow> take 1 rest \<noteq> ''/'' \<Longrightarrow> path_root (r @ rest) = r"
  by (cases rest) (auto simp: path_root_def)

lemma path_root_append_relative:
  "take 1 b \<noteq> ''/'' \<Longrightarrow> path_root (a @ b) = path_root a"
proof (cases b)
  case (Cons y ys)
  assume "take 1 b \<noteq> ''/''"
  then show ?thesis using Cons
    by (cases a; cases "tl a"; cases "tl (tl a)") (auto simp: path_root_def numeral_eq_Suc)
qed simp

lemma parse_path_wf [simp]: "path_wf (parse_path s)"
  by (auto simp: path_wf_def parse_path_def path_root_def dest: split_on_free)

lemma pathlib_path_wf [simp]: "path_wf (pathlib_path args)"
  by (simp add: pathlib_path_def)

lemma join_with_head:
  "ss \<noteq> [] \<Longrightarrow> \<forall>s \<in> set ss. proper_name s \<and> slash \<notin> set s \<Longrightarrow> take 1 (join_with ''/'' ss) \<noteq> ''/''"
proof (induction ss rule: induct_list012)
  case (2 s)
  then show ?case by (cases s) (auto simp: proper_name_def)
next
  case (3 s t ss)
  then show ?case by (cases s) (auto simp: proper_name_def)
qed simp

lemma filter_proper: "\<forall>s \<in> set ss. proper_name s \<and> slash \<notin> set s \<Longrightarrow> filter proper_name ss = ss"
  by (simp add: filter_id_conv)

lemma split_root:
  "r \<in> {[], ''/'', ''//''} \<Longrightarrow> filter proper_name (split_on slash (r @ rest)) = filter proper_name (split_on slash rest)"
  by (auto simp: proper_name_def)

lemma parse_render:
  assumes "path_wf p"
  shows "parse_path (path_render p) = p"
proof (cases "pp_tail p = []")
  case True
  then show ?thesis using assms
    by (cases p) (auto simp: path_wf_def parse_path_def path_render_def path_root_def proper_name_def)
next
  case False
  let ?j = "join_with ''/'' (pp_tail p)"
  have render: "path_render p = pp_root p @ ?j" using False by (simp add: path_render_def)
  have root: "path_root (pp_root p @ ?j) = pp_root p"
    using assms join_with_head [OF False] by (intro path_root_append) (auto simp: path_wf_def)
  have "filter proper_name (split_on slash (pp_root p @ ?j)) = pp_tail p"
    using assms False by (simp add: path_wf_def split_root split_on_join filter_proper)
  then show ?thesis using root by (simp add: parse_path_def render)
qed

lemma render_inject: "path_wf p \<Longrightarrow> path_wf q \<Longrightarrow> path_render p = path_render q \<longleftrightarrow> p = q"
  by (metis parse_render)

lemma path_init_pure [simp]: "path_wf p \<Longrightarrow> path_init [PlPure p] = APath p"
  by (simp add: path_init_def pathlib_path_def os_join_def parse_render)

lemma parse_join2:
  assumes "take 1 b \<noteq> ''/''"
  shows "parse_path (join2 a b) = \<lparr>pp_root = path_root a, pp_tail = pp_tail (parse_path a) @ pp_tail (parse_path b)\<rparr>"
proof (cases "a = [] \<or> last a = slash")
  case True
  then have join: "join2 a b = a @ b" using assms by (simp add: join2_def)
  have tail: "filter proper_name (split_on slash (a @ b)) =
      filter proper_name (split_on slash a) @ filter proper_name (split_on slash b)"
  proof (cases "a = []")
    case False
    then obtain a' where "a = a' @ [slash]" using True by (metis append_butlast_last_id)
    then show ?thesis by (simp add: split_on_append proper_name_def)
  qed (simp add: proper_name_def)
  show ?thesis using assms by (simp add: parse_path_def join tail path_root_append_relative)
next
  case False
  then have join: "join2 a b = a @ ''/'' @ b" using assms by (simp add: join2_def)
  have "path_root (a @ ''/'' @ b) = path_root a"
    using False by (cases a; cases "tl a"; cases "tl (tl a)") (auto simp: path_root_def numeral_eq_Suc split: if_splits)
  then show ?thesis by (simp add: parse_path_def join split_on_append)
qed

lemma render_relative_head: "path_wf p \<Longrightarrow> pp_root p = [] \<Longrightarrow> take 1 (path_render p) \<noteq> ''/''"
  using join_with_head [of "pp_tail p"] by (cases "pp_tail p = []") (auto simp: path_render_def path_wf_def)

lemma path_root_render: "path_wf p \<Longrightarrow> path_root (path_render p) = pp_root p"
  using parse_render [of p] by (metis parse_path_def purepath.select_convs(1))

lemma pathlib_join:
  assumes "path_wf p" "path_wf q"
  shows "pathlib_path [PlPure p, PlPure q] = (if pp_root q \<noteq> [] then q else p\<lparr>pp_tail := pp_tail p @ pp_tail q\<rparr>)"
proof (cases "pp_root q = []")
  case True
  then show ?thesis using assms parse_join2 [OF render_relative_head [OF assms(2) True], of "path_render p"]
    by (cases p) (simp add: pathlib_path_def os_join_def parse_render path_root_render)
next
  case False
  then have "take 1 (path_render q) = ''/''"
    using assms(2) by (auto simp: path_render_def path_wf_def)
  then show ?thesis using assms False by (simp add: pathlib_path_def os_join_def join2_def parse_render)
qed

lemma path_truediv_path:
  "path_wf p \<Longrightarrow> path_wf q \<Longrightarrow>
   path_truediv (APath p) (PlPath (APath q)) =
     APath (if pp_root q \<noteq> [] then q else p\<lparr>pp_tail := pp_tail p @ pp_tail q\<rparr>)"
proof -
  assume wf: "path_wf p" "path_wf q"
  have "pathlib_path [PlPure p, PlPath (APath q)] = pathlib_path [PlPure p, PlPure q]"
    by (simp add: pathlib_path_def path_fspath_def)
  then show ?thesis using pathlib_join [OF wf] pathlib_path_wf [of "[PlPure p, PlPure q]"]
    by (simp add: path_truediv_def)
qed

section \<open>Relative paths\<close>

lemma pure_parents_iff:
  "q = p \<or> q \<in> set (pure_parents p) \<longleftrightarrow> pp_root q = pp_root p \<and> prefix (pp_tail q) (pp_tail p)"
proof
  assume "q = p \<or> q \<in> set (pure_parents p)"
  then show "pp_root q = pp_root p \<and> prefix (pp_tail q) (pp_tail p)"
    by (auto simp: pure_parents_def take_is_prefix)
next
  assume q: "pp_root q = pp_root p \<and> prefix (pp_tail q) (pp_tail p)"
  then have tail: "pp_tail q = take (length (pp_tail q)) (pp_tail p)" by (metis append_eq_conv_conj prefix_def)
  show "q = p \<or> q \<in> set (pure_parents p)"
  proof (cases "length (pp_tail q) < length (pp_tail p)")
    case True
    have "q = p\<lparr>pp_tail := take (length (pp_tail q)) (pp_tail p)\<rparr>"
      using q tail by (cases p; cases q) simp
    then show ?thesis using True by (auto simp: pure_parents_def)
  next
    case False
    then have "pp_tail q = pp_tail p" using tail by simp
    then show ?thesis using q by (cases p; cases q) simp
  qed
qed

lemma pure_relative_to_plain:
  "pure_relative_to False p q =
     (if pp_root q = pp_root p \<and> prefix (pp_tail q) (pp_tail p)
      then Inr \<lparr>pp_root = [], pp_tail = drop (length (pp_tail q)) (pp_tail p)\<rparr>
      else Inl (ValueError ''is not in the subpath of''))"
  using pure_parents_iff [of q p] by (simp add: pure_relative_to_def)

lemma relative_wf: "path_wf p \<Longrightarrow> path_wf \<lparr>pp_root = [], pp_tail = drop n (pp_tail p)\<rparr>"
  by (auto simp: path_wf_def dest: in_set_dropD)

text \<open>
  \<open>relative_to\<close> undoes \<open>/\<close>: a path is relative to another iff it is the other one joined with some
  relative path, and then \<open>relative_to\<close> gives that path; \<open>is_relative_to\<close> says which case it is, and
  otherwise \<open>ValueError\<close> is raised.
\<close>

theorem relative_to_undoes_join:
  assumes "path_wf (wrapped p)"
  shows "case path_relative_to False p [other] of
      Inr r \<Rightarrow> \<not> path_is_absolute r \<and> path_truediv (path_init [other]) (PlPath r) = p \<and>
        path_is_relative p other = Inr True
    | Inl e \<Rightarrow> (\<exists>m. e = ValueError m) \<and> path_is_relative p other = Inr False \<and>
        \<not> (\<exists>r. path_wf (wrapped r) \<and> \<not> path_is_absolute r \<and> path_truediv (path_init [other]) (PlPath r) = p)"
proof -
  obtain q where p: "p = APath q" by (cases p)
  let ?o = "pathlib_path [other]"
  have wf: "path_wf q" using assms p by simp
  have joined: "path_truediv (path_init [other]) (PlPath (APath r)) =
      APath (if pp_root r \<noteq> [] then r else ?o\<lparr>pp_tail := pp_tail ?o @ pp_tail r\<rparr>)" if "path_wf r" for r
    using that by (simp add: path_init_def path_truediv_path)
  show ?thesis
  proof (cases "pp_root ?o = pp_root q \<and> prefix (pp_tail ?o) (pp_tail q)")
    case True
    let ?r = "\<lparr>pp_root = [], pp_tail = drop (length (pp_tail ?o)) (pp_tail q)\<rparr>"
    have rel: "path_relative_to False p [other] = Inr (APath ?r)"
      using True p wf by (simp add: path_relative_to_def pure_relative_to_plain path_of_def map_res_def relative_wf)
    have "pp_tail ?o @ drop (length (pp_tail ?o)) (pp_tail q) = pp_tail q"
      using True by (metis append_eq_conv_conj prefix_def)
    then have "?o\<lparr>pp_tail := pp_tail ?o @ pp_tail ?r\<rparr> = q"
      using True by (cases q; cases ?o) simp
    then show ?thesis using rel joined [OF relative_wf [OF wf]] p
      by (simp add: path_is_absolute_def path_is_relative_def path_is_relative_to_def)
  next
    case False
    have rel: "path_relative_to False p [other] = Inl (ValueError ''is not in the subpath of'')"
      using False p by (auto simp: path_relative_to_def pure_relative_to_plain path_of_def map_res_def)
    have "path_truediv (path_init [other]) (PlPath (APath r)) \<noteq> p" if "path_wf r" "pp_root r = []" for r
      using that False p joined [OF that(1)] by auto
    then show ?thesis using rel
      by (auto simp: path_is_absolute_def path_is_relative_def path_is_relative_to_def split: apath.splits) (metis apath.collapse)
  qed
qed

lemma relative_to_undoes_join_witness:
  "path_relative_to False (APath (parse_path ''/a/b'')) [PlStr ''/a''] = Inr (APath (parse_path ''b'')) \<and>
   path_truediv (path_init [PlStr ''/a'']) (PlPath (APath (parse_path ''b''))) = APath (parse_path ''/a/b'')"
proof -
  have rel: "path_relative_to False (APath (parse_path ''/a/b'')) [PlStr ''/a''] = Inr (APath (parse_path ''b''))"
    by (simp add: path_relative_to_def pure_relative_to_plain path_of_def map_res_def path_init_def
        pathlib_path_def parse_path_def path_root_def os_join_def proper_name_def path_render_def)
  then show ?thesis using relative_to_undoes_join [of "APath (parse_path ''/a/b'')" "PlStr ''/a''"] by simp
qed

section \<open>Comparison and names\<close>

text \<open>Paths compare as \<open>pathlib\<close> paths do, whichever of the two the other side is: a linear order.\<close>

lemma path_eq_iff:
  "path_wf (wrapped p) \<Longrightarrow> path_wf (wrapped q) \<Longrightarrow> path_eq p (ObPath q) = Some (p = q)"
  by (cases p; cases q) (simp add: path_eq_def render_inject)

lemma path_eq_pathlib: "path_eq p (ObPure (wrapped q)) = path_eq p (ObPath q)"
  by (simp add: path_eq_def)

lemma path_hash_eq: "path_eq p (ObPath q) = Some True \<Longrightarrow> path_hash h p = path_hash h q"
  by (simp add: path_eq_def path_hash_def)

lemma compare_key_inject: "compare_key p = compare_key q \<longleftrightarrow> path_render p = path_render q"
  by (auto simp: compare_key_def dest: split_on_inject)

lemma path_order:
  "path_le p (ObPath q) = Some (path_lt p (ObPath q) = Some True \<or> path_eq p (ObPath q) = Some True)"
  "path_ge p (ObPath q) = path_le q (ObPath p)" "path_gt p (ObPath q) = path_lt q (ObPath p)"
  "path_lt p (ObPath q) = Some (path_le q (ObPath p) = Some False)"
  by (auto simp: path_le_def path_lt_def path_ge_def path_gt_def path_eq_def le_less compare_key_inject [symmetric])

lemma path_lt_trans:
  "path_lt p (ObPath q) = Some True \<Longrightarrow> path_lt q (ObPath r) = Some True \<Longrightarrow> path_lt p (ObPath r) = Some True"
  by (auto simp: path_lt_def)

text \<open>A name is its stem followed by its suffix.\<close>

lemma stem_suffix: "name_stem s @ name_suffix s = s"
  by (simp add: name_stem_def name_suffix_def)

lemma suffix_length_append:
  assumes "s \<noteq> []" "t \<noteq> []" "dot \<notin> set t"
  shows "suffix_length (s @ dot # t) = length t + 1"
proof -
  have "takeWhile (\<lambda>c. c \<noteq> dot) (rev (s @ dot # t)) = rev t"
    using assms(3) by (simp add: takeWhile_append)
  then show ?thesis using assms(1,2) by (simp add: suffix_length_def Let_def)
qed

lemma suffix_shape:
  assumes "name_suffix s \<noteq> []"
  obtains u t where "s = u @ dot # t" "u \<noteq> []" "t \<noteq> []" "dot \<notin> set t" "name_suffix s = dot # t"
proof -
  define t where "t = takeWhile (\<lambda>c. c \<noteq> dot) (rev s)"
  define d where "d = dropWhile (\<lambda>c. c \<noteq> dot) (rev s)"
  have td: "rev s = t @ d" by (simp add: t_def d_def)
  have len: "suffix_length s = length t + 1" "t \<noteq> []" "length t + 1 < length s"
    using assms by (auto simp: name_suffix_def suffix_length_def Let_def t_def split: if_splits)
  have sum: "length s = length t + length d" by (metis td length_append length_rev)
  then have ne: "d \<noteq> []" using len(3) by auto
  then obtain w where w: "d = dot # w" using hd_dropWhile [of "\<lambda>c. c \<noteq> dot" "rev s"] by (cases d) (auto simp: d_def)
  have s: "s = rev w @ dot # rev t" using arg_cong [OF td, of rev] w by simp
  have wne: "w \<noteq> []" using sum w len(3) by auto
  have "length s - suffix_length s = length (rev w)" using sum len(1) w by simp
  then have "name_suffix s = drop (length (rev w)) s" by (simp only: name_suffix_def)
  also have "\<dots> = dot # rev t" by (subst s) simp
  finally have suf: "name_suffix s = dot # rev t" .
  have "dot \<notin> set (rev t)" by (auto simp: t_def dest: set_takeWhileD)
  then show ?thesis using that [OF s] wne len(2) suf by simp
qed

lemma pure_parent_wf: "path_wf p \<Longrightarrow> path_wf (pure_parent p)"
  by (auto simp: path_wf_def pure_parent_def dest: in_set_butlastD)

lemma path_parents_step:
  assumes "path_wf p"
  shows "path_parents (APath p) =
    (if pp_tail p = [] then [] else path_parent (APath p) # path_parents (path_parent (APath p)))"
proof (cases "pp_tail p" rule: rev_cases)
  case Nil
  then show ?thesis by (simp add: path_parents_def pure_parents_def)
next
  case (snoc xs x)
  have "path_parent (APath p) = APath (p\<lparr>pp_tail := xs\<rparr>)"
    using pure_parent_wf [OF assms] snoc by (simp add: path_parent_def pure_parent_def)
  moreover have "path_wf (p\<lparr>pp_tail := xs\<rparr>)" using assms snoc by (simp add: path_wf_def)
  ultimately show ?thesis using snoc by (simp add: path_parents_def pure_parents_def comp_def)
qed

text \<open>
  replacing the stem of a name that has a suffix gives the new stem, keeps the suffix and the
  directory, and fails only for a stem that is no part of a name.
\<close>

theorem with_stem_keeps_suffix:
  assumes "path_wf (wrapped p)" "path_suffix p \<noteq> []" "stem \<noteq> []" "slash \<notin> set stem"
  shows "\<exists>q. path_with_stem p stem = Inr q \<and> path_stem q = stem \<and> path_suffix q = path_suffix p \<and>
    path_parent q = path_parent p \<and> path_wf (wrapped q)"
proof -
  obtain r where p: "p = APath r" by (cases p)
  have suf: "name_suffix (pure_name r) \<noteq> []" using assms(2) p by (simp add: path_suffix_def)
  then have ne: "pp_tail r \<noteq> []" by (auto simp: pure_name_def name_suffix_def)
  then have name: "pure_name r = last (pp_tail r)" "last (pp_tail r) \<in> set (pp_tail r)" by (simp_all add: pure_name_def)
  from suffix_shape [OF suf] obtain u t where
    ut: "pure_name r = u @ dot # t" "t \<noteq> []" "dot \<notin> set t" "name_suffix (pure_name r) = dot # t" .
  have "slash \<notin> set (pure_name r)" unfolding name(1) using assms(1) name(2) p by (simp add: path_wf_def)
  then have t: "slash \<notin> set t" unfolding ut(1) by simp
  let ?n = "stem @ dot # t" and ?q = "r\<lparr>pp_tail := butlast (pp_tail r) @ [stem @ dot # t]\<rparr>"
  have len: "suffix_length ?n = length t + 1" using suffix_length_append [OF assms(3) ut(2,3)] .
  have proper: "proper_name ?n" using assms(3) by (cases stem) (auto simp: proper_name_def)
  have wf: "path_wf ?q"
    using assms(1,4) p t proper by (auto simp: path_wf_def dest: in_set_butlastD)
  have "pure_name r \<noteq> []" using ut(1) by simp
  then have "path_with_stem p stem = Inr (APath ?q)"
    using p ut(4) t assms(4) proper wf by (simp add: path_with_stem_def path_of_def map_res_def pure_with_name_def)
  moreover have "path_stem (APath ?q) = stem" "path_suffix (APath ?q) = dot # t"
    using len by (simp_all add: path_stem_def path_suffix_def pure_name_def name_stem_def name_suffix_def)
  moreover have "path_parent (APath ?q) = path_parent p"
    using p by (simp add: path_parent_def pure_parent_def)
  ultimately show ?thesis using ut(4) p wf by (auto simp: path_suffix_def)
qed

lemma with_stem_keeps_suffix_witness:
  "\<exists>q. path_with_stem (APath (parse_path ''a/b.py'')) ''c'' = Inr q \<and> path_suffix q = ''.py'' \<and> path_stem q = ''c''"
proof -
  have suf: "path_suffix (APath (parse_path ''a/b.py'')) = ''.py''"
    by (simp add: path_suffix_def parse_path_def proper_name_def pure_name_def name_suffix_def suffix_length_def)
  show ?thesis using with_stem_keeps_suffix [of "APath (parse_path ''a/b.py'')" "''c''"] suf by auto
qed

section \<open>URIs\<close>

text \<open>
  \<open>as_uri\<close>, with \<open>urllib.parse.quote_from_bytes\<close> of the bytes of the path; a character stands for a
  byte of the encoded path.
\<close>

definition uri_safe :: "char \<Rightarrow> bool" where
  "uri_safe c \<longleftrightarrow> c \<in> set ''abcdefghijklmnopqrstuvwxyzABCDEFGHIJKLMNOPQRSTUVWXYZ0123456789_.-~/''"

definition hex_digit :: "nat \<Rightarrow> char" where
  "hex_digit n = ''0123456789ABCDEF'' ! n"

definition quote_char :: "char \<Rightarrow> string" where
  "quote_char c =
     (if uri_safe c then [c] else [CHR ''%'', hex_digit (of_char c div 16), hex_digit (of_char c mod 16)])"

definition quote_bytes :: "string \<Rightarrow> string" where
  "quote_bytes s = concat (map quote_char s)"

definition path_as_uri :: "apath \<Rightarrow> string res" where
  "path_as_uri p =
     (if \<not> path_is_absolute p then Inl (ValueError ''relative path can't be expressed as a file URI'')
      else Inr (''file://'' @ quote_bytes (path_str p)))"

lemma hex_digit_inject: "m < 16 \<Longrightarrow> n < 16 \<Longrightarrow> hex_digit m = hex_digit n \<Longrightarrow> m = n"
  by (auto simp: hex_digit_def nth_eq_iff_index_eq)

lemma quote_char_prefix: "quote_char c @ s = quote_char d @ t \<Longrightarrow> c = d \<and> s = t"
proof -
  have small: "(of_char x :: nat) div 16 < 16" "(of_char x :: nat) mod 16 < 16" for x
    using nat_of_char_less_256 [of x] by (simp_all add: less_mult_imp_div_less)
  have pc: "\<not> uri_safe CHR ''%''" by (simp add: uri_safe_def)
  assume eq: "quote_char c @ s = quote_char d @ t"
  show ?thesis
  proof (cases "uri_safe c \<or> uri_safe d")
    case True
    with eq pc show ?thesis by (auto simp: quote_char_def split: if_splits)
  next
    case False
    with eq have "hex_digit (of_char c div 16) = hex_digit (of_char d div 16)"
        "hex_digit (of_char c mod 16) = hex_digit (of_char d mod 16)" and st: "s = t"
      by (simp_all add: quote_char_def)
    then have "(of_char c :: nat) div 16 = of_char d div 16" "(of_char c :: nat) mod 16 = of_char d mod 16"
      using small by (auto intro: hex_digit_inject)
    then have "(of_char c :: nat) = of_char d" by (metis div_mult_mod_eq)
    then show ?thesis using st by simp
  qed
qed

lemma quote_bytes_inject: "quote_bytes s = quote_bytes t \<Longrightarrow> s = t"
proof (induction s arbitrary: t)
  case Nil
  then show ?case by (cases t) (auto simp: quote_bytes_def quote_char_def split: if_splits)
next
  case (Cons c s)
  then show ?case
  proof (cases t)
    case Nil
    then show ?thesis using Cons.prems by (auto simp: quote_bytes_def quote_char_def split: if_splits)
  next
    case t: (Cons d t')
    with Cons.prems have "quote_char c @ quote_bytes s = quote_char d @ quote_bytes t'" by (simp add: quote_bytes_def)
    from quote_char_prefix [OF this] Cons.IH [of t'] t show ?thesis by simp
  qed
qed

text \<open>Different absolute paths have different URIs, and only absolute paths have one.\<close>

lemma as_uri_inject:
  "path_wf (wrapped p) \<Longrightarrow> path_wf (wrapped q) \<Longrightarrow> path_as_uri p = Inr u \<Longrightarrow> path_as_uri q = Inr u \<Longrightarrow> p = q"
  by (cases p; cases q) (auto simp: path_as_uri_def path_str_def render_inject dest!: quote_bytes_inject split: if_splits)

end
