(* ===== verification/FileSystem.thy ===== *)
theory FileSystem
  imports PurePaths TextStreams "HOL-Library.AList"
begin

text \<open>
  The calls of \<open>os\<close> and \<open>pathlib\<close> behind \<open>Path\<close>, over a POSIX file system: names that lead to inodes,
  symbolic links that are followed at most 40 times, a working directory. Permissions, times and
  what happens on the other end of a pipe or a device are not modelled: opening one gives \<open>ENXIO\<close>.
\<close>

section \<open>Files and names\<close>

datatype fkind = KFile bytes | KDir | KLink string | KFifo | KSocket | KBlock | KChar

record inode =
  in_kind :: fkind
  in_mode :: int
  in_owner :: string
  in_group :: string

record fsys =
  fs_names :: "(string list \<times> nat) list"
  fs_inodes :: "nat \<Rightarrow> inode"
  fs_next :: nat
  fs_cwd :: "string list"
  fs_home :: string
  fs_mounts :: "string list list"
  fs_umask :: int
  fs_user :: string
  fs_users_group :: string

type_synonym 'a fs_call = "fsys \<Rightarrow> fsys \<times> 'a res"

abbreviation ENOENT :: exn where "ENOENT \<equiv> OSError 2"
abbreviation EEXIST :: exn where "EEXIST \<equiv> OSError 17"
abbreviation ENOTDIR :: exn where "ENOTDIR \<equiv> OSError 20"
abbreviation EISDIR :: exn where "EISDIR \<equiv> OSError 21"
abbreviation EINVAL :: exn where "EINVAL \<equiv> OSError 22"
abbreviation ENXIO :: exn where "ENXIO \<equiv> OSError 6"
abbreviation EBUSY :: exn where "EBUSY \<equiv> OSError 16"
abbreviation EPERM :: exn where "EPERM \<equiv> OSError 1"
abbreviation ENOTEMPTY :: exn where "ENOTEMPTY \<equiv> OSError 39"
abbreviation ELOOP :: exn where "ELOOP \<equiv> OSError 40"

definition ino_at :: "fsys \<Rightarrow> string list \<Rightarrow> nat option" where
  "ino_at fs l = map_of (fs_names fs) l"

definition kind_at :: "fsys \<Rightarrow> string list \<Rightarrow> fkind option" where
  "kind_at fs l = map_option (\<lambda>i. in_kind (fs_inodes fs i)) (ino_at fs l)"

text \<open>
  The name a path leads to, which itself may be missing; the last component is followed, if it is a
  link, only with \<open>fl\<close>.
\<close>

fun namei :: "fsys \<Rightarrow> bool \<Rightarrow> nat \<Rightarrow> string list \<Rightarrow> string list \<Rightarrow> string list res" where
  "namei fs fl n cur [] = Inr cur"
| "namei fs fl n cur (c # cs) =
     (if kind_at fs cur = None then Inl ENOENT
      else if kind_at fs cur \<noteq> Some KDir then Inl ENOTDIR
      else if c = ''..'' then namei fs fl n (butlast cur) cs
      else case kind_at fs (cur @ [c]) of
          None \<Rightarrow> if cs = [] then Inr (cur @ [c]) else Inl ENOENT
        | Some (KLink t) \<Rightarrow>
            if cs = [] \<and> \<not> fl then Inr (cur @ [c])
            else (case n of
                0 \<Rightarrow> Inl ELOOP
              | Suc n' \<Rightarrow> namei fs fl n' (if path_root t = [] then cur else []) (pp_tail (parse_path t) @ cs))
        | Some _ \<Rightarrow> namei fs fl n (cur @ [c]) cs)"

definition path_start :: "fsys \<Rightarrow> purepath \<Rightarrow> string list" where
  "path_start fs p = (if pp_root p = [] then fs_cwd fs else [])"

definition locate :: "bool \<Rightarrow> fsys \<Rightarrow> purepath \<Rightarrow> string list res" where
  "locate fl fs p =
     (if ino_at fs (path_start fs p) = None then Inl ENOENT
      else namei fs fl 40 (path_start fs p) (pp_tail p))"

definition find_node :: "bool \<Rightarrow> fsys \<Rightarrow> purepath \<Rightarrow> (string list \<times> nat) res" where
  "find_node fl fs p = bind_res (locate fl fs p)
     (\<lambda>l. case ino_at fs l of None \<Rightarrow> Inl ENOENT | Some i \<Rightarrow> Inr (l, i))"

definition node_kind :: "bool \<Rightarrow> fsys \<Rightarrow> purepath \<Rightarrow> fkind option" where
  "node_kind fl fs p =
     (case find_node fl fs p of Inl e \<Rightarrow> None | Inr (l, i) \<Rightarrow> Some (in_kind (fs_inodes fs i)))"

definition with_umask :: "fsys \<Rightarrow> int \<Rightarrow> int" where
  "with_umask fs mode = semiring_bit_operations_class.and mode (ring_bit_operations_class.not (fs_umask fs))"

definition create_node :: "string list \<Rightarrow> fkind \<Rightarrow> int \<Rightarrow> fsys \<Rightarrow> fsys" where
  "create_node l k mode fs = fs
     \<lparr>fs_names := AList.update l (fs_next fs) (fs_names fs),
      fs_inodes := (fs_inodes fs)(fs_next fs :=
        \<lparr>in_kind = k, in_mode = mode, in_owner = fs_user fs, in_group = fs_users_group fs\<rparr>),
      fs_next := fs_next fs + 1\<rparr>"

definition upd_inode :: "nat \<Rightarrow> (inode \<Rightarrow> inode) \<Rightarrow> fsys \<Rightarrow> fsys" where
  "upd_inode i f fs = fs\<lparr>fs_inodes := (fs_inodes fs)(i := f (fs_inodes fs i))\<rparr>"

definition remove_name :: "string list \<Rightarrow> fsys \<Rightarrow> fsys" where
  "remove_name l fs = fs\<lparr>fs_names := AList.delete l (fs_names fs)\<rparr>"

definition dir_entries :: "fsys \<Rightarrow> string list \<Rightarrow> string list" where
  "dir_entries fs l = map last (filter (\<lambda>m. m \<noteq> [] \<and> butlast m = l) (map fst (fs_names fs)))"

section \<open>Asking\<close>

definition ask :: "(fsys \<Rightarrow> 'a res) \<Rightarrow> 'a fs_call" where
  "ask f fs = (fs, f fs)"

definition changed :: "(fsys \<Rightarrow> fsys res) \<Rightarrow> unit fs_call" where
  "changed f fs = (case f fs of Inl e \<Rightarrow> (fs, Inl e) | Inr fs' \<Rightarrow> (fs', Inr ()))"

definition os_stat :: "bool \<Rightarrow> purepath \<Rightarrow> (nat \<times> inode) fs_call" where
  "os_stat follow p = ask (\<lambda>fs. map_res (\<lambda>(l, i). (i, fs_inodes fs i)) (find_node follow fs p))"

definition py_exists :: "purepath \<Rightarrow> bool fs_call" where
  "py_exists p = ask (\<lambda>fs. Inr (node_kind True fs p \<noteq> None))"

definition py_is_kind :: "bool \<Rightarrow> (fkind \<Rightarrow> bool) \<Rightarrow> purepath \<Rightarrow> bool fs_call" where
  "py_is_kind follow P p = ask (\<lambda>fs. Inr (case node_kind follow fs p of None \<Rightarrow> False | Some k \<Rightarrow> P k))"

definition is_regular :: "fkind \<Rightarrow> bool" where
  "is_regular k = (case k of KFile _ \<Rightarrow> True | _ \<Rightarrow> False)"

definition is_link :: "fkind \<Rightarrow> bool" where
  "is_link k = (case k of KLink _ \<Rightarrow> True | _ \<Rightarrow> False)"

definition py_samefile :: "purepath \<Rightarrow> purepath \<Rightarrow> bool fs_call" where
  "py_samefile p q = ask (\<lambda>fs. bind_res (find_node True fs p)
     (\<lambda>(l, i). map_res (\<lambda>(m, j). i = j) (find_node True fs q)))"

definition os_ismount :: "purepath \<Rightarrow> bool fs_call" where
  "os_ismount p = ask (\<lambda>fs. Inr (case find_node False fs p of
     Inl e \<Rightarrow> False
   | Inr (l, i) \<Rightarrow> \<not> is_link (in_kind (fs_inodes fs i)) \<and> (l = [] \<or> l \<in> set (fs_mounts fs))))"

definition os_readlink :: "purepath \<Rightarrow> string fs_call" where
  "os_readlink p = ask (\<lambda>fs. bind_res (find_node False fs p)
     (\<lambda>(l, i). case in_kind (fs_inodes fs i) of KLink t \<Rightarrow> Inr t | _ \<Rightarrow> Inl EINVAL))"

definition os_listdir :: "purepath \<Rightarrow> string list fs_call" where
  "os_listdir p = ask (\<lambda>fs. bind_res (find_node True fs p)
     (\<lambda>(l, i). if in_kind (fs_inodes fs i) = KDir then Inr (dir_entries fs l) else Inl ENOTDIR))"

definition os_getcwd :: "purepath fs_call" where
  "os_getcwd = ask (\<lambda>fs. if ino_at fs (fs_cwd fs) = None then Inl ENOENT
     else Inr \<lparr>pp_root = ''/'', pp_tail = fs_cwd fs\<rparr>)"

definition py_absolute :: "purepath \<Rightarrow> purepath fs_call" where
  "py_absolute p = (if pp_root p \<noteq> [] then ask (\<lambda>_. Inr p)
     else ask (\<lambda>fs. map_res (\<lambda>c. pathlib_path [PlPure c, PlPure p]) (snd (os_getcwd fs))))"

definition py_home :: "purepath fs_call" where
  "py_home = ask (\<lambda>fs. Inr (parse_path (fs_home fs)))"

text \<open>Only the home directory of the process is known.\<close>

definition py_expanduser :: "purepath \<Rightarrow> purepath fs_call" where
  "py_expanduser p =
     (if pp_root p = [] \<and> pp_tail p \<noteq> [] \<and> take 1 (hd (pp_tail p)) = ''~'' then
        (if hd (pp_tail p) = ''~''
         then ask (\<lambda>fs. Inr ((parse_path (fs_home fs))
           \<lparr>pp_tail := pp_tail (parse_path (fs_home fs)) @ tl (pp_tail p)\<rparr>))
         else ask (\<lambda>_. Inl (RuntimeError ''Could not determine home directory.'')))
      else ask (\<lambda>_. Inr p))"

text \<open>\<open>resolve\<close>: without \<open>strict\<close> what is missing is kept as it stands.\<close>

fun realpath :: "fsys \<Rightarrow> bool \<Rightarrow> nat \<Rightarrow> string list \<Rightarrow> string list \<Rightarrow> string list res" where
  "realpath fs strict n cur [] = Inr cur"
| "realpath fs strict n cur (c # cs) =
     (if c = ''..'' then realpath fs strict n (butlast cur) cs
      else if strict \<and> kind_at fs cur \<noteq> Some KDir then Inl ENOTDIR
      else case kind_at fs (cur @ [c]) of
          None \<Rightarrow> if strict then Inl ENOENT else realpath fs strict n (cur @ [c]) cs
        | Some (KLink t) \<Rightarrow>
            (case n of
                0 \<Rightarrow> Inl (if strict then ELOOP else RuntimeError ''Symlink loop'')
              | Suc n' \<Rightarrow> realpath fs strict n' (if path_root t = [] then cur else []) (pp_tail (parse_path t) @ cs))
        | Some _ \<Rightarrow> realpath fs strict n (cur @ [c]) cs)"

definition py_resolve :: "bool \<Rightarrow> purepath \<Rightarrow> purepath fs_call" where
  "py_resolve strict p = ask (\<lambda>fs. map_res (\<lambda>l. \<lparr>pp_root = ''/'', pp_tail = l\<rparr>)
     (realpath fs strict 40 (path_start fs p) (pp_tail p)))"

section \<open>Changing\<close>

definition os_mkdir :: "int \<Rightarrow> purepath \<Rightarrow> unit fs_call" where
  "os_mkdir mode p = changed (\<lambda>fs. bind_res (locate False fs p)
     (\<lambda>l. if ino_at fs l \<noteq> None then Inl EEXIST else Inr (create_node l KDir (with_umask fs mode) fs)))"

text \<open>\<open>pathlib.Path.mkdir\<close>; parents are made with the default mode.\<close>

function py_mkdir :: "int \<Rightarrow> bool \<Rightarrow> bool \<Rightarrow> purepath \<Rightarrow> unit fs_call" where
  "py_mkdir mode parents exist_ok p fs =
     (case os_mkdir mode p fs of
        (fs1, Inr u) \<Rightarrow> (fs1, Inr ())
      | (fs1, Inl e) \<Rightarrow>
          if e = ENOENT then
            (if \<not> parents \<or> pp_tail p = [] then (fs1, Inl e)
             else case py_mkdir 511 True True (pure_parent p) fs1 of
                 (fs2, Inl e2) \<Rightarrow> (fs2, Inl e2)
               | (fs2, Inr _) \<Rightarrow>
                   (case os_mkdir mode p fs2 of
                      (fs3, Inl e3) \<Rightarrow>
                        if e3 = ENOENT \<or> \<not> exist_ok \<or> node_kind True fs3 p \<noteq> Some KDir
                        then (fs3, Inl e3) else (fs3, Inr ())
                    | r \<Rightarrow> r))
          else if \<not> exist_ok \<or> node_kind True fs1 p \<noteq> Some KDir then (fs1, Inl e)
          else (fs1, Inr ()))"
  by pat_completeness auto

termination
  by (relation "measure (\<lambda>(_, _, _, p, _). length (pp_tail p))") (auto simp: pure_parent_def)

declare py_mkdir.simps [simp del]

definition os_rmdir :: "purepath \<Rightarrow> unit fs_call" where
  "os_rmdir p = changed (\<lambda>fs. bind_res (find_node False fs p)
     (\<lambda>(l, i). if in_kind (fs_inodes fs i) \<noteq> KDir then Inl ENOTDIR
        else if l = [] \<or> l \<in> set (fs_mounts fs) then Inl EBUSY
        else if dir_entries fs l \<noteq> [] then Inl ENOTEMPTY
        else Inr (remove_name l fs)))"

definition os_unlink :: "purepath \<Rightarrow> unit fs_call" where
  "os_unlink p = changed (\<lambda>fs. bind_res (find_node False fs p)
     (\<lambda>(l, i). if in_kind (fs_inodes fs i) = KDir then Inl EISDIR else Inr (remove_name l fs)))"

definition move_names :: "string list \<Rightarrow> string list \<Rightarrow> fsys \<Rightarrow> fsys" where
  "move_names old new fs = fs\<lparr>fs_names :=
     map (\<lambda>(l, i). (if prefix old l then new @ drop (length old) l else l, i))
       (filter (\<lambda>(l, i). l \<noteq> new) (fs_names fs))\<rparr>"

text \<open>\<open>rename\<close>, with the target replaced if it is there.\<close>

definition os_rename :: "purepath \<Rightarrow> purepath \<Rightarrow> unit fs_call" where
  "os_rename p q = changed (\<lambda>fs. bind_res (find_node False fs p) (\<lambda>(old, i).
     bind_res (locate False fs q) (\<lambda>new.
       let dir = (in_kind (fs_inodes fs i) = KDir) in
       if old = [] \<or> new = [] then Inl EBUSY
       else if dir \<and> strict_prefix old new then Inl EINVAL
       else case ino_at fs new of
           None \<Rightarrow> Inr (move_names old new fs)
         | Some j \<Rightarrow>
             if i = j then Inr fs
             else if dir \<and> in_kind (fs_inodes fs j) \<noteq> KDir then Inl ENOTDIR
             else if \<not> dir \<and> in_kind (fs_inodes fs j) = KDir then Inl EISDIR
             else if dir \<and> dir_entries fs new \<noteq> [] then Inl ENOTEMPTY
             else Inr (move_names old new fs))))"

definition os_symlink :: "string \<Rightarrow> purepath \<Rightarrow> unit fs_call" where
  "os_symlink target p = changed (\<lambda>fs.
     if target = [] then Inl ENOENT
     else bind_res (locate False fs p)
       (\<lambda>l. if ino_at fs l \<noteq> None then Inl EEXIST else Inr (create_node l (KLink target) 511 fs)))"

text \<open>\<open>os.link(src, dst)\<close>: a link to a symbolic link is one to the link itself.\<close>

definition os_link :: "purepath \<Rightarrow> purepath \<Rightarrow> unit fs_call" where
  "os_link src dst = changed (\<lambda>fs. bind_res (find_node False fs src) (\<lambda>(m, i).
     bind_res (locate False fs dst) (\<lambda>l.
       if ino_at fs l \<noteq> None then Inl EEXIST
       else if in_kind (fs_inodes fs i) = KDir then Inl EPERM
       else Inr (fs\<lparr>fs_names := AList.update l i (fs_names fs)\<rparr>))))"

text \<open>\<open>os.chmod\<close>; where \<open>follow_symlinks=False\<close> is not available it is refused.\<close>

definition os_chmod :: "bool \<Rightarrow> purepath \<Rightarrow> int \<Rightarrow> unit fs_call" where
  "os_chmod follow p mode = changed (\<lambda>fs.
     if \<not> follow then Inl (NotImplementedError ''chmod: follow_symlinks unavailable on this platform'')
     else map_res (\<lambda>(l, i). upd_inode i (\<lambda>n. n\<lparr>in_mode := mode\<rparr>) fs) (find_node True fs p))"

section \<open>Opening, reading and writing\<close>

datatype file_mode = ModeRead | ModeWrite | ModeAppend | ModeExclusive

definition node_data :: "fsys \<Rightarrow> nat \<Rightarrow> bytes" where
  "node_data fs i = (case in_kind (fs_inodes fs i) of KFile b \<Rightarrow> b | _ \<Rightarrow> [])"

definition set_data :: "nat \<Rightarrow> bytes \<Rightarrow> fsys \<Rightarrow> fsys" where
  "set_data i b = upd_inode i (\<lambda>n. n\<lparr>in_kind := KFile b\<rparr>)"

definition fs_open :: "file_mode \<Rightarrow> int \<Rightarrow> purepath \<Rightarrow> nat fs_call" where
  "fs_open m perm p fs =
     (case locate (m \<noteq> ModeExclusive) fs p of
        Inl e \<Rightarrow> (fs, Inl e)
      | Inr l \<Rightarrow>
          (case ino_at fs l of
             None \<Rightarrow> if m = ModeRead then (fs, Inl ENOENT)
                     else (create_node l (KFile []) (with_umask fs perm) fs, Inr (fs_next fs))
           | Some i \<Rightarrow>
               if m = ModeExclusive then (fs, Inl EEXIST)
               else case in_kind (fs_inodes fs i) of
                   KFile b \<Rightarrow> (if m = ModeWrite then set_data i [] fs else fs, Inr i)
                 | KDir \<Rightarrow> (fs, Inl EISDIR)
                 | _ \<Rightarrow> (fs, Inl ENXIO)))"

definition py_touch :: "int \<Rightarrow> bool \<Rightarrow> purepath \<Rightarrow> unit fs_call" where
  "py_touch mode exist_ok p fs =
     (if exist_ok \<and> node_kind True fs p \<noteq> None then (fs, Inr ())
      else case fs_open (if exist_ok then ModeAppend else ModeExclusive) mode p fs of
          (fs', r) \<Rightarrow> (fs', map_res (\<lambda>_. ()) r))"

definition py_read_bytes :: "purepath \<Rightarrow> bytes fs_call" where
  "py_read_bytes p fs = (case fs_open ModeRead 438 p fs of (fs', r) \<Rightarrow> (fs', map_res (node_data fs') r))"

definition py_write_bytes :: "bytes \<Rightarrow> purepath \<Rightarrow> int fs_call" where
  "py_write_bytes data p fs =
     (case fs_open ModeWrite 438 p fs of
        (fs', Inl e) \<Rightarrow> (fs', Inl e)
      | (fs', Inr i) \<Rightarrow> (set_data i data fs', Inr (int (length data))))"

text \<open>
  Text files in an encoding: \<open>newline\<close> as given to \<open>open\<close>; reading is with \<open>newline=None\<close>, where
  every line end becomes a newline.
\<close>

record text_encoding =
  te_encode :: "ustr \<Rightarrow> bytes res"
  te_decode :: "bytes \<Rightarrow> ustr res"

datatype newline_arg = NlNone | NlRaw | NlLf | NlCr | NlCrLf

fun newline_out :: "newline_arg \<Rightarrow> ustr" where
  "newline_out NlCr = [13]"
| "newline_out NlCrLf = [13, 10]"
| "newline_out _ = [10]"

definition write_newlines :: "newline_arg \<Rightarrow> ustr \<Rightarrow> ustr" where
  "write_newlines nl s = concat (map (\<lambda>c. if c = 10 then newline_out nl else [c]) s)"

fun read_newlines :: "ustr \<Rightarrow> ustr" where
  "read_newlines [] = []"
| "read_newlines (c # cs) =
     (if c = 13 then 10 # (case cs of d # ds \<Rightarrow> if d = 10 then read_newlines ds else read_newlines cs | [] \<Rightarrow> [])
      else c # read_newlines cs)"

definition py_read_text :: "text_encoding \<Rightarrow> purepath \<Rightarrow> ustr fs_call" where
  "py_read_text enc p fs =
     (case py_read_bytes p fs of (fs', r) \<Rightarrow> (fs', map_res read_newlines (bind_res r (te_decode enc))))"

text \<open>\<open>with open("w") as fp: return fp.write(data)\<close>: what cannot be encoded leaves the file empty.\<close>

definition py_write_text :: "text_encoding \<Rightarrow> newline_arg \<Rightarrow> ustr \<Rightarrow> purepath \<Rightarrow> int fs_call" where
  "py_write_text enc nl s p fs =
     (case fs_open ModeWrite 438 p fs of
        (fs', Inl e) \<Rightarrow> (fs', Inl e)
      | (fs', Inr i) \<Rightarrow>
          (case te_encode enc (write_newlines nl s) of
             Inl e \<Rightarrow> (fs', Inl e)
           | Inr b \<Rightarrow> (set_data i b fs', Inr (int (length s)))))"

definition utf8_encoding :: text_encoding where
  "utf8_encoding =
     \<lparr>te_encode = u8_encode,
      te_decode = (\<lambda>b. case u8_decode b of
         Inl e \<Rightarrow> Inl e | Inr (s, r) \<Rightarrow> if r = [] then Inr s else Inl (ValueError ''unexpected end of data''))\<rparr>"

section \<open>What is written is read\<close>

definition fresh_inode :: "fsys \<Rightarrow> bool" where
  "fresh_inode fs \<longleftrightarrow> (\<forall>(l, i) \<in> set (fs_names fs). i < fs_next fs)"

definition kind_shape :: "fkind \<Rightarrow> fkind" where
  "kind_shape k = (case k of KFile b \<Rightarrow> KFile [] | _ \<Rightarrow> k)"

lemma kind_shape_simps [simp]:
  "kind_shape k = KDir \<longleftrightarrow> k = KDir" "kind_shape k = KLink t \<longleftrightarrow> k = KLink t"
  "kind_shape (KFile b) = KFile []" "kind_shape KDir = KDir" "kind_shape (KLink t) = KLink t"
  by (cases k; simp add: kind_shape_def)+

text \<open>The cases of \<open>namei\<close> and its induction: up, down to a name that is no link, and through a link.\<close>

definition link_start :: "string \<Rightarrow> string list \<Rightarrow> string list" where
  "link_start t cur = (if path_root t = [] then cur else [])"

lemma namei_up: "kind_at fs cur = Some KDir \<Longrightarrow> namei fs fl n cur (''..'' # cs) = namei fs fl n (butlast cur) cs"
  by simp

lemma namei_missing:
  "kind_at fs cur = Some KDir \<Longrightarrow> c \<noteq> ''..'' \<Longrightarrow> kind_at fs (cur @ [c]) = None \<Longrightarrow>
   namei fs fl n cur (c # cs) = (if cs = [] then Inr (cur @ [c]) else Inl ENOENT)"
  by simp

lemma namei_down:
  "kind_at fs cur = Some KDir \<Longrightarrow> c \<noteq> ''..'' \<Longrightarrow> kind_at fs (cur @ [c]) = Some k \<Longrightarrow> \<nexists>t. k = KLink t \<Longrightarrow>
   namei fs fl n cur (c # cs) = namei fs fl n (cur @ [c]) cs"
  by (cases k) auto

lemma namei_link:
  "kind_at fs cur = Some KDir \<Longrightarrow> c \<noteq> ''..'' \<Longrightarrow> kind_at fs (cur @ [c]) = Some (KLink t) \<Longrightarrow>
   namei fs fl n cur (c # cs) =
     (if cs = [] \<and> \<not> fl then Inr (cur @ [c])
      else case n of 0 \<Rightarrow> Inl ELOOP | Suc m \<Rightarrow> namei fs fl m (link_start t cur) (pp_tail (parse_path t) @ cs))"
  by (simp add: link_start_def split: nat.split)

lemma namei_dir: "namei fs fl n cur (c # cs) = Inr l \<Longrightarrow> kind_at fs cur = Some KDir"
  by (auto split: if_splits)

lemma namei_induct [case_names here up down]:
  fixes n :: nat and cur cs :: "string list"
  assumes here: "\<And>n cur. P n cur []"
    and up: "\<And>n cur cs. P n (butlast cur) cs \<Longrightarrow> P n cur (''..'' # cs)"
    and down: "\<And>n cur c cs. c \<noteq> ''..'' \<Longrightarrow> P n (cur @ [c]) cs \<Longrightarrow>
      (\<And>m cur' ds. m < n \<Longrightarrow> P m cur' ds) \<Longrightarrow> P n cur (c # cs)"
  shows "P n cur cs"
proof (induction n arbitrary: cur cs rule: less_induct)
  case (less n)
  have "length cs \<le> k \<Longrightarrow> P n cur cs" for k cs cur
  proof (induction k arbitrary: cs cur)
    case 0
    then show ?case using here by simp
  next
    case (Suc k)
    show ?case
    proof (cases cs)
      case Nil
      then show ?thesis using here by simp
    next
      case (Cons c ds)
      then have "P n cur' ds" for cur' using Suc by simp
      then show ?thesis using Cons up down less by (cases "c = ''..''") auto
    qed
  qed
  then show ?case by blast
qed

text \<open>Looking a name up depends on which names are there and on which are directories and links.\<close>

lemma namei_shape:
  assumes shape: "\<And>l. map_option kind_shape (kind_at fs l) = map_option kind_shape (kind_at fs' l)"
  shows "namei fs fl n cur cs = namei fs' fl n cur cs"
proof -
  have dir: "kind_at fs l = Some KDir \<longleftrightarrow> kind_at fs' l = Some KDir" for l
    using shape [of l] by (cases "kind_at fs l"; cases "kind_at fs' l") (auto, (metis kind_shape_simps(1,4))+)
  have none: "kind_at fs l = None \<longleftrightarrow> kind_at fs' l = None" for l
    using shape [of l] by (metis map_option_is_None)
  have link: "kind_at fs l = Some (KLink t) \<longleftrightarrow> kind_at fs' l = Some (KLink t)" for l t
    using shape [of l] by (cases "kind_at fs l"; cases "kind_at fs' l") (auto, (metis kind_shape_simps(2,5))+)
  show ?thesis
  proof (induction n cur cs rule: namei_induct)
    case (up n cur cs)
    then show ?case using dir [of cur] none [of cur] by auto
  next
    case (down n cur c cs)
    show ?case
    proof (cases "kind_at fs cur = Some KDir")
      case False
      then show ?thesis using dir [of cur] none [of cur] by auto
    next
      case True
      note dirs = True True [unfolded dir]
      let ?k = "kind_at fs (cur @ [c])" and ?k' = "kind_at fs' (cur @ [c])"
      consider "?k = None" "?k' = None" | t where "?k = Some (KLink t)" "?k' = Some (KLink t)"
        | k k' where "?k = Some k" "?k' = Some k'" "\<nexists>t. k = KLink t" "\<nexists>t. k' = KLink t"
        using none [of "cur @ [c]"] link [of "cur @ [c]"] by (cases ?k; cases ?k') (auto, metis)
      then show ?thesis
      proof cases
        case 1
        then show ?thesis using namei_missing [OF dirs(1) down(1)] namei_missing [OF dirs(2) down(1)] by simp
      next
        case (2 t)
        then show ?thesis using namei_link [OF dirs(1) down(1)] namei_link [OF dirs(2) down(1)] down(3)
          by (simp del: namei.simps split: nat.split)
      next
        case (3 k k')
        then show ?thesis
          using namei_down [OF dirs(1) down(1) 3(1,3)] namei_down [OF dirs(2) down(1) 3(2,4)] down(2) by simp
      qed
    qed
  qed simp
qed

text \<open>A file that is created under a name that was missing is found under it.\<close>

lemma namei_create:
  assumes new: "\<And>m. kind_at fs' m = (if m = l then Some (KFile b) else kind_at fs m)"
    and gone: "kind_at fs l = None"
  shows "namei fs fl n cur cs = Inr l \<Longrightarrow> namei fs' fl n cur cs = Inr l"
proof (induction n cur cs rule: namei_induct)
  case (up n cur cs)
  then have "kind_at fs cur = Some KDir" using namei_dir by blast
  then show ?case using up new [of cur] gone by auto
next
  case (down n cur c cs)
  then have dir: "kind_at fs cur = Some KDir" using namei_dir by blast
  then have dir': "kind_at fs' cur = Some KDir" using new [of cur] gone by auto
  consider "kind_at fs (cur @ [c]) = None" | t where "kind_at fs (cur @ [c]) = Some (KLink t)"
    | k where "kind_at fs (cur @ [c]) = Some k" "\<nexists>t. k = KLink t"
    by (cases "kind_at fs (cur @ [c])") auto
  then show ?case
  proof cases
    case 1
    then have "cs = []" "cur @ [c] = l"
      using down(4) namei_missing [OF dir down(1) 1] by (auto simp del: namei.simps split: if_splits)
    moreover have "kind_at fs' (cur @ [c]) = Some (KFile b)" using new [of "cur @ [c]"] calculation by simp
    ultimately show ?thesis using namei_down [OF dir' down(1)] by simp
  next
    case (2 t)
    have new_t: "kind_at fs' (cur @ [c]) = Some (KLink t)" using 2 new [of "cur @ [c]"] gone by auto
    show ?thesis using down(3,4) unfolding namei_link [OF dir down(1) 2] namei_link [OF dir' down(1) new_t]
      by (auto simp del: namei.simps split: nat.splits if_splits)
  next
    case (3 k)
    have new_k: "kind_at fs' (cur @ [c]) = Some k" using 3(1) new [of "cur @ [c]"] gone by auto
    show ?thesis using down(2,4) unfolding namei_down [OF dir down(1) 3] namei_down [OF dir' down(1) new_k 3(2)] .
  qed
qed simp

lemma ino_at_create: "ino_at (create_node l k m fs) l' = (if l' = l then Some (fs_next fs) else ino_at fs l')"
  by (simp add: ino_at_def create_node_def update_conv')

lemma ino_fresh: "fresh_inode fs \<Longrightarrow> ino_at fs l = Some i \<Longrightarrow> i < fs_next fs"
  by (auto simp: fresh_inode_def ino_at_def dest: map_of_SomeD)

lemma kind_at_create:
  "fresh_inode fs \<Longrightarrow> kind_at (create_node l k m fs) l' = (if l' = l then Some k else kind_at fs l')"
  using ino_fresh [of fs l'] by (cases "ino_at fs l'") (auto simp: kind_at_def ino_at_create, auto simp: create_node_def)

lemma ino_at_upd [simp]: "ino_at (upd_inode i f fs) l = ino_at fs l"
  by (simp add: ino_at_def upd_inode_def)

text \<open>Opening a file for writing makes it an empty file under the name the path leads to.\<close>

definition leads_to :: "fsys \<Rightarrow> purepath \<Rightarrow> nat \<Rightarrow> bytes \<Rightarrow> bool" where
  "leads_to fs p i b \<longleftrightarrow>
     (\<exists>l. locate True fs p = Inr l \<and> ino_at fs l = Some i \<and> in_kind (fs_inodes fs i) = KFile b)"

lemma leads_to_set_data:
  assumes "leads_to fs p i b"
  shows "leads_to (set_data i b' fs) p i b'"
proof -
  obtain l where l: "locate True fs p = Inr l" "ino_at fs l = Some i" "in_kind (fs_inodes fs i) = KFile b"
    using assms by (auto simp: leads_to_def)
  have "map_option kind_shape (kind_at (set_data i b' fs) m) = map_option kind_shape (kind_at fs m)" for m
    using l(3) by (cases "ino_at fs m") (auto simp: kind_at_def set_data_def upd_inode_def ino_at_def)
  from namei_shape [OF this] have "namei (set_data i b' fs) = namei fs" by (intro ext) simp
  moreover have "path_start (set_data i b' fs) p = path_start fs p"
    by (simp add: path_start_def set_data_def upd_inode_def)
  ultimately have "locate True (set_data i b' fs) p = locate True fs p" by (simp add: locate_def set_data_def)
  then show ?thesis using l by (auto simp: leads_to_def set_data_def) (auto simp: upd_inode_def)
qed

lemma leads_to_read: "leads_to fs p i b \<Longrightarrow> py_read_bytes p fs = (fs, Inr b)"
  by (auto simp: leads_to_def py_read_bytes_def fs_open_def map_res_def node_data_def)

lemma open_write_leads:
  assumes "fresh_inode fs" "fs_open ModeWrite m p fs = (fs', Inr i)"
  shows "leads_to fs' p i []" and "\<And>j. j < fs_next fs \<Longrightarrow> j \<noteq> i \<Longrightarrow> fs_inodes fs' j = fs_inodes fs j"
    and "\<And>l j. ino_at fs l = Some j \<Longrightarrow> ino_at fs' l = Some j"
proof -
  obtain l where l: "locate True fs p = Inr l"
    using assms(2) by (auto simp: fs_open_def split: sum.splits)
  have "leads_to fs' p i [] \<and> (\<forall>j. j < fs_next fs \<longrightarrow> j \<noteq> i \<longrightarrow> fs_inodes fs' j = fs_inodes fs j) \<and>
    (\<forall>m j. ino_at fs m = Some j \<longrightarrow> ino_at fs' m = Some j)"
  proof (cases "ino_at fs l")
    case None
    let ?c = "create_node l (KFile []) (with_umask fs m) fs"
    have fs': "fs' = ?c" "i = fs_next fs" using assms(2) l None by (auto simp: fs_open_def)
    have start: "path_start ?c p = path_start fs p" by (simp add: path_start_def create_node_def)
    have "namei fs True 40 (path_start fs p) (pp_tail p) = Inr l" "ino_at fs (path_start fs p) \<noteq> None"
      using l by (auto simp: locate_def split: if_splits)
    moreover from this(1) have "namei ?c True 40 (path_start fs p) (pp_tail p) = Inr l"
      by (rule namei_create [OF kind_at_create [OF assms(1)], rotated]) (simp add: kind_at_def None)
    ultimately have "locate True ?c p = Inr l" by (auto simp: locate_def start ino_at_create)
    then show ?thesis using fs' None by (auto simp: leads_to_def ino_at_create) (auto simp: create_node_def)
  next
    case (Some j)
    note opened = assms(2) [unfolded fs_open_def]
    have "\<exists>b. in_kind (fs_inodes fs j) = KFile b"
      using opened l Some by (cases "in_kind (fs_inodes fs j)") simp_all
    then obtain b where kind: "in_kind (fs_inodes fs j) = KFile b" by blast
    then have "set_data j [] fs = fs' \<and> j = i" using opened l Some by auto
    then have "fs' = set_data j [] fs" "i = j" by blast+
    note b = kind this
    then have "leads_to fs p i b" using l Some by (simp add: leads_to_def)
    then show ?thesis using b leads_to_set_data [of fs p i b "[]"]
      by (auto simp: set_data_def) (auto simp: upd_inode_def)
  qed
  then show "leads_to fs' p i []" "\<And>j. j < fs_next fs \<Longrightarrow> j \<noteq> i \<Longrightarrow> fs_inodes fs' j = fs_inodes fs j"
    "\<And>l j. ino_at fs l = Some j \<Longrightarrow> ino_at fs' l = Some j" by blast+
qed

end
