(* ===== verification/Paths.thy ===== *)
theory Paths
  imports FileSystem
begin

text \<open>
  The part of \<open>Path\<close> (\<open>src/anyio/_core/_fileio.py\<close>) that calls the file system, in worker threads:
  each method is the call it hands to \<open>to_thread.run_sync\<close>, whether a cancelled caller abandons the
  thread, and what it makes of the result.
\<close>

section \<open>Calls in a worker thread\<close>

datatype pval =
    VNone | VBool bool | VInt int | VStr string | VBytes bytes | VText ustr | VPath apath
  | VStat nat inode | VFile nat file_mode

record pcall =
  pc_abandon :: bool
  pc_run :: "pval fs_call"

definition then_val :: "'a fs_call \<Rightarrow> ('a \<Rightarrow> 'b) \<Rightarrow> 'b fs_call" where
  "then_val c f fs = (case c fs of (fs', r) \<Rightarrow> (fs', map_res f r))"

definition in_thread :: "bool \<Rightarrow> 'a fs_call \<Rightarrow> ('a \<Rightarrow> pval) \<Rightarrow> pcall" where
  "in_thread abandon c f = \<lparr>pc_abandon = abandon, pc_run = then_val c f\<rparr>"

definition wrap_path :: "purepath \<Rightarrow> pval" where
  "wrap_path q = VPath (path_init [PlPure q])"


section \<open>The methods\<close>

text \<open>\<open>if isinstance(target, Path): target = target._path\<close>; a \<open>str\<close> is a path to \<open>pathlib\<close> too.\<close>

definition target_path :: "pathlike \<Rightarrow> purepath" where
  "target_path t = (case t of PlPath p \<Rightarrow> wrapped p | _ \<Rightarrow> pathlib_path [t])"

text \<open>The target of a call of \<open>os\<close>; an empty one is no name (that a name ends in a slash makes no difference here).\<close>

definition to_target :: "pathlike \<Rightarrow> (purepath \<Rightarrow> 'a fs_call) \<Rightarrow> 'a fs_call" where
  "to_target t f = (if t = PlStr [] then ask (\<lambda>_. Inl ENOENT) else f (target_path t))"



definition path_cwd :: pcall where
  "path_cwd = in_thread False os_getcwd wrap_path"





definition path_home :: pcall where
  "path_home = in_thread False py_home wrap_path"












definition path_mkdir :: "apath \<Rightarrow> int \<Rightarrow> bool \<Rightarrow> bool \<Rightarrow> pcall" where
  "path_mkdir p mode parents exist_ok =
     in_thread False (py_mkdir mode parents exist_ok (wrapped p)) (\<lambda>_. VNone)"




definition path_read_text :: "apath \<Rightarrow> text_encoding \<Rightarrow> pcall" where
  "path_read_text p enc = in_thread False (py_read_text enc (wrapped p)) VText"










definition path_unlink_method :: "apath \<Rightarrow> bool \<Rightarrow> pcall" where
  "path_unlink_method p missing_ok = \<lparr>pc_abandon = False, pc_run = (\<lambda>fs.
     case os_unlink (wrapped p) fs of (fs', r) \<Rightarrow> (fs', map_res (\<lambda>_. VNone) (path_unlink missing_ok r)))\<rparr>"


definition path_write_text :: "apath \<Rightarrow> ustr \<Rightarrow> text_encoding \<Rightarrow> newline_arg \<Rightarrow> pcall" where
  "path_write_text p s enc nl = in_thread False (py_write_text enc nl s (wrapped p)) VInt"

section \<open>All of them\<close>



text \<open>A call that leaves the files as they are.\<close>

definition only_asks :: "'a fs_call \<Rightarrow> bool" where
  "only_asks c \<longleftrightarrow> (\<forall>fs. fst (c fs) = fs)"

lemma only_asks_ask [simp]: "only_asks (ask f)"
  by (simp add: only_asks_def ask_def)

lemma only_asks_then [simp]: "only_asks c \<Longrightarrow> only_asks (then_val c f)"
  by (simp add: only_asks_def then_val_def case_prod_beta)

lemma only_asks_calls [simp]:
  "only_asks (os_stat follow p)" "only_asks (py_exists p)" "only_asks (py_is_kind follow P p)"
  "only_asks (py_samefile p q)" "only_asks (os_ismount p)" "only_asks (os_readlink p)"
  "only_asks os_getcwd" "only_asks (py_absolute p)" "only_asks py_home" "only_asks (py_expanduser p)"
  "only_asks (py_resolve strict p)"
  by (simp_all add: os_stat_def py_exists_def py_is_kind_def py_samefile_def os_ismount_def os_readlink_def
      os_getcwd_def py_absolute_def py_home_def py_expanduser_def py_resolve_def)




section \<open>Texts survive\<close>

lemma write_newlines_Cons: "write_newlines nl (c # s) = (if c = 10 then newline_out nl else [c]) @ write_newlines nl s"
  by (simp add: write_newlines_def)

lemma write_newlines_cr: "c # cs = write_newlines NlCr s \<Longrightarrow> c \<noteq> 10"
  by (cases s) (auto simp: write_newlines_Cons write_newlines_def split: if_splits)

lemma read_write_newlines: "13 \<notin> set s \<Longrightarrow> read_newlines (write_newlines nl s) = s"
proof (induction s)
  case Nil
  then show ?case by (simp add: write_newlines_def)
next
  case (Cons c s)
  have "read_newlines (13 # write_newlines NlCr s) = 10 # read_newlines (write_newlines NlCr s)"
    using write_newlines_cr [of _ _ s] by (cases "write_newlines NlCr s") auto
  then show ?case using Cons by (cases nl) (auto simp: write_newlines_Cons)
qed

lemma utf8_decode_encode: "te_encode utf8_encoding s = Inr b \<Longrightarrow> te_decode utf8_encoding b = Inr s"
proof -
  assume "te_encode utf8_encoding s = Inr b"
  then have b: "u8_encode s = Inr b" by (simp add: utf8_encoding_def)
  from b have "list_all u8_scalar s" by (simp add: u8_encode_def split: if_splits)
  from utf8.encode_valid [OF this] b have "u8_decode b = Inr (s, [])" by (auto simp: u8_decoded_def)
  then show ?thesis by (simp add: utf8_encoding_def)
qed

text \<open>
  C29: a text that \<open>write_text\<close> has written is what \<open>read_text\<close> reads from the same path, whatever
  links lead to it and whatever line ends were asked for, if the text has no carriage return of its
  own, and if decoding with the encoding and error handling of the reader undoes encoding with those
  of the writer, as it does for UTF-8 with strict errors on both sides; every name that was there is
  still there, and no other file has changed.
\<close>

theorem written_text_is_read:
  assumes "fresh_inode fs" "13 \<notin> set s"
    and "\<And>u b. te_encode wenc u = Inr b \<Longrightarrow> te_decode renc b = Inr u"
    and "pc_run (path_write_text p s wenc nl) fs = (fs', Inr v)"
  shows "v = VInt (int (length s)) \<and> pc_run (path_read_text p renc) fs' = (fs', Inr (VText s)) \<and>
    (\<forall>l j. ino_at fs l = Some j \<longrightarrow> ino_at fs' l = Some j) \<and>
    (\<exists>i b. leads_to fs' (wrapped p) i b \<and> (\<forall>j < fs_next fs. j \<noteq> i \<longrightarrow> fs_inodes fs' j = fs_inodes fs j))"
proof -
  from assms(4) obtain f i b where opened: "fs_open ModeWrite 438 (wrapped p) fs = (f, Inr i)"
    and enc: "te_encode wenc (write_newlines nl s) = Inr b"
    and fs': "fs' = set_data i b f" "v = VInt (int (length s))"
    by (auto simp: path_write_text_def in_thread_def then_val_def py_write_text_def map_res_def
        split: prod.splits sum.splits)
  note open_write_leads [OF assms(1) opened]
  moreover have "leads_to fs' (wrapped p) i b"
    unfolding fs'(1) by (rule leads_to_set_data [OF open_write_leads(1) [OF assms(1) opened]])
  moreover from this have "pc_run (path_read_text p renc) fs' = (fs', Inr (VText s))"
    using assms(3) [OF enc] read_write_newlines [OF assms(2)]
    by (simp add: path_read_text_def in_thread_def then_val_def py_read_text_def leads_to_read map_res_def bind_res_def)
  ultimately show ?thesis using fs'
    by (intro conjI exI [of _ i] exI [of _ b]) (auto simp: set_data_def upd_inode_def ino_at_def)
qed

definition root_only :: fsys where
  "root_only =
     \<lparr>fs_names = [([], 0)], fs_inodes = (\<lambda>_. \<lparr>in_kind = KDir, in_mode = 493, in_owner = ''root'', in_group = ''root''\<rparr>),
      fs_next = 1, fs_cwd = [], fs_home = ''/'', fs_mounts = [], fs_umask = 18,
      fs_user = ''root'', fs_users_group = ''root''\<rparr>"

lemma written_text_is_read_witness:
  "\<exists>fs'. pc_run (path_read_text (path_init [PlStr ''/a'']) utf8_encoding) fs' = (fs', Inr (VText [104, 10, 105]))"
proof -
  let ?p = "path_init [PlStr ''/a'']"
  have "wrapped ?p = \<lparr>pp_root = ''/'', pp_tail = [''a'']\<rparr>"
    by (simp add: path_init_def pathlib_path_def parse_path_def path_root_def os_join_def proper_name_def)
  then have "\<exists>fs'. pc_run (path_write_text ?p [104, 10, 105] utf8_encoding NlCrLf) root_only = (fs', Inr (VInt 3))"
    by (simp add: path_write_text_def in_thread_def then_val_def py_write_text_def fs_open_def locate_def
        path_start_def ino_at_def kind_at_def root_only_def utf8_encoding_def u8_encode_def u8_scalar_def
        write_newlines_def map_res_def)
  then obtain fs' where "pc_run (path_write_text ?p [104, 10, 105] utf8_encoding NlCrLf) root_only = (fs', Inr (VInt 3))"
    by blast
  from written_text_is_read [OF _ _ utf8_decode_encode this] show ?thesis
    by (auto simp: fresh_inode_def root_only_def)
qed

section \<open>Files, directories and trees\<close>

definition open_file :: "pathlike \<Rightarrow> file_mode \<Rightarrow> pcall" where
  "open_file file mode = in_thread False (to_target file (fs_open mode 438)) (\<lambda>i. VFile i mode)"

definition path_iterdir :: "apath \<Rightarrow> fsys \<Rightarrow> path_iter res" where
  "path_iterdir p fs = map_res
     (\<lambda>names. \<lparr>pi_left = map (\<lambda>s. path_render (pathlib_path [PlPure (wrapped p), PlStr s])) names, pi_busy = False\<rparr>)
     (snd (os_listdir (wrapped p) fs))"

text \<open>
  \<open>async for ... in path.walk()\<close> over what the generator of \<open>pathlib\<close> gives: each step takes one value in
  a worker thread, or is cancelled before it; the third component is how the iteration has ended.
\<close>

fun path_walk :: "exn option list \<Rightarrow> 'a list \<Rightarrow> 'a list \<times> 'a list \<times> unit res option" where
  "path_walk [] gen = ([], gen, None)"
| "path_walk (Some e # cs) gen = ([], gen, Some (Inl e))"
| "path_walk (None # cs) [] = ([], [], Some (Inr ()))"
| "path_walk (None # cs) (v # gen) = (case path_walk cs gen of (vs, g, r) \<Rightarrow> (v # vs, g, r))"

text \<open>Cancelled or not, no value is lost: the thread of a step is never abandoned, unlike that of \<open>iterdir\<close>.\<close>

lemma path_walk_all:
  "fst (path_walk cs gen) @ fst (snd (path_walk cs gen)) = gen"
  by (induction cs gen rule: path_walk.induct) (auto split: prod.splits)

lemma path_walk_ends:
  "\<forall>c \<in> set cs. c = None \<Longrightarrow> length gen < length cs \<Longrightarrow> path_walk cs gen = (gen, [], Some (Inr ()))"
  by (induction cs gen rule: path_walk.induct) auto

section \<open>What the calls do\<close>

lemma path_run_simps:
  "pc_run (in_thread a c f) fs = (fst (c fs), map_res f (snd (c fs)))"
  by (simp add: in_thread_def then_val_def case_prod_beta)

text \<open>A directory that \<open>mkdir\<close> has made is one, and making it again is an error unless it is allowed.\<close>

lemma os_mkdir_made:
  assumes "fresh_inode fs" "os_mkdir mode p fs = (fs', Inr ())"
  shows "\<exists>l. locate False fs p = Inr l \<and> ino_at fs l = None \<and> kind_at fs' l = Some KDir"
proof -
  obtain l where "locate False fs p = Inr l" "ino_at fs l = None" "fs' = create_node l KDir (with_umask fs mode) fs"
    using assms(2) by (auto simp: os_mkdir_def changed_def bind_res_def split: sum.splits if_splits)
  then show ?thesis using kind_at_create [OF assms(1)] by auto
qed

lemma mkdir_again:
  assumes "os_mkdir mode p fs = (fs, Inl EEXIST)" "node_kind True fs p = Some k"
  shows "pc_run (path_mkdir (APath p) mode parents exist_ok) fs =
    (fs, if exist_ok \<and> k = KDir then Inr VNone else Inl EEXIST)"
  using assms by (subst path_mkdir_def) (auto simp: path_run_simps py_mkdir.simps map_res_def)

text \<open>\<open>unlink\<close> takes the name away, and only \<open>missing_ok\<close> hides that there was none.\<close>

lemma unlink_removes:
  assumes "pc_run (path_unlink_method (APath p) missing_ok) fs = (fs', Inr v)"
  shows "fs' = fs \<and> missing_ok \<or> (\<exists>l i. find_node False fs p = Inr (l, i) \<and> ino_at fs' l = None)"
proof (cases "find_node False fs p")
  case (Inl e)
  then show ?thesis using assms
    by (auto simp: path_unlink_method_def os_unlink_def changed_def bind_res_def path_unlink_def map_res_def split: if_splits)
next
  case (Inr li)
  then show ?thesis using assms
    by (cases li)
      (auto simp: path_unlink_method_def os_unlink_def changed_def bind_res_def path_unlink_def map_res_def
        remove_name_def ino_at_def delete_conv' split: if_splits)
qed

section \<open>Patterns\<close>

text \<open>\<open>glob\<close> and \<open>rglob\<close>: an iterator over the paths that the generator of \<open>pathlib\<close> gives, a parameter.\<close>

definition path_glob :: "(purepath \<Rightarrow> string \<Rightarrow> purepath list) \<Rightarrow> apath \<Rightarrow> string \<Rightarrow> path_iter" where
  "path_glob pathlib_glob p pat = \<lparr>pi_left = map path_render (pathlib_glob (wrapped p) pat), pi_busy = False\<rparr>"

definition path_rglob :: "(purepath \<Rightarrow> string \<Rightarrow> purepath list) \<Rightarrow> apath \<Rightarrow> string \<Rightarrow> path_iter" where
  "path_rglob pathlib_rglob p pat = \<lparr>pi_left = map path_render (pathlib_rglob (wrapped p) pat), pi_busy = False\<rparr>"

lemma path_glob_entries:
  "\<forall>c \<in> set cs. \<forall>e. c \<noteq> CallAbandoned e \<Longrightarrow>
     fst (path_entries cs (path_glob g p pat)) @ pi_left (snd (path_entries cs (path_glob g p pat))) =
       map path_render (g (wrapped p) pat)"
  by (simp add: path_entries_all [THEN conjunct1] path_glob_def)

end
