(* ===== verification/ConnectTcp.thy ===== *)
theory ConnectTcp
  imports SocketHelpers TlsStream
begin

text \<open>
  \<open>connect_tcp\<close> (\<open>src/anyio/_core/_sockets.py\<close>) from the name to the stream: resolving, the attempts
  of \<open>SocketHelpers\<close> in a task group, and \<open>TLSStream.wrap\<close> (\<open>src/anyio/streams/tls.py\<close>) on the
  connection; which connections are open at its end.
\<close>

section \<open>TLSStream.wrap\<close>

datatype ssl_purpose = ClientAuth | ServerAuth

text \<open>Of an SSL context, for whom it was made and whether it takes an unexpected end for a regular one.\<close>

record ssl_context =
  cx_purpose :: ssl_purpose
  cx_ignore_eof :: bool

definition default_context :: "bool \<Rightarrow> ssl_purpose \<Rightarrow> ssl_context" where
  "default_context ignore_eof purpose = \<lparr>cx_purpose = purpose, cx_ignore_eof = ignore_eof\<rparr>"

text \<open>\<open>ignore_eof\<close>: what \<open>ssl.create_default_context\<close> chooses.\<close>

definition wrap_context :: "bool \<Rightarrow> bool \<Rightarrow> ssl_context option \<Rightarrow> ssl_context" where
  "wrap_context ignore_eof server_side given =
     (case given of
        Some c \<Rightarrow> c
      | None \<Rightarrow> (default_context ignore_eof (if server_side then ClientAuth else ServerAuth))\<lparr>cx_ignore_eof := False\<rparr>)"

text \<open>\<open>wrap_bio\<close> is \<open>ssl_context.wrap_bio\<close>, \<open>handshake\<close> is \<open>do_handshake\<close> of the object.\<close>

record 'o ssl_lib =
  wrap_bio :: "ssl_context \<Rightarrow> bool \<Rightarrow> string option \<Rightarrow> 'o res"
  do_handshake :: "('o, unit) ssl_method"
  lib_ignore_eof :: bool

definition tls_wrap ::
  "'o ssl_lib \<Rightarrow> bool option \<Rightarrow> string option \<Rightarrow> ssl_context option \<Rightarrow> bool \<Rightarrow> 'o tls res"
where
  "tls_wrap lib server_side hostname given std =
     (let side = default_server_side server_side hostname in
      map_res (\<lambda>obj. tls_new obj std)
        (wrap_bio lib (wrap_context (lib_ignore_eof lib) side given) side hostname))"

section \<open>connect_tcp\<close>

text \<open>Which arguments ask for TLS, and the name the certificate is checked against.\<close>

record tls_args =
  ta_tls :: bool
  ta_hostname :: "string option"
  ta_context :: "ssl_context option"
  ta_std :: bool

definition wants_tls :: "tls_args \<Rightarrow> bool" where
  "wants_tls a \<longleftrightarrow> ta_tls a \<or> ta_hostname a \<notin> {None, Some []} \<or> ta_context a \<noteq> None"

definition tls_name :: "tls_args \<Rightarrow> string \<Rightarrow> string" where
  "tls_name a remote_host = (case ta_hostname a of None \<Rightarrow> remote_host | Some h \<Rightarrow> if h = [] then remote_host else h)"

datatype 'o connection = PlainConn nat | TlsConn nat "'o tls"

fun conn_stream :: "'o connection \<Rightarrow> nat" where
  "conn_stream (PlainConn s) = s"
| "conn_stream (TlsConn s t) = s"

text \<open>
  Where the host is: in \<open>getaddrinfo\<close> for the local or the remote host, waiting for the event of an
  attempt (or the delay), leaving the task group with the exception on its way, in the handshake, or
  closing the stream by force.
\<close>

datatype 'o ct_pc =
    CtLocal | CtResolve | CtWait nat | CtGroup "exn option" | CtTls nat "'o tls" "unit tls_pc"
  | CtForce exn | CtEnd "'o connection res"

record 'o ct_sys =
  ct_pc :: "'o ct_pc"
  ct_targets :: "(int \<times> string) list"
  ct_running :: "nat list"
  ct_he :: eyeballs
  ct_opened :: "nat list"
  ct_errors :: "exn list"
  ct_forced :: "nat list"
  ct_raised :: bool

text \<open>The loop over the addresses: start the attempt and wait, or leave the group.\<close>

definition ct_launch :: "nat \<Rightarrow> 'o ct_sys \<Rightarrow> 'o ct_sys" where
  "ct_launch i s =
     (if i < length (ct_targets s)
      then s\<lparr>ct_running := ct_running s @ [i], ct_pc := CtWait i\<rparr>
      else s\<lparr>ct_pc := CtGroup None\<rparr>)"

definition ct_begin :: "(int \<times> string) option \<Rightarrow> 'o ct_sys \<Rightarrow> 'o ct_sys" where
  "ct_begin literal s =
     (case literal of
        Some t \<Rightarrow> ct_launch 0 (s\<lparr>ct_targets := target_addrs (Some t) []\<rparr>)
      | None \<Rightarrow> s\<lparr>ct_pc := CtResolve\<rparr>)"

definition ct_start :: "bool \<Rightarrow> (int \<times> string) option \<Rightarrow> 'o ct_sys" where
  "ct_start local literal =
     (let s = \<lparr>ct_pc = CtLocal, ct_targets = [], ct_running = [], ct_he = eyeballs_new, ct_opened = [],
        ct_errors = [], ct_forced = [], ct_raised = False\<rparr>
      in if local then s else ct_begin literal s)"

definition ct_local_done :: "(int \<times> string) option \<Rightarrow> gai list res \<Rightarrow> 'o ct_sys \<Rightarrow> 'o ct_sys" where
  "ct_local_done literal r s =
     (case r of
        Inl e \<Rightarrow> s\<lparr>ct_pc := CtEnd (Inl e)\<rparr>
      | Inr gs \<Rightarrow> if gs = [] then s\<lparr>ct_pc := CtEnd (Inl IndexError)\<rparr> else ct_begin literal s)"

definition ct_resolved :: "gai list res \<Rightarrow> 'o ct_sys \<Rightarrow> 'o ct_sys" where
  "ct_resolved r s =
     (case r of
        Inl e \<Rightarrow> s\<lparr>ct_pc := CtEnd (Inl e)\<rparr>
      | Inr gs \<Rightarrow> ct_launch 0 (s\<lparr>ct_targets := target_addrs None gs\<rparr>))"

text \<open>An attempt ends; what it raises other than a cancellation is an error of the group.\<close>

definition ct_attempt :: "nat \<Rightarrow> nat res \<Rightarrow> 'o ct_sys \<Rightarrow> 'o ct_sys" where
  "ct_attempt i r s =
     (case try_connect i r (ct_he s) of
        (he, res) \<Rightarrow> s
          \<lparr>ct_running := remove1 i (ct_running s), ct_he := he,
           ct_opened := ct_opened s @ (case r of Inr x \<Rightarrow> [x] | Inl _ \<Rightarrow> []),
           ct_errors := ct_errors s @ (case res of Inl e \<Rightarrow> if is_cancelled e then [] else [e] | Inr _ \<Rightarrow> [])\<rparr>)"

text \<open>After a call of the TLS object: the handshake goes on, is done, or has failed.\<close>

definition ct_handshake :: "nat \<Rightarrow> 'o tls \<times> (unit tls_pc, unit) outcome \<Rightarrow> 'o ct_sys \<Rightarrow> 'o ct_sys" where
  "ct_handshake x o' s =
     (case o' of
        (t, Suspended pc) \<Rightarrow> s\<lparr>ct_pc := CtTls x t pc\<rparr>
      | (t, Done _) \<Rightarrow> s\<lparr>ct_pc := CtEnd (Inr (TlsConn x t))\<rparr>
      | (t, Raised e) \<Rightarrow> s\<lparr>ct_pc := CtForce e, ct_forced := ct_forced s @ [x]\<rparr>)"

text \<open>After the group.\<close>

definition ct_connected :: "'o ssl_lib \<Rightarrow> tls_args \<Rightarrow> string \<Rightarrow> 'o ct_sys \<Rightarrow> 'o ct_sys" where
  "ct_connected lib a host s =
     (case snd (connect_result (ct_he s)) of
        Inl e \<Rightarrow> s\<lparr>ct_pc := CtEnd (Inl e)\<rparr>
      | Inr x \<Rightarrow>
          if wants_tls a then
            (case tls_wrap lib (Some False) (Some (tls_name a host)) (ta_context a) (ta_std a) of
               Inl e \<Rightarrow> s\<lparr>ct_pc := CtForce e, ct_forced := ct_forced s @ [x]\<rparr>
             | Inr t \<Rightarrow> ct_handshake x (tls_call (do_handshake lib) t) s)
          else s\<lparr>ct_pc := CtEnd (Inr (PlainConn x))\<rparr>)"

text \<open>
  One step: a name is resolved; an attempt ends; the event of the attempt is set or the delay over,
  or something is raised while waiting (the group is cancelled once there is a stream); the group is
  left, swallowing its own cancellation, or raises; the handshake goes on; closing by force ends.
\<close>

inductive ct_step :: "'o ssl_lib \<Rightarrow> tls_args \<Rightarrow> string \<Rightarrow> (int \<times> string) option \<Rightarrow> 'o ct_sys \<Rightarrow> 'o ct_sys \<Rightarrow> bool"
  for lib a host literal
where
  ct_local: "ct_pc s = CtLocal \<Longrightarrow> ct_step lib a host literal s (ct_local_done literal r s)"
| ct_resolve: "ct_pc s = CtResolve \<Longrightarrow> ct_step lib a host literal s (ct_resolved r s)"
| ct_attempt: "i \<in> set (ct_running s) \<Longrightarrow> ct_step lib a host literal s (ct_attempt i r s)"
| ct_next: "ct_pc s = CtWait i \<Longrightarrow> ct_step lib a host literal s (ct_launch (i + 1) s)"
| ct_thrown: "ct_pc s = CtWait i \<Longrightarrow> ct_step lib a host literal s (s\<lparr>ct_pc := CtGroup (Some e)\<rparr>)"
| ct_left: "ct_pc s = CtGroup x \<Longrightarrow> ct_running s = [] \<Longrightarrow> ct_errors s = [] \<Longrightarrow>
    (case x of None \<Rightarrow> True | Some e \<Rightarrow> is_cancelled e \<and> he_cancel (ct_he s)) \<Longrightarrow>
    ct_step lib a host literal s (ct_connected lib a host s)"
| ct_raises: "ct_pc s = CtGroup x \<Longrightarrow> ct_running s = [] \<Longrightarrow>
    ct_step lib a host literal s (s\<lparr>ct_pc := CtEnd (Inl e), ct_raised := True\<rparr>)"
| ct_tls: "ct_pc s = CtTls x t pc \<Longrightarrow>
    ct_step lib a host literal s (ct_handshake x (tls_resume (do_handshake lib) pc r t) s)"
| ct_force: "ct_pc s = CtForce e \<Longrightarrow>
    ct_step lib a host literal s (s\<lparr>ct_pc := CtEnd (Inl (case (r :: unit awaited) of Resumed _ \<Rightarrow> e | Thrown e' \<Rightarrow> e'))\<rparr>)"

inductive ct_reach :: "'o ssl_lib \<Rightarrow> tls_args \<Rightarrow> string \<Rightarrow> (int \<times> string) option \<Rightarrow> bool \<Rightarrow> 'o ct_sys \<Rightarrow> bool"
  for lib a host literal local
where
  ct_reach_start: "ct_reach lib a host literal local (ct_start local literal)"
| ct_reach_step: "ct_reach lib a host literal local s \<Longrightarrow> ct_step lib a host literal s s' \<Longrightarrow>
    ct_reach lib a host literal local s'"

section \<open>No connection is lost\<close>

definition won :: "'o ct_sys \<Rightarrow> nat list" where
  "won s = (case he_stream (ct_he s) of None \<Rightarrow> [] | Some x \<Rightarrow> [x])"

text \<open>What the streams add up to, and what has been done about the one that was kept.\<close>

definition ct_ledger :: "'o ct_sys \<Rightarrow> bool" where
  "ct_ledger s \<longleftrightarrow> mset (ct_opened s) = mset (won s) + mset (he_closed (ct_he s))"

fun ct_kept :: "tls_args \<Rightarrow> 'o ct_sys \<Rightarrow> 'o ct_pc \<Rightarrow> bool" where
  "ct_kept a s (CtTls x t pc) \<longleftrightarrow> won s = [x] \<and> ct_forced s = [] \<and> wants_tls a \<and> \<not> ct_raised s"
| "ct_kept a s (CtForce e) \<longleftrightarrow> ct_forced s = won s \<and> \<not> ct_raised s"
| "ct_kept a s (CtEnd (Inr c)) \<longleftrightarrow> won s = [conn_stream c] \<and> ct_forced s = [] \<and> \<not> ct_raised s \<and>
     (wants_tls a \<longleftrightarrow> (\<exists>x t. c = TlsConn x t))"
| "ct_kept a s (CtEnd (Inl e)) \<longleftrightarrow> (if ct_raised s then ct_forced s = [] else ct_forced s = won s)"
| "ct_kept a s pc \<longleftrightarrow> ct_forced s = [] \<and> \<not> ct_raised s"

definition ct_inv :: "tls_args \<Rightarrow> 'o ct_sys \<Rightarrow> bool" where
  "ct_inv a s \<longleftrightarrow> ct_ledger s \<and> ct_kept a s (ct_pc s) \<and> (he_closed (ct_he s) \<noteq> [] \<longrightarrow> won s \<noteq> []) \<and>
     (ct_running s \<noteq> [] \<longrightarrow> (\<exists>i. ct_pc s = CtWait i) \<or> (\<exists>x. ct_pc s = CtGroup x)) \<and>
     (ct_pc s \<in> {CtLocal, CtResolve} \<longrightarrow> won s = [])"

lemma ct_launch_simps [simp]:
  "won (ct_launch i s) = won s" "ct_ledger (ct_launch i s) = ct_ledger s" "ct_he (ct_launch i s) = ct_he s"
  "ct_forced (ct_launch i s) = ct_forced s" "ct_raised (ct_launch i s) = ct_raised s"
  by (simp_all add: ct_launch_def won_def ct_ledger_def)

lemma ct_launch_inv:
  assumes "ct_ledger s" "ct_forced s = []" "\<not> ct_raised s" "he_closed (ct_he s) \<noteq> [] \<longrightarrow> won s \<noteq> []"
  shows "ct_inv a (ct_launch i s)"
  using assms by (simp add: ct_inv_def) (simp add: ct_launch_def)

lemma ct_begin_inv:
  assumes "ct_ledger s" "ct_forced s = []" "\<not> ct_raised s" "won s = []" "he_closed (ct_he s) = []" "ct_running s = []"
  shows "ct_inv a (ct_begin literal s)"
proof (cases literal)
  case None
  then show ?thesis using assms by (simp add: ct_begin_def ct_inv_def ct_ledger_def won_def)
next
  case (Some t)
  have "ct_inv a (ct_launch 0 (s\<lparr>ct_targets := target_addrs (Some t) []\<rparr>))"
    by (intro ct_launch_inv) (use assms in \<open>simp_all add: ct_ledger_def won_def\<close>)
  then show ?thesis by (simp add: ct_begin_def Some)
qed

lemma ct_start_inv: "ct_inv a (ct_start local literal)"
proof (cases local)
  case True
  then show ?thesis by (simp add: ct_start_def ct_inv_def ct_ledger_def won_def eyeballs_new_def)
next
  case False
  then have eq: "ct_start local literal = ct_begin literal \<lparr>ct_pc = CtLocal, ct_targets = [], ct_running = [],
      ct_he = eyeballs_new, ct_opened = [], ct_errors = [], ct_forced = [], ct_raised = False\<rparr>"
    by (simp add: ct_start_def)
  show ?thesis unfolding eq by (rule ct_begin_inv) (simp_all add: ct_ledger_def won_def eyeballs_new_def)
qed

lemma try_connect_won:
  assumes "try_connect i r h = (h', res)"
  shows "mset (case he_stream h' of None \<Rightarrow> [] | Some x \<Rightarrow> [x]) + mset (he_closed h') =
    mset (case he_stream h of None \<Rightarrow> [] | Some x \<Rightarrow> [x]) + mset (he_closed h) + mset (case r of Inr x \<Rightarrow> [x] | Inl _ \<Rightarrow> [])"
    and "he_stream h \<noteq> None \<Longrightarrow> he_stream h' = he_stream h"
    and "he_closed h' \<noteq> [] \<Longrightarrow> (he_closed h \<noteq> [] \<longrightarrow> he_stream h \<noteq> None) \<Longrightarrow> he_stream h' \<noteq> None"
  using assms by (auto simp: try_connect_def Let_def split: sum.splits option.splits if_splits prod.splits)

lemma ct_handshake_inv:
  assumes "ct_inv a s" "won s = [x]" "ct_forced s = []" "\<not> ct_raised s" "wants_tls a" "ct_running s = []"
  shows "ct_inv a (ct_handshake x o' s)"
proof -
  obtain t r where "o' = (t, r)" by (cases o')
  then show ?thesis using assms
    by (cases r) (auto simp: ct_handshake_def ct_inv_def ct_ledger_def won_def)
qed

lemma connect_result_won:
  "case snd (connect_result h) of Inl e \<Rightarrow> he_stream h = None | Inr x \<Rightarrow> he_stream h = Some x"
  by (auto simp: connect_result_def split: option.split list.split)

lemma ct_connected_inv:
  assumes "ct_inv a s" "ct_pc s = CtGroup x" "ct_running s = []"
  shows "ct_inv a (ct_connected lib a host s)"
proof (cases "snd (connect_result (ct_he s))")
  case (Inl e)
  then have "won s = []" using connect_result_won [of "ct_he s"] by (simp add: won_def)
  then show ?thesis using assms Inl by (auto simp: ct_connected_def ct_inv_def ct_ledger_def won_def)
next
  case (Inr y)
  then have w: "won s = [y]" using connect_result_won [of "ct_he s"] by (simp add: won_def)
  show ?thesis
  proof (cases "wants_tls a")
    case False
    then show ?thesis using assms Inr w by (auto simp: ct_connected_def ct_inv_def ct_ledger_def won_def)
  next
    case True
    show ?thesis
    proof (cases "tls_wrap lib (Some False) (Some (tls_name a host)) (ta_context a) (ta_std a)")
      case (Inl e)
      then show ?thesis using assms Inr w True by (auto simp: ct_connected_def ct_inv_def ct_ledger_def won_def)
    next
      case wrapped: (Inr t)
      have "ct_inv a (ct_handshake y (tls_call (do_handshake lib) t) s)"
        by (rule ct_handshake_inv) (use assms w True in \<open>auto simp: ct_inv_def\<close>)
      then show ?thesis using Inr True wrapped by (simp add: ct_connected_def)
    qed
  qed
qed

lemma ct_attempt_inv:
  assumes "ct_inv a s" "i \<in> set (ct_running s)"
  shows "ct_inv a (ct_attempt i r s)"
proof -
  obtain h res where tc: "try_connect i r (ct_he s) = (h, res)" by fastforce
  have pc: "(\<exists>j. ct_pc s = CtWait j) \<or> (\<exists>x. ct_pc s = CtGroup x)" using assms by (auto simp: ct_inv_def)
  have sum: "ct_ledger (ct_attempt i r s)"
    using assms(1) try_connect_won(1) [OF tc] by (auto simp: ct_inv_def ct_ledger_def ct_attempt_def tc won_def)
  have "he_closed h \<noteq> [] \<longrightarrow> he_stream h \<noteq> None"
    using assms(1) try_connect_won(3) [OF tc] by (auto simp: ct_inv_def won_def split: option.splits)
  then show ?thesis using assms(1) pc sum
    by (auto simp: ct_inv_def ct_attempt_def tc won_def split: option.splits)
qed

lemma ct_step_inv: "ct_step lib a host literal s s' \<Longrightarrow> ct_inv a s \<Longrightarrow> ct_inv a s'"
proof (induction rule: ct_step.induct)
  case (ct_local s r)
  then have "ct_inv a (ct_begin literal s)" by (intro ct_begin_inv) (auto simp: ct_inv_def)
  with ct_local show ?case by (auto simp: ct_local_done_def ct_inv_def ct_ledger_def won_def split: sum.split)
next
  case (ct_resolve s r)
  then have "ct_inv a (ct_launch 0 (s\<lparr>ct_targets := target_addrs None gs\<rparr>))" for gs
    by (intro ct_launch_inv) (auto simp: ct_inv_def ct_ledger_def won_def)
  with ct_resolve show ?case by (auto simp: ct_resolved_def ct_inv_def ct_ledger_def won_def split: sum.split)
next
  case (ct_attempt i s r)
  then show ?case by (intro ct_attempt_inv)
next
  case (ct_next s i)
  then show ?case by (intro ct_launch_inv) (auto simp: ct_inv_def)
next
  case (ct_left s x)
  then show ?case by (intro ct_connected_inv)
next
  case (ct_tls s x t pc r)
  then show ?case by (intro ct_handshake_inv) (auto simp: ct_inv_def)
qed (auto simp: ct_inv_def ct_ledger_def won_def)

lemma ct_reach_inv: "ct_reach lib a host literal local s \<Longrightarrow> ct_inv a s"
  by (induction rule: ct_reach.induct) (auto intro: ct_start_inv ct_step_inv)

text \<open>
  C22: whatever the resolver, the attempts, the delays and the TLS handshake do, when \<open>connect_tcp\<close> has
  ended every connection that was opened has been closed, by the attempt that lost or by force, but for
  the one it returns (as a TLS stream if TLS was asked for) and, if the task group itself raised, the
  one that had won.
\<close>

theorem connect_tcp_keeps_one:
  assumes "ct_reach lib a host literal local s" "ct_pc s = CtEnd r"
  shows "mset (ct_opened s) = mset (he_closed (ct_he s)) + mset (ct_forced s) +
      (case r of Inr c \<Rightarrow> {#conn_stream c#} | Inl e \<Rightarrow> if ct_raised s then mset (won s) else {#}) \<and>
    (\<forall>c. r = Inr c \<longrightarrow> (wants_tls a \<longleftrightarrow> (\<exists>x t. c = TlsConn x t)))"
  using ct_reach_inv [OF assms(1)] assms(2)
  by (cases r) (auto simp: ct_inv_def ct_ledger_def split: if_splits)

text \<open>One connection to an address, without TLS.\<close>

definition no_tls :: tls_args where
  "no_tls = \<lparr>ta_tls = False, ta_hostname = None, ta_context = None, ta_std = True\<rparr>"

definition failing_tls :: "unit ssl_lib" where
  "failing_tls = \<lparr>wrap_bio = (\<lambda>_ _ _. Inr ()), do_handshake = (\<lambda>o' b eof. ((), 0, [], SslFailed False None)), lib_ignore_eof = True\<rparr>"

definition an_address :: "(int \<times> string) option" where
  "an_address = Some (af_inet, ''10.0.0.1'')"

definition connected_once :: "unit ct_sys" where
  "connected_once = ct_launch 1 (ct_attempt 0 (Inr 7) (ct_start False an_address))"

lemma connected_once_reach:
  "ct_reach lib a host an_address False connected_once \<and> ct_pc connected_once = CtGroup None \<and>
   ct_running connected_once = [] \<and> ct_errors connected_once = [] \<and> he_stream (ct_he connected_once) = Some 7"
proof -
  have "ct_reach lib a host an_address False (ct_attempt 0 (Inr 7) (ct_start False an_address))"
    by (rule ct_reach_step [OF ct_reach_start ct_attempt])
      (simp add: ct_start_def ct_begin_def ct_launch_def an_address_def target_addrs_def)
  from ct_reach_step [OF this ct_next [where i = 0]] show ?thesis
    by (simp add: connected_once_def ct_start_def ct_begin_def ct_launch_def an_address_def target_addrs_def ct_attempt_def
        try_connect_def eyeballs_new_def)
qed

theorem connect_tcp_keeps_one_witness:
  "\<exists>s. ct_reach failing_tls no_tls ''10.0.0.1'' an_address False s \<and> ct_pc s = CtEnd (Inr (PlainConn 7)) \<and>
     mset (ct_opened s) = mset (he_closed (ct_he s)) + mset (ct_forced s) + {#7#}"
proof -
  let ?s = "ct_connected failing_tls no_tls ''10.0.0.1'' connected_once"
  have r: "ct_reach failing_tls no_tls ''10.0.0.1'' an_address False ?s"
    using connected_once_reach [of failing_tls no_tls "''10.0.0.1''"]
    by (intro ct_reach_step [OF _ ct_left [where x = None]]) simp_all
  have e: "ct_pc ?s = CtEnd (Inr (PlainConn 7))"
    using connected_once_reach [of failing_tls no_tls "''10.0.0.1''"]
    by (simp add: ct_connected_def connect_result_def no_tls_def wants_tls_def)
  from connect_tcp_keeps_one [OF r e] r e show ?thesis by auto
qed

text \<open>
  The connection that is lost: the group raises (its caller is cancelled, or another attempt fails with
  something else than an \<open>OSError\<close>) after an attempt has got its stream.
\<close>

lemma connect_tcp_leak:
  "\<exists>s. ct_reach (lib :: unit ssl_lib) a host an_address False s \<and> ct_pc s = CtEnd (Inl e) \<and>
     ct_opened s = [7] \<and> he_closed (ct_he s) = [] \<and> ct_forced s = []"
proof (intro exI conjI)
  let ?s = "connected_once\<lparr>ct_pc := CtEnd (Inl e), ct_raised := True\<rparr>"
  show "ct_reach lib a host an_address False ?s"
    using connected_once_reach [of lib a host] by (blast intro: ct_reach_step ct_raises)
qed (simp_all add: connected_once_def ct_start_def ct_begin_def ct_launch_def an_address_def target_addrs_def ct_attempt_def
    try_connect_def eyeballs_new_def)

end
