(* ===== verification/Frontend.thy ===== *)
theory Frontend
  imports Adapters EventLoop
begin

text \<open>
  What the front end makes: the synchronization primitives inside and outside of an event loop
  (\<open>__new__\<close> of the classes of \<open>src/anyio/_core/_synchronization.py\<close>), the default capacity limiters,
  one for each loop (\<open>to_process.py\<close> and the asyncio backend), and \<open>TaskInfo\<close> (\<open>_core/_testing.py\<close>).
\<close>

section \<open>Primitives\<close>

text \<open>\<open>AsyncLibraryNotFoundError\<close>, a \<open>RuntimeError\<close>: no event loop is running.\<close>

definition no_async_library :: exn where
  "no_async_library = RuntimeError ''unknown async library, or not in async context''"

datatype ('n, 'a) made = Native 'n | Adapter 'a

definition make_prim :: "'b res \<Rightarrow> 'n res \<Rightarrow> 'a res \<Rightarrow> ('n, 'a) made res" where
  "make_prim backend native adapter =
     (case backend of
        Inr b \<Rightarrow> map_res Native native
      | Inl e \<Rightarrow> if e = no_async_library then map_res Adapter adapter else Inl e)"

definition new_event :: "'b res \<Rightarrow> (aevent, event_adapter) made res" where
  "new_event backend = make_prim backend (Inr aevent_new) (Inr \<lparr>internal_event = None\<rparr>)"

definition new_lock :: "'b res \<Rightarrow> bool \<Rightarrow> (lock, lock_adapter) made res" where
  "new_lock backend fast =
     make_prim backend (Inr (lock_new fast)) (Inr \<lparr>la_fast = fast, internal_lock = None\<rparr>)"

text \<open>
  The adapter is made without \<open>fast_acquire\<close>; \<open>__init__\<close>, which Python calls on what \<open>__new__\<close> has
  made, gets all arguments.
\<close>

definition new_semaphore :: "'b res \<Rightarrow> pynum \<Rightarrow> pynum option \<Rightarrow> bool \<Rightarrow> (sem, sem_adapter) made res" where
  "new_semaphore backend initial_value max_value fast =
     make_prim backend (sem_init initial_value max_value fast)
       (bind_res (sem_adapter_init initial_value max_value False)
         (\<lambda>_. sem_adapter_init initial_value max_value fast))"

text \<open>\<open>is_inf\<close> says whether an infinite \<open>total_tokens\<close> is the object \<open>math.inf\<close>.\<close>

definition new_limiter :: "'b res \<Rightarrow> bool \<Rightarrow> pynum \<Rightarrow> (limiter, limiter_adapter) made res" where
  "new_limiter backend is_inf total_tokens =
     make_prim backend (limiter_init total_tokens) (limiter_adapter_init is_inf total_tokens)"

section \<open>Default limiters\<close>

text \<open>The limiter in a run variable, made by \<open>fresh\<close> at the first use in a loop.\<close>

definition default_limiter ::
  "'l \<Rightarrow> 'v runvar \<Rightarrow> 'v \<Rightarrow> ('l, 'v) run_vars \<Rightarrow> ('l, 'v) run_vars \<times> 'v res"
where
  "default_limiter loop var fresh vs =
     (case runvar_get loop var None vs of
        (vs1, Inr l) \<Rightarrow> (vs1, Inr l)
      | (vs1, Inl (LookupError m)) \<Rightarrow> (fst (runvar_set loop var fresh vs1), Inr fresh)
      | (vs1, Inl e) \<Rightarrow> (vs1, Inl e))"

definition thread_tokens :: pynum where
  "thread_tokens = PyInt 40"

text \<open>\<open>os.cpu_count() or 2\<close>\<close>

definition process_tokens :: "nat option \<Rightarrow> pynum" where
  "process_tokens cpu_count = PyInt (case cpu_count of None \<Rightarrow> 2 | Some n \<Rightarrow> if n = 0 then 2 else int n)"

section \<open>Tasks\<close>

record task_info =
  ti_id :: nat
  ti_parent :: "nat option"
  ti_name :: "string option"

definition task_info_eq :: "task_info \<Rightarrow> task_info option \<Rightarrow> bool option" where
  "task_info_eq ti other = map_option (\<lambda>o'. ti_id ti = ti_id o') other"

definition task_info_hash :: "(nat \<Rightarrow> int) \<Rightarrow> task_info \<Rightarrow> int" where
  "task_info_hash hash ti = hash (ti_id ti)"

text \<open>\<open>AsyncIOTaskInfo\<close>: the parent is known for tasks of AnyIO.\<close>

definition asyncio_task_info :: "(task \<Rightarrow> nat option option) \<Rightarrow> string \<Rightarrow> task \<Rightarrow> task_info" where
  "asyncio_task_info states name t =
     \<lparr>ti_id = t, ti_parent = (case states t of None \<Rightarrow> None | Some parent \<Rightarrow> parent), ti_name = Some name\<rparr>"

lemma task_info_hash_eq: "task_info_eq a (Some b) = Some True \<Longrightarrow> task_info_hash h a = task_info_hash h b"
  by (simp add: task_info_eq_def task_info_hash_def)

section \<open>Inside or outside of a loop\<close>

fun made_state :: "('a \<Rightarrow> 'n) \<Rightarrow> ('n, 'a) made \<Rightarrow> 'n" where
  "made_state stands (Native n) = n"
| "made_state stands (Adapter a) = stands a"

lemma sem_stands_new:
  "sem_ad.stands_for \<lparr>sa_initial = i, sa_max = m, sa_fast = fast, internal_sem = None\<rparr> =
   \<lparr>sem_value = i, sem_max = m, sem_fast = False, sem_waiters = []\<rparr>"
  unfolding sem_ad.stands_for_def by (simp add: sem_adapter_create_def sem_conf_def)

lemma sem_init_created:
  "map_res sem_ad.stands_for (sem_adapter_init i m fast) = sem_init i m False"
  by (auto simp: sem_adapter_init_def sem_init_def map_res_def sem_stands_new split: option.splits)

text \<open>The infinite floats that only the backend's setter takes for a number of tokens.\<close>

definition refused_outside :: "bool \<Rightarrow> pynum \<Rightarrow> bool" where
  "refused_outside is_inf v \<longleftrightarrow> v = PyFloat NegInf \<or> v = PyFloat PosInf \<and> \<not> is_inf"

lemma limiter_init_created:
  "\<not> refused_outside is_inf v \<Longrightarrow>
   map_res limiter_ad.stands_for (limiter_adapter_init is_inf v) = limiter_init v"
  by (auto simp: refused_outside_def limiter_adapter_init_def limiter_adapter_check_def limiter_init_def set_total_tokens_def map_res_def
      limiter_ad.stands_for_def limiter_adapter_create_def split: prod.split)

lemma map_res_comp: "map_res f (map_res g r) = map_res (f \<circ> g) r"
  by (simp add: map_res_def split: sum.split)

text \<open>
  C35: an event, lock, semaphore or limiter that is created outside of an event loop stands for the very
  object that its class creates inside of one, and is refused for the same arguments; but for three
  differences: a semaphore is never one that acquires fast; \<open>-math.inf\<close> as the total number of tokens is
  a \<open>TypeError\<close> instead of a \<open>ValueError\<close>; and an infinite float other than the object \<open>math.inf\<close>, such as
  \<open>float('inf')\<close>, is a \<open>TypeError\<close> too, where the class inside of a loop takes it.
\<close>

theorem primitives_made_alike:
  "map_res (made_state event_ad.stands_for) (new_event (Inl no_async_library)) =
     map_res (made_state event_ad.stands_for) (new_event (Inr b)) \<and>
   map_res (made_state lock_ad.stands_for) (new_lock (Inl no_async_library) fast) =
     map_res (made_state lock_ad.stands_for) (new_lock (Inr b) fast) \<and>
   map_res (made_state sem_ad.stands_for) (new_semaphore (Inl no_async_library) i m fast) =
     map_res (made_state sem_ad.stands_for) (new_semaphore (Inr b) i m False) \<and>
   map_res (made_state limiter_ad.stands_for) (new_limiter (Inl no_async_library) is_inf v) =
     (if v = PyFloat NegInf \<or> v = PyFloat PosInf \<and> \<not> is_inf
      then Inl (TypeError ''total_tokens must be an int or math.inf'')
      else map_res (made_state limiter_ad.stands_for) (new_limiter (Inr b) is_inf v)) \<and>
   new_limiter (Inr b) is_inf (PyFloat NegInf) = Inl (ValueError ''total_tokens must be >= 1'') \<and>
   new_limiter (Inr b) is_inf (PyFloat PosInf) = Inr (Native (limiter_adapter_create (PyFloat PosInf)))"
proof (intro conjI)
  have stands: "made_state f \<circ> Adapter = f" "made_state f \<circ> Native = id" for f :: "'x \<Rightarrow> 'y"
    by (simp_all add: fun_eq_iff)
  have same: "map_res id r = r" for r :: "'z res" by (cases r) (simp_all add: map_res_def)
  show "map_res (made_state event_ad.stands_for) (new_event (Inl no_async_library)) =
      map_res (made_state event_ad.stands_for) (new_event (Inr b))"
    by (simp add: new_event_def make_prim_def map_res_def event_ad.stands_for_def)
  show "map_res (made_state lock_ad.stands_for) (new_lock (Inl no_async_library) fast) =
      map_res (made_state lock_ad.stands_for) (new_lock (Inr b) fast)"
    by (simp add: new_lock_def make_prim_def map_res_def lock_ad.stands_for_def)
  have "bind_res (sem_adapter_init i m False) (\<lambda>_. sem_adapter_init i m fast) = sem_adapter_init i m fast"
    by (auto simp: sem_adapter_init_def bind_res_def sem_init_def split: option.splits)
  then show "map_res (made_state sem_ad.stands_for) (new_semaphore (Inl no_async_library) i m fast) =
      map_res (made_state sem_ad.stands_for) (new_semaphore (Inr b) i m False)"
    using sem_init_created [of i m fast] by (simp add: new_semaphore_def make_prim_def map_res_comp stands same)
  show "map_res (made_state limiter_ad.stands_for) (new_limiter (Inl no_async_library) is_inf v) =
     (if v = PyFloat NegInf \<or> v = PyFloat PosInf \<and> \<not> is_inf
      then Inl (TypeError ''total_tokens must be an int or math.inf'')
      else map_res (made_state limiter_ad.stands_for) (new_limiter (Inr b) is_inf v))"
  proof (cases "refused_outside is_inf v")
    case True
    then show ?thesis
      by (auto simp: refused_outside_def new_limiter_def make_prim_def map_res_def limiter_adapter_init_def
          limiter_adapter_check_def)
  next
    case False
    then show ?thesis
      using limiter_init_created [OF False]
      by (auto simp: new_limiter_def make_prim_def map_res_comp stands same refused_outside_def)
  qed
qed (simp_all add: new_limiter_def make_prim_def map_res_def limiter_init_def set_total_tokens_def
    limiter_adapter_create_def)

text \<open>A lock or semaphore made outside of a loop answers every sequence of calls as one made inside.\<close>

lemma made_lock_calls:
  "new_lock (Inl no_async_library) fast = Inr (Adapter a) \<Longrightarrow>
   snd (lock_ad.forward_all fs a) = snd (lock_ad.call_all fs (lock_new fast))"
  using lock_ad.forward_all_sim [of fs a]
  by (auto simp: new_lock_def make_prim_def map_res_def lock_ad.stands_for_def)

text \<open>The option \<open>fast_acquire\<close> is lost.\<close>

lemma fast_semaphore_lost:
  "map_res (made_state sem_ad.stands_for) (new_semaphore (Inl no_async_library) (PyInt 1) None True) \<noteq>
   map_res (made_state sem_ad.stands_for) (new_semaphore (Inr b) (PyInt 1) None True)"
  by (simp add: new_semaphore_def make_prim_def map_res_def bind_res_def sem_adapter_init_def sem_init_def
      sem_stands_new)

section \<open>One limiter for each loop\<close>

lemma default_limiter_same:
  assumes "default_limiter loop var fresh vs = (vs1, Inr l)"
  shows "default_limiter loop var fresh' vs1 = (vs1, Inr l)"
    and "loop' \<noteq> loop \<Longrightarrow> value_of vs1 loop' name = value_of vs loop' name"
  using assms
  by (auto simp: default_limiter_def runvar_get_def runvar_set_def current_vars_def Let_def value_of_def
      split: option.splits exn.splits if_splits)

end
