(* ===== verification/LoopShutdown.thy ===== *)
theory LoopShutdown
  imports EventLoop Subprocesses
begin

text \<open>
  How the asyncio backend takes an event loop down (\<open>src/anyio/_backends/_asyncio.py\<close>):
  \<open>_cancel_all_tasks\<close>, \<open>_shutdown_default_executor\<close>, and what is hung on the root task for the pool of
  processes; and the pipe to a process, \<open>StreamWriterWrapper\<close>.
\<close>

section \<open>_cancel_all_tasks\<close>

datatype task_end = TeValue | TeCancelled | TeRaised exn

record aloop =
  al_live :: "task list"
  al_next :: task
  al_ended :: "(task \<times> task_end) list"
  al_cancelled :: "task list"
  al_reports :: "(task \<times> exn) list"

text \<open>What happens while the loop runs: a task ends, or a new one is created.\<close>

datatype al_event = AlEnd task task_end | AlSpawn

definition al_act :: "al_event \<Rightarrow> aloop \<Rightarrow> aloop option" where
  "al_act ev l =
     (case ev of
        AlEnd t e \<Rightarrow>
          if t \<in> set (al_live l)
          then Some (l\<lparr>al_live := removeAll t (al_live l), al_ended := (t, e) # al_ended l\<rparr>) else None
      | AlSpawn \<Rightarrow> Some (l\<lparr>al_live := al_live l @ [al_next l], al_next := Suc (al_next l)\<rparr>))"

text \<open>
  \<open>run_until_complete(gather(*tasks, return_exceptions=True))\<close>. A task of the loop, waited for or not, that
  ends with \<open>SystemExit\<close> or \<open>KeyboardInterrupt\<close> makes the loop raise it at once.
\<close>

definition loop_exit :: "al_event \<Rightarrow> exn option" where
  "loop_exit ev =
     (case ev of
        AlEnd t (TeRaised e) \<Rightarrow> if e = SystemExit \<or> e = KeyboardInterrupt then Some e else None
      | _ \<Rightarrow> None)"

fun run_until_done :: "task list \<Rightarrow> al_event list \<Rightarrow> aloop \<Rightarrow> (aloop \<times> al_event list \<times> unit res) option" where
  "run_until_done ts evs l =
     (if set ts \<inter> set (al_live l) = {} then Some (l, evs, Inr ())
      else case evs of
          [] \<Rightarrow> None
        | ev # evs' \<Rightarrow>
            (case al_act ev l of
               None \<Rightarrow> None
             | Some l' \<Rightarrow>
                 (case loop_exit ev of
                    Some e \<Rightarrow> Some (l', evs', Inl e)
                  | None \<Rightarrow> run_until_done ts evs' l')))"

declare run_until_done.simps [simp del]

text \<open>The loop over the tasks: \<open>call_exception_handler\<close> for each exception.\<close>

fun report_tasks :: "task list \<Rightarrow> aloop \<Rightarrow> aloop" where
  "report_tasks [] l = l"
| "report_tasks (t # ts) l =
     report_tasks ts
       (case map_of (al_ended l) t of
          Some (TeRaised e) \<Rightarrow> l\<lparr>al_reports := al_reports l @ [(t, e)]\<rparr>
        | _ \<Rightarrow> l)"

definition cancel_all_tasks :: "al_event list \<Rightarrow> aloop \<Rightarrow> (aloop \<times> al_event list \<times> unit res) option" where
  "cancel_all_tasks evs l =
     (let to_cancel = al_live l in
      if to_cancel = [] then Some (l, evs, Inr ())
      else case run_until_done to_cancel evs (l\<lparr>al_cancelled := al_cancelled l @ to_cancel\<rparr>) of
          None \<Rightarrow> None
        | Some (l', evs', Inl e) \<Rightarrow> Some (l', evs', Inl e)
        | Some (l', evs', Inr _) \<Rightarrow> Some (report_tasks to_cancel l', evs', Inr ()))"













text \<open>Two tasks, one of which starts a third before it fails.\<close>

definition two_tasks :: aloop where
  "two_tasks = \<lparr>al_live = [0, 1], al_next = 2, al_ended = [], al_cancelled = [], al_reports = []\<rparr>"


text \<open>A task that ends with \<open>SystemExit\<close> leaves the other one cancelled but not waited for.\<close>

lemma exit_stops_waiting:
  "\<exists>l'. cancel_all_tasks [AlEnd 1 (TeRaised SystemExit), AlEnd 0 TeCancelled] two_tasks =
      Some (l', [AlEnd 0 TeCancelled], Inl SystemExit) \<and> al_live l' = [0]"
  by (simp add: cancel_all_tasks_def two_tasks_def run_until_done.simps al_act_def loop_exit_def)

section \<open>_shutdown_default_executor\<close>

text \<open>
  What the thread that shuts the executor down does to the future (\<open>except Exception\<close>), and the wait
  for it: whether the thread was started and joined, and the result; \<open>None\<close> while the future stays
  unset and the wait is not cancelled.
\<close>

definition executor_future :: "unit res \<Rightarrow> unit res option" where
  "executor_future r =
     (case r of Inr _ \<Rightarrow> Some (Inr ()) | Inl e \<Rightarrow> if is_Exception e then Some (Inl e) else None)"

definition shutdown_default_executor ::
  "bool \<Rightarrow> unit res \<Rightarrow> exn option \<Rightarrow> (bool \<times> bool \<times> unit res) option"
where
  "shutdown_default_executor has_executor r cancelled =
     (if \<not> has_executor then Some (False, False, Inr ())
      else case cancelled of
          Some e \<Rightarrow> Some (True, True, Inl e)
        | None \<Rightarrow> map_option (\<lambda>x. (True, True, x)) (executor_future r))"

text \<open>Whatever comes of it, a thread that was started is joined.\<close>

lemma executor_thread_joined:
  "shutdown_default_executor h r c = Some (started, joined, x) \<Longrightarrow> started = joined \<and> started = h"
  by (auto simp: shutdown_default_executor_def split: if_splits option.splits)

section \<open>StreamWriterWrapper\<close>

text \<open>The bytes given to the writer, in order, and whether its transport was closed.\<close>

record swriter =
  sw_written :: bytes
  sw_closing :: bool

definition writer_send :: "bytes \<Rightarrow> unit awaited \<Rightarrow> swriter \<Rightarrow> swriter \<times> unit res" where
  "writer_send item drained w =
     (w\<lparr>sw_written := sw_written w @ item\<rparr>, case drained of Resumed _ \<Rightarrow> Inr () | Thrown e \<Rightarrow> Inl e)"

definition writer_aclose :: "unit awaited \<Rightarrow> swriter \<Rightarrow> swriter \<times> unit res" where
  "writer_aclose checkpoint w =
     (w\<lparr>sw_closing := True\<rparr>, case checkpoint of Resumed _ \<Rightarrow> Inr () | Thrown e \<Rightarrow> Inl e)"

fun writer_sends :: "(bytes \<times> unit awaited) list \<Rightarrow> swriter \<Rightarrow> swriter" where
  "writer_sends [] w = w"
| "writer_sends ((b, r) # sends) w = writer_sends sends (fst (writer_send b r w))"

text \<open>A cancelled send has written its item all the same; closing needs no turn of the loop.\<close>

lemma writer_sends_all: "sw_written (writer_sends sends w) = sw_written w @ concat (map fst sends)"
  by (induction sends w rule: writer_sends.induct) (auto simp: writer_send_def)

lemma writer_closed: "sw_closing (fst (writer_aclose r w))"
  by (simp add: writer_aclose_def)

section \<open>The pool of processes\<close>

text \<open>
  \<open>_shutdown_process_pool_on_exit\<close> once it is cancelled: the processes that run are killed, then each one
  is closed, until a close raises; the third component is the result.
\<close>

fun close_all :: "(nat \<Rightarrow> unit res) \<Rightarrow> nat list \<Rightarrow> nat list \<times> unit res" where
  "close_all aclose [] = ([], Inr ())"
| "close_all aclose (p # ps) =
     (case aclose p of
        Inl e \<Rightarrow> ([p], Inl e)
      | Inr _ \<Rightarrow> (case close_all aclose ps of (ds, r) \<Rightarrow> (p # ds, r)))"

definition shutdown_pool :: "(nat \<Rightarrow> bool) \<Rightarrow> (nat \<Rightarrow> unit res) \<Rightarrow> nat list \<Rightarrow> nat list \<times> nat list \<times> unit res" where
  "shutdown_pool alive aclose workers =
     (case close_all aclose workers of (ds, r) \<Rightarrow> (shutdown_kills alive workers, ds, r))"

lemma close_all_spec:
  "case close_all aclose ps of (ds, r) \<Rightarrow>
     (r = Inr () \<longrightarrow> ds = ps) \<and> (\<forall>e. r = Inl e \<longrightarrow> (\<exists>as p bs. ps = as @ p # bs \<and> ds = as @ [p] \<and> aclose p = Inl e))"
proof (induction ps)
  case (Cons p ps)
  show ?case
  proof (cases "aclose p")
    case (Inl e)
    then show ?thesis by (auto intro: exI [of _ "[]"])
  next
    case (Inr u)
    then show ?thesis using Cons by (auto split: prod.splits)
  qed
qed simp

text \<open>Every process is killed or has ended before, and all are closed unless closing one of them raises.\<close>

lemma shutdown_pool_spec:
  "shutdown_pool alive aclose workers = (ks, ds, r) \<Longrightarrow>
   (\<forall>p \<in> set workers. alive p \<longrightarrow> p \<in> set ks) \<and> (r = Inr () \<longrightarrow> ds = workers)"
  using close_all_spec [where aclose = aclose and ps = workers]
  by (auto simp: shutdown_pool_def shutdown_kills_def split: prod.splits)

end
