(* ===== verification/TrioRunner.thy ===== *)
theory TrioRunner
  imports TestRunners ThreadBridge TrioSync
begin

text \<open>
  More of the trio backend (\<open>src/anyio/_backends/_trio.py\<close>): its \<open>TestRunner\<close> as a system of the host,
  which runs the callbacks of a guest run, and the task that runs the tests; and its worker threads.
\<close>

section \<open>TestRunner\<close>

text \<open>
  Calls are numbered. The host has nothing to do, waits for the guest run to begin, waits for the
  outcome of a call, is leaving, or has left; the task has not been started, starts, waits for a call,
  runs one, or has ended.
\<close>

datatype trun_host = HostFree | HostStarting nat | HostWaiting nat | HostExiting | HostOver

datatype trun_task = TrNone | TrStarting | TrIdle | TrRunning nat | TrEnded

record 'a trunner =
  tr_host :: trun_host
  tr_task :: trun_task
  tr_stream :: bool \<comment> \<open>\<open>_send_stream is not None\<close>\<close>
  tr_closed :: bool
  tr_buffer :: "nat list"
  tr_holder :: "nat \<Rightarrow> 'a toutc list"
  tr_calls :: nat
  tr_ran :: "nat list"
  tr_done :: "(nat \<times> 'a res) list" \<comment> \<open>what the coroutines did\<close>
  tr_results :: "(nat \<times> 'a res) list"

definition trunner_new :: "'a trunner" where
  "trunner_new = \<lparr>tr_host = HostFree, tr_task = TrNone, tr_stream = False, tr_closed = False, tr_buffer = [],
     tr_holder = (\<lambda>_. []), tr_calls = 0, tr_ran = [], tr_done = [], tr_results = []\<rparr>"

definition trun_call :: "'a trunner \<Rightarrow> 'a trunner" where
  "trun_call s =
     (let c = tr_calls s; s1 = s\<lparr>tr_calls := Suc c\<rparr> in
      if tr_stream s then s1\<lparr>tr_buffer := tr_buffer s @ [c], tr_host := HostWaiting c\<rparr>
      else s1\<lparr>tr_task := TrStarting, tr_host := HostStarting c\<rparr>)"

definition trun_exit :: "'a trunner \<Rightarrow> 'a trunner" where
  "trun_exit s = (if tr_stream s then s\<lparr>tr_closed := True, tr_host := HostExiting\<rparr> else s\<lparr>tr_host := HostOver\<rparr>)"

text \<open>
  The steps: a call, its return, leaving and having left, by the host; and the callbacks of the guest
  run, which the host runs while it waits: the task begins, takes a call, ends it with an outcome, finds
  the stream closed, and is reported as finished.
\<close>

inductive trun_step :: "'a trunner \<Rightarrow> 'a trunner \<Rightarrow> bool" where
  tr_call: "tr_host s = HostFree \<Longrightarrow> trun_step s (trun_call s)"
| tr_begin: "tr_host s = HostStarting c \<Longrightarrow> tr_task s = TrStarting \<Longrightarrow>
    trun_step s (s\<lparr>tr_task := TrIdle, tr_stream := True, tr_closed := False, tr_buffer := [c], tr_host := HostWaiting c\<rparr>)"
| tr_take: "tr_host s = HostWaiting d \<Longrightarrow> tr_task s = TrIdle \<Longrightarrow> tr_buffer s = c # cs \<Longrightarrow>
    trun_step s (s\<lparr>tr_task := TrRunning c, tr_buffer := cs, tr_ran := tr_ran s @ [c]\<rparr>)"
| tr_finish: "tr_host s = HostWaiting d \<Longrightarrow> tr_task s = TrRunning c \<Longrightarrow>
    trun_step s (s\<lparr>tr_task := TrIdle, tr_holder := (tr_holder s)(c := tr_holder s c @ [trio_run_item x]),
      tr_done := tr_done s @ [(c, x)]\<rparr>)"
| tr_return: "tr_host s = HostWaiting c \<Longrightarrow> tr_holder s c = x # xs \<Longrightarrow>
    trun_step s (s\<lparr>tr_results := tr_results s @ [(c, unwrap x)], tr_host := HostFree\<rparr>)"
| tr_exit: "tr_host s = HostFree \<Longrightarrow> trun_step s (trun_exit s)"
| tr_eof: "tr_host s = HostExiting \<Longrightarrow> tr_task s = TrIdle \<Longrightarrow> tr_buffer s = [] \<Longrightarrow> tr_closed s \<Longrightarrow>
    trun_step s (s\<lparr>tr_task := TrEnded\<rparr>)"
| tr_finished: "tr_host s = HostExiting \<Longrightarrow> tr_task s = TrEnded \<Longrightarrow> trun_step s (s\<lparr>tr_stream := False\<rparr>)"
| tr_left: "tr_host s = HostExiting \<Longrightarrow> \<not> tr_stream s \<Longrightarrow> trun_step s (s\<lparr>tr_host := HostOver\<rparr>)"

inductive trun_reach :: "'a trunner \<Rightarrow> bool" where
  trun_start: "trun_reach trunner_new"
| trun_more: "trun_reach s \<Longrightarrow> trun_step s s' \<Longrightarrow> trun_reach s'"

text \<open>How far the last call is.\<close>

fun trun_phase :: "'a trunner \<Rightarrow> trun_host \<Rightarrow> bool" where
  "trun_phase s (HostStarting c) \<longleftrightarrow>
     tr_calls s = Suc c \<and> tr_task s = TrStarting \<and> \<not> tr_stream s \<and> tr_buffer s = [] \<and>
     tr_ran s = [0..<c] \<and> map fst (tr_done s) = [0..<c] \<and> tr_results s = tr_done s \<and> tr_holder s c = []"
| "trun_phase s (HostWaiting c) \<longleftrightarrow>
     tr_calls s = Suc c \<and> tr_stream s \<and> \<not> tr_closed s \<and> map fst (tr_results s) = [0..<c] \<and>
     (tr_buffer s = [c] \<and> tr_task s = TrIdle \<and> tr_holder s c = [] \<and> tr_ran s = [0..<c] \<and> tr_done s = tr_results s \<or>
      tr_buffer s = [] \<and> tr_task s = TrRunning c \<and> tr_holder s c = [] \<and> tr_ran s = [0..<Suc c] \<and> tr_done s = tr_results s \<or>
      tr_buffer s = [] \<and> tr_task s = TrIdle \<and> tr_ran s = [0..<Suc c] \<and>
        (\<exists>x. tr_holder s c = [trio_run_item x] \<and> tr_done s = tr_results s @ [(c, x)]))"
| "trun_phase s h \<longleftrightarrow>
     tr_buffer s = [] \<and> tr_ran s = [0..<tr_calls s] \<and> map fst (tr_done s) = [0..<tr_calls s] \<and>
     tr_results s = tr_done s \<and>
     (tr_stream s \<longrightarrow> tr_task s = TrIdle \<or> h = HostExiting \<and> tr_task s = TrEnded) \<and>
     (\<not> tr_stream s \<longrightarrow> tr_task s \<in> {TrNone, TrEnded}) \<and>
     (h = HostFree \<longrightarrow> \<not> tr_closed s) \<and> (h = HostOver \<longrightarrow> \<not> tr_stream s)"

definition trun_inv :: "'a trunner \<Rightarrow> bool" where
  "trun_inv s \<longleftrightarrow> trun_phase s (tr_host s) \<and> (\<forall>c \<ge> tr_calls s. tr_holder s c = [])"

lemma unwrap_run_item [simp]: "unwrap (trio_run_item x) = x"
  by (simp add: unwrap_def trio_run_item_def split: sum.split)

lemma trun_step_inv: "trun_step s s' \<Longrightarrow> trun_inv s \<Longrightarrow> trun_inv s'"
proof (induction rule: trun_step.induct)
  case (tr_call s)
  then show ?case by (cases "tr_stream s") (auto simp: trun_inv_def trun_call_def Let_def)
next
  case (tr_take s d c cs)
  then show ?case by (auto simp: trun_inv_def)
next
  case (tr_finish s d c x)
  then show ?case by (auto simp: trun_inv_def)
next
  case (tr_return s c x xs)
  then show ?case by (auto simp: trun_inv_def)
next
  case (tr_exit s)
  then show ?case by (auto simp: trun_inv_def trun_exit_def)
qed (auto simp: trun_inv_def)

lemma trun_reach_inv: "trun_reach s \<Longrightarrow> trun_inv s"
proof (induction rule: trun_reach.induct)
  case trun_start
  show ?case by (simp add: trun_inv_def trunner_new_def)
next
  case (trun_more s s')
  then show ?case by (blast intro: trun_step_inv)
qed

text \<open>
  the trio test runner runs the calls one after the other, each of them once, and each returns or
  raises what its own coroutine did; when the host has left the runner no test runs any more and the
  guest run has ended, if it was ever started.
\<close>

theorem trio_runner_serves:
  assumes "trun_reach s"
  shows "(\<exists>last. tr_done s = tr_results s @ last \<and> length last \<le> 1) \<and>
    (\<exists>last. tr_ran s = map fst (tr_done s) @ last \<and> length last \<le> 1) \<and>
    tr_ran s = [0..<length (tr_ran s)] \<and>
    (tr_host s = HostFree \<longrightarrow> tr_results s = tr_done s \<and> map fst (tr_done s) = [0..<tr_calls s]) \<and>
    (tr_host s = HostOver \<longrightarrow> tr_task s \<in> {TrNone, TrEnded})"
proof -
  have inv: "trun_phase s (tr_host s)" using trun_reach_inv [OF assms] by (simp add: trun_inv_def)
  have len: "length xs = n" if "map fst xs = [0..<n]" for xs :: "(nat \<times> 'a res) list" and n
    using arg_cong [OF that, of length] by simp
  show ?thesis using inv by (cases "tr_host s") (auto dest: len)
qed

definition one_call :: "nat trunner" where
  "one_call =
     \<lparr>tr_host = HostFree, tr_task = TrIdle, tr_stream = True, tr_closed = False, tr_buffer = [],
      tr_holder = (\<lambda>_. [])(0 := [trio_run_item (Inr 5)]), tr_calls = 1, tr_ran = [0],
      tr_done = [(0, Inr 5)], tr_results = [(0, Inr 5)]\<rparr>"

lemma one_call_reach: "trun_reach one_call"
proof -
  let ?s1 = "trun_call trunner_new :: nat trunner"
  let ?s2 = "?s1\<lparr>tr_task := TrIdle, tr_stream := True, tr_closed := False, tr_buffer := [0], tr_host := HostWaiting 0\<rparr>"
  let ?s3 = "?s2\<lparr>tr_task := TrRunning 0, tr_buffer := [], tr_ran := [0]\<rparr>"
  let ?s4 = "?s3\<lparr>tr_task := TrIdle, tr_holder := (tr_holder ?s3)(0 := [trio_run_item (Inr 5)]), tr_done := [(0, Inr 5)]\<rparr>"
  note defs = trun_call_def trunner_new_def Let_def
  have "trun_reach ?s1" by (rule trun_more [OF trun_start tr_call]) (simp add: defs)
  then have "trun_reach ?s2" by (rule trun_more [OF _ tr_begin]) (simp_all add: defs)
  moreover have "trun_step ?s2 ?s3" using tr_take [of ?s2 0 0 "[]"] by (simp add: defs)
  ultimately have "trun_reach ?s3" by (rule trun_more)
  moreover have "trun_step ?s3 ?s4" using tr_finish [of ?s3 0 0 "Inr 5"] by (simp add: defs)
  ultimately have "trun_reach ?s4" by (rule trun_more)
  moreover have "trun_step ?s4 one_call"
    using tr_return [of ?s4 0 "trio_run_item (Inr 5)" "[]"] by (simp add: defs one_call_def)
  ultimately show ?thesis by (rule trun_more)
qed

theorem trio_runner_serves_witness:
  "tr_ran one_call = [0..<1] \<and> tr_results one_call = tr_done one_call"
  using trio_runner_serves [OF one_call_reach] by (simp add: one_call_def)

section \<open>Worker threads\<close>

text \<open>\<open>wrapper\<close> of \<open>run_sync_in_worker_thread\<close>: the function runs with the token of the loop.\<close>

definition trio_thread_wrapper :: "nat \<Rightarrow> (threadloc \<Rightarrow> 'a res) \<Rightarrow> threadloc \<Rightarrow> threadloc \<times> 'a res" where
  "trio_thread_wrapper token func l =
     (let l1 = claim_worker_thread token l; r = func l1 in
      case release_worker_thread l1 of Inl e \<Rightarrow> (l1, Inl e) | Inr l2 \<Rightarrow> (l2, r))"

text \<open>Inside, the thread can call the loop it works for; afterwards it belongs to no loop.\<close>

lemma trio_thread_claimed:
  "trio_thread_wrapper token func l = (l', r) \<Longrightarrow>
   tl_token l' = None \<and> threadloc.tl_scope l' = threadloc.tl_scope l \<and> r = func (claim_worker_thread token l) \<and>
   thread_token (claim_worker_thread token l) = Inr token \<and> thread_token l' = Inl not_worker_thread"
  by (auto simp: trio_thread_wrapper_def claim_worker_thread_def release_worker_thread_def thread_token_def Let_def)

end
