(* ===== verification/PytestHooks.thy ===== *)
theory PytestHooks
  imports TestRunners
begin

text \<open>
  The hooks of the pytest plugin (\<open>src/anyio/pytest_plugin.py\<close>): what they make of fixtures, which
  test functions get the fixture \<open>anyio_backend\<close>, and which are run in the runner.
\<close>

section \<open>Fixtures\<close>

datatype pyfunc = PlainFunction nat | BoundMethod nat nat nat \<comment> \<open>function, class and identity of \<open>__self__\<close>\<close>

text \<open>\<open>local_func\<close>: a method is bound anew to the test's instance, given as its class and identity.\<close>

definition local_func :: "(nat \<times> nat) option \<Rightarrow> pyfunc \<Rightarrow> pyfunc" where
  "local_func inst func =
     (case inst of
        None \<Rightarrow> func
      | Some (c, i) \<Rightarrow>
          (case func of
             BoundMethod f c' s \<Rightarrow> if c' = c then BoundMethod f c i else func
           | PlainFunction f \<Rightarrow> func))"

text \<open>A fixture is its function, or the wrapper with what it has closed over, and the names of its arguments.\<close>

datatype fixture_func = FixtureFunc pyfunc | FixtureWrapper pyfunc bool bool

record fixturedef =
  fd_func :: fixture_func
  fd_argnames :: "string list"

definition backend_arg :: string where "backend_arg = ''anyio_backend''"
definition request_arg :: string where "request_arg = ''request''"

text \<open>The hook before pytest's own: the definition it leaves, and whether it has changed anything.\<close>

definition fixture_setup_begin :: "bool \<Rightarrow> string list \<Rightarrow> pyfunc \<Rightarrow> fixturedef \<Rightarrow> fixturedef \<times> bool" where
  "fixture_setup_begin is_async fixturenames func fd =
     (if is_async \<and> backend_arg \<in> set fixturenames then
        let names = fd_argnames fd;
            has_backend = (backend_arg \<in> set names);
            names1 = (if has_backend then names else names @ [backend_arg]);
            has_request = (request_arg \<in> set names1);
            names2 = (if has_request then names1 else names1 @ [request_arg])
        in (fd\<lparr>fd_func := FixtureWrapper func has_backend has_request, fd_argnames := names2\<rparr>, True)
      else (fd, False))"

text \<open>\<open>finally\<close>: the function and the names as they were.\<close>

definition fixture_setup_end :: "pyfunc \<Rightarrow> string list \<Rightarrow> bool \<Rightarrow> fixturedef \<Rightarrow> fixturedef" where
  "fixture_setup_end func names changed fd =
     (if changed then fd\<lparr>fd_func := FixtureFunc func, fd_argnames := names\<rparr> else fd)"

text \<open>
  What pytest passes, by the names of the arguments, and what the wrapper passes on: its own two
  arguments only if the function has asked for them.
\<close>

definition fixture_kwargs :: "(string \<Rightarrow> 'v) \<Rightarrow> string list \<Rightarrow> (string \<times> 'v) list" where
  "fixture_kwargs val names = map (\<lambda>n. (n, val n)) names"

definition wrapper_kwargs :: "bool \<Rightarrow> bool \<Rightarrow> (string \<times> 'v) list \<Rightarrow> ((string \<times> 'v) list) res" where
  "wrapper_kwargs has_backend has_request kwargs =
     (case (map_of kwargs backend_arg, map_of kwargs request_arg) of
        (Some b, Some r) \<Rightarrow>
          Inr (filter (\<lambda>(n, v). n \<noteq> backend_arg \<and> n \<noteq> request_arg) kwargs
            @ (if has_backend then [(backend_arg, b)] else []) @ (if has_request then [(request_arg, r)] else []))
      | _ \<Rightarrow> Inl (TypeError ''missing required keyword-only argument''))"

text \<open>
  The call of a fixture: what runs, where, and with which arguments. The wrapper asks \<open>get_runner\<close> for a
  runner of the backend it is given, which makes one only if there is none: a runner that other
  fixtures have leased is used whatever its backend and options are. The wrapper keeps its lease until
  the fixture is torn down. It runs an asynchronous generator in another way than a coroutine; \<open>param\<close>
  reads the value of \<open>anyio_backend\<close>, and \<open>found\<close> and \<open>entered\<close> say what importing a backend and entering a
  new runner give.
\<close>

datatype 'o fixture_runner = Leased string | Made string 'o

datatype 'o fixture_run =
    RunByPytest pyfunc
  | RunFixture "'o fixture_runner" pyfunc
  | RunAsyncgenFixture "'o fixture_runner" pyfunc

definition lease_runner ::
  "(string \<Rightarrow> unit res) \<Rightarrow> (string \<Rightarrow> 'o \<Rightarrow> unit res) \<Rightarrow> string \<Rightarrow> 'o \<Rightarrow> plugin \<Rightarrow> plugin \<times> 'o fixture_runner res"
where
  "lease_runner found entered name opts p =
     (case get_runner name (found name) (entered name opts) p of
        (p', Inl e) \<Rightarrow> (p', Inl e)
      | (p', Inr _) \<Rightarrow>
          (p', Inr (if pg_runner p = None then Made (the (pg_runner p')) opts else Leased (the (pg_runner p')))))"

definition fixture_call ::
  "(string \<Rightarrow> unit res) \<Rightarrow> (string \<Rightarrow> 'o \<Rightarrow> unit res) \<Rightarrow> 'o \<Rightarrow> ('v \<Rightarrow> 'o backend_param) \<Rightarrow> bool \<Rightarrow> (string \<Rightarrow> 'v)
     \<Rightarrow> (nat \<times> nat) option \<Rightarrow> fixturedef \<Rightarrow> plugin \<Rightarrow> plugin \<times> ('o fixture_run \<times> (string \<rightharpoonup> 'v)) res"
where
  "fixture_call found entered no_options param gen val inst fd p =
     (let kwargs = fixture_kwargs val (fd_argnames fd) in
      case fd_func fd of
        FixtureFunc f \<Rightarrow> (p, Inr (RunByPytest f, map_of kwargs))
      | FixtureWrapper f b r \<Rightarrow>
          (case wrapper_kwargs b r kwargs of
             Inl e \<Rightarrow> (p, Inl e)
           | Inr ks \<Rightarrow>
               (case extract_backend_and_options no_options (param (val backend_arg)) of
                  Inl e \<Rightarrow> (p, Inl e)
                | Inr (name, opts) \<Rightarrow>
                    let f' = local_func inst f
                    in (case lease_runner found entered name opts p of
                          (p', Inl e) \<Rightarrow> (p', Inl e)
                        | (p', Inr runner) \<Rightarrow>
                            (p', Inr (if gen then RunAsyncgenFixture runner f' else RunFixture runner f', map_of ks))))))"

definition pytest_fixture_setup ::
  "(string \<Rightarrow> unit res) \<Rightarrow> (string \<Rightarrow> 'o \<Rightarrow> unit res) \<Rightarrow> 'o \<Rightarrow> ('v \<Rightarrow> 'o backend_param) \<Rightarrow> bool \<Rightarrow> bool \<Rightarrow> string list
     \<Rightarrow> (string \<Rightarrow> 'v) \<Rightarrow> (nat \<times> nat) option \<Rightarrow> pyfunc \<Rightarrow> fixturedef \<Rightarrow> plugin
     \<Rightarrow> fixturedef \<times> plugin \<times> ('o fixture_run \<times> (string \<rightharpoonup> 'v)) res"
where
  "pytest_fixture_setup found entered no_options param gen coro fixturenames val inst func fd p =
     (case fixture_setup_begin (gen \<or> coro) fixturenames func fd of
        (fd1, changed) \<Rightarrow>
          (fixture_setup_end func (fd_argnames fd) changed fd1,
           fixture_call found entered no_options param gen val inst fd1 p))"



lemma two_args [simp]: "backend_arg \<noteq> request_arg" "request_arg \<noteq> backend_arg"
  by (simp_all add: backend_arg_def request_arg_def)








text \<open>A fixture for one backend that is set up while a runner of another is leased runs in that one.\<close>

lemma fixture_in_other_backend:
  "snd (snd (pytest_fixture_setup (\<lambda>_. Inr ()) (\<lambda>_ _. Inr ()) () (\<lambda>_. BpName ''trio'') False True [backend_arg] (\<lambda>_. 0 :: nat) None
      (PlainFunction 7) \<lparr>fd_func = FixtureFunc (PlainFunction 7), fd_argnames = []\<rparr>
      \<lparr>pg_runner = Some ''asyncio'', pg_leases = 1, pg_resets = True, pg_cvar = Some ''asyncio''\<rparr>)) =
   Inr (RunFixture (Leased ''asyncio'') (PlainFunction 7), \<lambda>_. None)"
  by (simp add: pytest_fixture_setup_def fixture_setup_begin_def fixture_call_def fixture_kwargs_def wrapper_kwargs_def
      extract_backend_and_options_def lease_runner_def get_runner_def local_func_def Let_def fun_eq_iff)

section \<open>Collecting and calling tests\<close>

text \<open>
  \<open>pytest_pycollect_makeitem\<close>: whether a function gets the fixture \<open>anyio_backend\<close>. For a test of
  hypothesis the function inside of it counts; \<open>closest\<close> is the mark on the class or module.
\<close>

definition pytest_pycollect_makeitem :: "bool \<Rightarrow> bool \<Rightarrow> bool option \<Rightarrow> bool \<Rightarrow> string list \<Rightarrow> bool" where
  "pytest_pycollect_makeitem istest obj_async inner_async closest own_markers \<longleftrightarrow>
     istest \<and> (case inner_async of Some a \<Rightarrow> a | None \<Rightarrow> obj_async) \<and> (closest \<or> ''anyio'' \<in> set own_markers)"

text \<open>
  What \<open>obj.hypothesis.inner_test\<close> may be: the function of the test, with whether it is a coroutine
  function, or \<open>run_with_hypothesis\<close> with what it has closed over. All items made from one function by
  parameters share the handle.
\<close>

datatype 'o inner_test = InnerTest nat bool | RunWithHypothesis nat string 'o

definition wrap_inner :: "string \<Rightarrow> 'o \<Rightarrow> 'o inner_test \<Rightarrow> 'o inner_test" where
  "wrap_inner backend_name backend_options original =
     (case original of
        InnerTest f is_async \<Rightarrow> if is_async then RunWithHypothesis f backend_name backend_options else original
      | RunWithHypothesis _ _ _ \<Rightarrow> original)"

text \<open>What hypothesis runs for an example: the function, and the backend asked for if there is one.\<close>

definition run_inner :: "'o inner_test \<Rightarrow> nat \<times> (string \<times> 'o) option" where
  "run_inner inner =
     (case inner of InnerTest f _ \<Rightarrow> (f, None) | RunWithHypothesis f name opts \<Rightarrow> (f, Some (name, opts)))"

text \<open>A backend counts as true unless it is the empty string.\<close>

definition backend_true :: "'o backend_param \<Rightarrow> bool" where
  "backend_true b \<longleftrightarrow> b \<noteq> BpName ''''"

fun test_args :: "(string \<rightharpoonup> 'v) \<Rightarrow> string list \<Rightarrow> (string \<times> 'v) list res" where
  "test_args funcargs [] = Inr []"
| "test_args funcargs (n # ns) =
     (case funcargs n of
        None \<Rightarrow> Inl KeyError
      | Some v \<Rightarrow> map_res (\<lambda>r. (n, v) # r) (test_args funcargs ns))"

text \<open>
  \<open>pytest_pyfunc_call\<close>: the handle of hypothesis afterwards, and \<open>None\<close> if the call is left to pytest,
  or the backend and the arguments with which the test is run in the runner.
\<close>

definition pytest_pyfunc_call ::
  "'o \<Rightarrow> 'o backend_param option \<Rightarrow> (string \<rightharpoonup> 'v) \<Rightarrow> string list \<Rightarrow> bool \<Rightarrow> 'o inner_test option
     \<Rightarrow> 'o inner_test option \<times> (string \<times> 'o \<times> (string \<times> 'v) list) option res"
where
  "pytest_pyfunc_call no_options backend funcargs argnames is_async hypothesis =
     (case backend of
        None \<Rightarrow> (hypothesis, Inr None)
      | Some b \<Rightarrow>
          if \<not> backend_true b then (hypothesis, Inr None)
          else
            (case extract_backend_and_options no_options b of
               Inl e \<Rightarrow> (hypothesis, Inl e)
             | Inr (name, opts) \<Rightarrow>
                 (case hypothesis of
                    Some inner \<Rightarrow> (Some (wrap_inner name opts inner), Inr None)
                  | None \<Rightarrow>
                      if is_async then
                        (None, map_res (\<lambda>args. Some (name, opts, args)) (test_args funcargs argnames))
                      else (None, Inr None))))"

lemma test_args_map:
  "(\<And>n. n \<in> set names \<Longrightarrow> funcargs n = Some (val n)) \<Longrightarrow> test_args funcargs names = Inr (map (\<lambda>n. (n, val n)) names)"
  by (induction names) (auto simp: map_res_def)

text \<open>
  A test is called with its own function and arguments, whatever runs it. A coroutine function runs
  in the runner that \<open>get_runner\<close> gives for the backend it is parametrized with, with exactly the arguments it has declared, and a
  plain function is left to pytest; with hypothesis, the call is left to pytest as well, and after any
  number of calls for any backends the function inside is still the function of the test.
\<close>

theorem test_called_as_declared:
  assumes "extract_backend_and_options no_options b = Inr (name, opts)" "name \<noteq> ''''"
    and "\<And>n. n \<in> set argnames \<Longrightarrow> funcargs n = Some (val n)"
  shows "pytest_pyfunc_call no_options (Some b) funcargs argnames is_async None =
           (None, Inr (if is_async then Some (name, opts, map (\<lambda>n. (n, val n)) argnames) else None))"
    and "fst (run_inner (foldl (\<lambda>h b'. the (fst (pytest_pyfunc_call no_options b' funcargs argnames False (Some h)))) inner bs)) =
           fst (run_inner inner)"
proof -
  have "backend_true b"
    using assms(1,2) by (auto simp: backend_true_def extract_backend_and_options_def)
  then show "pytest_pyfunc_call no_options (Some b) funcargs argnames is_async None =
      (None, Inr (if is_async then Some (name, opts, map (\<lambda>n. (n, val n)) argnames) else None))"
    using assms test_args_map [of argnames funcargs val] by (simp add: pytest_pyfunc_call_def map_res_def)
  have step: "fst (run_inner (the (fst (pytest_pyfunc_call no_options b' funcargs argnames False (Some h))))) = fst (run_inner h)"
    for b' h
    by (auto simp: pytest_pyfunc_call_def wrap_inner_def run_inner_def split: option.split sum.split inner_test.split)
  show "fst (run_inner (foldl (\<lambda>h b'. the (fst (pytest_pyfunc_call no_options b' funcargs argnames False (Some h)))) inner bs)) =
      fst (run_inner inner)"
    by (induction bs arbitrary: inner) (simp_all add: step)
qed

lemma test_called_as_declared_witness:
  "pytest_pyfunc_call () (Some (BpPair ''trio'' ())) [''x'' \<mapsto> (5 :: nat)] [''x''] True None =
     (None, Inr (Some (''trio'', (), [(''x'', 5)])))"
  using test_called_as_declared(1) [of "()" "BpPair ''trio'' ()" "''trio''" "()" "[''x'']" "[''x'' \<mapsto> (5 :: nat)]" "\<lambda>_. 5" True]
  by (simp add: extract_backend_and_options_def)

text \<open>
  The function inside a test of hypothesis is wrapped once, with the backend of the first item; the
  items for other backends do not wrap it again, and so run it with that backend too.
\<close>

lemma hypothesis_first_backend:
  "let h1 = fst (pytest_pyfunc_call no_options (Some (BpName ''asyncio'')) fa ns a (Some (InnerTest f True)));
       h2 = fst (pytest_pyfunc_call no_options (Some (BpName ''trio'')) fa ns a h1)
   in map_option run_inner h2 = Some (f, Some (''asyncio'', no_options))"
  by (simp add: pytest_pyfunc_call_def backend_true_def extract_backend_and_options_def wrap_inner_def run_inner_def)

text \<open>The fixtures for the name and the options of the backend, of a name or a pair.\<close>

definition anyio_backend_name :: "'o backend_param \<Rightarrow> string option" where
  "anyio_backend_name b = (case b of BpName n \<Rightarrow> Some n | BpPair n _ \<Rightarrow> Some n | BpOther \<Rightarrow> None)"

definition anyio_backend_options :: "'o \<Rightarrow> 'o backend_param \<Rightarrow> 'o option" where
  "anyio_backend_options no_options b =
     (case b of BpName _ \<Rightarrow> Some no_options | BpPair _ opts \<Rightarrow> Some opts | BpOther \<Rightarrow> None)"

lemma backend_fixtures_agree:
  "extract_backend_and_options no_options b = Inr (name, opts) \<longleftrightarrow>
     anyio_backend_name b = Some name \<and> anyio_backend_options no_options b = Some opts"
  by (cases b) (auto simp: extract_backend_and_options_def anyio_backend_name_def anyio_backend_options_def)

end
