(* ===== verification/StreamStack.thy ===== *)
theory StreamStack
  imports TlsStream SocketStreams TextStreams
begin

text \<open>
  Streams on top of each other: a text stream or a buffered stream (\<open>src/anyio/streams/text.py\<close>,
  \<open>buffered.py\<close>) over a TLS stream (\<open>tls.py\<close>) over a TCP stream of the asyncio backend. A TLS stream
  over a source of bytes is a source of bytes again, the plaintext.
\<close>

section \<open>TLS as a source of bytes\<close>

text \<open>The state is that of the TLS stream and of its transport; two operations per byte are enough.\<close>

definition tls_source ::
  "('s \<Rightarrow> bytes) \<Rightarrow> (nat \<Rightarrow> ('o, bytes) ssl_method) \<Rightarrow> (nat \<Rightarrow> 's \<Rightarrow> 's \<times> bytes res) \<Rightarrow> nat \<Rightarrow> 'o tls \<times> 's
     \<Rightarrow> ('o tls \<times> 's) \<times> bytes res"
where
  "tls_source rest ssl_read recv n = (\<lambda>(t, s).
     case tls_receive_run (2 * length (rest s) + 3) ssl_read recv n t s of
       Some (t', s', out, r) \<Rightarrow> ((t', s'), r)
     | None \<Rightarrow> ((t, s), Inl (RuntimeError [])))"

text \<open>The connection ends properly: the closing alert is among the bytes still to come.\<close>

definition tls_stack_ok ::
  "('o \<Rightarrow> bytes \<Rightarrow> bool) \<Rightarrow> ('s \<Rightarrow> bool) \<Rightarrow> ('s \<Rightarrow> bytes) \<Rightarrow> 'o tls \<times> 's \<Rightarrow> bool"
where
  "tls_stack_ok alert ok rest = (\<lambda>(t, s). tls_source_ok ok rest t s \<and> tls_plain alert rest t s)"

definition tls_stack_rest :: "('o \<Rightarrow> bytes \<Rightarrow> bytes) \<Rightarrow> ('s \<Rightarrow> bytes) \<Rightarrow> 'o tls \<times> 's \<Rightarrow> bytes" where
  "tls_stack_rest plain rest = (\<lambda>(t, s). tls_plain plain rest t s)"

lemma tls_source_step:
  assumes "byte_source ok rest recv" "ssl_reads plain alert ssl_read" "0 < n" "tls_stack_ok alert ok rest x"
  obtains p r where "tls_source rest ssl_read recv n x = (p, r)" "tls_stack_ok alert ok rest p"
    "if r = Inl EndOfStream then tls_stack_rest plain rest x = [] \<and> tls_stack_rest plain rest p = []
     else \<exists>d. r = Inr d \<and> d \<noteq> [] \<and> length d \<le> n \<and> tls_stack_rest plain rest x = d @ tls_stack_rest plain rest p"
proof -
  obtain t s where x: "x = (t, s)" by (cases x)
  have ok: "tls_source_ok ok rest t s" and alert: "tls_plain alert rest t s"
    using assms(4) by (simp_all add: tls_stack_ok_def x)
  have "2 * tls_left rest t s < 2 * length (rest s) + 3" by (simp add: tls_left_def)
  from tls_drive_reads [where out = "[]", OF assms(1-3) ok this] obtain t' s' out r where
    run: "tls_drive (2 * length (rest s) + 3) (ssl_read n) recv s [] (tls_call (ssl_read n) t) = Some (t', s', out, r)"
    and ok': "tls_source_ok ok rest t' s'" and post:
    "case r of
       Inr d \<Rightarrow> length d \<le> n \<and> tls_plain plain rest t s = d @ tls_plain plain rest t' s' \<and>
         tls_plain alert rest t s = tls_plain alert rest t' s' \<and>
         (d = [] \<longrightarrow> tls_plain plain rest t s = [] \<and> tls_plain alert rest t s)
     | Inl e \<Rightarrow> tls_plain plain rest t s = [] \<and> \<not> tls_plain alert rest t s \<and>
         e = (if tls_std t then BrokenResourceError else EndOfStream)"
    unfolding read_post_def by blast
  from post alert obtain d where d: "r = Inr d" "length d \<le> n" "tls_plain plain rest t s = d @ tls_plain plain rest t' s'"
      "tls_plain alert rest t' s'" "d = [] \<longrightarrow> tls_plain plain rest t s = []"
    by (cases r) auto
  have "tls_source rest ssl_read recv n x = ((t', s'), tls_received d)"
    by (simp add: tls_source_def x tls_receive_run_def run d(1))
  then show thesis
    using ok' d(2-5) by (intro that) (auto simp: tls_stack_ok_def tls_stack_rest_def x tls_received_def split: if_splits)
qed

text \<open>So whatever is proved over a source of bytes holds over TLS.\<close>

lemma tls_is_source:
  assumes "byte_source ok rest recv" "ssl_reads plain alert ssl_read"
  shows "byte_source (tls_stack_ok alert ok rest) (tls_stack_rest plain rest) (tls_source rest ssl_read recv)"
proof
  fix x and n :: nat
  assume x: "tls_stack_ok alert ok rest x" "0 < n"
  from tls_source_step [OF assms x(2,1)] obtain p r where p: "tls_source rest ssl_read recv n x = (p, r)"
    "tls_stack_ok alert ok rest p"
    "if r = Inl EndOfStream then tls_stack_rest plain rest x = [] \<and> tls_stack_rest plain rest p = []
     else \<exists>d. r = Inr d \<and> d \<noteq> [] \<and> length d \<le> n \<and> tls_stack_rest plain rest x = d @ tls_stack_rest plain rest p" .
  then show "tls_stack_rest plain rest x \<noteq> [] \<Longrightarrow> \<exists>x' c. tls_source rest ssl_read recv n x = (x', Inr c) \<and>
      tls_stack_ok alert ok rest x' \<and> c \<noteq> [] \<and> length c \<le> n \<and> tls_stack_rest plain rest x = c @ tls_stack_rest plain rest x'"
    "tls_stack_rest plain rest x = [] \<Longrightarrow> \<exists>x'. tls_source rest ssl_read recv n x = (x', Inl EndOfStream) \<and>
      tls_stack_ok alert ok rest x' \<and> tls_stack_rest plain rest x' = []"
    by (auto split: if_splits)
qed

section \<open>Text over a source of bytes\<close>

text \<open>
  \<open>receive\<close> of a text stream again and again until it raises: the strings and the exception; \<open>k\<close> bounds
  the number of receives of the transport.
\<close>

fun text_read ::
  "nat \<Rightarrow> ('d \<Rightarrow> bytes \<Rightarrow> 'd \<times> ustr res) \<Rightarrow> (nat \<Rightarrow> 's \<Rightarrow> 's \<times> bytes res) \<Rightarrow> 'd \<Rightarrow> 's \<Rightarrow> (ustr list \<times> exn) option"
where
  "text_read 0 decode recv d s = None"
| "text_read (Suc k) decode recv d s =
     (case recv 65536 s of
        (s', r) \<Rightarrow>
          (case text_receive_resume decode (answer r) d of
             (d', Done str) \<Rightarrow> map_option (\<lambda>(strs, e). (str # strs, e)) (text_read k decode recv d' s')
           | (d', Suspended _) \<Rightarrow> text_read k decode recv d' s'
           | (d', Raised e) \<Rightarrow> Some ([], e)))"

text \<open>What is read is what the decoder makes of some division of the bytes into chunks.\<close>

lemma text_read_source:
  assumes "byte_source ok rest recv" "ok s" "length (rest s) < k"
  shows "\<exists>cs. concat cs = rest s \<and> text_read k decode recv d s =
    (case text_run decode cs d of (strs, d', r) \<Rightarrow> Some (strs, case r of None \<Rightarrow> EndOfStream | Some e \<Rightarrow> e))"
  using assms(2,3)
proof (induction k arbitrary: d s)
  case 0
  then show ?case by simp
next
  case (Suc k)
  show ?case
  proof (cases "rest s = []")
    case True
    with byte_source.recv_end [OF assms(1) Suc.prems(1), of 65536] obtain s' where "recv 65536 s = (s', Inl EndOfStream)"
      by auto
    then show ?thesis using True
      by (intro exI [of _ "[]"]) (simp add: text_receive_resume_def answer_def)
  next
    case False
    with byte_source.recv_some [OF assms(1) Suc.prems(1), of 65536] obtain s' c where
      r: "recv 65536 s = (s', Inr c)" "ok s'" "c \<noteq> []" "rest s = c @ rest s'" by auto
    then have "length (rest s') < k" using Suc.prems(2) by (cases c) auto
    note ih = Suc.IH [OF r(2) this]
    obtain d' x where step: "text_receive_resume decode (Resumed c) d = (d', x)" by (cases "text_receive_resume decode (Resumed c) d")
    from ih [of d'] obtain cs where cs: "concat cs = rest s'" "text_read k decode recv d' s' =
        (case text_run decode cs d' of (strs, d', r) \<Rightarrow> Some (strs, case r of None \<Rightarrow> EndOfStream | Some e \<Rightarrow> e))" by blast
    show ?thesis
      by (rule exI [of _ "c # cs"]) (cases x; simp add: r cs answer_def step split: prod.split)
  qed
qed

lemma u8_encode_concat:
  "list_all2 (\<lambda>s b. text_send u8_encode s = Suspended b) sent items \<Longrightarrow> u8_encode (concat sent) = Inr (concat items)"
  by (induction rule: list_all2_induct) (auto simp: text_send_def u8_encode_def split: sum.splits if_splits)

section \<open>Text and buffers over TLS over TCP\<close>

text \<open>A TCP stream whose network delivers the chunks, and what the layers above it read.\<close>

definition tcp_with :: "bytes list \<Rightarrow> sstream \<times> bytes list" where
  "tcp_with chunks = (sstream_new a_transport connection_made, chunks)"

lemma tcp_with_source:
  "[] \<notin> set chunks \<Longrightarrow> sock_ok (tcp_with chunks) \<and> sock_rest (tcp_with chunks) = concat chunks"
  by (simp add: tcp_with_def sock_ok_def sock_rest_def sstream_new_def connection_made_def guard_new_def aevent_new_def)

lemma tls_over_tcp_ok:
  assumes "[] \<notin> set chunks" "\<not> tls_in_eof t" "alert (tls_obj t) (tls_in t @ concat chunks)"
  shows "tls_stack_ok alert sock_ok sock_rest (t, tcp_with chunks) \<and>
    tls_stack_rest plain sock_rest (t, tcp_with chunks) = plain (tls_obj t) (tls_in t @ concat chunks)"
  using assms tcp_with_source [OF assms(1)]
  by (simp add: tls_stack_ok_def tls_stack_rest_def tls_source_ok_def tls_plain_def)

text \<open>
  C38: texts that are sent over TLS over TCP arrive: if the peer has encoded texts with \<open>TextSendStream\<close>
  and sent them over a TLS connection that it has closed, then a \<open>TextReceiveStream\<close> over a
  \<open>TLSStream\<close> over a TCP stream gives exactly the characters of these texts, in order, in non-empty strings, and then
  \<open>EndOfStream\<close>, after at most as many receives as there are bytes, plus one; whatever pieces the
  network makes of the connection, inside TLS records and inside characters.
\<close>

theorem text_over_tls_over_tcp:
  assumes "list_all2 (\<lambda>s b. text_send u8_encode s = Suspended b) sent items"
    and "ssl_reads plain alert ssl_read" "[] \<notin> set chunks" "\<not> tls_in_eof t"
    and "plain (tls_obj t) (tls_in t @ concat chunks) = concat items" "alert (tls_obj t) (tls_in t @ concat chunks)"
  shows "\<exists>strs. text_read (Suc (length (concat items))) u8_incremental
      (tls_source sock_rest ssl_read sock_source) [] (t, tcp_with chunks) = Some (strs, EndOfStream) \<and>
    concat strs = concat sent \<and> [] \<notin> set strs"
proof -
  note ok = tls_over_tcp_ok [where alert = alert and plain = plain, OF assms(3,4,6)]
  have bytes: "tls_stack_rest plain sock_rest (t, tcp_with chunks) = concat items" using ok assms(5) by simp
  from text_read_source [OF tls_is_source [OF sock.byte_source_axioms assms(2)] conjunct1 [OF ok],
      of "Suc (length (concat items))" u8_incremental "[]"]
  obtain cs where cs: "concat cs = concat items"
    and run: "text_read (Suc (length (concat items))) u8_incremental (tls_source sock_rest ssl_read sock_source) []
        (t, tcp_with chunks) =
      (case text_run u8_incremental cs [] of (strs, d', r) \<Rightarrow> Some (strs, case r of None \<Rightarrow> EndOfStream | Some e \<Rightarrow> e))"
    unfolding bytes by auto
  note enc = u8_encode_concat [OF assms(1)]
  then have "list_all u8_scalar (concat sent)" by (simp add: u8_encode_def split: if_splits)
  from utf8.text_roundtrip [OF this enc cs] run show ?thesis by auto
qed

text \<open>The clear protocol of \<open>TlsStream\<close>: a euro sign in two chunks, and the alert.\<close>

lemma text_over_tls_over_tcp_witness:
  "\<exists>strs. text_read (Suc (length (concat [[0xE2, 0x82, 0xAC :: byte]]))) u8_incremental (tls_source sock_rest clear_read sock_source) []
      (tls_new () True, tcp_with [[0xE2], [0x82, 0xAC, 0]]) = Some (strs, EndOfStream) \<and>
    concat strs = concat [[0x20AC]] \<and> [] \<notin> set strs"
  by (rule text_over_tls_over_tcp [OF _ clear_reads])
    (simp_all add: tls_new_def text_send_def u8_encode_def u8_scalar_def u8_encode_char_def u8_byte_def)

text \<open>
  C14: the exact and the delimited receive of a buffered stream work over TLS over TCP as they do over
  any stream: over a connection that the peer has closed, \<open>receive_exactly(n)\<close> returns the first \<open>n\<close>
  bytes of the plaintext, or raises \<open>IncompleteRead\<close> if there are fewer. \<open>receive_until\<close> returns what is
  in front of the first delimiter of the plaintext, and what follows it is still to come; it raises
  \<open>DelimiterNotFound\<close> only if the buffer holds \<open>max_bytes\<close> bytes and no delimiter, and \<open>IncompleteRead\<close>
  only if the whole plaintext is shorter than \<open>max_bytes\<close> and holds none; then nothing is consumed.
\<close>

theorem buffered_over_tls_over_tcp:
  assumes "ssl_reads plain alert ssl_read" "[] \<notin> set chunks" "\<not> tls_in_eof t"
    and "plain (tls_obj t) (tls_in t @ concat chunks) = msg" "alert (tls_obj t) (tls_in t @ concat chunks)"
  shows "(\<exists>st' x. buf_run (ask (tls_source sock_rest ssl_read sock_source)) (Suc (length msg))
        (receive_exactly_step (int n) (bstate_new True)) (t, tcp_with chunks) =
        Some (st', x, if n \<le> length msg then Inr (take n msg) else Inl IncompleteRead)) \<and>
    (\<exists>st' x r. buf_run (ask (tls_source sock_rest ssl_read sock_source)) (Suc (length msg))
        (receive_until_start d m (bstate_new True)) (t, tcp_with chunks) = Some (st', x, r) \<and>
       (case r of
          Inr v \<Rightarrow> py_find msg d 0 = Some (length v) \<and> msg = v @ d @ bs_buffer st' @ tls_stack_rest plain sock_rest x
        | Inl e \<Rightarrow> bs_buffer st' @ tls_stack_rest plain sock_rest x = msg \<and>
            (e = DelimiterNotFound m \<and> m \<le> int (length (bs_buffer st')) \<and> no_hit d (bs_buffer st') \<or>
             e = IncompleteRead \<and> int (length msg) < m \<and> no_hit d msg)))"
proof -
  note ok = tls_over_tcp_ok [where alert = alert and plain = plain, OF assms(2,3,5)]
  note src = tls_is_source [OF sock.byte_source_axioms assms(1)]
  have bytes: "tls_stack_rest plain sock_rest (t, tcp_with chunks) = msg" using ok assms(4) by simp
  have less: "length (tls_stack_rest plain sock_rest (t, tcp_with chunks)) < Suc (length msg)" by (simp add: bytes)
  have new: "bs_buffer (bstate_new True :: byte bstate) = []" by (simp add: bstate_new_def)
  from byte_source.exactly_run [OF src conjunct1 [OF ok] less, of n "bstate_new True"]
  have "\<exists>st' x. buf_run (ask (tls_source sock_rest ssl_read sock_source)) (Suc (length msg))
        (receive_exactly_step (int n) (bstate_new True)) (t, tcp_with chunks) =
        Some (st', x, if n \<le> length msg then Inr (take n msg) else Inl IncompleteRead)"
    unfolding bytes by (force simp: new)
  moreover from byte_source.until_run [OF src conjunct1 [OF ok] less, of "bstate_new True" d 0 m]
  obtain st' x r where "buf_run (ask (tls_source sock_rest ssl_read sock_source)) (Suc (length msg))
        (receive_until_start d m (bstate_new True)) (t, tcp_with chunks) = Some (st', x, r)"
      "byte_source.until_post d m msg st' r (bs_buffer st' @ tls_stack_rest plain sock_rest x)"
    unfolding bytes receive_until_start_def new append_Nil by blast
  ultimately show ?thesis
    unfolding byte_source.until_post_def [OF src] append_assoc by blast
qed

lemma buffered_over_tls_over_tcp_witness:
  "\<exists>st' x. buf_run (ask (tls_source sock_rest clear_read sock_source)) (Suc (length [1, 2, 3 :: byte]))
      (receive_exactly_step (int 2) (bstate_new True)) (tls_new () True, tcp_with [[1], [2, 3, 0]]) =
    Some (st', x, if 2 \<le> length [1, 2, 3 :: byte] then Inr (take 2 [1, 2, 3]) else Inl IncompleteRead)"
  by (rule conjunct1 [OF buffered_over_tls_over_tcp [OF clear_reads]]) (simp_all add: tls_new_def)

end
